(* ===== verification/Prelude.thy ===== *)
theory Prelude
  imports Main "HOL-Library.Word" "HOL-Library.Monad_Syntax" "HOL-Library.Sublist"
begin

text \<open>
  Shared vocabulary of the development: the machine types of the C++ sources (\<open>uint8_t\<close>,
  \<open>size_t\<close> with its wrap-around), the reading of \<open>assert\<close> and of abnormal control flow, and
  the generic lemmas on lists, options and words that the component theories use.

  Abnormal control flow. The build (\<open>SConstruct\<close>) does not define \<open>NDEBUG\<close>, so a failed
  \<open>assert\<close> ends the program. An operation that can fail an assertion, touch a vector outside
  its bounds or let a standard library exception escape returns an \<open>option\<close>: \<open>None\<close> stands for
  leaving the code in one of these ways (or, for a loop, for never leaving it) and
  \<open>Some r\<close> for a normal return with \<open>r\<close>. The library's own error values (class \<open>Error\<close>) are
  ordinary results inside \<open>Some\<close>. The \<open>do\<close> notation is the one of the option monad.
\<close>

section \<open>Fact collections\<close>

named_theorems size_simps \<open>exactness of size_t arithmetic below the wrap-around\<close>

section \<open>Machine types\<close>

type_synonym byte = "8 word"

text \<open>
  \<open>size_t\<close> is a 64-bit unsigned integer. It is represented by a natural number below
  \<open>2 ^ 64\<close>; additions and subtractions write the wrap-around out.
\<close>

type_synonym size_t = nat

definition SIZE_MOD :: nat where
  "SIZE_MOD = 2 ^ 64"

text \<open>A \<open>std::vector\<close> of bytes never has more than \<open>PTRDIFF_MAX\<close> elements.\<close>

definition PTRDIFF_MAX :: nat where
  "PTRDIFF_MAX = 2 ^ 63 - 1"

definition sz_add :: "size_t \<Rightarrow> size_t \<Rightarrow> size_t" where
  "sz_add a b = (a + b) mod SIZE_MOD"

definition sz_sub :: "size_t \<Rightarrow> size_t \<Rightarrow> size_t" where
  "sz_sub a b = (a + (SIZE_MOD - b mod SIZE_MOD)) mod SIZE_MOD"

text \<open>The C macro \<open>assert\<close>.\<close>

definition assert_that :: "bool \<Rightarrow> unit option" where
  "assert_that P = (if P then Some () else None)"

text \<open>The list \<open>ys\<close> with the elements from index \<open>i\<close> on replaced by \<open>xs\<close>.\<close>

definition overwrite :: "nat \<Rightarrow> 'a list \<Rightarrow> 'a list \<Rightarrow> 'a list" where
  "overwrite i xs ys = take i ys @ xs @ drop (i + length xs) ys"

section \<open>Arithmetic\<close>

lemma SIZE_MOD_pos [simp]: "0 < SIZE_MOD"
  by (simp add: SIZE_MOD_def)

lemma PTRDIFF_MAX_double: "2 * PTRDIFF_MAX < SIZE_MOD"
  by (simp add: PTRDIFF_MAX_def SIZE_MOD_def)

lemma PTRDIFF_MAX_less: "n \<le> PTRDIFF_MAX \<Longrightarrow> n < SIZE_MOD"
  using PTRDIFF_MAX_double by linarith

lemma PTRDIFF_MAX_add: "m \<le> PTRDIFF_MAX \<Longrightarrow> n \<le> PTRDIFF_MAX \<Longrightarrow> m + n < SIZE_MOD"
  using PTRDIFF_MAX_double by linarith

lemma sz_add_exact [size_simps]: "a + b < SIZE_MOD \<Longrightarrow> sz_add a b = a + b"
  by (simp add: sz_add_def)

lemma sz_add_bound [simp]: "sz_add a b < SIZE_MOD"
  by (simp add: sz_add_def)

lemma sz_sub_exact [size_simps]:
  assumes "b \<le> a" and "a < SIZE_MOD"
  shows "sz_sub a b = a - b"
proof -
  from assms have "a + (SIZE_MOD - b mod SIZE_MOD) = (a - b) + SIZE_MOD"
    by simp
  then have "sz_sub a b = (a - b) mod SIZE_MOD"
    by (simp only: sz_sub_def mod_add_self2)
  with assms show ?thesis by simp
qed

lemma sz_sub_wraps: "a < b \<Longrightarrow> b < SIZE_MOD \<Longrightarrow> sz_sub a b = SIZE_MOD - (b - a)"
  by (simp add: sz_sub_def)

lemma sz_sub_bound [simp]: "sz_sub a b < SIZE_MOD"
  by (simp add: sz_sub_def)

section \<open>Options\<close>

lemma assert_that_True [simp]: "P \<Longrightarrow> assert_that P = Some ()"
  by (simp add: assert_that_def)

lemma assert_that_False [simp]: "\<not> P \<Longrightarrow> assert_that P = None"
  by (simp add: assert_that_def)

lemma assert_that_eq_Some [simp]: "assert_that P = Some u \<longleftrightarrow> P"
  by (simp add: assert_that_def)

lemma bind_eq_SomeE:
  assumes "Option.bind m f = Some r"
  obtains x where "m = Some x" and "f x = Some r"
  using assms by (cases m) auto

section \<open>Lists\<close>

lemma list_update_append_right:
  "(xs @ ys)[length xs + i := v] = xs @ ys[i := v]"
  by (simp add: list_update_append)

lemma drop_update_above: "n \<le> i \<Longrightarrow> drop n (xs[i := v]) = (drop n xs)[i - n := v]"
  by (simp add: drop_update_swap)

lemma take_update_above: "n \<le> i \<Longrightarrow> take n (xs[i := v]) = take n xs"
  by simp

lemma overwrite_Nil [simp]: "overwrite i [] ys = ys"
  by (simp add: overwrite_def)

lemma overwrite_Cons:
  assumes "i < length ys"
  shows "overwrite i (x # xs) ys = overwrite (Suc i) xs (ys[i := x])"
  using assms by (simp add: overwrite_def take_Suc_conv_app_nth)

lemma length_overwrite [simp]:
  "i + length xs \<le> length ys \<Longrightarrow> length (overwrite i xs ys) = length ys"
  by (simp add: overwrite_def)

lemma overwrite_0_split [simp]:
  "length xs \<le> length ys \<Longrightarrow> take (length xs) (overwrite 0 xs ys) = xs"
  "length xs \<le> length ys \<Longrightarrow> drop (length xs) (overwrite 0 xs ys) = drop (length xs) ys"
  by (simp_all add: overwrite_def)

lemma take_drop_add: "take m (drop i xs) @ take k (drop (i + m) xs) = take (m + k) (drop i xs)"
  by (simp only: take_add drop_drop add.commute [of m i])

lemma overwrite_append:
  assumes "i + length xs + length ys \<le> length zs"
  shows "overwrite (i + length xs) ys (overwrite i xs zs) = overwrite i (xs @ ys) zs"
proof -
  have "take (i + length xs) (overwrite i xs zs) = take i zs @ xs"
    using assms by (simp add: overwrite_def)
  moreover have "drop (i + length xs + length ys) (overwrite i xs zs) = drop (i + length (xs @ ys)) zs"
    using assms by (simp add: overwrite_def ac_simps)
  ultimately show ?thesis
    by (simp add: overwrite_def [of "i + length xs"] overwrite_def [of i "xs @ ys"])
qed

lemma rotate_add_eq:
  assumes "n \<le> length xs"
  shows "rotate (k + n) xs = drop n (rotate k xs) @ take n (rotate k xs)"
proof (cases "n = length xs")
  case True
  have "rotate (k + length xs) xs = rotate (length xs) (rotate k xs)"
    by (simp add: rotate_rotate add.commute)
  also have "\<dots> = rotate k xs"
    by (simp add: rotate_drop_take [of "length xs" "rotate k xs"])
  finally show ?thesis
    using True by simp
next
  case False
  with assms have "n < length xs" by simp
  have "rotate (k + n) xs = rotate n (rotate k xs)"
    by (simp add: rotate_rotate add.commute)
  also have "\<dots> = drop (n mod length (rotate k xs)) (rotate k xs)
                 @ take (n mod length (rotate k xs)) (rotate k xs)"
    by (rule rotate_drop_take)
  finally show ?thesis
    using \<open>n < length xs\<close> by simp
qed

lemma rotate_mod: "rotate (k mod length xs) xs = rotate k xs"
  by (simp add: rotate_conv_mod [symmetric])

lemma mod_add_cancel_iff:
  assumes "i < n" and "j < (n::nat)"
  shows "(k + i) mod n = (k + j) mod n \<longleftrightarrow> i = j"
proof -
  have "i = j" if "i \<le> j" and "i < n" and "j < n" and "(k + i) mod n = (k + j) mod n" for i j
  proof -
    from that have "n dvd j - i"
      using mod_eq_dvd_iff_nat [of "k + i" "k + j" n] by simp
    moreover from that have "j - i < n" by simp
    ultimately have "j - i = 0"
      by (metis gr0I nat_dvd_not_less)
    with that show ?thesis by simp
  qed
  from this [of i j] this [of j i] assms show ?thesis
    by (metis nle_le)
qed

lemma rotate_update:
  assumes "i < length xs"
  shows "rotate k (xs[(k + i) mod length xs := v]) = (rotate k xs)[i := v]"
proof (rule nth_equalityI)
  show "length (rotate k (xs[(k + i) mod length xs := v])) = length ((rotate k xs)[i := v])"
    by simp
next
  fix j assume "j < length (rotate k (xs[(k + i) mod length xs := v]))"
  then have j: "j < length xs" by simp
  have eq: "(k + i) mod length xs = (k + j) mod length xs \<longleftrightarrow> i = j"
    using assms j by (rule mod_add_cancel_iff)
  have pos: "(k + i) mod length xs < length xs"
    using assms by (auto intro: mod_less_divisor)
  show "rotate k (xs[(k + i) mod length xs := v]) ! j = (rotate k xs)[i := v] ! j"
    using assms j eq pos by (auto simp: nth_rotate nth_list_update)
qed

text \<open>The conditional subtraction by which the sources wrap an index around a vector.\<close>

lemma mod_add_wrap:
  assumes "p < n" and "i \<le> (n::nat)"
  shows "(p + i) mod n = (if n \<le> p + i then p + i - n else p + i)"
  using assms by (simp add: le_mod_geq)

end
