(* ===== verification/Errors.thy ===== *)
theory Errors
  imports Prelude
begin

text \<open>
  The error values of \<open>source/forstio/error.h\<close> and \<open>error.cpp\<close>: class \<open>Error\<close> with its code
  kept at its width (\<open>enum class Code : int16_t\<close>) and its message variant, the functions that
  make errors, and the template \<open>ErrorOr\<close>. The lemmas say how a code classifies an error and
  that copying and formatting never change the classification.
\<close>

section \<open>Codes and values\<close>

type_synonym error_code = "16 word"

definition GenericCritical :: error_code where
  "GenericCritical = - 1"

definition GenericRecoverable :: error_code where
  "GenericRecoverable = 1"

definition Disconnected :: error_code where
  "Disconnected = - 99"

definition Exhausted :: error_code where
  "Exhausted = - 98"

text \<open>\<open>std::variant<std::string_view, std::string>\<close>\<close>

datatype error_message = StringView string | OwnedString string

record error =
  error_text :: error_message
  error_num :: error_code

text \<open>The default constructor: the first alternative of the variant, empty, and code 0.\<close>

definition Error_default :: error where
  "Error_default = \<lparr>error_text = StringView [], error_num = 0\<rparr>"

definition Error_view :: "string \<Rightarrow> error_code \<Rightarrow> error" where
  "Error_view msg c = \<lparr>error_text = StringView msg, error_num = c\<rparr>"

definition Error_owned :: "string \<Rightarrow> error_code \<Rightarrow> error" where
  "Error_owned msg c = \<lparr>error_text = OwnedString msg, error_num = c\<rparr>"

definition error_msg :: "error \<Rightarrow> string" where
  "error_msg e = (case error_text e of OwnedString s \<Rightarrow> s | StringView s \<Rightarrow> s)"

definition failed :: "error \<Rightarrow> bool" where
  "failed e \<longleftrightarrow> sint (error_num e) \<noteq> 0"

definition isCritical :: "error \<Rightarrow> bool" where
  "isCritical e \<longleftrightarrow> sint (error_num e) < 0"

definition isRecoverable :: "error \<Rightarrow> bool" where
  "isRecoverable e \<longleftrightarrow> sint (error_num e) > 0"

text \<open>
  \<open>copyError\<close>: copying an owned string allocates; \<open>alloc\<close> says whether that allocation succeeds
  (\<open>std::bad_alloc\<close> is caught and the text replaced).
\<close>

definition copyError :: "bool \<Rightarrow> error \<Rightarrow> error" where
  "copyError alloc e =
     \<lparr>error_text =
        (case error_text e of
           StringView s \<Rightarrow> StringView s
         | OwnedString s \<Rightarrow>
             if alloc then OwnedString s
             else StringView ''Error while copying Error string. Out of memory''),
      error_num = error_num e\<rparr>"

definition makeError :: "string \<Rightarrow> error_code \<Rightarrow> error" where
  "makeError generic c = Error_view generic c"

text \<open>The overload with a formatter; \<open>None\<close> is a formatter that throws \<open>std::bad_alloc\<close>.\<close>

definition makeError_fmt :: "string option \<Rightarrow> error_code \<Rightarrow> string \<Rightarrow> error" where
  "makeError_fmt formatter c generic =
     (case formatter of Some msg \<Rightarrow> Error_owned msg c | None \<Rightarrow> Error_view generic c)"

definition criticalError_code :: "string \<Rightarrow> error_code \<Rightarrow> error" where
  "criticalError_code generic c = makeError generic c"

abbreviation criticalError :: "string \<Rightarrow> error" where
  "criticalError generic \<equiv> criticalError_code generic GenericCritical"

definition criticalError_fmt :: "string option \<Rightarrow> string \<Rightarrow> error_code \<Rightarrow> error" where
  "criticalError_fmt formatter generic c = makeError_fmt formatter c generic"

definition recoverableError_code :: "string \<Rightarrow> error_code \<Rightarrow> error" where
  "recoverableError_code generic c = makeError generic c"

abbreviation recoverableError :: "string \<Rightarrow> error" where
  "recoverableError generic \<equiv> recoverableError_code generic GenericRecoverable"

definition recoverableError_fmt :: "string option \<Rightarrow> string \<Rightarrow> error_code \<Rightarrow> error" where
  "recoverableError_fmt formatter generic c = makeError_fmt formatter c generic"

definition noError :: error where
  "noError = Error_default"

section \<open>ErrorOr\<close>

text \<open>
  \<open>std::variant<Error, FixVoid<T>>\<close>. The default constructor takes the first alternative: an
  error with code 0.
\<close>

datatype 'a error_or = IsError error | IsValue 'a

definition ErrorOr_default :: "'a error_or" where
  "ErrorOr_default = IsError Error_default"

definition isValue :: "'a error_or \<Rightarrow> bool" where
  "isValue x \<longleftrightarrow> (case x of IsValue _ \<Rightarrow> True | IsError _ \<Rightarrow> False)"

definition isError :: "'a error_or \<Rightarrow> bool" where
  "isError x \<longleftrightarrow> (case x of IsError _ \<Rightarrow> True | IsValue _ \<Rightarrow> False)"

text \<open>\<open>std::get\<close> on the other alternative throws \<open>std::bad_variant_access\<close>.\<close>

definition eo_error :: "'a error_or \<Rightarrow> error option" where
  "eo_error x = (case x of IsError e \<Rightarrow> Some e | IsValue _ \<Rightarrow> None)"

definition eo_value :: "'a error_or \<Rightarrow> 'a option" where
  "eo_value x = (case x of IsValue v \<Rightarrow> Some v | IsError _ \<Rightarrow> None)"

section \<open>Lemmas\<close>

lemma noError_num [simp]: "error_num noError = 0"
  by (simp add: noError_def Error_default_def)

lemma not_failed_noError [simp]: "\<not> failed noError"
  by (simp add: failed_def)

lemma failed_iff_code: "failed e \<longleftrightarrow> error_num e \<noteq> 0"
  using signed_word_eqI [of "error_num e" 0] by (auto simp: failed_def)

lemma not_critical_noError [simp]: "\<not> isCritical noError"
  by (simp add: isCritical_def)

lemma recoverableError_class [simp]:
  "failed (recoverableError m)" "\<not> isCritical (recoverableError m)" "isRecoverable (recoverableError m)"
  by (simp_all add: failed_def isCritical_def isRecoverable_def recoverableError_code_def
      makeError_def Error_view_def GenericRecoverable_def)

lemma criticalError_class [simp]:
  "failed (criticalError m)" "isCritical (criticalError m)" "\<not> isRecoverable (criticalError m)"
  by (simp_all add: failed_def isCritical_def isRecoverable_def criticalError_code_def
      makeError_def Error_view_def GenericCritical_def)

lemma criticalError_fmt_class [simp]:
  "failed (criticalError_fmt f m GenericCritical)" "isCritical (criticalError_fmt f m GenericCritical)"
  by (simp_all add: failed_def isCritical_def criticalError_fmt_def makeError_fmt_def
      Error_view_def Error_owned_def GenericCritical_def split: option.splits)

lemma noError_neq [simp]:
  "recoverableError m \<noteq> noError" "noError \<noteq> recoverableError m"
  "criticalError m \<noteq> noError" "noError \<noteq> criticalError m"
  by (metis recoverableError_class(1) criticalError_class(1) not_failed_noError)+

lemma makeError_fmt_num [simp]: "error_num (makeError_fmt f c g) = c"
  by (simp add: makeError_fmt_def Error_view_def Error_owned_def split: option.splits)

lemma copyError_num [simp]: "error_num (copyError alloc e) = error_num e"
  by (simp add: copyError_def)

lemma error_or_cases_disjoint: "isError x \<longleftrightarrow> \<not> isValue x"
  by (cases x) (simp_all add: isError_def isValue_def)

lemma eo_error_value:
  "eo_error x = Some e \<longleftrightarrow> x = IsError e"
  "eo_value x = Some v \<longleftrightarrow> x = IsValue v"
  by (cases x; simp add: eo_error_def eo_value_def)+

section \<open>Properties\<close>

text \<open>
  Every error is exactly one of success, critical and recoverable; \<open>copyError\<close> keeps that
  class and the code for every outcome of the allocation, and only replaces the text when an
  owned string could not be copied; an error made with a formatter has the requested code
  whether or not the formatter runs out of memory.
\<close>

theorem error_classification:
  "(\<not> failed e \<and> \<not> isCritical e \<and> \<not> isRecoverable e
      \<or> failed e \<and> isCritical e \<and> \<not> isRecoverable e
      \<or> failed e \<and> \<not> isCritical e \<and> isRecoverable e)
   \<and> error_num (copyError alloc e) = error_num e
   \<and> failed (copyError alloc e) = failed e
   \<and> isCritical (copyError alloc e) = isCritical e
   \<and> isRecoverable (copyError alloc e) = isRecoverable e
   \<and> copyError True e = e
   \<and> error_num (makeError_fmt formatter c generic) = c
   \<and> isCritical (makeError g Disconnected) \<and> isCritical (makeError g Exhausted)"
proof -
  have "copyError True e = e"
    by (cases e) (simp add: copyError_def split: error_message.splits)
  moreover have "isCritical (makeError g Disconnected)" "isCritical (makeError g Exhausted)"
    by (simp_all add: isCritical_def makeError_def Error_view_def Disconnected_def Exhausted_def)
  ultimately show ?thesis
    by (auto simp: failed_def isCritical_def isRecoverable_def)
qed

end
