(* ===== verification/Buffer_Iface.thy ===== *)
theory Buffer_Iface
  imports Errors
begin

text \<open>
  The abstract class \<open>Buffer\<close> of \<open>source/forstio/buffer.h\<close> and its non-virtual members
  (\<open>buffer.cpp\<close>, lines 10-81). The virtual functions are a record of operations, one field per
  virtual function; a concrete buffer class gives such a record for its own state type. A
  reference result (\<open>uint8_t &read(size_t)\<close>, \<open>uint8_t &write(size_t)\<close>) is a location in the
  bytes the buffer owns, which \<open>load\<close> and \<open>store\<close> access, so that \<open>memcpy\<close> to \<open>&write()\<close> touches
  consecutive locations exactly as the code does.

  The locales state what a buffer promises: \<open>buffer_reader\<close> to the code that consumes it,
  \<open>buffer_writer\<close> to the code that fills it, and \<open>storage_buffer\<close> both, with the bytes written
  becoming the bytes to read. The members \<open>push\<close>, \<open>pop\<close>, \<open>toString\<close> and \<open>toHex\<close> are proved
  correct once, inside the locales.
\<close>

section \<open>The virtual functions\<close>

record 'b Buffer =
  readPosition :: "'b \<Rightarrow> size_t"
  readCompositeLength :: "'b \<Rightarrow> size_t option"
  readSegmentLength :: "'b \<Rightarrow> size_t \<Rightarrow> size_t option"
  readAdvance :: "'b \<Rightarrow> size_t \<Rightarrow> 'b option"
  read_at :: "'b \<Rightarrow> size_t \<Rightarrow> nat option"
  read_const_at :: "'b \<Rightarrow> size_t \<Rightarrow> nat option"
  writePosition :: "'b \<Rightarrow> size_t"
  writeCompositeLength :: "'b \<Rightarrow> size_t option"
  writeSegmentLength :: "'b \<Rightarrow> size_t \<Rightarrow> size_t option"
  writeAdvance :: "'b \<Rightarrow> size_t \<Rightarrow> 'b option"
  write_at :: "'b \<Rightarrow> size_t \<Rightarrow> nat option"
  writeRequireLength :: "'b \<Rightarrow> size_t \<Rightarrow> (error \<times> 'b) option"
  load :: "'b \<Rightarrow> nat \<Rightarrow> byte option"
  store :: "'b \<Rightarrow> nat \<Rightarrow> byte \<Rightarrow> 'b option"

text \<open>\<open>memcpy\<close> between a caller's bytes and consecutive locations of the buffer.\<close>

fun memcpy_to :: "'b Buffer \<Rightarrow> 'b \<Rightarrow> nat \<Rightarrow> byte list \<Rightarrow> 'b option" where
  "memcpy_to vt b l [] = Some b"
| "memcpy_to vt b l (x # xs) = do {
     b \<leftarrow> store vt b l x;
     memcpy_to vt b (Suc l) xs
   }"

fun memcpy_from :: "'b Buffer \<Rightarrow> 'b \<Rightarrow> nat \<Rightarrow> nat \<Rightarrow> byte list option" where
  "memcpy_from vt b l 0 = Some []"
| "memcpy_from vt b l (Suc n) = do {
     x \<leftarrow> load vt b l;
     xs \<leftarrow> memcpy_from vt b (Suc l) n;
     Some (x # xs)
   }"

section \<open>Members of Buffer\<close>

definition push_byte :: "'b Buffer \<Rightarrow> 'b \<Rightarrow> byte \<Rightarrow> (error \<times> 'b) option" where
  "push_byte vt b val = do {
     write_remain \<leftarrow> writeCompositeLength vt b;
     if write_remain > 0 then do {
       l \<leftarrow> write_at vt b 0;
       b \<leftarrow> store vt b l val;
       b \<leftarrow> writeAdvance vt b 1;
       Some (noError, b)
     } else Some (recoverableError ''Buffer too small'', b)
   }"

text \<open>
  The copy loop of \<open>push(const uint8_t &, size_t)\<close>. The source bytes at \<open>buffer_ptr\<close> are a list;
  reading past them is undefined behaviour. The loop has no termination argument of its own: it
  ends because a buffer with room has a non-empty write segment, which \<open>buffer_writer\<close> states.
\<close>

partial_function (option) push_loop ::
    "'b Buffer \<Rightarrow> 'b \<Rightarrow> byte list \<Rightarrow> size_t \<Rightarrow> 'b option" where
  "push_loop vt b buffer_ptr sz =
     (if sz > 0 then do {
        seg \<leftarrow> writeSegmentLength vt b 0;
        let segment = min seg sz;
        l \<leftarrow> write_at vt b 0;
        assert_that (segment \<le> length buffer_ptr);
        b \<leftarrow> memcpy_to vt b l (take segment buffer_ptr);
        b \<leftarrow> writeAdvance vt b segment;
        push_loop vt b (drop segment buffer_ptr) (sz - segment)
      } else Some b)"

definition push :: "'b Buffer \<Rightarrow> 'b \<Rightarrow> byte list \<Rightarrow> size_t \<Rightarrow> (error \<times> 'b) option" where
  "push vt b buffer_ptr sz = do {
     (error, b) \<leftarrow> writeRequireLength vt b sz;
     if failed error then Some (error, b)
     else do {
       b \<leftarrow> push_loop vt b buffer_ptr sz;
       Some (noError, b)
     }
   }"

text \<open>\<open>pop(uint8_t &)\<close>: the out parameter keeps its value \<open>old\<close> when nothing is readable.\<close>

definition pop_byte :: "'b Buffer \<Rightarrow> 'b \<Rightarrow> byte \<Rightarrow> (error \<times> byte \<times> 'b) option" where
  "pop_byte vt b old = do {
     n \<leftarrow> readCompositeLength vt b;
     if n > 0 then do {
       l \<leftarrow> read_at vt b 0;
       val \<leftarrow> load vt b l;
       b \<leftarrow> readAdvance vt b 1;
       Some (noError, val, b)
     } else Some (recoverableError ''Buffer too small'', old, b)
   }"

text \<open>
  \<open>pop(uint8_t &, size_t)\<close>: the result lists the bytes stored through the out pointer, in order.
\<close>

partial_function (option) pop_loop ::
    "'b Buffer \<Rightarrow> 'b \<Rightarrow> byte list \<Rightarrow> size_t \<Rightarrow> (byte list \<times> 'b) option" where
  "pop_loop vt b out sz =
     (if sz > 0 then do {
        seg \<leftarrow> readSegmentLength vt b 0;
        let segment = min seg sz;
        l \<leftarrow> read_at vt b 0;
        xs \<leftarrow> memcpy_from vt b l segment;
        b \<leftarrow> readAdvance vt b segment;
        pop_loop vt b (out @ xs) (sz - segment)
      } else Some (out, b))"

definition pop :: "'b Buffer \<Rightarrow> 'b \<Rightarrow> size_t \<Rightarrow> (error \<times> byte list \<times> 'b) option" where
  "pop vt b sz = do {
     n \<leftarrow> readCompositeLength vt b;
     if n \<ge> sz then do {
       (out, b) \<leftarrow> pop_loop vt b [] sz;
       Some (noError, out, b)
     } else Some (recoverableError ''Buffer too small'', [], b)
   }"

text \<open>
  The loops of \<open>toString\<close> and \<open>toHex\<close>: \<open>i\<close> is the loop variable and the last argument the number
  of iterations left. The text is a list of bytes.
\<close>

fun toString_loop :: "'b Buffer \<Rightarrow> 'b \<Rightarrow> size_t \<Rightarrow> nat \<Rightarrow> byte list option" where
  "toString_loop vt b i 0 = Some []"
| "toString_loop vt b i (Suc k) = do {
     l \<leftarrow> read_const_at vt b i;
     x \<leftarrow> load vt b l;
     rest \<leftarrow> toString_loop vt b (Suc i) k;
     Some (x # rest)
   }"

definition toString :: "'b Buffer \<Rightarrow> 'b \<Rightarrow> byte list option" where
  "toString vt b = do {
     n \<leftarrow> readCompositeLength vt b;
     toString_loop vt b 0 n
   }"

definition hex_digit :: "nat \<Rightarrow> char" where
  "hex_digit d = ''0123456789abcdef'' ! d"

text \<open>\<open>std::hex\<close>, \<open>std::setw(2)\<close> and \<open>std::setfill('0')\<close> on one byte: two hexadecimal digits.\<close>

definition hex_byte :: "byte \<Rightarrow> string" where
  "hex_byte x = [hex_digit (unat x div 16), hex_digit (unat x mod 16)]"

definition hex_separator :: "size_t \<Rightarrow> string" where
  "hex_separator i = (if i mod 4 = 3 then [CHR 0x0A] else [CHR '' ''])"

fun toHex_loop :: "'b Buffer \<Rightarrow> 'b \<Rightarrow> size_t \<Rightarrow> nat \<Rightarrow> string option" where
  "toHex_loop vt b i 0 = Some []"
| "toHex_loop vt b i (Suc k) = do {
     l \<leftarrow> read_const_at vt b i;
     x \<leftarrow> load vt b l;
     n \<leftarrow> readCompositeLength vt b;
     rest \<leftarrow> toHex_loop vt b (Suc i) k;
     Some (hex_byte x @ (if i + 1 < n then hex_separator i else []) @ rest)
   }"

definition toHex :: "'b Buffer \<Rightarrow> 'b \<Rightarrow> string option" where
  "toHex vt b = do {
     n \<leftarrow> readCompositeLength vt b;
     toHex_loop vt b 0 n
   }"

text \<open>
  The loop \<open>for (i = 0; i < k; ++i) buffer.write(i) = f(i)\<close> of the encoders and
  \<open>for (i = 0; i < k; ++i) ... buffer.read(i)\<close> of the decoders, which fill and inspect a buffer
  byte by byte before they advance it.
\<close>

fun write_each :: "'b Buffer \<Rightarrow> 'b \<Rightarrow> size_t \<Rightarrow> byte list \<Rightarrow> 'b option" where
  "write_each vt b i [] = Some b"
| "write_each vt b i (x # xs) = do {
     l \<leftarrow> write_at vt b i;
     b \<leftarrow> store vt b l x;
     write_each vt b (Suc i) xs
   }"

fun read_each :: "'b Buffer \<Rightarrow> 'b \<Rightarrow> size_t \<Rightarrow> nat \<Rightarrow> byte list option" where
  "read_each vt b i 0 = Some []"
| "read_each vt b i (Suc k) = do {
     l \<leftarrow> read_at vt b i;
     x \<leftarrow> load vt b l;
     rest \<leftarrow> read_each vt b (Suc i) k;
     Some (x # rest)
   }"

text \<open>What \<open>toHex\<close> prints for a list of bytes, without the buffer: the reference text.\<close>

fun hex_text :: "nat \<Rightarrow> byte list \<Rightarrow> string" where
  "hex_text i [] = []"
| "hex_text i (x # xs) = hex_byte x @ (if xs = [] then [] else hex_separator i) @ hex_text (Suc i) xs"

section \<open>Sequences of calls and the queue they implement\<close>

text \<open>
  The calls a client makes on a buffer, and the results it sees. \<open>queue_step\<close> is the
  specification: a queue of bytes with room for \<open>room\<close> more. \<open>reuse\<close> says whether a byte that has
  been read gives its room back.
\<close>

datatype buffer_call = PushByte byte | Push "byte list" | PopByte | Pop size_t

fun call_buffer :: "'b Buffer \<Rightarrow> 'b \<Rightarrow> buffer_call \<Rightarrow> ((error \<times> byte list) \<times> 'b) option" where
  "call_buffer vt b (PushByte x) = do { (e, b) \<leftarrow> push_byte vt b x; Some ((e, []), b) }"
| "call_buffer vt b (Push xs) = do { (e, b) \<leftarrow> push vt b xs (length xs); Some ((e, []), b) }"
| "call_buffer vt b PopByte = do {
     (e, x, b) \<leftarrow> pop_byte vt b 0;
     Some ((e, if failed e then [] else [x]), b)
   }"
| "call_buffer vt b (Pop n) = do { (e, xs, b) \<leftarrow> pop vt b n; Some ((e, xs), b) }"

fun run_buffer :: "'b Buffer \<Rightarrow> 'b \<Rightarrow> buffer_call list \<Rightarrow> ((error \<times> byte list) list \<times> 'b) option" where
  "run_buffer vt b [] = Some ([], b)"
| "run_buffer vt b (c # cs) = do {
     (out, b) \<leftarrow> call_buffer vt b c;
     (outs, b) \<leftarrow> run_buffer vt b cs;
     Some (out # outs, b)
   }"

definition too_small :: error where
  "too_small = recoverableError ''Buffer too small''"

fun queue_step :: "bool \<Rightarrow> nat \<times> byte list \<Rightarrow> buffer_call \<Rightarrow> (error \<times> byte list) \<times> nat \<times> byte list" where
  "queue_step reuse (room, q) (PushByte x) =
     (if 0 < room then ((noError, []), room - 1, q @ [x]) else ((too_small, []), room, q))"
| "queue_step reuse (room, q) (Push xs) =
     (if length xs \<le> room then ((noError, []), room - length xs, q @ xs) else ((too_small, []), room, q))"
| "queue_step reuse (room, q) PopByte =
     (case q of
        [] \<Rightarrow> ((too_small, []), room, q)
      | x # xs \<Rightarrow> ((noError, [x]), (if reuse then room + 1 else room), xs))"
| "queue_step reuse (room, q) (Pop n) =
     (if n \<le> length q then ((noError, take n q), (if reuse then room + n else room), drop n q)
      else ((too_small, []), room, q))"

fun queue_run ::
    "bool \<Rightarrow> nat \<times> byte list \<Rightarrow> buffer_call list \<Rightarrow> (error \<times> byte list) list \<times> nat \<times> byte list" where
  "queue_run reuse q [] = ([], q)"
| "queue_run reuse q (c # cs) =
     (let (out, q1) = queue_step reuse q c; (outs, q2) = queue_run reuse q1 cs in (out # outs, q2))"

text \<open>Every object a client passes fits into memory.\<close>

fun call_in_memory :: "buffer_call \<Rightarrow> bool" where
  "call_in_memory (Push xs) \<longleftrightarrow> length xs \<le> PTRDIFF_MAX"
| "call_in_memory _ \<longleftrightarrow> True"

section \<open>The reading contract\<close>

locale buffer_reader =
  fixes vt :: "'b Buffer"
    and inv :: "'b \<Rightarrow> bool"
    and rd :: "'b \<Rightarrow> byte list"
  assumes readable: "inv b \<Longrightarrow> readCompositeLength vt b = Some (length (rd b))"
    and readable_bound: "inv b \<Longrightarrow> length (rd b) \<le> PTRDIFF_MAX"
    and read_loc: "inv b \<Longrightarrow> i < length (rd b) \<Longrightarrow>
      \<exists>l. read_at vt b i = Some l \<and> read_const_at vt b i = Some l \<and> load vt b l = Some (rd b ! i)"
    and read_segment: "inv b \<Longrightarrow> off < length (rd b) \<Longrightarrow>
      \<exists>s l. readSegmentLength vt b off = Some s \<and> 0 < s \<and> off + s \<le> length (rd b)
          \<and> (\<forall>j < s. read_at vt b (off + j) = Some (l + j))"
    and read_advance: "inv b \<Longrightarrow> n \<le> length (rd b) \<Longrightarrow>
      \<exists>b'. readAdvance vt b n = Some b' \<and> inv b' \<and> rd b' = drop n (rd b)"
begin

lemma memcpy_from_correct:
  assumes "inv b" and "i + n \<le> length (rd b)"
    and "\<And>j. j < n \<Longrightarrow> read_at vt b (i + j) = Some (l + j)"
  shows "memcpy_from vt b l n = Some (take n (drop i (rd b)))"
  using assms(2,3)
proof (induction n arbitrary: i l)
  case 0
  then show ?case by simp
next
  case (Suc n)
  from Suc.prems have i: "i < length (rd b)" by simp
  with read_loc [OF \<open>inv b\<close> i] Suc.prems(2) [of 0] have ld: "load vt b l = Some (rd b ! i)"
    by auto
  have "memcpy_from vt b (Suc l) n = Some (take n (drop (Suc i) (rd b)))"
    using Suc.prems(1) Suc.prems(2) [of "Suc _"] by (intro Suc.IH) auto
  with ld i show ?case
    by (simp add: Cons_nth_drop_Suc [symmetric])
qed

lemma pop_loop_correct:
  assumes "inv b" and "sz \<le> length (rd b)"
  shows "\<exists>b'. pop_loop vt b out sz = Some (out @ take sz (rd b), b') \<and> inv b' \<and> rd b' = drop sz (rd b)"
  using assms
proof (induction sz arbitrary: b out rule: less_induct)
  case (less sz)
  show ?case
  proof (cases "sz = 0")
    case True
    with less.prems show ?thesis by (simp add: pop_loop.simps)
  next
    case False
    with less.prems have ne: "0 < length (rd b)" by linarith
    from read_segment [OF \<open>inv b\<close> ne] obtain s l where
      s: "readSegmentLength vt b 0 = Some s" "0 < s" "s \<le> length (rd b)"
      and locs: "\<And>j. j < s \<Longrightarrow> read_at vt b j = Some (l + j)" by auto
    define m where "m = min s sz"
    have m: "0 < m" "m \<le> sz" "m \<le> length (rd b)" "m \<le> s"
      using s False less.prems by (auto simp: m_def)
    have cp: "memcpy_from vt b l m = Some (take m (rd b))"
      using memcpy_from_correct [OF \<open>inv b\<close>, of 0 m l] locs m by simp
    from read_advance [OF \<open>inv b\<close> m(3)] obtain b1 where
      b1: "readAdvance vt b m = Some b1" "inv b1" "rd b1 = drop m (rd b)" by blast
    have "sz - m < sz" using m by simp
    moreover have "sz - m \<le> length (rd b1)" using b1 less.prems by simp
    ultimately obtain b' where
      b': "pop_loop vt b1 (out @ take m (rd b)) (sz - m)
             = Some ((out @ take m (rd b)) @ take (sz - m) (rd b1), b')"
          "inv b'" "rd b' = drop (sz - m) (rd b1)"
      using less.IH b1(2) by blast
    have "pop_loop vt b out sz = pop_loop vt b1 (out @ take m (rd b)) (sz - m)"
      using False s cp b1 locs [of 0] by (subst pop_loop.simps) (simp add: m_def [symmetric])
    moreover have "take m (rd b) @ take (sz - m) (rd b1) = take sz (rd b)"
      using m b1 by (simp add: take_add [symmetric])
    ultimately show ?thesis
      using b' m b1 by simp
  qed
qed

lemma pop_correct:
  assumes "inv b" and "sz \<le> length (rd b)"
  shows "\<exists>b'. pop vt b sz = Some (noError, take sz (rd b), b') \<and> inv b' \<and> rd b' = drop sz (rd b)"
  using pop_loop_correct [OF assms, of "[]"] assms by (auto simp: pop_def readable)

lemma pop_too_small:
  assumes "inv b" and "length (rd b) < sz"
  shows "pop vt b sz = Some (recoverableError ''Buffer too small'', [], b)"
  using assms by (simp add: pop_def readable)

lemma pop_byte_correct:
  assumes "inv b" and "rd b = x # xs"
  shows "\<exists>b'. pop_byte vt b old = Some (noError, x, b') \<and> inv b' \<and> rd b' = xs"
proof -
  have ne: "0 < length (rd b)" using assms(2) by simp
  obtain l where "read_at vt b 0 = Some l" "load vt b l = Some (rd b ! 0)"
    using read_loc [OF assms(1) ne] by blast
  moreover obtain b' where "readAdvance vt b 1 = Some b'" "inv b'" "rd b' = drop 1 (rd b)"
    using read_advance [OF assms(1), of 1] ne by auto
  ultimately show ?thesis
    using assms ne by (auto simp: pop_byte_def readable)
qed

lemma pop_byte_too_small:
  assumes "inv b" and "rd b = []"
  shows "pop_byte vt b old = Some (recoverableError ''Buffer too small'', old, b)"
  using assms by (simp add: pop_byte_def readable)

lemma read_each_correct:
  assumes "inv b" and "i + k \<le> length (rd b)"
  shows "read_each vt b i k = Some (take k (drop i (rd b)))"
  using assms(2)
proof (induction k arbitrary: i)
  case 0
  then show ?case by simp
next
  case (Suc k)
  then have i: "i < length (rd b)" by simp
  with read_loc [OF assms(1) i] Suc.IH [of "Suc i"] Suc.prems show ?case
    by (auto simp: Cons_nth_drop_Suc [symmetric])
qed

lemma toString_loop_correct:
  assumes "inv b" and "i + k \<le> length (rd b)"
  shows "toString_loop vt b i k = Some (take k (drop i (rd b)))"
  using assms(2)
proof (induction k arbitrary: i)
  case 0
  then show ?case by simp
next
  case (Suc k)
  then have i: "i < length (rd b)" by simp
  with read_loc [OF assms(1) i] Suc.IH [of "Suc i"] Suc.prems show ?case
    by (auto simp: Cons_nth_drop_Suc [symmetric])
qed

lemma toString_correct: "inv b \<Longrightarrow> toString vt b = Some (rd b)"
  by (simp add: toString_def readable toString_loop_correct)

lemma toHex_loop_correct:
  assumes "inv b" and "i + k = length (rd b)"
  shows "toHex_loop vt b i k = Some (hex_text i (drop i (rd b)))"
  using assms(2)
proof (induction k arbitrary: i)
  case 0
  then show ?case by simp
next
  case (Suc k)
  then have i: "i < length (rd b)" by simp
  with read_loc [OF assms(1) i] Suc.IH [of "Suc i"] Suc.prems assms(1) show ?case
    by (auto simp: Cons_nth_drop_Suc [OF i, symmetric] readable)
qed

lemma toHex_correct: "inv b \<Longrightarrow> toHex vt b = Some (hex_text 0 (rd b))"
  by (simp add: toHex_def readable toHex_loop_correct)

end

section \<open>The writing contract\<close>

text \<open>
  \<open>wr b\<close> lists the writable bytes from the write position on, \<open>wt b\<close> what has been written and
  advanced over. A non-empty advance moves bytes from the front of the one to the end of the
  other.
\<close>

locale buffer_writer =
  fixes vt :: "'b Buffer"
    and inv :: "'b \<Rightarrow> bool"
    and wt :: "'b \<Rightarrow> byte list"
    and wr :: "'b \<Rightarrow> byte list"
  assumes writable: "inv b \<Longrightarrow> writeCompositeLength vt b = Some (length (wr b))"
    and writable_bound: "inv b \<Longrightarrow> length (wr b) \<le> PTRDIFF_MAX"
    and write_loc: "inv b \<Longrightarrow> i < length (wr b) \<Longrightarrow>
      \<exists>l. write_at vt b i = Some l
        \<and> (\<forall>v. \<exists>b'. store vt b l v = Some b' \<and> inv b' \<and> wt b' = wt b \<and> wr b' = (wr b)[i := v])"
    and write_at_store: "inv b \<Longrightarrow> store vt b l v = Some b' \<Longrightarrow>
      write_at vt b' i = write_at vt b i \<and> writeCompositeLength vt b' = writeCompositeLength vt b"
    and write_segment: "inv b \<Longrightarrow> off < length (wr b) \<Longrightarrow>
      \<exists>s l. writeSegmentLength vt b off = Some s \<and> 0 < s \<and> off + s \<le> length (wr b)
          \<and> (\<forall>j < s. write_at vt b (off + j) = Some (l + j))"
    and write_advance: "inv b \<Longrightarrow> 0 < n \<Longrightarrow> n \<le> length (wr b) \<Longrightarrow>
      \<exists>b'. writeAdvance vt b n = Some b' \<and> inv b'
         \<and> wt b' = wt b @ take n (wr b) \<and> wr b' = drop n (wr b)"
    and write_require: "inv b \<Longrightarrow> n \<le> PTRDIFF_MAX \<Longrightarrow>
      writeRequireLength vt b n =
        Some (if n \<le> length (wr b) then noError else recoverableError ''Buffer too small'', b)"
begin

lemma memcpy_to_correct:
  assumes "inv b" and "i + length xs \<le> length (wr b)"
    and "\<And>j. j < length xs \<Longrightarrow> write_at vt b (i + j) = Some (l + j)"
  shows "\<exists>b'. memcpy_to vt b l xs = Some b' \<and> inv b' \<and> wt b' = wt b \<and> wr b' = overwrite i xs (wr b)"
  using assms
proof (induction xs arbitrary: b i l)
  case Nil
  then show ?case by simp
next
  case (Cons x xs)
  then have i: "i < length (wr b)" by simp
  from write_loc [OF \<open>inv b\<close> i] Cons.prems(3) [of 0] obtain b1 where
    b1: "store vt b l x = Some b1" "inv b1" "wt b1 = wt b" "wr b1 = (wr b)[i := x]" by force
  have "\<exists>b'. memcpy_to vt b1 (Suc l) xs = Some b' \<and> inv b' \<and> wt b' = wt b1
           \<and> wr b' = overwrite (Suc i) xs (wr b1)"
    using Cons.prems b1 Cons.prems(3) [of "Suc _"] write_at_store [OF \<open>inv b\<close> b1(1)]
    by (intro Cons.IH) auto
  with b1 i show ?case
    by (auto simp: overwrite_Cons)
qed

lemma push_loop_correct:
  assumes "inv b" and "sz \<le> length (wr b)" and "sz \<le> length src"
  shows "\<exists>b'. push_loop vt b src sz = Some b' \<and> inv b'
           \<and> wt b' = wt b @ take sz src \<and> wr b' = drop sz (wr b)"
  using assms
proof (induction sz arbitrary: b src rule: less_induct)
  case (less sz)
  show ?case
  proof (cases "sz = 0")
    case True
    with less.prems show ?thesis by (simp add: push_loop.simps)
  next
    case False
    with less.prems have ne: "0 < length (wr b)" by linarith
    from write_segment [OF \<open>inv b\<close> ne] obtain s l where
      s: "writeSegmentLength vt b 0 = Some s" "0 < s" "s \<le> length (wr b)"
      and locs: "\<And>j. j < s \<Longrightarrow> write_at vt b j = Some (l + j)" by auto
    define m where "m = min s sz"
    have m: "0 < m" "m \<le> sz" "m \<le> length (wr b)" "m \<le> s" "m \<le> length src"
      using s False less.prems by (auto simp: m_def)
    obtain b1 where b1: "memcpy_to vt b l (take m src) = Some b1" "inv b1" "wt b1 = wt b"
        "wr b1 = overwrite 0 (take m src) (wr b)"
      using memcpy_to_correct [OF \<open>inv b\<close>, of 0 "take m src" l] locs m by auto
    have m1: "m = length (take m src)" "m \<le> length (wr b1)" using m b1 by simp_all
    from write_advance [OF b1(2) m(1) m1(2)] obtain b2 where
      b2: "writeAdvance vt b1 m = Some b2" "inv b2"
          "wt b2 = wt b1 @ take m (wr b1)" "wr b2 = drop m (wr b1)" by blast
    have tk: "take m (wr b1) = take m src" "drop m (wr b1) = drop m (wr b)"
      using overwrite_0_split [of "take m src" "wr b"] m m1 b1 by simp_all
    have "sz - m < sz" "sz - m \<le> length (wr b2)" "sz - m \<le> length (drop m src)"
      using m b2 tk less.prems by simp_all
    then obtain b' where b': "push_loop vt b2 (drop m src) (sz - m) = Some b'" "inv b'"
        "wt b' = wt b2 @ take (sz - m) (drop m src)" "wr b' = drop (sz - m) (wr b2)"
      using less.IH b2(2) by blast
    have "push_loop vt b src sz = push_loop vt b2 (drop m src) (sz - m)"
      using False s b1 b2 m locs [of 0] by (subst push_loop.simps) (simp add: m_def [symmetric])
    moreover have "take m src @ take (sz - m) (drop m src) = take sz src"
      using m by (simp add: take_add [symmetric])
    moreover have "wt b2 = wt b @ take m src" "wr b2 = drop m (wr b)"
      using b2 b1 tk by simp_all
    ultimately show ?thesis
      using b' m by simp
  qed
qed

lemma push_correct:
  assumes "inv b" and "length src \<le> length (wr b)"
  shows "\<exists>b'. push vt b src (length src) = Some (noError, b') \<and> inv b'
           \<and> wt b' = wt b @ src \<and> wr b' = drop (length src) (wr b)"
  using push_loop_correct [OF assms(1,2), of src] assms writable_bound [OF assms(1)]
  by (auto simp: push_def write_require)

lemma push_too_small:
  assumes "inv b" and "length (wr b) < sz" and "sz \<le> PTRDIFF_MAX"
  shows "push vt b src sz = Some (recoverableError ''Buffer too small'', b)"
  using assms by (simp add: push_def write_require)

lemma push_byte_correct:
  assumes "inv b" and "wr b \<noteq> []"
  shows "\<exists>b'. push_byte vt b x = Some (noError, b') \<and> inv b'
           \<and> wt b' = wt b @ [x] \<and> wr b' = tl (wr b)"
proof -
  have ne: "0 < length (wr b)" using assms(2) by simp
  from write_loc [OF assms(1) ne] obtain l b1 where
    b1: "write_at vt b 0 = Some l" "store vt b l x = Some b1" "inv b1" "wt b1 = wt b"
        "wr b1 = (wr b)[0 := x]" by meson
  have "1 \<le> length (wr b1)" unfolding b1(5) length_list_update using ne by linarith
  from write_advance [OF b1(3) _ this] obtain b2 where
    "writeAdvance vt b1 1 = Some b2" "inv b2" "wt b2 = wt b1 @ take 1 (wr b1)" "wr b2 = drop 1 (wr b1)"
    by auto
  with b1 ne assms show ?thesis
    by (cases "wr b") (auto simp: push_byte_def writable)
qed

lemma push_byte_too_small:
  assumes "inv b" and "wr b = []"
  shows "push_byte vt b x = Some (recoverableError ''Buffer too small'', b)"
  using assms by (simp add: push_byte_def writable)

lemma write_each_correct:
  assumes "inv b" and "i + length xs \<le> length (wr b)"
  shows "\<exists>b'. write_each vt b i xs = Some b' \<and> inv b' \<and> wt b' = wt b \<and> wr b' = overwrite i xs (wr b)"
  using assms
proof (induction xs arbitrary: b i)
  case Nil
  then show ?case by simp
next
  case (Cons x xs)
  then have i: "i < length (wr b)" by simp
  from write_loc [OF \<open>inv b\<close> i] obtain l b1 where
    b1: "write_at vt b i = Some l" "store vt b l x = Some b1" "inv b1" "wt b1 = wt b"
        "wr b1 = (wr b)[i := x]" by meson
  with Cons.IH [of b1 "Suc i"] Cons.prems i show ?case
    by (auto simp: overwrite_Cons)
qed

text \<open>Filling the front of the writable area byte by byte and then advancing over it.\<close>

lemma write_each_advance:
  assumes "inv b" and "length xs \<le> length (wr b)" and "xs \<noteq> []"
  shows "\<exists>b1 b'. write_each vt b 0 xs = Some b1 \<and> writeAdvance vt b1 (length xs) = Some b' \<and> inv b'
           \<and> wt b' = wt b @ xs \<and> wr b' = drop (length xs) (wr b)"
proof -
  from write_each_correct [OF assms(1), of 0 xs] assms(2) obtain b1 where
    b1: "write_each vt b 0 xs = Some b1" "inv b1" "wt b1 = wt b" "wr b1 = overwrite 0 xs (wr b)"
    by auto
  with write_advance [OF b1(2), of "length xs"] assms show ?thesis
    by auto
qed

end

text \<open>
  A writer for which advancing by nothing does nothing. The contract above says nothing about
  \<open>writeAdvance(0)\<close>; a client that may advance by 0 bytes (the string encoder, for an empty
  string) needs this law too.
\<close>

locale buffer_writer0 = buffer_writer +
  assumes write_advance_zero: "inv b \<Longrightarrow> writeAdvance vt b 0 = Some b"
begin

lemma write_each_advance0:
  assumes "inv b" and "length xs \<le> length (wr b)"
  shows "\<exists>b1 b'. write_each vt b 0 xs = Some b1 \<and> writeAdvance vt b1 (length xs) = Some b' \<and> inv b'
           \<and> wt b' = wt b @ xs \<and> wr b' = drop (length xs) (wr b)"
  using write_each_advance [OF assms] write_advance_zero [OF assms(1)] assms
  by (cases "xs = []") auto

end

section \<open>A buffer that stores what is written\<close>

text \<open>
  The two halves of the contract, as far as a view of the buffer needs them. A buffer can satisfy one half with an
  invariant that the operations of the other half would break, such as that its read position stays where it is.
\<close>

locale viewable_reader = buffer_reader vt inv rd
  for vt :: "'b Buffer" and inv :: "'b \<Rightarrow> bool" and rd :: "'b \<Rightarrow> byte list"

locale viewable_writer = buffer_writer vt inv rd wr
  for vt :: "'b Buffer" and inv :: "'b \<Rightarrow> bool" and rd :: "'b \<Rightarrow> byte list" and wr :: "'b \<Rightarrow> byte list" +
  assumes write_require_any: "inv b \<Longrightarrow> n < SIZE_MOD \<Longrightarrow>
      writeRequireLength vt b n =
        Some (if n \<le> length (wr b) then noError else recoverableError ''Buffer too small'', b)"

locale storage_buffer =
  viewable_reader vt inv rd + viewable_writer vt inv rd wr
  for vt :: "'b Buffer" and inv :: "'b \<Rightarrow> bool" and rd :: "'b \<Rightarrow> byte list" and wr :: "'b \<Rightarrow> byte list" +
  assumes read_advance_keeps: "inv b \<Longrightarrow> n \<le> length (rd b) \<Longrightarrow> readAdvance vt b n = Some b' \<Longrightarrow>
      prefix (wr b) (wr b')"
begin

text \<open>First in, first out: what is pushed comes out of \<open>pop\<close> behind what was readable before.\<close>

lemma push_pop_fifo:
  assumes "inv b" and "length src \<le> length (wr b)"
  shows "\<exists>b1 b2. push vt b src (length src) = Some (noError, b1)
           \<and> pop vt b1 (length (rd b) + length src) = Some (noError, rd b @ src, b2)
           \<and> inv b2 \<and> rd b2 = []"
proof -
  from push_correct [OF assms] obtain b1 where
    b1: "push vt b src (length src) = Some (noError, b1)" "inv b1" "rd b1 = rd b @ src" by blast
  with pop_correct [OF b1(2), of "length (rd b) + length src"] show ?thesis
    by auto
qed

end

section \<open>A buffer as a queue with room\<close>

locale queue_buffer = storage_buffer +
  fixes reuse :: bool
  assumes read_advance_room: "inv b \<Longrightarrow> n \<le> length (rd b) \<Longrightarrow> readAdvance vt b n = Some b' \<Longrightarrow>
      length (wr b') = length (wr b) + (if reuse then n else 0)"
begin

text \<open>
  Reading keeps the sum of the room and, where room is given back, of the readable bytes: the
  reading contract holds for the invariant together with that sum.
\<close>

sublocale counted: buffer_reader vt
  "\<lambda>b. inv b \<and> length (wr b) + (if reuse then length (rd b) else 0) = K" rd for K
proof (unfold_locales, goal_cases)
  case (5 b n)
  then obtain b' where "readAdvance vt b n = Some b'" "inv b'" "rd b' = drop n (rd b)"
    using read_advance by blast
  with 5 read_advance_room [of b n b'] show ?case by auto
qed (use readable readable_bound read_loc read_segment in auto)

lemma call_refines:
  assumes "inv b" and "call_in_memory c"
  shows "\<exists>b'. call_buffer vt b c = Some (fst (queue_step reuse (length (wr b), rd b) c), b') \<and> inv b'
           \<and> (length (wr b'), rd b') = snd (queue_step reuse (length (wr b), rd b) c)"
proof (cases c)
  case (PushByte x)
  then show ?thesis
    using assms push_byte_correct [OF assms(1), of x] push_byte_too_small [OF assms(1), of x]
    by (cases "wr b = []") (auto simp: too_small_def)
next
  case (Push xs)
  then show ?thesis
    using assms push_correct [OF assms(1), of xs] push_too_small [OF assms(1), of "length xs" xs]
    by (cases "length xs \<le> length (wr b)") (auto simp: too_small_def)
next
  case PopByte
  show ?thesis
  proof (cases "rd b")
    case Nil
    with PopByte assms show ?thesis by (simp add: pop_byte_too_small too_small_def)
  next
    case (Cons x xs)
    with counted.pop_byte_correct [of b _ x xs 0] assms PopByte show ?thesis by auto
  qed
next
  case (Pop n)
  show ?thesis
  proof (cases "n \<le> length (rd b)")
    case True
    with counted.pop_correct [of b _ n] assms Pop show ?thesis by auto
  next
    case False
    with Pop assms show ?thesis by (simp add: pop_too_small too_small_def)
  qed
qed

lemma run_refines:
  assumes "inv b" and "list_all call_in_memory cs"
  shows "\<exists>b'. run_buffer vt b cs = Some (fst (queue_run reuse (length (wr b), rd b) cs), b') \<and> inv b'
           \<and> (length (wr b'), rd b') = snd (queue_run reuse (length (wr b), rd b) cs)"
  using assms
proof (induction cs arbitrary: b)
  case Nil
  then show ?case by simp
next
  case (Cons c cs)
  then obtain b1 where b1: "call_buffer vt b c = Some (fst (queue_step reuse (length (wr b), rd b) c), b1)"
      "inv b1" "(length (wr b1), rd b1) = snd (queue_step reuse (length (wr b), rd b) c)"
    using call_refines [of b c] by auto
  with Cons.IH [of b1] Cons.prems show ?case
    by (auto simp: Let_def split: prod.splits)
qed

end

end
