(* ===== verification/Buffer_View.thy ===== *)
theory Buffer_View
  imports Buffer_Iface
begin

text \<open>
  Class \<open>BufferView\<close> (\<open>source/forstio/buffer.h\<close>, lines 54-87, and \<open>buffer.cpp\<close>, lines 83-192): a
  cursor pair on another buffer. It holds the buffer it refers to; reading and writing through it
  reaches that buffer's bytes, but advancing only moves the view's own offsets. The operations are
  parameterised by the operations of the underlying buffer, as the C++ class is by the virtual
  functions of its \<open>Buffer &\<close>.

  Whatever buffer satisfies \<open>viewable_reader\<close>, a view of it satisfies the reading contract with
  the underlying buffer unchanged; a view of a \<open>viewable_writer\<close> satisfies the writing contract with the readable bytes of the
  underlying buffer unchanged. Advancing a view by nothing is harmless.
\<close>

section \<open>State and operations\<close>

record 'b buffer_view =
  bv_buffer :: 'b
  bv_read_offset :: size_t
  bv_write_offset :: size_t

definition view_new :: "'b \<Rightarrow> 'b buffer_view" where
  "view_new b = \<lparr>bv_buffer = b, bv_read_offset = 0, bv_write_offset = 0\<rparr>"

definition view_readPosition :: "'b Buffer \<Rightarrow> 'b buffer_view \<Rightarrow> size_t" where
  "view_readPosition vt v = sz_add (bv_read_offset v) (readPosition vt (bv_buffer v))"

definition view_readCompositeLength :: "'b Buffer \<Rightarrow> 'b buffer_view \<Rightarrow> size_t option" where
  "view_readCompositeLength vt v = do {
     n \<leftarrow> readCompositeLength vt (bv_buffer v);
     assert_that (bv_read_offset v \<le> n);
     if bv_read_offset v > n then Some 0 else Some (sz_sub n (bv_read_offset v))
   }"

definition view_readSegmentLength :: "'b Buffer \<Rightarrow> 'b buffer_view \<Rightarrow> size_t \<Rightarrow> size_t option" where
  "view_readSegmentLength vt v offset = do {
     let off = sz_add offset (bv_read_offset v);
     n \<leftarrow> readCompositeLength vt (bv_buffer v);
     assert_that (off \<le> n);
     if off > n then Some 0 else readSegmentLength vt (bv_buffer v) off
   }"

text \<open>
  The branch after the assertion adds the whole readable length to the offset; with the assertion
  compiled in it is never reached.
\<close>

definition view_readAdvance :: "'b Buffer \<Rightarrow> 'b buffer_view \<Rightarrow> size_t \<Rightarrow> 'b buffer_view option" where
  "view_readAdvance vt v bytes = do {
     let offset = sz_add bytes (bv_read_offset v);
     n \<leftarrow> readCompositeLength vt (bv_buffer v);
     assert_that (offset \<le> n);
     if offset > n then Some (v\<lparr>bv_read_offset := sz_add (bv_read_offset v) n\<rparr>)
     else Some (v\<lparr>bv_read_offset := sz_add (bv_read_offset v) bytes\<rparr>)
   }"

definition view_read :: "'b Buffer \<Rightarrow> 'b buffer_view \<Rightarrow> size_t \<Rightarrow> nat option" where
  "view_read vt v i = do {
     let pos = sz_add i (bv_read_offset v);
     n \<leftarrow> readCompositeLength vt (bv_buffer v);
     assert_that (pos < n);
     read_at vt (bv_buffer v) pos
   }"

definition view_writePosition :: "'b Buffer \<Rightarrow> 'b buffer_view \<Rightarrow> size_t" where
  "view_writePosition vt v = sz_add (bv_write_offset v) (writePosition vt (bv_buffer v))"

definition view_writeCompositeLength :: "'b Buffer \<Rightarrow> 'b buffer_view \<Rightarrow> size_t option" where
  "view_writeCompositeLength vt v = do {
     n \<leftarrow> writeCompositeLength vt (bv_buffer v);
     assert_that (bv_write_offset v \<le> n);
     if bv_write_offset v > n then Some 0 else Some (sz_sub n (bv_write_offset v))
   }"

definition view_writeSegmentLength :: "'b Buffer \<Rightarrow> 'b buffer_view \<Rightarrow> size_t \<Rightarrow> size_t option" where
  "view_writeSegmentLength vt v offset = do {
     let off = sz_add offset (bv_write_offset v);
     n \<leftarrow> writeCompositeLength vt (bv_buffer v);
     assert_that (off \<le> n);
     if off > n then Some 0 else writeSegmentLength vt (bv_buffer v) off
   }"

definition view_writeAdvance :: "'b Buffer \<Rightarrow> 'b buffer_view \<Rightarrow> size_t \<Rightarrow> 'b buffer_view option" where
  "view_writeAdvance vt v bytes = do {
     let offset = sz_add bytes (bv_write_offset v);
     n \<leftarrow> writeCompositeLength vt (bv_buffer v);
     assert_that (offset \<le> n);
     if offset > n then Some (v\<lparr>bv_write_offset := sz_add (bv_write_offset v) n\<rparr>)
     else Some (v\<lparr>bv_write_offset := sz_add (bv_write_offset v) bytes\<rparr>)
   }"

definition view_write :: "'b Buffer \<Rightarrow> 'b buffer_view \<Rightarrow> size_t \<Rightarrow> nat option" where
  "view_write vt v i = do {
     let pos = sz_add i (bv_write_offset v);
     n \<leftarrow> writeCompositeLength vt (bv_buffer v);
     assert_that (pos < n);
     write_at vt (bv_buffer v) pos
   }"

definition view_writeRequireLength ::
    "'b Buffer \<Rightarrow> 'b buffer_view \<Rightarrow> size_t \<Rightarrow> (error \<times> 'b buffer_view) option" where
  "view_writeRequireLength vt v bytes = do {
     (e, b) \<leftarrow> writeRequireLength vt (bv_buffer v) (sz_add bytes (bv_write_offset v));
     Some (e, v\<lparr>bv_buffer := b\<rparr>)
   }"

definition view_readOffset :: "'b buffer_view \<Rightarrow> size_t" where
  "view_readOffset v = bv_read_offset v"

definition view_writeOffset :: "'b buffer_view \<Rightarrow> size_t" where
  "view_writeOffset v = bv_write_offset v"

definition view_load :: "'b Buffer \<Rightarrow> 'b buffer_view \<Rightarrow> nat \<Rightarrow> byte option" where
  "view_load vt v l = load vt (bv_buffer v) l"

definition view_store :: "'b Buffer \<Rightarrow> 'b buffer_view \<Rightarrow> nat \<Rightarrow> byte \<Rightarrow> 'b buffer_view option" where
  "view_store vt v l x = do {
     b \<leftarrow> store vt (bv_buffer v) l x;
     Some (v\<lparr>bv_buffer := b\<rparr>)
   }"

definition view_vt :: "'b Buffer \<Rightarrow> 'b buffer_view Buffer" where
  "view_vt vt =
     \<lparr>readPosition = view_readPosition vt,
      readCompositeLength = view_readCompositeLength vt,
      readSegmentLength = view_readSegmentLength vt,
      readAdvance = view_readAdvance vt,
      read_at = view_read vt,
      read_const_at = view_read vt,
      writePosition = view_writePosition vt,
      writeCompositeLength = view_writeCompositeLength vt,
      writeSegmentLength = view_writeSegmentLength vt,
      writeAdvance = view_writeAdvance vt,
      write_at = view_write vt,
      writeRequireLength = view_writeRequireLength vt,
      load = view_load vt,
      store = view_store vt\<rparr>"

lemmas view_ops_def =
  view_vt_def view_readCompositeLength_def view_readSegmentLength_def view_readAdvance_def
  view_read_def view_writeCompositeLength_def view_writeSegmentLength_def view_writeAdvance_def
  view_write_def view_writeRequireLength_def view_load_def view_store_def

section \<open>The contracts of a view\<close>

context viewable_reader
begin

definition view_rd :: "'b buffer_view \<Rightarrow> byte list" where
  "view_rd v = drop (bv_read_offset v) (rd (bv_buffer v))"

text \<open>A view that is only read from: the buffer \<open>B\<close> behind it stays as it is.\<close>

definition reading_view :: "'b \<Rightarrow> 'b buffer_view \<Rightarrow> bool" where
  "reading_view B v \<longleftrightarrow> bv_buffer v = B \<and> inv B \<and> bv_read_offset v \<le> length (rd B)"

lemma reading_view_new: "inv b \<Longrightarrow> reading_view b (view_new b)"
  by (simp add: reading_view_def view_new_def)

lemma view_new_rd [simp]: "view_rd (view_new b) = rd b"
  by (simp add: view_rd_def view_new_def)

lemma view_add_read:
  assumes "reading_view B v" and "i \<le> length (view_rd v)"
  shows "sz_add i (bv_read_offset v) = i + bv_read_offset v"
    "sz_add (bv_read_offset v) i = i + bv_read_offset v"
    "readCompositeLength vt (bv_buffer v) = Some (length (rd B))"
    "length (view_rd v) = length (rd B) - bv_read_offset v"
    "bv_read_offset v \<le> length (rd B)" "length (rd B) < SIZE_MOD"
  using assms readable_bound [of B] PTRDIFF_MAX_double
  by (auto simp: reading_view_def view_rd_def readable sz_add_exact)

sublocale rview: buffer_reader "view_vt vt" "reading_view B" view_rd for B
proof (unfold_locales, goal_cases)
  case (1 v)
  then show ?case
    using view_add_read [of B v 0] by (simp add: view_ops_def sz_sub_exact)
next
  case (2 v)
  then show ?case
    using readable_bound [of B] by (simp add: reading_view_def view_rd_def)
next
  case (3 v i)
  then have i: "i + bv_read_offset v < length (rd B)"
    using view_add_read [of B v i] by simp
  from 3 have B: "inv B" "bv_buffer v = B" by (simp_all add: reading_view_def)
  have "view_rd v ! i = rd B ! (i + bv_read_offset v)"
    using 3 B by (simp add: view_rd_def reading_view_def add.commute)
  with read_loc [OF B(1) i] B 3 i show ?case
    using view_add_read(1,3) [of B v i] by (auto simp: view_ops_def)
next
  case (4 v off)
  then have off: "off + bv_read_offset v < length (rd B)"
    using view_add_read [of B v off] by simp
  from 4 have B: "inv B" "bv_buffer v = B" by (simp_all add: reading_view_def)
  from read_segment [OF B(1) off] obtain s l where
    s: "readSegmentLength vt B (off + bv_read_offset v) = Some s" "0 < s"
      "off + bv_read_offset v + s \<le> length (rd B)"
      "\<And>j. j < s \<Longrightarrow> read_at vt B (off + bv_read_offset v + j) = Some (l + j)" by blast
  have "read_at (view_vt vt) v (off + j) = Some (l + j)" if "j < s" for j
  proof -
    have j: "off + j \<le> length (view_rd v)"
      using that s(3) view_add_read(4) [OF 4(1), of 0] by simp
    show ?thesis
      using view_add_read [OF 4(1) j] that s(3) s(4) [OF that] B
      by (simp add: view_ops_def ac_simps)
  qed
  moreover have "readSegmentLength (view_vt vt) v off = Some s" "off + s \<le> length (view_rd v)"
    using s 4 B off view_add_read [of B v off] by (simp_all add: view_ops_def)
  ultimately show ?case using s(2) by blast
next
  case (5 v n)
  note w = view_add_read [OF 5]
  have n: "n + bv_read_offset v \<le> length (rd B)"
    using 5(2) w(4,5) by simp
  let ?v = "v\<lparr>bv_read_offset := n + bv_read_offset v\<rparr>"
  have "readAdvance (view_vt vt) v n = Some ?v"
    using n w(1,2,3) by (simp add: view_ops_def)
  moreover have "view_rd ?v = drop n (view_rd v)"
    unfolding view_rd_def by (simp add: add.commute [of n])
  moreover have "reading_view B ?v"
    using 5(1) n by (simp add: reading_view_def)
  ultimately show ?case by blast
qed

lemma commit_reading_view:
  assumes "reading_view B v"
  shows "\<exists>b'. readAdvance vt B (view_readOffset v) = Some b' \<and> inv b' \<and> rd b' = view_rd v"
  using assms read_advance [of B "bv_read_offset v"]
  by (auto simp: reading_view_def view_readOffset_def view_rd_def)

end

context viewable_writer
begin

definition view_wt :: "'b buffer_view \<Rightarrow> byte list" where
  "view_wt v = take (bv_write_offset v) (wr (bv_buffer v))"

definition view_wr :: "'b buffer_view \<Rightarrow> byte list" where
  "view_wr v = drop (bv_write_offset v) (wr (bv_buffer v))"

text \<open>A view that is written to: the bytes \<open>R\<close> readable in the buffer behind it stay as they are.\<close>

definition writing_view :: "byte list \<Rightarrow> 'b buffer_view \<Rightarrow> bool" where
  "writing_view R v \<longleftrightarrow> inv (bv_buffer v) \<and> rd (bv_buffer v) = R
     \<and> bv_write_offset v \<le> length (wr (bv_buffer v))"

lemma writing_view_new: "inv b \<Longrightarrow> writing_view (rd b) (view_new b)"
  by (simp add: writing_view_def view_new_def)

lemma view_new_wr [simp]: "view_wt (view_new b) = []" "view_wr (view_new b) = wr b"
  by (simp_all add: view_wt_def view_wr_def view_new_def)

lemma view_add_write:
  assumes "writing_view R v" and "i \<le> length (view_wr v)"
  shows "sz_add i (bv_write_offset v) = i + bv_write_offset v"
    "sz_add (bv_write_offset v) i = i + bv_write_offset v"
    "writeCompositeLength vt (bv_buffer v) = Some (length (wr (bv_buffer v)))"
    "length (view_wr v) = length (wr (bv_buffer v)) - bv_write_offset v"
    "bv_write_offset v \<le> length (wr (bv_buffer v))" "length (wr (bv_buffer v)) < SIZE_MOD"
  using assms writable_bound [of "bv_buffer v"] PTRDIFF_MAX_double
  by (auto simp: writing_view_def view_wr_def writable sz_add_exact)

sublocale wview: buffer_writer0 "view_vt vt" "writing_view R" view_wt view_wr for R
proof (unfold_locales, goal_cases)
  case (1 v)
  then show ?case
    using view_add_write [of R v 0] by (simp add: view_ops_def sz_sub_exact)
next
  case (2 v)
  then show ?case
    using writable_bound [of "bv_buffer v"] by (simp add: writing_view_def view_wr_def)
next
  case (3 v i)
  then have i: "i + bv_write_offset v < length (wr (bv_buffer v))"
    using view_add_write [of R v i] by simp
  from 3 have "inv (bv_buffer v)" by (simp add: writing_view_def)
  from write_loc [OF this i] obtain l where
    l: "write_at vt (bv_buffer v) (i + bv_write_offset v) = Some l"
      "\<And>x. \<exists>b'. store vt (bv_buffer v) l x = Some b' \<and> inv b' \<and> rd b' = rd (bv_buffer v)
          \<and> wr b' = (wr (bv_buffer v))[i + bv_write_offset v := x]" by blast
  have "\<exists>v'. store (view_vt vt) v l x = Some v' \<and> writing_view R v' \<and> view_wt v' = view_wt v
          \<and> view_wr v' = (view_wr v)[i := x]" for x
    using l(2) [of x] 3 by (auto simp: view_ops_def writing_view_def view_wt_def view_wr_def drop_update_above)
  with l(1) i 3 show ?case
    using view_add_write [of R v i] by (auto simp: view_ops_def)
next
  case (4 v l x v' i)
  then obtain b' where b': "store vt (bv_buffer v) l x = Some b'" "v' = v\<lparr>bv_buffer := b'\<rparr>"
    by (auto simp: view_ops_def elim!: bind_eq_SomeE)
  have "inv (bv_buffer v)" using 4 by (simp add: writing_view_def)
  from write_at_store [OF this b'(1)] show ?case
    unfolding b'(2) by (cases "writeCompositeLength vt (bv_buffer v)") (simp_all add: view_ops_def)
next
  case (5 v off)
  then have off: "off + bv_write_offset v < length (wr (bv_buffer v))"
    using view_add_write [of R v off] by simp
  from 5 have B: "inv (bv_buffer v)" by (simp add: writing_view_def)
  from write_segment [OF B off] obtain s l where
    s: "writeSegmentLength vt (bv_buffer v) (off + bv_write_offset v) = Some s" "0 < s"
      "off + bv_write_offset v + s \<le> length (wr (bv_buffer v))"
      "\<And>j. j < s \<Longrightarrow> write_at vt (bv_buffer v) (off + bv_write_offset v + j) = Some (l + j)" by blast
  have "write_at (view_vt vt) v (off + j) = Some (l + j)" if "j < s" for j
  proof -
    have j: "off + j \<le> length (view_wr v)"
      using that s(3) view_add_write(4) [OF 5(1), of 0] by simp
    show ?thesis
      using view_add_write [OF 5(1) j] that s(3) s(4) [OF that] B
      by (simp add: view_ops_def ac_simps)
  qed
  moreover have "writeSegmentLength (view_vt vt) v off = Some s" "off + s \<le> length (view_wr v)"
    using s 5 B off view_add_write [of R v off] by (simp_all add: view_ops_def)
  ultimately show ?case using s(2) by blast
next
  case (6 v n)
  note w = view_add_write [OF 6(1,3)]
  have n: "n + bv_write_offset v \<le> length (wr (bv_buffer v))"
    using 6(3) w(4,5) by simp
  let ?v = "v\<lparr>bv_write_offset := n + bv_write_offset v\<rparr>"
  have "writeAdvance (view_vt vt) v n = Some ?v"
    using n w(1,2,3) by (simp add: view_ops_def)
  moreover have "view_wt ?v = view_wt v @ take n (view_wr v)" "view_wr ?v = drop n (view_wr v)"
    unfolding view_wt_def view_wr_def by (simp_all add: add.commute [of n] take_add)
  moreover have "writing_view R ?v"
    using 6(1) n by (simp add: writing_view_def)
  ultimately show ?case by blast
next
  case (7 v n)
  then have "n + bv_write_offset v < SIZE_MOD"
    using writable_bound [of "bv_buffer v"] PTRDIFF_MAX_double by (simp add: writing_view_def)
  with 7 show ?case
    using write_require_any [of "bv_buffer v" "n + bv_write_offset v"]
    by (auto simp: view_ops_def writing_view_def view_wr_def sz_add_exact)
next
  case (8 v)
  then show ?case
    using view_add_write [of R v 0] by (simp add: view_ops_def)
qed

text \<open>
  Committing a view: advancing the buffer behind it by what the view has written appends exactly
  those bytes to the readable ones.
\<close>

lemma commit_view:
  assumes "writing_view R v" and "view_wt v \<noteq> []"
  shows "\<exists>b'. writeAdvance vt (bv_buffer v) (view_writeOffset v) = Some b' \<and> inv b'
           \<and> rd b' = R @ view_wt v \<and> wr b' = view_wr v"
  using assms write_advance [of "bv_buffer v" "bv_write_offset v"]
  by (auto simp: writing_view_def view_writeOffset_def view_wt_def view_wr_def)

end

end
