(* ===== verification/Ring_Buffer.thy ===== *)
theory Ring_Buffer
  imports Buffer_View
begin

text \<open>
  Class \<open>RingBuffer\<close> (\<open>source/forstio/buffer.h\<close>, lines 89-130, and \<open>buffer.cpp\<close>, lines 194-353).
  The state is a record of the four members. The abstract state is the vector read from the read
  position on, cut at the fill level; the interpretation of \<open>storage_buffer\<close> shows that the index
  arithmetic with its two-segment case splits implements a bounded queue of bytes and never
  leaves the vector. Two corners lie outside that contract and are stated as they are:
  \<open>writeAdvance(0)\<close> on a full buffer empties it, and \<open>writeSegmentLength\<close> at the very end of the
  writable area reports a segment that is not there.
\<close>

section \<open>State and operations\<close>

record ring_buffer =
  rb_buffer :: "byte list"
  rb_read_position :: size_t
  rb_write_position :: size_t
  rb_write_reached_read :: bool

definition RING_BUFFER_MAX_SIZE :: size_t where
  "RING_BUFFER_MAX_SIZE = 4096"

definition ring_new :: "size_t \<Rightarrow> ring_buffer" where
  "ring_new sz = \<lparr>rb_buffer = replicate sz 0, rb_read_position = 0, rb_write_position = 0,
                 rb_write_reached_read = False\<rparr>"

definition ring_default :: ring_buffer where
  "ring_default = ring_new RING_BUFFER_MAX_SIZE"

definition ring_size :: "ring_buffer \<Rightarrow> size_t" where
  "ring_size r = length (rb_buffer r)"

definition ring_readPosition :: "ring_buffer \<Rightarrow> size_t" where
  "ring_readPosition r = rb_read_position r"

definition ring_writePosition :: "ring_buffer \<Rightarrow> size_t" where
  "ring_writePosition r = rb_write_position r"

text \<open>The idiom \<open>p >= buffer.size() ? p - buffer.size() : p\<close>.\<close>

definition ring_wrap :: "ring_buffer \<Rightarrow> size_t \<Rightarrow> size_t" where
  "ring_wrap r p = (if p \<ge> ring_size r then sz_sub p (ring_size r) else p)"

definition ring_readCompositeLength :: "ring_buffer \<Rightarrow> size_t" where
  "ring_readCompositeLength r =
     (if ring_writePosition r < ring_readPosition r
      then sz_sub (ring_size r) (sz_sub (ring_readPosition r) (ring_writePosition r))
      else if rb_write_reached_read r then ring_size r
      else sz_sub (ring_writePosition r) (ring_readPosition r))"

definition ring_readSegmentLength :: "ring_buffer \<Rightarrow> size_t \<Rightarrow> size_t option" where
  "ring_readSegmentLength r offset = do {
     let read_composite = ring_readCompositeLength r;
     assert_that (offset \<le> read_composite);
     let offset = min offset read_composite;
     let remaining = sz_sub read_composite offset;
     let read_offset = ring_wrap r (sz_add (ring_readPosition r) offset);
     if ring_writePosition r < read_offset then Some (sz_sub (ring_size r) read_offset)
     else if ring_writePosition r = read_offset then
       (if remaining > 0 then Some (sz_sub (ring_size r) read_offset) else Some 0)
     else Some (sz_sub (ring_writePosition r) read_offset)
   }"

definition ring_readAdvance :: "ring_buffer \<Rightarrow> size_t \<Rightarrow> ring_buffer option" where
  "ring_readAdvance r bytes = do {
     let read_composite = ring_readCompositeLength r;
     assert_that (bytes \<le> read_composite);
     let bytes = min bytes read_composite;
     let advanced = sz_add (rb_read_position r) bytes;
     Some (r\<lparr>rb_read_position := ring_wrap r advanced,
             rb_write_reached_read := (if bytes > 0 then False else rb_write_reached_read r)\<rparr>)
   }"

definition ring_read :: "ring_buffer \<Rightarrow> size_t \<Rightarrow> nat option" where
  "ring_read r i = do {
     assert_that (i < ring_readCompositeLength r);
     Some (ring_wrap r (sz_add (rb_read_position r) i))
   }"

definition ring_writeCompositeLength :: "ring_buffer \<Rightarrow> size_t" where
  "ring_writeCompositeLength r =
     (if ring_readPosition r > ring_writePosition r
      then sz_sub (ring_readPosition r) (ring_writePosition r)
      else if rb_write_reached_read r then 0
      else sz_sub (ring_size r) (sz_sub (ring_writePosition r) (ring_readPosition r)))"

definition ring_writeSegmentLength :: "ring_buffer \<Rightarrow> size_t \<Rightarrow> size_t option" where
  "ring_writeSegmentLength r offset = do {
     let write_composite = ring_writeCompositeLength r;
     assert_that (offset \<le> write_composite);
     let offset = min offset write_composite;
     let write_offset = ring_wrap r (sz_add (ring_writePosition r) offset);
     if rb_read_position r > write_offset then Some (sz_sub (rb_read_position r) write_offset)
     else if rb_write_reached_read r then Some 0
     else Some (sz_sub (ring_size r) write_offset)
   }"

definition ring_writeAdvance :: "ring_buffer \<Rightarrow> size_t \<Rightarrow> ring_buffer option" where
  "ring_writeAdvance r bytes = do {
     assert_that (bytes \<le> ring_writeCompositeLength r);
     let advanced = sz_add (rb_write_position r) bytes;
     let write_position = ring_wrap r advanced;
     Some (r\<lparr>rb_write_position := write_position,
             rb_write_reached_read := (write_position = rb_read_position r \<and> bytes > 0)\<rparr>)
   }"

definition ring_write :: "ring_buffer \<Rightarrow> size_t \<Rightarrow> nat option" where
  "ring_write r i = do {
     assert_that (i < ring_writeCompositeLength r);
     Some (ring_wrap r (sz_add (rb_write_position r) i))
   }"

definition ring_writeRequireLength :: "ring_buffer \<Rightarrow> size_t \<Rightarrow> error" where
  "ring_writeRequireLength r bytes =
     (let write_remain = ring_writeCompositeLength r
      in if bytes > write_remain then recoverableError ''Buffer too small'' else noError)"

definition ring_load :: "ring_buffer \<Rightarrow> nat \<Rightarrow> byte option" where
  "ring_load r l = (if l < ring_size r then Some (rb_buffer r ! l) else None)"

definition ring_store :: "ring_buffer \<Rightarrow> nat \<Rightarrow> byte \<Rightarrow> ring_buffer option" where
  "ring_store r l v = (if l < ring_size r then Some (r\<lparr>rb_buffer := (rb_buffer r)[l := v]\<rparr>) else None)"

definition ring_vt :: "ring_buffer Buffer" where
  "ring_vt =
     \<lparr>readPosition = ring_readPosition,
      readCompositeLength = (\<lambda>r. Some (ring_readCompositeLength r)),
      readSegmentLength = ring_readSegmentLength,
      readAdvance = ring_readAdvance,
      read_at = ring_read,
      read_const_at = ring_read,
      writePosition = ring_writePosition,
      writeCompositeLength = (\<lambda>r. Some (ring_writeCompositeLength r)),
      writeSegmentLength = ring_writeSegmentLength,
      writeAdvance = ring_writeAdvance,
      write_at = ring_write,
      writeRequireLength = (\<lambda>r n. Some (ring_writeRequireLength r n, r)),
      load = ring_load,
      store = ring_store\<rparr>"

section \<open>Abstract state\<close>

definition ring_inv :: "ring_buffer \<Rightarrow> bool" where
  "ring_inv r \<longleftrightarrow>
     ring_size r \<le> PTRDIFF_MAX
     \<and> (if ring_size r = 0 then rb_read_position r = 0 \<and> rb_write_position r = 0
        else rb_read_position r < ring_size r \<and> rb_write_position r < ring_size r)
     \<and> (rb_write_reached_read r \<longrightarrow> rb_read_position r = rb_write_position r \<and> 0 < ring_size r)"

text \<open>The fill level, in plain arithmetic.\<close>

definition ring_fill :: "ring_buffer \<Rightarrow> nat" where
  "ring_fill r =
     (if rb_write_position r < rb_read_position r
      then ring_size r - (rb_read_position r - rb_write_position r)
      else if rb_write_reached_read r then ring_size r
      else rb_write_position r - rb_read_position r)"

definition ring_rd :: "ring_buffer \<Rightarrow> byte list" where
  "ring_rd r = take (ring_fill r) (rotate (rb_read_position r) (rb_buffer r))"

definition ring_wr :: "ring_buffer \<Rightarrow> byte list" where
  "ring_wr r = drop (ring_fill r) (rotate (rb_read_position r) (rb_buffer r))"

lemmas ring_defs =
  ring_size_def ring_readPosition_def ring_writePosition_def ring_wrap_def ring_fill_def

lemma ring_inv_new: "sz \<le> PTRDIFF_MAX \<Longrightarrow> ring_inv (ring_new sz)"
  by (simp add: ring_inv_def ring_new_def ring_size_def)

lemma ring_rd_new [simp]: "ring_rd (ring_new sz) = []"
  by (simp add: ring_rd_def ring_fill_def ring_new_def)

lemma ring_wr_new [simp]: "ring_wr (ring_new sz) = replicate sz 0"
proof -
  have "rotate 0 (replicate sz (0::byte)) = replicate sz 0" by simp
  then show ?thesis
    by (simp add: ring_wr_def ring_fill_def ring_new_def)
qed

lemma ring_inv_bounds:
  assumes "ring_inv r"
  shows "ring_size r \<le> PTRDIFF_MAX" "rb_read_position r \<le> ring_size r"
    "rb_write_position r \<le> ring_size r" "ring_fill r \<le> ring_size r"
  using assms by (auto simp: ring_inv_def ring_fill_def split: if_splits)

lemma length_ring_rd [simp]: "ring_inv r \<Longrightarrow> length (ring_rd r) = ring_fill r"
  using ring_inv_bounds [of r] by (simp add: ring_rd_def ring_size_def)

lemma length_ring_wr [simp]: "length (ring_wr r) = ring_size r - ring_fill r"
  by (simp add: ring_wr_def ring_size_def)

lemma ring_readCompositeLength_eq [simp]:
  assumes "ring_inv r"
  shows "ring_readCompositeLength r = ring_fill r"
  using ring_inv_bounds [OF assms] PTRDIFF_MAX_double
  by (auto simp: ring_readCompositeLength_def ring_fill_def ring_readPosition_def
      ring_writePosition_def sz_sub_exact)

lemma ring_writeCompositeLength_eq [simp]:
  assumes "ring_inv r"
  shows "ring_writeCompositeLength r = ring_size r - ring_fill r"
  using ring_inv_bounds [OF assms] PTRDIFF_MAX_double
  by (auto simp: ring_writeCompositeLength_def ring_fill_def ring_readPosition_def
      ring_writePosition_def sz_sub_exact)

text \<open>An index at most one vector length past a position wraps to its residue.\<close>

lemma ring_wrap_add:
  assumes "ring_inv r" and "p < ring_size r" and "i \<le> ring_size r"
  shows "ring_wrap r (sz_add p i) = (p + i) mod ring_size r"
proof -
  have "p + i < SIZE_MOD"
    using assms ring_inv_bounds [OF assms(1)] PTRDIFF_MAX_add [of p i] by simp
  with assms show ?thesis
    by (simp add: ring_wrap_def size_simps mod_add_wrap)
qed

lemma ring_write_position_eq:
  assumes "ring_inv r" and "0 < ring_size r"
  shows "rb_write_position r = (rb_read_position r + ring_fill r) mod ring_size r"
  using assms ring_inv_bounds [OF assms(1)]
  by (auto simp: ring_inv_def ring_fill_def mod_add_wrap)

section \<open>Operations on the abstract state\<close>

lemma ring_read_loc:
  assumes "ring_inv r" and "i < ring_fill r"
  shows "ring_read r i = Some ((rb_read_position r + i) mod ring_size r)"
  using assms ring_inv_bounds [OF assms(1)]
  by (auto simp: ring_read_def ring_wrap_add ring_inv_def)

lemma ring_write_loc:
  assumes "ring_inv r" and "i < ring_size r - ring_fill r"
  shows "ring_write r i = Some ((rb_write_position r + i) mod ring_size r)"
  using assms by (auto simp: ring_write_def ring_wrap_add ring_inv_def)

lemma ring_load_read:
  assumes "ring_inv r" and "i < ring_fill r"
  shows "ring_load r ((rb_read_position r + i) mod ring_size r) = Some (ring_rd r ! i)"
proof -
  have "i < length (rb_buffer r)"
    using assms ring_inv_bounds [OF assms(1)] by (simp add: ring_size_def)
  then have "(rb_read_position r + i) mod length (rb_buffer r) < length (rb_buffer r)"
    by (intro mod_less_divisor) linarith
  with assms \<open>i < length (rb_buffer r)\<close> show ?thesis
    by (simp add: ring_load_def ring_rd_def nth_rotate ring_size_def)
qed

lemma ring_store_write:
  assumes "ring_inv r" and "i < ring_size r - ring_fill r"
  shows "\<exists>r'. ring_store r ((rb_write_position r + i) mod ring_size r) v = Some r'
           \<and> ring_inv r' \<and> ring_rd r' = ring_rd r \<and> ring_wr r' = (ring_wr r)[i := v]"
proof -
  have pos: "0 < ring_size r" using assms by simp
  define k where "k = ring_fill r + i"
  have k: "k < length (rb_buffer r)" using assms by (simp add: k_def ring_size_def)
  have l: "(rb_write_position r + i) mod ring_size r = (rb_read_position r + k) mod length (rb_buffer r)"
    using ring_write_position_eq [OF assms(1) pos]
    by (simp add: k_def ring_size_def mod_simps add.assoc)
  let ?r = "r\<lparr>rb_buffer := (rb_buffer r)[(rb_read_position r + k) mod length (rb_buffer r) := v]\<rparr>"
  have rot: "rotate (rb_read_position ?r) (rb_buffer ?r)
               = (rotate (rb_read_position r) (rb_buffer r))[k := v]"
    using rotate_update [OF k] by simp
  have same: "ring_fill ?r = ring_fill r" "ring_inv ?r"
    using assms(1) by (auto simp: ring_fill_def ring_size_def ring_inv_def)
  have "ring_rd ?r = ring_rd r" "ring_wr ?r = (ring_wr r)[i := v]"
    unfolding ring_rd_def ring_wr_def rot same(1) by (simp_all add: k_def drop_update_above)
  with same pos l show ?thesis
    by (auto simp: ring_store_def ring_size_def)
qed

lemma ring_readAdvance_abs:
  assumes "ring_inv r" and "n \<le> ring_fill r"
  shows "\<exists>r'. ring_readAdvance r n = Some r' \<and> ring_inv r'
           \<and> ring_rd r' = drop n (ring_rd r) \<and> ring_wr r' = ring_wr r @ take n (ring_rd r)"
proof (cases "ring_size r = 0")
  case True
  with assms have "n = 0" "ring_wrap r (sz_add (rb_read_position r) 0) = rb_read_position r"
    using ring_inv_bounds [OF assms(1)] by (auto simp: ring_inv_def ring_wrap_def sz_add_def sz_sub_def)
  with assms show ?thesis
    by (auto simp: ring_readAdvance_def)
next
  case False
  then have pos: "0 < ring_size r" by simp
  note b = ring_inv_bounds [OF assms(1)]
  let ?p = "(rb_read_position r + n) mod ring_size r"
  let ?r = "r\<lparr>rb_read_position := ?p, rb_write_reached_read := (if n > 0 then False else rb_write_reached_read r)\<rparr>"
  have adv: "ring_readAdvance r n = Some ?r"
    using assms b pos by (simp add: ring_readAdvance_def ring_wrap_add ring_inv_def)
  have inv: "ring_inv ?r"
    using assms pos by (auto simp: ring_inv_def ring_size_def)
  have p: "?p = (if ring_size r \<le> rb_read_position r + n then rb_read_position r + n - ring_size r
                 else rb_read_position r + n)"
    using assms b pos by (simp add: ring_inv_def mod_add_wrap)
  have fill: "ring_fill ?r = ring_fill r - n"
    using assms pos unfolding p by (auto simp: ring_inv_def ring_fill_def ring_size_def split: if_splits)
  have rot: "rotate ?p (rb_buffer r) = drop n (rotate (rb_read_position r) (rb_buffer r))
               @ take n (rotate (rb_read_position r) (rb_buffer r))"
    using assms b by (simp add: ring_size_def rotate_mod rotate_add_eq)
  have "ring_rd ?r = drop n (ring_rd r)" "ring_wr ?r = ring_wr r @ take n (ring_rd r)"
    unfolding ring_rd_def ring_wr_def fill using assms b rot
    by (simp_all add: ring_size_def drop_take min_def)
  with adv inv show ?thesis by blast
qed

lemma ring_writeAdvance_abs:
  assumes "ring_inv r" and "0 < n" and "n \<le> ring_size r - ring_fill r"
  shows "\<exists>r'. ring_writeAdvance r n = Some r' \<and> ring_inv r'
           \<and> ring_rd r' = ring_rd r @ take n (ring_wr r) \<and> ring_wr r' = drop n (ring_wr r)"
proof -
  have pos: "0 < ring_size r" using assms by simp
  note b = ring_inv_bounds [OF assms(1)]
  let ?p = "(rb_write_position r + n) mod ring_size r"
  let ?r = "r\<lparr>rb_write_position := ?p, rb_write_reached_read := (?p = rb_read_position r \<and> n > 0)\<rparr>"
  have adv: "ring_writeAdvance r n = Some ?r"
    using assms b pos by (simp add: ring_writeAdvance_def ring_wrap_add ring_inv_def Let_def)
  have inv: "ring_inv ?r"
    using assms pos by (auto simp: ring_inv_def ring_size_def)
  have p: "?p = (if ring_size r \<le> rb_write_position r + n then rb_write_position r + n - ring_size r
                 else rb_write_position r + n)"
    using assms b pos by (simp add: ring_inv_def mod_add_wrap)
  have fill: "ring_fill ?r = ring_fill r + n"
    using assms pos unfolding p by (auto simp: ring_inv_def ring_fill_def ring_size_def split: if_splits)
  have "ring_rd ?r = ring_rd r @ take n (ring_wr r)"
    unfolding ring_rd_def ring_wr_def fill by (simp add: take_add)
  moreover have "ring_wr ?r = drop n (ring_wr r)"
    unfolding ring_wr_def fill by (simp add: add.commute)
  ultimately show ?thesis using adv inv by blast
qed

lemma ring_read_segment_abs:
  assumes "ring_inv r" and "off < ring_fill r"
  shows "\<exists>s l. ring_readSegmentLength r off = Some s \<and> 0 < s \<and> off + s \<le> ring_fill r
           \<and> (\<forall>j < s. ring_read r (off + j) = Some (l + j))"
proof -
  note b = ring_inv_bounds [OF assms(1)]
  have pos: "0 < ring_size r" using assms b by linarith
  define l where "l = (rb_read_position r + off) mod ring_size r"
  have lw: "l = (if ring_size r \<le> rb_read_position r + off then rb_read_position r + off - ring_size r
                 else rb_read_position r + off)"
    using assms b pos by (simp add: l_def ring_inv_def mod_add_wrap)
  have wrap: "ring_wrap r (sz_add (rb_read_position r) off) = l"
    using assms b pos by (simp add: l_def ring_wrap_add ring_inv_def)
  define s where "s = (if rb_write_position r \<le> l then ring_size r - l else rb_write_position r - l)"
  have l: "l < ring_size r" using pos by (simp add: l_def)
  have seg: "ring_readSegmentLength r off = Some s"
    using assms b wrap l PTRDIFF_MAX_double
    by (auto simp: ring_readSegmentLength_def ring_readPosition_def ring_writePosition_def s_def
        sz_sub_exact)
  have s: "0 < s" "l + s \<le> ring_size r" "off + s \<le> ring_fill r"
    using assms pos l lw by (auto simp: s_def ring_inv_def ring_fill_def split: if_splits)
  have "ring_read r (off + j) = Some (l + j)" if "j < s" for j
  proof -
    have "(rb_read_position r + (off + j)) mod ring_size r = (l + j) mod ring_size r"
      by (simp add: l_def mod_simps add.assoc)
    with that s assms show ?thesis
      by (simp add: ring_read_loc)
  qed
  with seg s show ?thesis by blast
qed

lemma ring_write_segment_abs:
  assumes "ring_inv r" and "off < ring_size r - ring_fill r"
  shows "\<exists>s l. ring_writeSegmentLength r off = Some s \<and> 0 < s \<and> off + s \<le> ring_size r - ring_fill r
           \<and> (\<forall>j < s. ring_write r (off + j) = Some (l + j))"
proof -
  note b = ring_inv_bounds [OF assms(1)]
  have pos: "0 < ring_size r" using assms by linarith
  define l where "l = (rb_write_position r + off) mod ring_size r"
  have lw: "l = (if ring_size r \<le> rb_write_position r + off then rb_write_position r + off - ring_size r
                 else rb_write_position r + off)"
    using assms b pos by (simp add: l_def ring_inv_def mod_add_wrap)
  have wrap: "ring_wrap r (sz_add (rb_write_position r) off) = l"
    using assms b pos by (simp add: l_def ring_wrap_add ring_inv_def)
  define s where "s = (if rb_read_position r > l then rb_read_position r - l else ring_size r - l)"
  have l: "l < ring_size r" using pos by (simp add: l_def)
  have free: "\<not> rb_write_reached_read r"
    using assms by (auto simp: ring_inv_def ring_fill_def)
  have seg: "ring_writeSegmentLength r off = Some s"
    using assms b wrap l free PTRDIFF_MAX_double
    by (auto simp: ring_writeSegmentLength_def ring_readPosition_def ring_writePosition_def s_def
        sz_sub_exact)
  have s: "0 < s" "l + s \<le> ring_size r" "off + s \<le> ring_size r - ring_fill r"
    using assms pos l free lw by (auto simp: s_def ring_inv_def ring_fill_def split: if_splits)
  have "ring_write r (off + j) = Some (l + j)" if "j < s" for j
  proof -
    have "(rb_write_position r + (off + j)) mod ring_size r = (l + j) mod ring_size r"
      by (simp add: l_def mod_simps add.assoc)
    with that s assms show ?thesis
      by (simp add: ring_write_loc)
  qed
  with seg s show ?thesis by blast
qed

lemma ring_write_store:
  "ring_store r l v = Some r' \<Longrightarrow>
     ring_write r' i = ring_write r i \<and> ring_writeCompositeLength r' = ring_writeCompositeLength r"
  by (auto simp: ring_store_def ring_write_def ring_wrap_def ring_size_def
      ring_writeCompositeLength_def ring_readPosition_def ring_writePosition_def split: if_splits)

lemmas ring_ops = ring_readAdvance_abs ring_writeAdvance_abs ring_read_segment_abs
  ring_write_segment_abs ring_store_write

section \<open>The contract\<close>

interpretation ring: queue_buffer ring_vt ring_inv ring_rd ring_wr True
proof (unfold_locales, goal_cases)
  case (1 b)
  then show ?case by (simp add: ring_vt_def)
next
  case (2 b)
  then show ?case using ring_inv_bounds [of b] by simp
next
  case (3 b i)
  then show ?case using ring_read_loc [of b i] ring_load_read [of b i] by (simp add: ring_vt_def)
next
  case (4 b off)
  then show ?case using ring_read_segment_abs [of b off] by (simp add: ring_vt_def)
next
  case (5 b n)
  then show ?case using ring_readAdvance_abs [of b n] by (auto simp: ring_vt_def)
next
  case (6 b)
  then show ?case by (simp add: ring_vt_def)
next
  case (7 b)
  then show ?case using ring_inv_bounds [of b] by simp
next
  case (8 b i)
  then show ?case using ring_write_loc [of b i] ring_store_write [of b i] by (simp add: ring_vt_def)
next
  case (9 b l v b' i)
  then show ?case by (simp add: ring_vt_def ring_write_store)
next
  case (10 b off)
  then show ?case using ring_write_segment_abs [of b off] by (simp add: ring_vt_def)
next
  case (11 b n)
  then show ?case using ring_writeAdvance_abs [of b n] by (simp add: ring_vt_def)
next
  case (12 b n)
  then show ?case by (auto simp: ring_vt_def ring_writeRequireLength_def Let_def)
next
  case (13 b n)
  then show ?case by (auto simp: ring_vt_def ring_writeRequireLength_def Let_def)
next
  case (14 b n b')
  then show ?case using ring_readAdvance_abs [of b n] by (auto simp: ring_vt_def)
next
  case (15 b n b')
  then have "ring_wr b' = ring_wr b @ take n (ring_rd b)"
    using ring_readAdvance_abs [of b n] by (auto simp: ring_vt_def)
  with 15 show ?case by (simp del: length_ring_wr)
qed

section \<open>Properties\<close>

text \<open>
  C1: any sequence of \<open>push\<close> and \<open>pop\<close> calls on a fresh ring buffer of \<open>N\<close> bytes runs without a
  failed assertion, without leaving the vector and without looping forever, and returns exactly
  what a queue of capacity \<open>N\<close> returns: the same bytes in the same order, the same errors, and an
  unchanged queue after an error. The content and the room at the end are those of the queue.
\<close>

theorem ring_refines_bounded_queue:
  assumes "N \<le> PTRDIFF_MAX" and "list_all call_in_memory cs"
  shows "\<exists>r'. run_buffer ring_vt (ring_new N) cs = Some (fst (queue_run True (N, []) cs), r')
           \<and> ring_inv r' \<and> (ring_writeCompositeLength r', ring_rd r') = snd (queue_run True (N, []) cs)"
  using ring.run_refines [OF ring_inv_new [OF assms(1)] assms(2)]
  by (auto simp del: length_ring_wr simp: length_ring_wr [symmetric])

theorem ring_refines_bounded_queue_witness:
  "\<exists>r'. run_buffer ring_vt (ring_new 3) [Push [1, 2], PopByte, Push [3, 4], Pop 3, PushByte 9, Push [1, 1, 1]]
     = Some ([(noError, []), (noError, [1]), (noError, []), (noError, [2, 3, 4]), (noError, []),
              (recoverableError ''Buffer too small'', [])], r') \<and> ring_rd r' = [9]"
  using ring_refines_bounded_queue
    [of 3 "[Push [1, 2], PopByte, Push [3, 4], Pop 3, PushByte 9, Push [1, 1, 1]]"]
  by (auto simp: PTRDIFF_MAX_def too_small_def)

text \<open>
  C31: \<open>read(i)\<close> for all indices below \<open>readCompositeLength\<close> and \<open>write(i)\<close> for all indices below
  \<open>writeCompositeLength\<close>, taken together, hand out every location of the vector exactly once and no
  location outside of it. The ring buffer in a valid state may be empty, partly filled, wrapped around or
  full: no two indices share a location, so that storing through one of them changes no other byte, and
  the two lengths announce the whole vector.
\<close>

theorem ring_locations_disjoint:
  assumes "ring_inv r"
  shows "\<exists>rs ws. map (ring_read r) [0..<ring_readCompositeLength r] = map Some rs
    \<and> map (ring_write r) [0..<ring_writeCompositeLength r] = map Some ws
    \<and> distinct (rs @ ws) \<and> set (rs @ ws) = {..<length (rb_buffer r)}"
proof -
  let ?N = "ring_size r" and ?k = "ring_fill r"
  let ?loc = "\<lambda>i. (rb_read_position r + i) mod ?N"
  have k: "?k \<le> ?N" using ring_inv_bounds [OF assms] by simp
  have w: "(rb_write_position r + i) mod ?N = ?loc (?k + i)" if "i < ?N - ?k" for i
    using ring_write_position_eq [OF assms] that by (simp add: mod_simps add.assoc)
  have "map (ring_read r) [0..<ring_readCompositeLength r] = map Some (map ?loc [0..<?k])"
    using assms by (simp add: ring_read_loc)
  moreover have "map (ring_write r) [0..<ring_writeCompositeLength r] = map Some (map ?loc [?k..<?N])"
    using assms w k by (intro nth_equalityI) (simp_all add: ring_write_loc)
  moreover have all: "map ?loc [0..<?k] @ map ?loc [?k..<?N] = map ?loc [0..<?N]"
    using upt_add_eq_append [of 0 ?k "?N - ?k"] k by simp
  moreover have "inj_on ?loc {0..<?N}" by (auto simp: inj_on_def mod_add_cancel_iff)
  then have d: "distinct (map ?loc [0..<?N])" by (simp add: distinct_map)
  moreover have "set (map ?loc [0..<?N]) = {..<?N}"
  proof (rule card_subset_eq)
    show "set (map ?loc [0..<?N]) \<subseteq> {..<?N}" by auto
    show "card (set (map ?loc [0..<?N])) = card {..<?N}" unfolding distinct_card [OF d] by simp
  qed simp
  ultimately show ?thesis by (intro exI [of _ "map ?loc [0..<?k]"] exI [of _ "map ?loc [?k..<?N]"]) (simp add: ring_size_def)
qed

text \<open>A full ring buffer, whose readable bytes begin in the middle of the vector.\<close>

theorem ring_locations_disjoint_witness:
  "\<exists>rs ws. map (ring_read \<lparr>rb_buffer = [1, 2, 3], rb_read_position = 2, rb_write_position = 2,
       rb_write_reached_read = True\<rparr>) [0..<3] = map Some rs \<and> ws = []
     \<and> distinct (rs @ ws) \<and> set (rs @ ws) = {..<3}"
proof -
  let ?r = "\<lparr>rb_buffer = [1, 2, 3], rb_read_position = 2, rb_write_position = 2,
            rb_write_reached_read = True\<rparr> :: ring_buffer"
  have inv: "ring_inv ?r"
    by (simp add: ring_inv_def ring_size_def PTRDIFF_MAX_def)
  have "ring_fill ?r = 3" "ring_size ?r = 3"
    by (simp_all add: ring_fill_def ring_size_def)
  with inv have "ring_readCompositeLength ?r = 3" "ring_writeCompositeLength ?r = 0" by simp_all
  with ring_locations_disjoint [OF inv] show ?thesis by (simp add: numeral_3_eq_3)
qed

text \<open>
  \<open>toString\<close> and \<open>toHex\<close> of a ring buffer in a valid state print its readable bytes in order,
  across the wrap-around of the vector, and do not touch them; \<open>toHex\<close> prints two digits per byte
  and ends every fourth byte but the last with a new line instead of a blank.
\<close>

theorem ring_text:
  assumes "ring_inv r"
  shows "toString ring_vt r = Some (ring_rd r) \<and> toHex ring_vt r = Some (hex_text 0 (ring_rd r))"
  using ring.toString_correct [OF assms] ring.toHex_correct [OF assms] by simp

theorem ring_text_witness:
  "toString ring_vt \<lparr>rb_buffer = [1, 2, 255], rb_read_position = 2, rb_write_position = 1,
      rb_write_reached_read = False\<rparr> = Some [255, 1]
   \<and> toHex ring_vt \<lparr>rb_buffer = [1, 2, 255], rb_read_position = 2, rb_write_position = 1,
      rb_write_reached_read = False\<rparr> = Some ''ff 01''"
proof -
  let ?r = "\<lparr>rb_buffer = [1, 2, 255], rb_read_position = 2, rb_write_position = 1,
            rb_write_reached_read = False\<rparr> :: ring_buffer"
  have "ring_inv ?r" by (simp add: ring_inv_def ring_size_def PTRDIFF_MAX_def)
  moreover have "ring_rd ?r = [255, 1]"
    by (simp add: ring_rd_def ring_fill_def ring_size_def numeral_2_eq_2)
  ultimately show ?thesis
    using ring_text [of ?r] by (simp add: hex_byte_def hex_digit_def hex_separator_def)
qed

text \<open>
  C26: a \<open>BufferView\<close> of a ring buffer is a transaction. Bytes pushed through the view do not
  become readable in the ring buffer, and advancing the ring buffer by the view's write offset
  appends exactly them. Bytes popped through a view are the oldest readable ones and the ring
  buffer behind the view stays as it was until it is advanced by the view's read offset.
\<close>

theorem ring_view_transaction:
  assumes "ring_inv r" and "xs \<noteq> []" and "length xs \<le> length (ring_wr r)" and "n \<le> length (ring_rd r)"
  shows "(\<exists>v r'. push (view_vt ring_vt) (view_new r) xs (length xs) = Some (noError, v)
            \<and> ring_rd (bv_buffer v) = ring_rd r
            \<and> ring_writeAdvance (bv_buffer v) (view_writeOffset v) = Some r'
            \<and> ring_inv r' \<and> ring_rd r' = ring_rd r @ xs)
    \<and> (\<exists>v r'. pop (view_vt ring_vt) (view_new r) n = Some (noError, take n (ring_rd r), v)
            \<and> bv_buffer v = r
            \<and> ring_readAdvance r (view_readOffset v) = Some r'
            \<and> ring_inv r' \<and> ring_rd r' = drop n (ring_rd r))"
proof
  from ring.wview.push_correct [OF ring.writing_view_new, of r xs] assms obtain v where
    v: "push (view_vt ring_vt) (view_new r) xs (length xs) = Some (noError, v)"
       "ring.writing_view (ring_rd r) v" "ring.view_wt v = xs" by auto
  with ring.commit_view [OF v(2)] assms(2) show "\<exists>v r'. push (view_vt ring_vt) (view_new r) xs (length xs) = Some (noError, v)
            \<and> ring_rd (bv_buffer v) = ring_rd r
            \<and> ring_writeAdvance (bv_buffer v) (view_writeOffset v) = Some r'
            \<and> ring_inv r' \<and> ring_rd r' = ring_rd r @ xs"
    by (auto simp: ring_vt_def ring.writing_view_def)
next
  from ring.rview.pop_correct [OF ring.reading_view_new, of r n] assms obtain v where
    v: "pop (view_vt ring_vt) (view_new r) n = Some (noError, take n (ring_rd r), v)"
       "ring.reading_view r v" "ring.view_rd v = drop n (ring_rd r)" by auto
  with ring.commit_reading_view [OF v(2)] show "\<exists>v r'. pop (view_vt ring_vt) (view_new r) n = Some (noError, take n (ring_rd r), v)
            \<and> bv_buffer v = r
            \<and> ring_readAdvance r (view_readOffset v) = Some r'
            \<and> ring_inv r' \<and> ring_rd r' = drop n (ring_rd r)"
    by (auto simp: ring_vt_def ring.reading_view_def)
qed

theorem ring_view_transaction_witness:
  "\<exists>v r'. push (view_vt ring_vt) (view_new \<lparr>rb_buffer = [1, 2, 3], rb_read_position = 2,
        rb_write_position = 0, rb_write_reached_read = False\<rparr>) [7, 8] 2 = Some (noError, v)
     \<and> ring_rd (bv_buffer v) = [3]
     \<and> ring_writeAdvance (bv_buffer v) (view_writeOffset v) = Some r' \<and> ring_rd r' = [3, 7, 8]"
proof -
  let ?r = "\<lparr>rb_buffer = [1, 2, 3], rb_read_position = 2, rb_write_position = 0,
            rb_write_reached_read = False\<rparr> :: ring_buffer"
  have inv: "ring_inv ?r"
    by (simp add: ring_inv_def ring_size_def PTRDIFF_MAX_def)
  have rd: "ring_rd ?r = [3]" and wr: "ring_wr ?r = [1, 2]"
    by (simp_all add: ring_rd_def ring_wr_def ring_fill_def ring_size_def numeral_2_eq_2)
  show ?thesis
    using conjunct1 [OF ring_view_transaction [of ?r "[7, 8]" 1]] inv unfolding rd wr
    by (auto simp: numeral_2_eq_2)
qed

text \<open>
  C36: advancing the write position of a full ring buffer by nothing empties it. The flag that
  tells a full from an empty buffer is recomputed from \<open>bytes > 0\<close>, so \<open>writeAdvance(0)\<close> clears it
  and every readable byte is lost; \<open>readAdvance(0)\<close> keeps the content, as it should.
\<close>

theorem ring_writeAdvance_zero_loses_content:
  assumes "ring_inv r" and "0 < ring_size r" and "ring_wr r = []"
  shows "length (ring_rd r) = ring_size r
    \<and> (\<exists>r'. ring_writeAdvance r 0 = Some r' \<and> ring_inv r' \<and> ring_rd r' = [])
    \<and> (\<exists>r'. ring_readAdvance r 0 = Some r' \<and> ring_rd r' = ring_rd r)"
proof -
  have full: "ring_fill r = ring_size r"
    using assms length_ring_wr [of r] ring_inv_bounds [OF assms(1)] by simp
  then have reached: "rb_write_reached_read r" "rb_read_position r = rb_write_position r"
    using assms by (auto simp: ring_inv_def ring_fill_def split: if_splits)
  let ?r = "r\<lparr>rb_write_reached_read := False\<rparr>"
  have pos: "rb_write_position r mod ring_size r = rb_write_position r"
    using assms by (simp add: ring_inv_def)
  have adv: "ring_writeAdvance r 0 = Some ?r"
    using assms reached pos ring_wrap_add [of r "rb_write_position r" 0]
    by (simp add: ring_writeAdvance_def full ring_inv_def)
  have inv: "ring_inv ?r"
    using assms by (auto simp: ring_inv_def ring_size_def)
  have "ring_rd ?r = []"
    using reached by (simp add: ring_rd_def ring_fill_def)
  with adv inv full ring_readAdvance_abs [OF assms(1), of 0] assms(1) show ?thesis
    by auto
qed

theorem ring_writeAdvance_zero_loses_content_witness:
  "ring_rd \<lparr>rb_buffer = [1, 2, 3], rb_read_position = 1, rb_write_position = 1,
            rb_write_reached_read = True\<rparr> = [2, 3, 1]
   \<and> (\<exists>r'. ring_writeAdvance \<lparr>rb_buffer = [1, 2, 3], rb_read_position = 1, rb_write_position = 1,
            rb_write_reached_read = True\<rparr> 0 = Some r' \<and> ring_rd r' = [])"
proof -
  let ?r = "\<lparr>rb_buffer = [1, 2, 3], rb_read_position = 1, rb_write_position = 1,
            rb_write_reached_read = True\<rparr> :: ring_buffer"
  have rd: "ring_rd ?r = [2, 3, 1]" and wr: "ring_wr ?r = []"
    by (simp_all add: ring_rd_def ring_wr_def ring_fill_def ring_size_def)
  have "ring_inv ?r" "0 < ring_size ?r"
    by (simp_all add: ring_inv_def ring_size_def PTRDIFF_MAX_def)
  from ring_writeAdvance_zero_loses_content [OF this wr] rd show ?thesis
    by blast
qed

text \<open>
  \<open>readSegmentLength\<close> at the end of the readable bytes is 0, but \<open>writeSegmentLength\<close> at the
  end of the writable bytes of a buffer that is not full reports the distance from the read
  position to the end of the vector: a segment of locations that are readable, not writable.
\<close>

theorem ring_segment_length_at_end:
  assumes "ring_inv r"
  shows "ring_readSegmentLength r (length (ring_rd r)) = Some 0
    \<and> (ring_wr r \<noteq> [] \<longrightarrow>
         ring_writeSegmentLength r (length (ring_wr r)) = Some (ring_size r - rb_read_position r)
         \<and> 0 < ring_size r - rb_read_position r)"
proof (intro conjI impI)
  note b = ring_inv_bounds [OF assms]
  show "ring_readSegmentLength r (length (ring_rd r)) = Some 0"
  proof (cases "ring_size r = 0")
    case True
    with assms b show ?thesis
      by (auto simp: ring_readSegmentLength_def ring_inv_def ring_readPosition_def
          ring_writePosition_def ring_wrap_def sz_add_def sz_sub_def)
  next
    case False
    then have pos: "0 < ring_size r" by simp
    have "ring_wrap r (sz_add (rb_read_position r) (ring_fill r)) = rb_write_position r"
      using assms b pos ring_write_position_eq [OF assms pos] by (simp add: ring_wrap_add ring_inv_def)
    moreover have "sz_sub (ring_fill r) (ring_fill r) = 0"
      using b PTRDIFF_MAX_double by (simp add: sz_sub_exact)
    ultimately show ?thesis
      using assms by (simp add: ring_readSegmentLength_def ring_readPosition_def
          ring_writePosition_def Let_def)
  qed
  assume "ring_wr r \<noteq> []"
  then have room: "ring_fill r < ring_size r"
    using length_ring_wr [of r] by (metis length_greater_0_conv zero_less_diff)
  then have pos: "0 < ring_size r" by simp
  show "0 < ring_size r - rb_read_position r"
    using assms pos by (simp add: ring_inv_def)
  have free: "\<not> rb_write_reached_read r"
    using assms room by (auto simp: ring_inv_def ring_fill_def)
  have "(rb_write_position r + (ring_size r - ring_fill r)) mod ring_size r
          = (rb_read_position r + (ring_fill r + (ring_size r - ring_fill r))) mod ring_size r"
    by (simp only: ring_write_position_eq [OF assms pos] mod_add_left_eq add.assoc)
  then have "ring_wrap r (sz_add (rb_write_position r) (ring_size r - ring_fill r)) = rb_read_position r"
    using assms b pos room by (simp add: ring_wrap_add ring_inv_def)
  with assms free b show "ring_writeSegmentLength r (length (ring_wr r)) = Some (ring_size r - rb_read_position r)"
    using PTRDIFF_MAX_double
    by (simp add: ring_writeSegmentLength_def ring_writePosition_def sz_sub_exact)
qed

theorem ring_segment_length_at_end_witness:
  "ring_writeSegmentLength \<lparr>rb_buffer = [1, 2, 3], rb_read_position = 1, rb_write_position = 2,
      rb_write_reached_read = False\<rparr> 2 = Some 2"
proof -
  let ?r = "\<lparr>rb_buffer = [1, 2, 3], rb_read_position = 1, rb_write_position = 2,
            rb_write_reached_read = False\<rparr> :: ring_buffer"
  have wr: "ring_wr ?r = [3, 1]"
    by (simp add: ring_wr_def ring_fill_def ring_size_def)
  have "ring_inv ?r"
    by (simp add: ring_inv_def ring_size_def PTRDIFF_MAX_def)
  moreover have "ring_wr ?r \<noteq> []"
    unfolding wr by simp
  ultimately have "ring_writeSegmentLength ?r (length (ring_wr ?r)) = Some (ring_size ?r - rb_read_position ?r)"
    using ring_segment_length_at_end [of ?r] by blast
  then show ?thesis
    unfolding wr by (simp add: ring_size_def numeral_2_eq_2)
qed

end
