(* ===== verification/Array_Buffer.thy ===== *)
theory Array_Buffer
  imports Buffer_View
begin

text \<open>
  Class \<open>ArrayBuffer\<close> (\<open>source/forstio/buffer.h\<close>, lines 132-162, and \<open>buffer.cpp\<close>, lines 355-430):
  a one-time buffer, whose space is not reused once it has been read. It satisfies the same
  contract as the ring buffer, and advancing it by nothing is harmless.
\<close>

section \<open>State and operations\<close>

record array_buffer =
  ab_buffer :: "byte list"
  ab_read_position :: size_t
  ab_write_position :: size_t

definition array_new :: "size_t \<Rightarrow> array_buffer" where
  "array_new sz = \<lparr>ab_buffer = replicate sz 0, ab_read_position = 0, ab_write_position = 0\<rparr>"

definition array_readPosition :: "array_buffer \<Rightarrow> size_t" where
  "array_readPosition a = ab_read_position a"

definition array_readCompositeLength :: "array_buffer \<Rightarrow> size_t" where
  "array_readCompositeLength a = sz_sub (ab_write_position a) (ab_read_position a)"

definition array_readSegmentLength :: "array_buffer \<Rightarrow> size_t \<Rightarrow> size_t option" where
  "array_readSegmentLength a offset = do {
     let read_composite = array_readCompositeLength a;
     assert_that (offset \<le> read_composite);
     let offset = min read_composite offset;
     let read_offset = sz_add (ab_read_position a) offset;
     Some (sz_sub (ab_write_position a) read_offset)
   }"

definition array_readAdvance :: "array_buffer \<Rightarrow> size_t \<Rightarrow> array_buffer option" where
  "array_readAdvance a bytes = do {
     assert_that (bytes \<le> array_readCompositeLength a);
     Some (a\<lparr>ab_read_position := sz_add (ab_read_position a) bytes\<rparr>)
   }"

definition array_read :: "array_buffer \<Rightarrow> size_t \<Rightarrow> nat option" where
  "array_read a i = do {
     assert_that (i < array_readCompositeLength a);
     Some (sz_add i (ab_read_position a))
   }"

text \<open>The \<open>const\<close> overload asserts against the size of the vector instead.\<close>

definition array_read_const :: "array_buffer \<Rightarrow> size_t \<Rightarrow> nat option" where
  "array_read_const a i = do {
     assert_that (sz_add i (ab_read_position a) < length (ab_buffer a));
     Some (sz_add i (ab_read_position a))
   }"

definition array_writePosition :: "array_buffer \<Rightarrow> size_t" where
  "array_writePosition a = ab_write_position a"

definition array_writeCompositeLength :: "array_buffer \<Rightarrow> size_t option" where
  "array_writeCompositeLength a = do {
     assert_that (ab_write_position a \<le> length (ab_buffer a));
     Some (sz_sub (length (ab_buffer a)) (ab_write_position a))
   }"

definition array_writeSegmentLength :: "array_buffer \<Rightarrow> size_t \<Rightarrow> size_t option" where
  "array_writeSegmentLength a offset = do {
     assert_that (ab_write_position a \<le> length (ab_buffer a));
     write_composite \<leftarrow> array_writeCompositeLength a;
     assert_that (offset \<le> write_composite);
     let offset = min write_composite offset;
     let write_offset = sz_add (ab_write_position a) offset;
     Some (sz_sub (length (ab_buffer a)) write_offset)
   }"

definition array_writeAdvance :: "array_buffer \<Rightarrow> size_t \<Rightarrow> array_buffer option" where
  "array_writeAdvance a bytes = do {
     n \<leftarrow> array_writeCompositeLength a;
     assert_that (bytes \<le> n);
     Some (a\<lparr>ab_write_position := sz_add (ab_write_position a) bytes\<rparr>)
   }"

definition array_write :: "array_buffer \<Rightarrow> size_t \<Rightarrow> nat option" where
  "array_write a i = do {
     n \<leftarrow> array_writeCompositeLength a;
     assert_that (i < n);
     Some (sz_add i (ab_write_position a))
   }"

definition array_writeRequireLength :: "array_buffer \<Rightarrow> size_t \<Rightarrow> error option" where
  "array_writeRequireLength a bytes = do {
     write_remain \<leftarrow> array_writeCompositeLength a;
     if bytes > write_remain then Some (recoverableError ''Buffer too small'') else Some noError
   }"

definition array_load :: "array_buffer \<Rightarrow> nat \<Rightarrow> byte option" where
  "array_load a l = (if l < length (ab_buffer a) then Some (ab_buffer a ! l) else None)"

definition array_store :: "array_buffer \<Rightarrow> nat \<Rightarrow> byte \<Rightarrow> array_buffer option" where
  "array_store a l v =
     (if l < length (ab_buffer a) then Some (a\<lparr>ab_buffer := (ab_buffer a)[l := v]\<rparr>) else None)"

definition array_vt :: "array_buffer Buffer" where
  "array_vt =
     \<lparr>readPosition = array_readPosition,
      readCompositeLength = (\<lambda>a. Some (array_readCompositeLength a)),
      readSegmentLength = array_readSegmentLength,
      readAdvance = array_readAdvance,
      read_at = array_read,
      read_const_at = array_read_const,
      writePosition = array_writePosition,
      writeCompositeLength = array_writeCompositeLength,
      writeSegmentLength = array_writeSegmentLength,
      writeAdvance = array_writeAdvance,
      write_at = array_write,
      writeRequireLength = (\<lambda>a n. do { e \<leftarrow> array_writeRequireLength a n; Some (e, a) }),
      load = array_load,
      store = array_store\<rparr>"

section \<open>Abstract state\<close>

definition array_inv :: "array_buffer \<Rightarrow> bool" where
  "array_inv a \<longleftrightarrow>
     ab_read_position a \<le> ab_write_position a
     \<and> ab_write_position a \<le> length (ab_buffer a)
     \<and> length (ab_buffer a) \<le> PTRDIFF_MAX"

definition array_rd :: "array_buffer \<Rightarrow> byte list" where
  "array_rd a = drop (ab_read_position a) (take (ab_write_position a) (ab_buffer a))"

definition array_wr :: "array_buffer \<Rightarrow> byte list" where
  "array_wr a = drop (ab_write_position a) (ab_buffer a)"

lemma array_inv_new: "sz \<le> PTRDIFF_MAX \<Longrightarrow> array_inv (array_new sz)"
  by (simp add: array_inv_def array_new_def)

lemma array_abs_new [simp]: "array_rd (array_new sz) = []" "array_wr (array_new sz) = replicate sz 0"
  by (simp_all add: array_rd_def array_wr_def array_new_def)

lemma array_sizes:
  assumes "array_inv a"
  shows "ab_read_position a \<le> ab_write_position a" "ab_write_position a \<le> length (ab_buffer a)"
    "length (ab_buffer a) < SIZE_MOD" "length (ab_buffer a) \<le> PTRDIFF_MAX"
  using assms PTRDIFF_MAX_less by (auto simp: array_inv_def)

lemma array_lengths:
  assumes "array_inv a"
  shows "length (array_rd a) = ab_write_position a - ab_read_position a"
    "length (array_wr a) = length (ab_buffer a) - ab_write_position a"
  using assms by (simp_all add: array_rd_def array_wr_def array_inv_def)

lemma array_composite:
  assumes "array_inv a"
  shows "array_readCompositeLength a = ab_write_position a - ab_read_position a"
    "array_writeCompositeLength a = Some (length (ab_buffer a) - ab_write_position a)"
  using array_sizes [OF assms]
  by (simp_all add: array_readCompositeLength_def array_writeCompositeLength_def sz_sub_exact)

lemma array_read_eq:
  assumes "array_inv a" and "i < ab_write_position a - ab_read_position a"
  shows "array_read a i = Some (ab_read_position a + i)"
    "array_read_const a i = Some (ab_read_position a + i)"
    "array_load a (ab_read_position a + i) = Some (array_rd a ! i)"
  using assms array_sizes [OF assms(1)] array_composite [OF assms(1)]
  by (auto simp: array_read_def array_read_const_def array_load_def array_rd_def sz_add_exact
      add.commute)

lemma array_write_eq:
  assumes "array_inv a" and "i < length (ab_buffer a) - ab_write_position a"
  shows "array_write a i = Some (ab_write_position a + i)"
    "array_store a (ab_write_position a + i) v
       = Some (a\<lparr>ab_buffer := (ab_buffer a)[ab_write_position a + i := v]\<rparr>)"
  using assms array_sizes [OF assms(1)] array_composite [OF assms(1)]
  by (auto simp: array_write_def array_store_def sz_add_exact add.commute)

lemma array_store_abs:
  assumes "array_inv a"
  shows "array_inv (a\<lparr>ab_buffer := (ab_buffer a)[ab_write_position a + i := v]\<rparr>)"
    "array_rd (a\<lparr>ab_buffer := (ab_buffer a)[ab_write_position a + i := v]\<rparr>) = array_rd a"
    "array_wr (a\<lparr>ab_buffer := (ab_buffer a)[ab_write_position a + i := v]\<rparr>) = (array_wr a)[i := v]"
  using assms by (simp_all add: array_inv_def array_rd_def array_wr_def drop_update_above)

lemma array_readAdvance_abs:
  assumes "array_inv a" and "n \<le> length (array_rd a)"
  shows "\<exists>a'. array_readAdvance a n = Some a' \<and> array_inv a' \<and> array_rd a' = drop n (array_rd a)
           \<and> array_wr a' = array_wr a"
  using assms array_sizes [OF assms(1)] array_composite [OF assms(1)] array_lengths [OF assms(1)]
  by (auto simp: array_readAdvance_def array_inv_def array_rd_def array_wr_def sz_add_exact add.commute)

lemma array_writeAdvance_abs:
  assumes "array_inv a" and "n \<le> length (array_wr a)"
  shows "\<exists>a'. array_writeAdvance a n = Some a' \<and> array_inv a'
           \<and> array_rd a' = array_rd a @ take n (array_wr a) \<and> array_wr a' = drop n (array_wr a)"
  using assms array_sizes [OF assms(1)] array_composite [OF assms(1)] array_lengths [OF assms(1)]
  by (auto simp: array_writeAdvance_def array_inv_def array_rd_def array_wr_def sz_add_exact take_add
      add.commute [of n])

lemma array_segments:
  assumes "array_inv a"
  shows "off \<le> length (array_rd a) \<Longrightarrow> array_readSegmentLength a off = Some (length (array_rd a) - off)"
    "off \<le> length (array_wr a) \<Longrightarrow> array_writeSegmentLength a off = Some (length (array_wr a) - off)"
  using array_sizes [OF assms] array_composite [OF assms] array_lengths [OF assms]
  by (auto simp: array_readSegmentLength_def array_writeSegmentLength_def size_simps)

lemma array_write_store:
  "array_store a l v = Some a' \<Longrightarrow>
     array_write a' i = array_write a i \<and> array_writeCompositeLength a' = array_writeCompositeLength a"
  by (auto simp: array_store_def array_write_def array_writeCompositeLength_def split: if_splits)

lemmas array_laws = array_sizes array_lengths array_composite array_segments array_read_eq
  array_write_eq array_store_abs

section \<open>The contract\<close>

interpretation arr: queue_buffer array_vt array_inv array_rd array_wr False
proof (unfold_locales, goal_cases)
  case (1 b)
  then show ?case by (simp add: array_vt_def array_laws)
next
  case (2 b)
  then show ?case using array_sizes [of b] by (simp add: array_lengths)
next
  case (3 b i)
  then show ?case using array_read_eq [of b i] by (simp add: array_vt_def array_lengths)
next
  case (4 b off)
  then show ?case
    using array_read_eq(1) [of b "off + _"]
    by (intro exI [of _ "length (array_rd b) - off"] exI [of _ "ab_read_position b + off"])
      (auto simp: array_vt_def array_segments array_lengths add.assoc)
next
  case (5 b n)
  then show ?case using array_readAdvance_abs [of b n] by (auto simp: array_vt_def)
next
  case (6 b)
  then show ?case by (simp add: array_vt_def array_laws)
next
  case (7 b)
  then show ?case using array_sizes [of b] by (simp add: array_lengths)
next
  case (8 b i)
  then show ?case using array_write_eq [of b i] by (simp add: array_vt_def array_lengths array_store_abs)
next
  case (9 b l v b' i)
  then show ?case by (simp add: array_vt_def array_write_store)
next
  case (10 b off)
  then show ?case
    using array_write_eq(1) [of b "off + _"]
    by (intro exI [of _ "length (array_wr b) - off"] exI [of _ "ab_write_position b + off"])
      (auto simp: array_vt_def array_segments array_lengths add.assoc)
next
  case (11 b n)
  then show ?case using array_writeAdvance_abs [of b n] by (simp add: array_vt_def)
next
  case (12 b n)
  then show ?case by (simp add: array_vt_def array_writeRequireLength_def array_laws)
next
  case (13 b n)
  then show ?case by (simp add: array_vt_def array_writeRequireLength_def array_laws)
next
  case (14 b n b')
  then show ?case using array_readAdvance_abs [of b n] by (auto simp: array_vt_def)
next
  case (15 b n b')
  then show ?case using array_readAdvance_abs [of b n] by (auto simp: array_vt_def)
qed

interpretation arr0: buffer_writer0 array_vt array_inv array_rd array_wr
proof (unfold_locales, goal_cases)
  case (1 b)
  then show ?case
    using array_sizes [of b] by (simp add: array_vt_def array_writeAdvance_def array_composite sz_add_exact)
qed

section \<open>Properties\<close>

text \<open>
  C25: any sequence of \<open>push\<close> and \<open>pop\<close> calls on a fresh array buffer of \<open>N\<close> bytes runs without a
  failed assertion, without leaving the vector and without looping forever, and behaves as a queue
  that accepts \<open>N\<close> bytes in all: what has been read does not make room again.
\<close>

theorem array_refines_one_time_queue:
  assumes "N \<le> PTRDIFF_MAX" and "list_all call_in_memory cs"
  shows "\<exists>a'. run_buffer array_vt (array_new N) cs = Some (fst (queue_run False (N, []) cs), a')
           \<and> array_inv a' \<and> (length (array_wr a'), array_rd a') = snd (queue_run False (N, []) cs)"
  using arr.run_refines [OF array_inv_new [OF assms(1)] assms(2)] by simp

theorem array_refines_one_time_queue_witness:
  "\<exists>a'. run_buffer array_vt (array_new 3) [Push [1, 2], PopByte, Pop 2, Push [3, 4], PushByte 5, Pop 2]
     = Some ([(noError, []), (noError, [1]), (recoverableError ''Buffer too small'', []),
              (recoverableError ''Buffer too small'', []), (noError, []), (noError, [2, 5])], a')
     \<and> array_rd a' = []"
  using array_refines_one_time_queue
    [of 3 "[Push [1, 2], PopByte, Pop 2, Push [3, 4], PushByte 5, Pop 2]"]
  by (auto simp: PTRDIFF_MAX_def too_small_def)

end
