(* ===== verification/Stream_Endian.thy ===== *)
theory Stream_Endian
  imports Ring_Buffer Array_Buffer
begin

text \<open>
  \<open>source/forstio/stream_endian.h\<close>: the class templates \<open>ShiftStreamValue<T, n>\<close> that write a
  value of \<open>n\<close> bytes in little endian order to a buffer and read it back. A value of type \<open>T\<close> is
  its object representation, the unsigned word \<open>raw\<close> the code copies it to with \<open>memcpy\<close>.

  The specialisations for 2, 4 and 8 bytes have the same text but for the type of \<open>raw\<close>; they are
  instances of one polymorphic pair of functions. The one for 1 byte uses \<open>push\<close> and \<open>pop\<close>.
\<close>

section \<open>Little endian words\<close>

text \<open>The bytes \<open>raw >> (i * 8)\<close> stores, for \<open>i < sizeof(T)\<close>, each truncated to 8 bits.\<close>

definition le_bytes :: "'a::len word \<Rightarrow> byte list" where
  "le_bytes raw = map (\<lambda>i. ucast (drop_bit (i * 8) raw)) [0..<LENGTH('a) div 8]"

text \<open>The loop \<open>raw |= read(i) << (i * 8)\<close>, on a list of bytes.\<close>

fun le_or :: "nat \<Rightarrow> byte list \<Rightarrow> 'a::len word \<Rightarrow> 'a word" where
  "le_or i [] raw = raw"
| "le_or i (x # xs) raw = le_or (Suc i) xs (or raw (push_bit (i * 8) (ucast x)))"

definition le_word :: "byte list \<Rightarrow> 'a::len word" where
  "le_word xs = le_or 0 xs 0"

section \<open>Operations\<close>

fun shift_decode_loop :: "'b Buffer \<Rightarrow> 'b \<Rightarrow> size_t \<Rightarrow> nat \<Rightarrow> 'a::len word \<Rightarrow> 'a word option" where
  "shift_decode_loop vt b i 0 raw = Some raw"
| "shift_decode_loop vt b i (Suc k) raw = do {
     l \<leftarrow> read_at vt b i;
     x \<leftarrow> load vt b l;
     shift_decode_loop vt b (Suc i) k (or raw (push_bit (i * 8) (ucast x)))
   }"

text \<open>
  \<open>decode(T &val, Buffer &)\<close>: \<open>val\<close> is the value of the out parameter before the call, which an
  error leaves as it is.
\<close>

definition shift_decode :: "'b Buffer \<Rightarrow> 'a::len word \<Rightarrow> 'b \<Rightarrow> (error \<times> 'a word \<times> 'b) option" where
  "shift_decode vt val b = do {
     n \<leftarrow> readCompositeLength vt b;
     if n < LENGTH('a) div 8 then Some (recoverableError ''Buffer too small'', val, b)
     else do {
       raw \<leftarrow> shift_decode_loop vt b 0 (LENGTH('a) div 8) 0;
       b \<leftarrow> readAdvance vt b (LENGTH('a) div 8);
       Some (noError, raw, b)
     }
   }"

definition shift_encode :: "'b Buffer \<Rightarrow> 'a::len word \<Rightarrow> 'b \<Rightarrow> (error \<times> 'b) option" where
  "shift_encode vt val b = do {
     (error, b) \<leftarrow> writeRequireLength vt b (LENGTH('a) div 8);
     if failed error then Some (error, b)
     else do {
       b \<leftarrow> write_each vt b 0 (le_bytes val);
       b \<leftarrow> writeAdvance vt b (LENGTH('a) div 8);
       Some (noError, b)
     }
   }"

definition ShiftStreamValue1_decode :: "'b Buffer \<Rightarrow> 8 word \<Rightarrow> 'b \<Rightarrow> (error \<times> 8 word \<times> 'b) option" where
  "ShiftStreamValue1_decode vt val b = do {
     (error, raw, b) \<leftarrow> pop vt b 1;
     Some (error, (if raw = [] then val else hd raw), b)
   }"

definition ShiftStreamValue1_encode :: "'b Buffer \<Rightarrow> 8 word \<Rightarrow> 'b \<Rightarrow> (error \<times> 'b) option" where
  "ShiftStreamValue1_encode vt val b = push vt b [val] 1"

definition ShiftStreamValue2_decode :: "'b Buffer \<Rightarrow> 16 word \<Rightarrow> 'b \<Rightarrow> (error \<times> 16 word \<times> 'b) option" where
  "ShiftStreamValue2_decode vt val b = shift_decode vt val b"

definition ShiftStreamValue2_encode :: "'b Buffer \<Rightarrow> 16 word \<Rightarrow> 'b \<Rightarrow> (error \<times> 'b) option" where
  "ShiftStreamValue2_encode vt val b = shift_encode vt val b"

definition ShiftStreamValue4_decode :: "'b Buffer \<Rightarrow> 32 word \<Rightarrow> 'b \<Rightarrow> (error \<times> 32 word \<times> 'b) option" where
  "ShiftStreamValue4_decode vt val b = shift_decode vt val b"

definition ShiftStreamValue4_encode :: "'b Buffer \<Rightarrow> 32 word \<Rightarrow> 'b \<Rightarrow> (error \<times> 'b) option" where
  "ShiftStreamValue4_encode vt val b = shift_encode vt val b"

definition ShiftStreamValue8_decode :: "'b Buffer \<Rightarrow> 64 word \<Rightarrow> 'b \<Rightarrow> (error \<times> 64 word \<times> 'b) option" where
  "ShiftStreamValue8_decode vt val b = shift_decode vt val b"

definition ShiftStreamValue8_encode :: "'b Buffer \<Rightarrow> 64 word \<Rightarrow> 'b \<Rightarrow> (error \<times> 'b) option" where
  "ShiftStreamValue8_encode vt val b = shift_encode vt val b"

text \<open>
  \<open>StreamValue<T>\<close> selects the specialisation by \<open>sizeof(T)\<close>: a value carries its size.
\<close>

datatype stream_value = V8 "8 word" | V16 "16 word" | V32 "32 word" | V64 "64 word"

fun StreamValue_size :: "stream_value \<Rightarrow> size_t" where
  "StreamValue_size (V8 w) = 1"
| "StreamValue_size (V16 w) = 2"
| "StreamValue_size (V32 w) = 4"
| "StreamValue_size (V64 w) = 8"

fun StreamValue_encode :: "'b Buffer \<Rightarrow> stream_value \<Rightarrow> 'b \<Rightarrow> (error \<times> 'b) option" where
  "StreamValue_encode vt (V8 w) b = ShiftStreamValue1_encode vt w b"
| "StreamValue_encode vt (V16 w) b = ShiftStreamValue2_encode vt w b"
| "StreamValue_encode vt (V32 w) b = ShiftStreamValue4_encode vt w b"
| "StreamValue_encode vt (V64 w) b = ShiftStreamValue8_encode vt w b"

fun StreamValue_decode :: "'b Buffer \<Rightarrow> stream_value \<Rightarrow> 'b \<Rightarrow> (error \<times> stream_value \<times> 'b) option" where
  "StreamValue_decode vt (V8 w) b = do {
     (e, w, b) \<leftarrow> ShiftStreamValue1_decode vt w b; Some (e, V8 w, b) }"
| "StreamValue_decode vt (V16 w) b = do {
     (e, w, b) \<leftarrow> ShiftStreamValue2_decode vt w b; Some (e, V16 w, b) }"
| "StreamValue_decode vt (V32 w) b = do {
     (e, w, b) \<leftarrow> ShiftStreamValue4_decode vt w b; Some (e, V32 w, b) }"
| "StreamValue_decode vt (V64 w) b = do {
     (e, w, b) \<leftarrow> ShiftStreamValue8_decode vt w b; Some (e, V64 w, b) }"

lemmas shift_stream_defs =
  ShiftStreamValue1_decode_def ShiftStreamValue1_encode_def
  ShiftStreamValue2_decode_def ShiftStreamValue2_encode_def
  ShiftStreamValue4_decode_def ShiftStreamValue4_encode_def
  ShiftStreamValue8_decode_def ShiftStreamValue8_encode_def

text \<open>The bytes of a value on the wire, and the value of the same size with given bytes.\<close>

fun value_bytes :: "stream_value \<Rightarrow> byte list" where
  "value_bytes (V8 w) = le_bytes w"
| "value_bytes (V16 w) = le_bytes w"
| "value_bytes (V32 w) = le_bytes w"
| "value_bytes (V64 w) = le_bytes w"

fun value_of :: "stream_value \<Rightarrow> byte list \<Rightarrow> stream_value" where
  "value_of (V8 w) xs = V8 (le_word xs)"
| "value_of (V16 w) xs = V16 (le_word xs)"
| "value_of (V32 w) xs = V32 (le_word xs)"
| "value_of (V64 w) xs = V64 (le_word xs)"

text \<open>The number a value stands for as an unsigned integer.\<close>

fun value_uint :: "stream_value \<Rightarrow> int" where
  "value_uint (V8 w) = uint w"
| "value_uint (V16 w) = uint w"
| "value_uint (V32 w) = uint w"
| "value_uint (V64 w) = uint w"

text \<open>A sequence of values written and read one after the other, up to the first error.\<close>

fun encode_values :: "'b Buffer \<Rightarrow> stream_value list \<Rightarrow> 'b \<Rightarrow> (error \<times> 'b) option" where
  "encode_values vt [] b = Some (noError, b)"
| "encode_values vt (v # vs) b = do {
     (e, b) \<leftarrow> StreamValue_encode vt v b;
     if failed e then Some (e, b) else encode_values vt vs b
   }"

fun decode_values :: "'b Buffer \<Rightarrow> stream_value list \<Rightarrow> 'b \<Rightarrow> (error \<times> stream_value list \<times> 'b) option" where
  "decode_values vt [] b = Some (noError, [], b)"
| "decode_values vt (v # vs) b = do {
     (e, v, b) \<leftarrow> StreamValue_decode vt v b;
     if failed e then Some (e, v # vs, b)
     else do { (e, vs, b) \<leftarrow> decode_values vt vs b; Some (e, v # vs, b) }
   }"

fun same_size :: "stream_value \<Rightarrow> stream_value \<Rightarrow> bool" where
  "same_size (V8 _) (V8 _) \<longleftrightarrow> True"
| "same_size (V16 _) (V16 _) \<longleftrightarrow> True"
| "same_size (V32 _) (V32 _) \<longleftrightarrow> True"
| "same_size (V64 _) (V64 _) \<longleftrightarrow> True"
| "same_size _ _ \<longleftrightarrow> False"

section \<open>Words and their bytes\<close>

lemma length_le_bytes [simp]: "length (le_bytes (w :: 'a::len word)) = LENGTH('a) div 8"
  by (simp add: le_bytes_def)

lemma bit_le_or:
  fixes raw :: "'a::len word"
  shows "bit (le_or i xs raw) n \<longleftrightarrow>
    bit raw n \<or> n < LENGTH('a) \<and> i \<le> n div 8 \<and> n div 8 - i < length xs \<and> bit (xs ! (n div 8 - i)) (n mod 8)"
proof (induction xs arbitrary: i raw)
  case Nil
  then show ?case by simp
next
  case (Cons x xs)
  have here: "bit (push_bit (i * 8) (ucast x :: 'a word)) n \<longleftrightarrow>
      n < LENGTH('a) \<and> n div 8 = i \<and> bit x (n mod 8)"
  proof (cases "n div 8 = i")
    case True
    then have "n - i * 8 = n mod 8" "i * 8 \<le> n" by presburger+
    with True show ?thesis by (auto simp: bit_simps)
  next
    case False
    have "n - i * 8 < 8 \<Longrightarrow> i * 8 \<le> n \<Longrightarrow> n div 8 = i" by presburger
    with False show ?thesis
      by (auto simp: bit_simps dest: bit_imp_le_length)
  qed
  have idx: "i \<le> m \<and> m - i < Suc k \<and> P (m - i) \<longleftrightarrow> m = i \<and> P 0 \<or> Suc i \<le> m \<and> m - Suc i < k \<and> P (Suc (m - Suc i))"
    for m k :: nat and P
    by (cases "m = i") (auto simp: Suc_diff_Suc)
  show ?case
    using idx [of "n div 8" "length xs" "\<lambda>j. bit ((x # xs) ! j) (n mod 8)"]
    by (auto simp: Cons.IH bit_or_iff here)
qed

lemma bit_le_word:
  "bit (le_word xs :: 'a::len word) n \<longleftrightarrow> n < LENGTH('a) \<and> n div 8 < length xs \<and> bit (xs ! (n div 8)) (n mod 8)"
  by (simp add: le_word_def bit_le_or)

lemma le_word_bytes:
  fixes w :: "'a::len word"
  assumes "8 dvd LENGTH('a)"
  shows "le_word (le_bytes w) = w"
proof (rule bit_word_eqI)
  fix n assume n: "n < LENGTH('a)"
  with assms have d: "n div 8 < LENGTH('a) div 8" by (auto elim!: dvdE)
  have "n div 8 * 8 + n mod 8 = n" by simp
  with n d show "bit (le_word (le_bytes w) :: 'a word) n \<longleftrightarrow> bit w n"
    by (simp add: bit_le_word le_bytes_def bit_simps)
qed

lemma le_bytes_word:
  assumes "8 dvd LENGTH('a::len)" and "length xs = LENGTH('a) div 8"
  shows "le_bytes (le_word xs :: 'a word) = xs"
proof (rule nth_equalityI)
  fix i assume "i < length (le_bytes (le_word xs :: 'a word))"
  then have i: "i < LENGTH('a) div 8" by simp
  show "le_bytes (le_word xs :: 'a word) ! i = xs ! i"
  proof (rule bit_word_eqI)
    fix n assume n: "n < LENGTH(8)"
    then have "i * 8 + n < LENGTH('a)" "(i * 8 + n) div 8 = i" "(i * 8 + n) mod 8 = n"
      using i by auto
    with i n assms show "bit (le_bytes (le_word xs :: 'a word) ! i) n \<longleftrightarrow> bit (xs ! i) n"
      by (simp add: le_bytes_def bit_simps bit_le_word)
  qed
qed (use assms in simp)

text \<open>The value of a little endian byte list, by place value.\<close>

lemma uint_le_word_Cons:
  assumes "Suc (length xs) * 8 \<le> LENGTH('a::len)"
  shows "uint (le_word (x # xs) :: 'a word) = uint x + 256 * uint (le_word xs :: 'a word)"
proof -
  have "uint (le_word (x # xs) :: 'a word) = or (uint x) (push_bit 8 (uint (le_word xs :: 'a word)))"
  proof (rule bit_eqI)
    fix n
    have "n - 8 < LENGTH('a)" if "n < LENGTH('a)" using that by simp
    moreover have "n < LENGTH('a)" if "n div 8 < Suc (length xs)" using that assms by simp
    moreover have "(n - 8) div 8 = n div 8 - 1" "(n - 8) mod 8 = n mod 8" if "8 \<le> n"
      using that by (simp_all add: le_div_geq le_mod_geq)
    moreover have "n div 8 = 0 \<longleftrightarrow> n < 8" by presburger
    moreover have "n div 8 - 1 < length xs \<longleftrightarrow> n div 8 < Suc (length xs)" if "8 \<le> n"
      using that by auto
    ultimately show "bit (uint (le_word (x # xs) :: 'a word)) n
      \<longleftrightarrow> bit (or (uint x) (push_bit 8 (uint (le_word xs :: 'a word)))) n"
      by (auto simp: bit_simps bit_le_word nth_Cons' dest: bit_imp_le_length)
  qed
  also have "\<dots> = uint x + push_bit 8 (uint (le_word xs :: 'a word))"
    by (rule disjunctive_add_eq_or [symmetric]) (auto simp: bit_eq_iff bit_simps dest: bit_imp_le_length)
  finally show ?thesis by (simp add: push_bit_eq_mult)
qed

lemma uint_le_word:
  "length xs * 8 \<le> LENGTH('a::len) \<Longrightarrow> uint (le_word xs :: 'a word) = horner_sum uint 256 xs"
proof (induction xs)
  case Nil
  then show ?case by (simp add: le_word_def)
next
  case (Cons x xs)
  then show ?case by (simp add: uint_le_word_Cons)
qed

lemma uint_le_bytes:
  fixes w :: "'a::len word"
  assumes "8 dvd LENGTH('a)"
  shows "horner_sum uint 256 (le_bytes w) = uint w"
  using uint_le_word [of "le_bytes w", where 'a = 'a] assms by (simp add: le_word_bytes)

lemma le_bytes_byte: "le_bytes (w :: 8 word) = [w]"
  by (simp add: le_bytes_def)

lemma le_word_byte: "(le_word [x] :: 8 word) = x"
  by (simp add: le_word_def)

lemma length_value_bytes [simp]: "length (value_bytes v) = StreamValue_size v"
  by (cases v) simp_all

lemma StreamValue_size_bounds: "0 < StreamValue_size v" "StreamValue_size v \<le> 8"
  by (cases v; simp)+

lemma same_size_value_of [simp]: "same_size v (value_of v xs)"
  by (cases v) simp_all

lemma StreamValue_size_same: "same_size v w \<Longrightarrow> StreamValue_size v = StreamValue_size w"
  by (cases "(v, w)" rule: same_size.cases) simp_all

lemma value_of_bytes: "same_size v w \<Longrightarrow> value_of v (value_bytes w) = w"
  by (cases "(v, w)" rule: same_size.cases) (simp_all add: le_word_bytes)

lemma value_bytes_of: "length xs = StreamValue_size v \<Longrightarrow> value_bytes (value_of v xs) = xs"
  by (cases v) (simp_all add: le_bytes_word)

lemma value_uint_bytes: "value_uint v = horner_sum uint 256 (value_bytes v)"
  by (cases v) (simp_all add: uint_le_bytes)

section \<open>Encoding and decoding through the contracts\<close>

context buffer_writer
begin

lemma shift_encode_correct:
  fixes val :: "'a::len word"
  assumes "inv b" and "0 < LENGTH('a) div 8" and "LENGTH('a) div 8 \<le> length (wr b)"
  shows "\<exists>b'. shift_encode vt val b = Some (noError, b') \<and> inv b'
           \<and> wt b' = wt b @ le_bytes val \<and> wr b' = drop (LENGTH('a) div 8) (wr b)"
proof -
  have ne: "le_bytes val \<noteq> []"
    using assms(2) length_le_bytes [of val] by (metis length_greater_0_conv)
  from write_each_advance [OF assms(1) _ ne] assms obtain b1 b' where
    "write_each vt b 0 (le_bytes val) = Some b1" "writeAdvance vt b1 (LENGTH('a) div 8) = Some b'"
    "inv b'" "wt b' = wt b @ le_bytes val" "wr b' = drop (LENGTH('a) div 8) (wr b)" by auto
  with assms writable_bound [OF assms(1)] show ?thesis
    by (auto simp: shift_encode_def write_require)
qed

lemma shift_encode_too_small:
  fixes val :: "'a::len word"
  assumes "inv b" and "length (wr b) < LENGTH('a) div 8" and "LENGTH('a) div 8 \<le> PTRDIFF_MAX"
  shows "shift_encode vt val b = Some (recoverableError ''Buffer too small'', b)"
  using assms by (simp add: shift_encode_def write_require)

lemma StreamValue_encode_correct:
  assumes "inv b" and "StreamValue_size v \<le> length (wr b)"
  shows "\<exists>b'. StreamValue_encode vt v b = Some (noError, b') \<and> inv b'
           \<and> wt b' = wt b @ value_bytes v \<and> wr b' = drop (StreamValue_size v) (wr b)"
proof (cases v)
  case (V8 w)
  then show ?thesis
    using push_correct [OF assms(1), of "[w]"] assms by (simp add: shift_stream_defs le_bytes_byte)
next
  case (V16 w)
  with shift_encode_correct [OF assms(1), of w] assms show ?thesis by (simp add: shift_stream_defs)
next
  case (V32 w)
  with shift_encode_correct [OF assms(1), of w] assms show ?thesis by (simp add: shift_stream_defs)
next
  case (V64 w)
  with shift_encode_correct [OF assms(1), of w] assms show ?thesis by (simp add: shift_stream_defs)
qed

lemma StreamValue_encode_too_small:
  assumes "inv b" and "length (wr b) < StreamValue_size v"
  shows "StreamValue_encode vt v b = Some (recoverableError ''Buffer too small'', b)"
  using assms push_too_small [OF assms(1), of 1]
  by (cases v) (simp_all add: shift_stream_defs shift_encode_too_small PTRDIFF_MAX_def)

lemma encode_values_correct:
  assumes "inv b" and "length (concat (map value_bytes vs)) \<le> length (wr b)"
  shows "\<exists>b'. encode_values vt vs b = Some (noError, b') \<and> inv b'
           \<and> wt b' = wt b @ concat (map value_bytes vs)"
  using assms
proof (induction vs arbitrary: b)
  case Nil
  then show ?case by simp
next
  case (Cons v vs)
  from StreamValue_encode_correct [OF Cons.prems(1), of v] Cons.prems(2) obtain b1 where
    "StreamValue_encode vt v b = Some (noError, b1)" "inv b1" "wt b1 = wt b @ value_bytes v"
    "wr b1 = drop (StreamValue_size v) (wr b)" by auto
  with Cons.IH [of b1] Cons.prems(2) show ?case by auto
qed

end

context buffer_reader
begin

lemma shift_decode_loop_correct:
  assumes "inv b" and "i + k \<le> length (rd b)"
  shows "shift_decode_loop vt b i k raw = Some (le_or i (take k (drop i (rd b))) raw)"
  using assms(2)
proof (induction k arbitrary: i raw)
  case 0
  then show ?case by simp
next
  case (Suc k)
  then have i: "i < length (rd b)" by simp
  with read_loc [OF assms(1) i] Suc.IH [of "Suc i"] Suc.prems show ?case
    by (auto simp: Cons_nth_drop_Suc [OF i, symmetric])
qed

lemma shift_decode_correct:
  fixes val :: "'a::len word"
  assumes "inv b" and "LENGTH('a) div 8 \<le> length (rd b)"
  shows "\<exists>b'. shift_decode vt val b = Some (noError, le_word (take (LENGTH('a) div 8) (rd b)), b')
           \<and> inv b' \<and> rd b' = drop (LENGTH('a) div 8) (rd b)"
  using assms read_advance [OF assms] shift_decode_loop_correct [OF assms(1), of 0 "LENGTH('a) div 8" "0 :: 'a word"]
  by (auto simp: shift_decode_def readable le_word_def)

lemma shift_decode_too_small:
  fixes val :: "'a::len word"
  assumes "inv b" and "length (rd b) < LENGTH('a) div 8"
  shows "shift_decode vt val b = Some (recoverableError ''Buffer too small'', val, b)"
  using assms by (simp add: shift_decode_def readable)

lemma StreamValue_decode_correct:
  assumes "inv b" and "StreamValue_size v \<le> length (rd b)"
  shows "\<exists>b'. StreamValue_decode vt v b = Some (noError, value_of v (take (StreamValue_size v) (rd b)), b')
           \<and> inv b' \<and> rd b' = drop (StreamValue_size v) (rd b)"
proof (cases v)
  case (V8 w)
  with assms obtain x xs where x: "rd b = x # xs" by (cases "rd b") simp_all
  with V8 pop_correct [OF assms(1), of 1] assms show ?thesis
    by (auto simp: shift_stream_defs le_word_byte)
next
  case (V16 w)
  with shift_decode_correct [OF assms(1), of w] assms show ?thesis by (auto simp: shift_stream_defs)
next
  case (V32 w)
  with shift_decode_correct [OF assms(1), of w] assms show ?thesis by (auto simp: shift_stream_defs)
next
  case (V64 w)
  with shift_decode_correct [OF assms(1), of w] assms show ?thesis by (auto simp: shift_stream_defs)
qed

lemma StreamValue_decode_too_small:
  assumes "inv b" and "length (rd b) < StreamValue_size v"
  shows "StreamValue_decode vt v b = Some (recoverableError ''Buffer too small'', v, b)"
  using assms pop_too_small [OF assms(1), of 1]
  by (cases v) (simp_all add: shift_stream_defs shift_decode_too_small)

lemma decode_values_correct:
  assumes "inv b" and "rd b = concat (map value_bytes vs) @ rest" and "list_all2 same_size olds vs"
  shows "\<exists>b'. decode_values vt olds b = Some (noError, vs, b') \<and> inv b' \<and> rd b' = rest"
  using assms
proof (induction vs arbitrary: b olds)
  case Nil
  then show ?case by simp
next
  case (Cons v vs)
  then obtain old olds' where olds: "olds = old # olds'" "same_size old v" "list_all2 same_size olds' vs"
    by (auto simp: list_all2_Cons2)
  from StreamValue_decode_correct [OF Cons.prems(1), of old] Cons.prems(2) olds(2) obtain b1 where
    "StreamValue_decode vt old b = Some (noError, v, b1)" "inv b1"
    "rd b1 = concat (map value_bytes vs) @ rest"
    by (auto simp: StreamValue_size_same value_of_bytes)
  with Cons.IH [of b1 olds'] olds show ?case by auto
qed

end

section \<open>Properties\<close>

text \<open>
  A sequence of values of 1, 2, 4 and 8 bytes that fits into an empty ring buffer is encoded
  without error, and decoding the same sequence of types returns the same values and leaves the
  buffer empty.
\<close>

theorem stream_values_roundtrip:
  assumes "ring_inv r" and "ring_rd r = []" and "length (concat (map value_bytes vs)) \<le> length (ring_wr r)"
    and "list_all2 same_size olds vs"
  shows "\<exists>r1 r2. encode_values ring_vt vs r = Some (noError, r1)
           \<and> decode_values ring_vt olds r1 = Some (noError, vs, r2) \<and> ring_inv r2 \<and> ring_rd r2 = []"
  using ring.encode_values_correct [OF assms(1,3)] ring.decode_values_correct [of _ vs "[]" olds] assms
  by auto

theorem stream_values_roundtrip_witness:
  "\<exists>r1 r2. encode_values ring_vt [V16 0x1234, V8 7, V32 5] (ring_new 7) = Some (noError, r1)
     \<and> decode_values ring_vt [V16 0, V8 0, V32 0] r1 = Some (noError, [V16 0x1234, V8 7, V32 5], r2)
     \<and> ring_rd r2 = []"
  using stream_values_roundtrip [of "ring_new 7" "[V16 0x1234, V8 7, V32 5]" "[V16 0, V8 0, V32 0]"]
  by (auto simp: ring_inv_new PTRDIFF_MAX_def)

text \<open>
  Encoding a value into a ring buffer with room for it appends \<open>sizeof(T)\<close> bytes whose place
  values, least significant byte first, add up to the value. With less room the call returns the
  recoverable error and the buffer is unchanged; decoding from too few bytes returns the
  recoverable error and changes neither the buffer nor the out parameter.
\<close>

theorem stream_value_little_endian:
  assumes "ring_inv r"
  shows "(if StreamValue_size v \<le> length (ring_wr r)
          then \<exists>r' bs. StreamValue_encode ring_vt v r = Some (noError, r') \<and> ring_inv r'
                 \<and> ring_rd r' = ring_rd r @ bs \<and> length bs = StreamValue_size v
                 \<and> value_uint v = horner_sum uint 256 bs
          else StreamValue_encode ring_vt v r = Some (recoverableError ''Buffer too small'', r))
    \<and> (if StreamValue_size v \<le> length (ring_rd r)
       then \<exists>v' bs r'. StreamValue_decode ring_vt v r = Some (noError, v', r') \<and> ring_inv r'
              \<and> same_size v v' \<and> ring_rd r = bs @ ring_rd r' \<and> length bs = StreamValue_size v
              \<and> value_uint v' = horner_sum uint 256 bs
       else StreamValue_decode ring_vt v r = Some (recoverableError ''Buffer too small'', v, r))"
proof (intro conjI, goal_cases)
  case 1
  show ?case
    using ring.StreamValue_encode_correct [OF assms, of v] ring.StreamValue_encode_too_small [OF assms, of v]
    by (auto simp: value_uint_bytes not_le simp del: length_ring_wr)
next
  case 2
  let ?n = "StreamValue_size v"
  have "value_uint (value_of v (take ?n (ring_rd r))) = horner_sum uint 256 (take ?n (ring_rd r))"
    if "?n \<le> length (ring_rd r)"
    unfolding value_uint_bytes using that by (subst value_bytes_of) auto
  then show ?case
    using ring.StreamValue_decode_correct [OF assms, of v] ring.StreamValue_decode_too_small [OF assms, of v]
    by (cases "?n \<le> length (ring_rd r)")
       (auto simp del: length_ring_rd intro!: exI [of _ "take ?n (ring_rd r)"])
qed

theorem stream_value_little_endian_witness:
  "\<exists>r' bs. StreamValue_encode ring_vt (V16 0x1234) (ring_new 2) = Some (noError, r')
     \<and> ring_rd r' = bs \<and> length bs = 2 \<and> horner_sum uint 256 bs = 0x1234"
  using stream_value_little_endian [of "ring_new 2" "V16 0x1234"]
  by (auto simp: ring_inv_new PTRDIFF_MAX_def)

end
