(* ===== verification/Messages.thy ===== *)
theory Messages
  imports Stream_Endian
begin

text \<open>
  Schemas and messages: \<open>source/forstio/schema.h\<close>, \<open>message_container.h\<close> and \<open>message.h\<close>. The
  schema classes, which exist at compile time only, are a datatype; a message object of a schema
  is a value of the datatype \<open>message\<close>, well typed when \<open>msg_ok\<close> holds. What the C++ type system
  checks (the arity of a tuple, the type of a member, the \<open>static_assert\<close>s of \<open>schema.h\<close>) is
  part of \<open>msg_ok\<close> and \<open>wf_schema\<close>.

  A \<open>Builder\<close> or a \<open>Reader\<close> is a reference to a message object. \<open>container_get\<close> is the access to
  a member: it returns the container after the call and the member the reference points to, and
  \<open>container_store\<close> is the write through that reference. \<open>build_at\<close> and \<open>read_path\<close> chain the
  accesses the way client code chains \<open>init\<close> and \<open>get\<close>.
\<close>

section \<open>Schemas\<close>

datatype prim_kind = SignedInteger | UnsignedInteger | FloatingPoint

text \<open>
  \<open>Struct\<close> and \<open>UnionOf\<close> (class \<open>schema::Union\<close>) hold the two parameter packs \<open>V...\<close> and \<open>K...\<close> of
  their named members.
\<close>

datatype schema =
    Primitive prim_kind nat
  | String
  | Tuple "schema list"
  | Struct "schema list" "string list"
  | UnionOf "schema list" "string list"
  | Array schema

text \<open>The \<open>static_assert\<close> of \<open>schema::Primitive\<close>.\<close>

fun primitive_supported :: "prim_kind \<Rightarrow> nat \<Rightarrow> bool" where
  "primitive_supported SignedInteger N \<longleftrightarrow> N \<in> {1, 2, 4, 8}"
| "primitive_supported UnsignedInteger N \<longleftrightarrow> N \<in> {1, 2, 4, 8}"
| "primitive_supported FloatingPoint N \<longleftrightarrow> N \<in> {4, 8}"

fun SchemaIsArray :: "schema \<Rightarrow> bool" where
  "SchemaIsArray (Array s) \<longleftrightarrow> True"
| "SchemaIsArray _ \<longleftrightarrow> False"

text \<open>
  The schemas whose classes can be instantiated. A \<open>std::variant\<close> needs an alternative, and its
  assignment from an alternative selects it by type, so the member schemas of a union are pairwise
  different; union ids are 32 bits wide. \<open>Array::Builder::init(i)\<close> constructs the element's
  builder with one argument, which an array's builder does not accept: an array of arrays can not
  be built.
\<close>

fun wf_schema :: "schema \<Rightarrow> bool" where
  "wf_schema (Primitive k N) \<longleftrightarrow> primitive_supported k N"
| "wf_schema String \<longleftrightarrow> True"
| "wf_schema (Tuple ss) \<longleftrightarrow> list_all wf_schema ss"
| "wf_schema (Struct ss ks) \<longleftrightarrow> list_all wf_schema ss \<and> length ks = length ss"
| "wf_schema (UnionOf ss ks) \<longleftrightarrow> list_all wf_schema ss \<and> length ks = length ss
     \<and> ss \<noteq> [] \<and> distinct ss \<and> length ss \<le> 2 ^ 32"
| "wf_schema (Array s) \<longleftrightarrow> wf_schema s \<and> \<not> SchemaIsArray s"

text \<open>\<open>MessageParameterKeyPackIndexHelper\<close>: the position of a key in the pack of keys.\<close>

fun MessageParameterKeyPackIndexHelper :: "string \<Rightarrow> string list \<Rightarrow> nat" where
  "MessageParameterKeyPackIndexHelper V [] = 0"
| "MessageParameterKeyPackIndexHelper V [Key0] = (if V = Key0 then 0 else 1)"
| "MessageParameterKeyPackIndexHelper V (Key0 # Keys) =
     (if V = Key0 then 0 else 1 + MessageParameterKeyPackIndexHelper V Keys)"

text \<open>A failing \<open>static_assert\<close> is \<open>None\<close>: the program does not compile.\<close>

definition MessageParameterKeyPackIndex :: "string \<Rightarrow> string list \<Rightarrow> nat option" where
  "MessageParameterKeyPackIndex V Keys = do {
     let Value = MessageParameterKeyPackIndexHelper V Keys;
     assert_that (Value < length Keys);
     Some Value
   }"

section \<open>Messages\<close>

datatype message =
    MPrimitive stream_value
  | MString "byte list"
  | MTuple "message list"
  | MStruct "message list"
  | MUnion nat message
  | MArray "message list"

text \<open>The value \<open>0\<close> of a primitive type of \<open>N\<close> bytes, for integers and for floats.\<close>

definition zero_value :: "nat \<Rightarrow> stream_value" where
  "zero_value N = (if N = 1 then V8 0 else if N = 2 then V16 0 else if N = 4 then V32 0 else V64 0)"

text \<open>A default constructed message object. A variant holds its first alternative.\<close>

fun default_message :: "schema \<Rightarrow> message" where
  "default_message (Primitive k N) = MPrimitive (zero_value N)"
| "default_message String = MString []"
| "default_message (Tuple ss) = MTuple (map default_message ss)"
| "default_message (Struct ss ks) = MStruct (map default_message ss)"
| "default_message (UnionOf ss ks) =
     MUnion 0 (case ss of [] \<Rightarrow> MTuple [] | s # _ \<Rightarrow> default_message s)"
| "default_message (Array s) = MArray []"

text \<open>A message object of a schema; a length is a \<open>size_t\<close>.\<close>

fun msg_ok :: "schema \<Rightarrow> message \<Rightarrow> bool" where
  "msg_ok (Primitive k N) (MPrimitive v) \<longleftrightarrow> StreamValue_size v = N"
| "msg_ok String (MString bs) \<longleftrightarrow> length bs < SIZE_MOD"
| "msg_ok (Tuple ss) (MTuple ms) \<longleftrightarrow> list_all2 msg_ok ss ms"
| "msg_ok (Struct ss ks) (MStruct ms) \<longleftrightarrow> list_all2 msg_ok ss ms"
| "msg_ok (UnionOf ss ks) (MUnion i m) \<longleftrightarrow> i < length ss \<and> msg_ok (ss ! i) m"
| "msg_ok (Array s) (MArray ms) \<longleftrightarrow> list_all (msg_ok s) ms \<and> length ms < SIZE_MOD"
| "msg_ok _ _ \<longleftrightarrow> False"

section \<open>Containers\<close>

text \<open>\<open>std::get<i>\<close> on a tuple; an index outside it does not compile.\<close>

definition tuple_get :: "nat \<Rightarrow> message list \<Rightarrow> message option" where
  "tuple_get i values = (if i < length values then Some (values ! i) else None)"

text \<open>
  \<open>MessageContainer<Union>::get<i>\<close>: another alternative than the active one is replaced by a
  default constructed message first.
\<close>

definition union_get :: "schema list \<Rightarrow> nat \<Rightarrow> nat \<times> message \<Rightarrow> (nat \<times> message) option" where
  "union_get V i value =
     (if i < length V
      then Some (if i \<noteq> fst value then (i, default_message (V ! i)) else value)
      else None)"

text \<open>\<open>values.at(index)\<close> throws an exception outside the vector.\<close>

definition array_get :: "nat \<Rightarrow> message list \<Rightarrow> message option" where
  "array_get index values = (if index < length values then Some (values ! index) else None)"

text \<open>
  \<open>values.resize(size)\<close>: \<open>can_resize\<close> says which sizes the vector of element messages of a schema
  can be given; the others end in \<open>std::length_error\<close> or \<open>std::bad_alloc\<close>.
\<close>

definition array_resize ::
    "(schema \<Rightarrow> nat \<Rightarrow> bool) \<Rightarrow> schema \<Rightarrow> size_t \<Rightarrow> message list \<Rightarrow> message list option" where
  "array_resize can_resize s sz values =
     (if can_resize s sz
      then Some (take sz values @ replicate (sz - length values) (default_message s))
      else None)"

fun container_get :: "schema \<Rightarrow> nat \<Rightarrow> message \<Rightarrow> (message \<times> message) option" where
  "container_get (Tuple ss) i (MTuple ms) = do { e \<leftarrow> tuple_get i ms; Some (MTuple ms, e) }"
| "container_get (Struct ss ks) i (MStruct ms) = do { e \<leftarrow> tuple_get i ms; Some (MStruct ms, e) }"
| "container_get (UnionOf ss ks) i (MUnion idx m) = do {
     (idx, m) \<leftarrow> union_get ss i (idx, m);
     Some (MUnion idx m, m)
   }"
| "container_get (Array s) i (MArray ms) = do { e \<leftarrow> array_get i ms; Some (MArray ms, e) }"
| "container_get _ _ _ = None"

fun container_store :: "nat \<Rightarrow> message \<Rightarrow> message \<Rightarrow> message" where
  "container_store i e (MTuple ms) = MTuple (ms[i := e])"
| "container_store i e (MStruct ms) = MStruct (ms[i := e])"
| "container_store i e (MUnion idx m) = MUnion idx e"
| "container_store i e (MArray ms) = MArray (ms[i := e])"
| "container_store i e m = m"

text \<open>\<open>MessageParameterPackType<i, V...>\<close>: the schema of the member at an index.\<close>

fun MessageParameterPackType :: "nat \<Rightarrow> schema list \<Rightarrow> schema option" where
  "MessageParameterPackType i [] = None"
| "MessageParameterPackType 0 (TN # T) = Some TN"
| "MessageParameterPackType (Suc N) (TN # T) = MessageParameterPackType N T"

fun sub_schema :: "schema \<Rightarrow> nat \<Rightarrow> schema option" where
  "sub_schema (Tuple ss) i = MessageParameterPackType i ss"
| "sub_schema (Struct ss ks) i = MessageParameterPackType i ss"
| "sub_schema (UnionOf ss ks) i = MessageParameterPackType i ss"
| "sub_schema (Array s) i = Some s"
| "sub_schema _ i = None"

section \<open>Builders and readers\<close>

text \<open>
  The classes \<open>Builder\<close> and \<open>Reader\<close> of \<open>message.h\<close>, one group of definitions per message class.
  An \<open>init\<close> returns the container after the call, the schema of the member and the member as its
  builder's constructor leaves it; a \<open>get\<close> returns the container, the schema and the member the new
  reader refers to. Which overload of \<open>init\<close> takes a size is decided by \<open>std::enable_if\<close> on
  \<open>SchemaIsArray\<close> of the member: \<open>make_builder\<close> is the construction of the member's builder in
  both overloads. A template argument without a meaning (an index outside the pack, an unknown
  key) does not compile and is \<open>None\<close>.
\<close>

type_synonym resizable = "schema \<Rightarrow> nat \<Rightarrow> bool"

subsection \<open>Arrays\<close>

definition Array_Builder :: "resizable \<Rightarrow> schema \<Rightarrow> size_t \<Rightarrow> message list \<Rightarrow> message list option" where
  "Array_Builder can_resize T sz values =
     (if sz > 0 then array_resize can_resize T sz values else Some values)"

text \<open>The builder of an element is constructed with one argument, which is no array builder.\<close>

definition Array_Builder_init ::
    "schema \<Rightarrow> nat \<Rightarrow> message list \<Rightarrow> (message list \<times> schema \<times> message) option" where
  "Array_Builder_init T i values = do {
     assert_that (\<not> SchemaIsArray T);
     e \<leftarrow> array_get i values;
     Some (values, T, e)
   }"

definition Array_Builder_size :: "message list \<Rightarrow> size_t" where
  "Array_Builder_size values = length values"

definition Array_Builder_resize :: "resizable \<Rightarrow> schema \<Rightarrow> size_t \<Rightarrow> message list \<Rightarrow> message list option" where
  "Array_Builder_resize can_resize T sz values = array_resize can_resize T sz values"

definition Array_Reader_get ::
    "schema \<Rightarrow> nat \<Rightarrow> message list \<Rightarrow> (message list \<times> schema \<times> message) option" where
  "Array_Reader_get T i values = do { e \<leftarrow> array_get i values; Some (values, T, e) }"

definition Array_Reader_size :: "message list \<Rightarrow> size_t" where
  "Array_Reader_size values = length values"

fun make_builder :: "resizable \<Rightarrow> schema \<Rightarrow> size_t \<Rightarrow> message \<Rightarrow> message option" where
  "make_builder can_resize (Array s) sz (MArray ms) = do {
     ms \<leftarrow> Array_Builder can_resize s sz ms;
     Some (MArray ms)
   }"
| "make_builder can_resize s sz m = Some m"

subsection \<open>Structs\<close>

definition Struct_Builder_init ::
    "resizable \<Rightarrow> schema list \<Rightarrow> nat \<Rightarrow> size_t \<Rightarrow> message list \<Rightarrow> (message list \<times> schema \<times> message) option" where
  "Struct_Builder_init can_resize V i sz values = do {
     t \<leftarrow> MessageParameterPackType i V;
     e \<leftarrow> tuple_get i values;
     e \<leftarrow> make_builder can_resize t sz e;
     Some (values, t, e)
   }"

definition Struct_Builder_init_key :: "resizable \<Rightarrow> schema list \<Rightarrow> string list \<Rightarrow> string \<Rightarrow> size_t \<Rightarrow>
    message list \<Rightarrow> (message list \<times> schema \<times> message) option" where
  "Struct_Builder_init_key can_resize V Keys Literal sz values = do {
     i \<leftarrow> MessageParameterKeyPackIndex Literal Keys;
     Struct_Builder_init can_resize V i sz values
   }"

definition Struct_Reader_get ::
    "schema list \<Rightarrow> nat \<Rightarrow> message list \<Rightarrow> (message list \<times> schema \<times> message) option" where
  "Struct_Reader_get V i values = do {
     t \<leftarrow> MessageParameterPackType i V;
     e \<leftarrow> tuple_get i values;
     Some (values, t, e)
   }"

definition Struct_Reader_get_key ::
    "schema list \<Rightarrow> string list \<Rightarrow> string \<Rightarrow> message list \<Rightarrow> (message list \<times> schema \<times> message) option" where
  "Struct_Reader_get_key V Keys Literal values = do {
     i \<leftarrow> MessageParameterKeyPackIndex Literal Keys;
     Struct_Reader_get V i values
   }"

subsection \<open>Unions\<close>

definition Union_Builder_init ::
    "resizable \<Rightarrow> schema list \<Rightarrow> nat \<Rightarrow> size_t \<Rightarrow> nat \<times> message \<Rightarrow> ((nat \<times> message) \<times> schema \<times> message) option" where
  "Union_Builder_init can_resize V i sz value = do {
     t \<leftarrow> MessageParameterPackType i V;
     value \<leftarrow> union_get V i value;
     e \<leftarrow> make_builder can_resize t sz (snd value);
     Some (value, t, e)
   }"

definition Union_Builder_init_key :: "resizable \<Rightarrow> schema list \<Rightarrow> string list \<Rightarrow> string \<Rightarrow> size_t \<Rightarrow>
    nat \<times> message \<Rightarrow> ((nat \<times> message) \<times> schema \<times> message) option" where
  "Union_Builder_init_key can_resize V Keys Literal sz value = do {
     i \<leftarrow> MessageParameterKeyPackIndex Literal Keys;
     Union_Builder_init can_resize V i sz value
   }"

definition Union_Reader_get ::
    "schema list \<Rightarrow> nat \<Rightarrow> nat \<times> message \<Rightarrow> ((nat \<times> message) \<times> schema \<times> message) option" where
  "Union_Reader_get V i value = do {
     t \<leftarrow> MessageParameterPackType i V;
     value \<leftarrow> union_get V i value;
     Some (value, t, snd value)
   }"

definition Union_Reader_get_key ::
    "schema list \<Rightarrow> string list \<Rightarrow> string \<Rightarrow> nat \<times> message \<Rightarrow> ((nat \<times> message) \<times> schema \<times> message) option" where
  "Union_Reader_get_key V Keys Literal value = do {
     i \<leftarrow> MessageParameterKeyPackIndex Literal Keys;
     Union_Reader_get V i value
   }"

definition toIndex :: "string \<Rightarrow> string list \<Rightarrow> nat option" where
  "toIndex Literal Keys = MessageParameterKeyPackIndex Literal Keys"

definition hasAlternative :: "string \<Rightarrow> string list \<Rightarrow> nat \<times> message \<Rightarrow> bool option" where
  "hasAlternative Literal Keys value = do {
     i \<leftarrow> toIndex Literal Keys;
     Some (fst value = i)
   }"

subsection \<open>Tuples\<close>

definition Tuple_Builder_init ::
    "resizable \<Rightarrow> schema list \<Rightarrow> nat \<Rightarrow> size_t \<Rightarrow> message list \<Rightarrow> (message list \<times> schema \<times> message) option" where
  "Tuple_Builder_init can_resize T i sz values = do {
     t \<leftarrow> MessageParameterPackType i T;
     e \<leftarrow> tuple_get i values;
     e \<leftarrow> make_builder can_resize t sz e;
     Some (values, t, e)
   }"

definition Tuple_Reader_get ::
    "schema list \<Rightarrow> nat \<Rightarrow> message list \<Rightarrow> (message list \<times> schema \<times> message) option" where
  "Tuple_Reader_get T i values = do {
     t \<leftarrow> MessageParameterPackType i T;
     e \<leftarrow> tuple_get i values;
     Some (values, t, e)
   }"

subsection \<open>Primitives and strings\<close>

text \<open>\<open>set\<close> of the primitive and the string builder; a value of another type does not compile.\<close>

definition Primitive_Builder_set :: "stream_value \<Rightarrow> stream_value \<Rightarrow> stream_value option" where
  "Primitive_Builder_set v value = (if same_size v value then Some v else None)"

definition String_Builder_set :: "byte list \<Rightarrow> byte list \<Rightarrow> byte list" where
  "String_Builder_set str value = str"

text \<open>The overload of \<open>set\<close> for a pointer to characters takes the bytes before the first NUL.\<close>

definition String_Builder_set_c_str :: "byte list \<Rightarrow> byte list \<Rightarrow> byte list" where
  "String_Builder_set_c_str chars value = String_Builder_set (takeWhile (\<lambda>c. c \<noteq> 0) chars) value"

definition Primitive_Reader_get :: "stream_value \<Rightarrow> stream_value" where
  "Primitive_Reader_get value = value"

definition String_Reader_get :: "byte list \<Rightarrow> byte list" where
  "String_Reader_get value = value"

fun builder_set :: "message \<Rightarrow> message \<Rightarrow> message option" where
  "builder_set (MPrimitive v) (MPrimitive value) =
     do { value \<leftarrow> Primitive_Builder_set v value; Some (MPrimitive value) }"
| "builder_set (MString str) (MString value) = Some (MString (String_Builder_set str value))"
| "builder_set _ _ = None"

text \<open>\<open>get\<close> of the primitive and the string reader, the only values a client reads out.\<close>

fun reader_value :: "message \<Rightarrow> message option" where
  "reader_value (MPrimitive value) = Some (MPrimitive (Primitive_Reader_get value))"
| "reader_value (MString value) = Some (MString (String_Reader_get value))"
| "reader_value _ = None"

subsection \<open>Chains of calls\<close>

text \<open>A member is named by its index or, for structs and unions, by its key.\<close>

datatype member = ByIndex nat | ByKey string

fun builder_init ::
    "resizable \<Rightarrow> schema \<Rightarrow> member \<Rightarrow> size_t \<Rightarrow> message \<Rightarrow> (message \<times> schema \<times> message) option" where
  "builder_init can_resize (Struct V Keys) (ByIndex i) sz (MStruct values) =
     do { (values, t, e) \<leftarrow> Struct_Builder_init can_resize V i sz values; Some (MStruct values, t, e) }"
| "builder_init can_resize (Struct V Keys) (ByKey Literal) sz (MStruct values) =
     do { (values, t, e) \<leftarrow> Struct_Builder_init_key can_resize V Keys Literal sz values; Some (MStruct values, t, e) }"
| "builder_init can_resize (UnionOf V Keys) (ByIndex i) sz (MUnion idx m) =
     do { ((idx, m), t, e) \<leftarrow> Union_Builder_init can_resize V i sz (idx, m); Some (MUnion idx m, t, e) }"
| "builder_init can_resize (UnionOf V Keys) (ByKey Literal) sz (MUnion idx m) =
     do { ((idx, m), t, e) \<leftarrow> Union_Builder_init_key can_resize V Keys Literal sz (idx, m); Some (MUnion idx m, t, e) }"
| "builder_init can_resize (Array T) (ByIndex i) sz (MArray values) =
     do { (values, t, e) \<leftarrow> Array_Builder_init T i values; Some (MArray values, t, e) }"
| "builder_init can_resize (Tuple T) (ByIndex i) sz (MTuple values) =
     do { (values, t, e) \<leftarrow> Tuple_Builder_init can_resize T i sz values; Some (MTuple values, t, e) }"
| "builder_init can_resize _ _ sz _ = None"

fun reader_get :: "schema \<Rightarrow> member \<Rightarrow> message \<Rightarrow> (message \<times> schema \<times> message) option" where
  "reader_get (Struct V Keys) (ByIndex i) (MStruct values) =
     do { (values, t, e) \<leftarrow> Struct_Reader_get V i values; Some (MStruct values, t, e) }"
| "reader_get (Struct V Keys) (ByKey Literal) (MStruct values) =
     do { (values, t, e) \<leftarrow> Struct_Reader_get_key V Keys Literal values; Some (MStruct values, t, e) }"
| "reader_get (UnionOf V Keys) (ByIndex i) (MUnion idx m) =
     do { ((idx, m), t, e) \<leftarrow> Union_Reader_get V i (idx, m); Some (MUnion idx m, t, e) }"
| "reader_get (UnionOf V Keys) (ByKey Literal) (MUnion idx m) =
     do { ((idx, m), t, e) \<leftarrow> Union_Reader_get_key V Keys Literal (idx, m); Some (MUnion idx m, t, e) }"
| "reader_get (Array T) (ByIndex i) (MArray values) =
     do { (values, t, e) \<leftarrow> Array_Reader_get T i values; Some (MArray values, t, e) }"
| "reader_get (Tuple T) (ByIndex i) (MTuple values) =
     do { (values, t, e) \<leftarrow> Tuple_Reader_get T i values; Some (MTuple values, t, e) }"
| "reader_get _ _ _ = None"

text \<open>The index a member stands for, and the write through the reference a builder holds.\<close>

fun member_index :: "schema \<Rightarrow> member \<Rightarrow> nat option" where
  "member_index s (ByIndex i) = Some i"
| "member_index (Struct V Keys) (ByKey Literal) = MessageParameterKeyPackIndex Literal Keys"
| "member_index (UnionOf V Keys) (ByKey Literal) = MessageParameterKeyPackIndex Literal Keys"
| "member_index s (ByKey Literal) = None"

definition member_store :: "schema \<Rightarrow> member \<Rightarrow> message \<Rightarrow> message \<Rightarrow> message" where
  "member_store s r e m = (case member_index s r of Some i \<Rightarrow> container_store i e m | None \<Rightarrow> m)"

text \<open>
  A chain of \<open>init\<close> calls, each with its member and its size argument, and a final action on the
  innermost builder, for instance \<open>set\<close>.
\<close>

fun build_at :: "resizable \<Rightarrow> schema \<Rightarrow> (member \<times> size_t) list \<Rightarrow>
    (message \<Rightarrow> message option) \<Rightarrow> message \<Rightarrow> message option" where
  "build_at can_resize s [] f m = f m"
| "build_at can_resize s ((r, sz) # p) f m = do {
     (m, t, e) \<leftarrow> builder_init can_resize s r sz m;
     e \<leftarrow> build_at can_resize t p f e;
     Some (member_store s r e m)
   }"

text \<open>
  A chain of \<open>get\<close> calls on readers: the message after the calls and the member they reach. A
  reader holds a mutable reference and uses the same \<open>get\<close> of the container as a builder.
\<close>

fun read_path :: "schema \<Rightarrow> member list \<Rightarrow> message \<Rightarrow> (message \<times> message) option" where
  "read_path s [] m = Some (m, m)"
| "read_path s (r # p) m = do {
     (m, t, e) \<leftarrow> reader_get s r m;
     (e, x) \<leftarrow> read_path t p e;
     Some (member_store s r e m, x)
   }"

subsection \<open>Message roots\<close>

text \<open>
  A root owns a message; moving a root away leaves it without one, and \<open>build\<close> and \<open>read\<close> assert
  that it has one. The array's specialisation passes a size to the builder.
\<close>

record HeapMessageRoot =
  root_schema :: schema
  root :: "message option"

definition heapMessageRoot :: "schema \<Rightarrow> HeapMessageRoot" where
  "heapMessageRoot s = \<lparr>root_schema = s, root = Some (default_message s)\<rparr>"

definition HeapMessageRoot_build :: "resizable \<Rightarrow> size_t \<Rightarrow> HeapMessageRoot \<Rightarrow> message option" where
  "HeapMessageRoot_build can_resize sz r = do {
     m \<leftarrow> root r;
     make_builder can_resize (root_schema r) sz m
   }"

definition HeapMessageRoot_read :: "HeapMessageRoot \<Rightarrow> message option" where
  "HeapMessageRoot_read r = root r"

text \<open>A client: one chain of calls on the builder of a root.\<close>

definition root_build_at :: "resizable \<Rightarrow> size_t \<Rightarrow> (member \<times> size_t) list \<Rightarrow>
    (message \<Rightarrow> message option) \<Rightarrow> HeapMessageRoot \<Rightarrow> HeapMessageRoot option" where
  "root_build_at can_resize sz p f r = do {
     m \<leftarrow> HeapMessageRoot_build can_resize sz r;
     m \<leftarrow> build_at can_resize (root_schema r) p f m;
     Some (r\<lparr>root := Some m\<rparr>)
   }"

definition root_read_path :: "member list \<Rightarrow> HeapMessageRoot \<Rightarrow> (HeapMessageRoot \<times> message) option" where
  "root_read_path p r = do {
     m \<leftarrow> HeapMessageRoot_read r;
     (m, x) \<leftarrow> read_path (root_schema r) p m;
     Some (r\<lparr>root := Some m\<rparr>, x)
   }"

section \<open>Typing\<close>

lemma MessageParameterPackType_nth [simp]:
  "MessageParameterPackType i ss = (if i < length ss then Some (ss ! i) else None)"
  by (induction i ss rule: MessageParameterPackType.induct) auto

lemmas message_access_defs =
  Array_Builder_init_def Array_Reader_get_def Struct_Builder_init_def Struct_Builder_init_key_def
  Struct_Reader_get_def Struct_Reader_get_key_def Union_Builder_init_def Union_Builder_init_key_def
  Union_Reader_get_def Union_Reader_get_key_def Tuple_Builder_init_def Tuple_Reader_get_def

text \<open>Every \<open>init\<close> is an access to the container followed by the construction of a builder.\<close>

lemma make_builder_not_array: "\<not> SchemaIsArray t \<Longrightarrow> make_builder cr t sz e = Some e"
  by (cases t) simp_all

lemma builder_init_parts:
  assumes "builder_init cr s r sz m = Some (m', t, e)"
  obtains i e0 where "member_index s r = Some i" and "sub_schema s i = Some t"
    and "container_get s i m = Some (m', e0)" and "make_builder cr t sz e0 = Some e"
  using assms
  by (cases "(cr, s, r, sz, m)" rule: builder_init.cases)
     (auto simp: message_access_defs make_builder_not_array split: bind_splits if_splits)

lemma reader_get_parts:
  "reader_get s r m = do {
     i \<leftarrow> member_index s r;
     t \<leftarrow> sub_schema s i;
     (m', e) \<leftarrow> container_get s i m;
     Some (m', t, e)
   }"
  by (cases s; cases r; cases m)
     (auto simp: message_access_defs split: bind_splits if_splits option.splits)

lemma StreamValue_size_zero [simp]: "N \<in> {1, 2, 4, 8} \<Longrightarrow> StreamValue_size (zero_value N) = N"
  by (auto simp: zero_value_def)

lemma primitive_supported_size: "primitive_supported k N \<Longrightarrow> N \<in> {1, 2, 4, 8}"
  by (cases k) auto

lemma msg_ok_default: "wf_schema s \<Longrightarrow> msg_ok s (default_message s)"
proof (induction s)
  case (Primitive k N)
  then show ?case using primitive_supported_size by simp
next
  case (UnionOf ss ks)
  then show ?case by (cases ss) auto
qed (auto simp: list_all2_conv_all_nth list_all_iff)

lemma array_resize_ok:
  assumes "array_resize cr s n ms = Some ms'" and "list_all (msg_ok s) ms" and "wf_schema s"
  shows "list_all (msg_ok s) ms' \<and> length ms' = n"
  using assms msg_ok_default [OF assms(3)]
  by (auto simp: array_resize_def list_all_iff split: if_splits dest!: in_set_takeD)

lemma wf_sub_schema: "wf_schema s \<Longrightarrow> sub_schema s i = Some t \<Longrightarrow> wf_schema t"
  by (cases s) (auto simp: list_all_length split: if_splits)

lemma container_get_ok:
  assumes "wf_schema s" and "msg_ok s m" and "sub_schema s i = Some t" and "container_get s i m = Some (m', e)"
  shows "msg_ok t e" "msg_ok t e' \<Longrightarrow> msg_ok s (container_store i e' m')"
  using assms
  by (cases "(s, m)" rule: msg_ok.cases;
      auto simp: tuple_get_def union_get_def array_get_def list_all2_conv_all_nth list_all_length
        nth_list_update msg_ok_default split: if_splits)+

lemma make_builder_ok:
  assumes "make_builder cr s sz m = Some m'" and "wf_schema s" and "msg_ok s m" and "sz < SIZE_MOD"
  shows "msg_ok s m'"
  using assms array_resize_ok
  by (cases "(cr, s, sz, m)" rule: make_builder.cases)
     (auto simp: Array_Builder_def split: if_splits bind_splits)

lemma build_at_ok:
  assumes "build_at cr s p f m = Some m'" and "wf_schema s" and "msg_ok s m"
    and "\<forall>(r, sz) \<in> set p. sz < SIZE_MOD"
    and "\<And>t x x'. f x = Some x' \<Longrightarrow> msg_ok t x \<Longrightarrow> msg_ok t x'"
  shows "msg_ok s m'"
  using assms(1-4)
proof (induction p arbitrary: s m m')
  case Nil
  then show ?case using assms(5) by simp
next
  case (Cons q p)
  obtain r sz where q: "q = (r, sz)" by fastforce
  from Cons.prems(1) q obtain t m1 e1 e2 where st: "builder_init cr s r sz m = Some (m1, t, e1)"
    "build_at cr t p f e1 = Some e2" "m' = member_store s r e2 m1"
    by (auto split: bind_splits)
  from builder_init_parts [OF st(1)] obtain i e where i: "member_index s r = Some i" "sub_schema s i = Some t"
    "container_get s i m = Some (m1, e)" "make_builder cr t sz e = Some e1" .
  note t = wf_sub_schema [OF Cons.prems(2) i(2)]
  note e = container_get_ok [OF Cons.prems(2,3) i(2,3)]
  have "msg_ok t e1"
    using make_builder_ok [OF i(4) t e(1)] Cons.prems(4) q by auto
  with Cons.IH [OF st(2) t] Cons.prems(4) have "msg_ok t e2" by auto
  with e(2) st(3) i(1) show ?case by (simp add: member_store_def)
qed

lemma container_get_store:
  assumes "container_get s i m = Some (m', e)"
  shows "container_get s i (container_store i e' m') = Some (container_store i e' m', e')"
  using assms
  by (cases "(s, i, m)" rule: container_get.cases)
     (auto simp: tuple_get_def union_get_def array_get_def split: if_splits)

lemma container_store_twice [simp]: "container_store i e (container_store i e' m) = container_store i e m"
  by (cases m) simp_all

lemma key_index_helper:
  "ks \<noteq> [] \<Longrightarrow> (let i = MessageParameterKeyPackIndexHelper k ks in
     if k \<in> set ks then i < length ks \<and> ks ! i = k \<and> (\<forall>j < i. ks ! j \<noteq> k) else i = length ks)"
proof (induction k ks rule: MessageParameterKeyPackIndexHelper.induct)
  case (3 V Key0 v va)
  then show ?case by (cases "V = Key0") (auto simp: Let_def All_less_Suc2 split: if_splits)
qed simp_all


lemma builder_set_ok:
  "builder_set x old = Some x' \<Longrightarrow> msg_ok u x \<Longrightarrow> msg_ok t old \<Longrightarrow> msg_ok t x'"
  by (cases "(x, old)" rule: builder_set.cases; cases t; cases u)
     (auto simp: Primitive_Builder_set_def String_Builder_set_def
       split: if_splits bind_splits dest: StreamValue_size_same)

lemma builder_set_value: "builder_set x old = Some x' \<Longrightarrow> x' = x \<and> reader_value x' = Some x"
  by (cases "(x, old)" rule: builder_set.cases)
     (auto simp: Primitive_Builder_set_def String_Builder_set_def Primitive_Reader_get_def
       String_Reader_get_def split: if_splits bind_splits)

lemma builder_init_read:
  assumes "builder_init cr s r sz m = Some (m1, t, e1)"
  shows "reader_get s r (member_store s r e m1) = Some (member_store s r e m1, t, e)"
proof -
  from builder_init_parts [OF assms] obtain i e0 where "member_index s r = Some i"
    "sub_schema s i = Some t" "container_get s i m = Some (m1, e0)" by metis
  then show ?thesis
    by (simp add: reader_get_parts member_store_def container_get_store)
qed

lemma member_store_twice [simp]: "member_store s r e (member_store s r e' m) = member_store s r e m"
  by (simp add: member_store_def split: option.splits)

lemma build_at_acts:
  "build_at cr s p f m = Some m' \<Longrightarrow> \<exists>y y'. f y = Some y'"
  by (induction p arbitrary: s m m') (auto split: bind_splits)

lemma read_path_build_at:
  assumes "build_at cr s p f m = Some m'" and "\<And>y y'. f y = Some y' \<Longrightarrow> y' = x"
  shows "read_path s (map fst p) m' = Some (m', x)"
  using assms(1)
proof (induction p arbitrary: s m m')
  case Nil
  then show ?case using assms(2) by simp
next
  case (Cons q p)
  then show ?case
    by (cases q) (auto split: bind_splits simp: builder_init_read)
qed

lemma container_get_store_other:
  assumes "container_get s i m = Some (m1, e)" and "j \<noteq> i" and "\<And>ss ks. s \<noteq> UnionOf ss ks"
  shows "map_option snd (container_get s j (container_store i e' m1)) = map_option snd (container_get s j m)"
  using assms
  by (cases "(s, i, m)" rule: container_get.cases)
     (auto simp: tuple_get_def array_get_def split: if_splits)

section \<open>Properties\<close>

text \<open>
  The compile time search for a member name finds the first position of that name among the
  keys, and fails to compile exactly when the name is not one of them.
\<close>

theorem key_index_first_match:
  "(case MessageParameterKeyPackIndex k ks of
      Some i \<Rightarrow> i < length ks \<and> ks ! i = k \<and> k \<notin> set (take i ks)
    | None \<Rightarrow> k \<notin> set ks)"
  using key_index_helper [of ks k]
  by (cases "ks = []")
     (auto simp: MessageParameterKeyPackIndex_def Let_def assert_that_def in_set_conv_nth
       split: if_splits)

text \<open>
  C32: building a message is observed by reading it. After a chain of \<open>init\<close> calls by index or by
  key on the builder of a root, each with its size, that ends in a \<open>set\<close>, the root still owns a
  message of its schema, the chain of \<open>get\<close> calls with the same members reaches the value set, and
  reading does not change the message. A root without a message can not be built.
\<close>

theorem builder_set_read_back:
  assumes "wf_schema (root_schema r)" and "\<forall>m. root r = Some m \<longrightarrow> msg_ok (root_schema r) m" and "msg_ok u x"
    and "sz < SIZE_MOD" and "\<forall>(i, n) \<in> set p. n < SIZE_MOD"
    and "root_build_at can_resize sz p (builder_set x) r = Some r'"
  shows "\<exists>m m'. root r = Some m \<and> root r' = Some m' \<and> msg_ok (root_schema r) m' \<and> root_schema r' = root_schema r
    \<and> root_read_path (map fst p) r' = Some (r', x) \<and> reader_value x = Some x"
proof -
  let ?s = "root_schema r"
  from assms(6) obtain m m0 m' where m: "root r = Some m" "make_builder can_resize ?s sz m = Some m0"
    "build_at can_resize ?s p (builder_set x) m0 = Some m'" "r' = r\<lparr>root := Some m'\<rparr>"
    by (auto simp: root_build_at_def HeapMessageRoot_build_def split: bind_splits)
  have m0: "msg_ok ?s m0" using make_builder_ok [OF m(2) assms(1) _ assms(4)] assms(2) m(1) by simp
  have "msg_ok ?s m'" using build_at_ok [OF m(3) assms(1) m0 assms(5)] builder_set_ok [OF _ assms(3)] by blast
  moreover have "read_path ?s (map fst p) m' = Some (m', x)"
    using read_path_build_at [OF m(3)] builder_set_value by blast
  moreover have "reader_value x = Some x" using build_at_acts [OF m(3)] builder_set_value by blast
  ultimately show ?thesis using m(1,4) by (simp add: root_read_path_def HeapMessageRoot_read_def)
qed

theorem builder_set_read_back_witness:
  "root_read_path [ByKey ''values'', ByIndex 1]
     \<lparr>root_schema = Struct [String, Array (Primitive UnsignedInteger 2)] [''name'', ''values''],
      root = Some (MStruct [MString [], MArray [MPrimitive (V16 0), MPrimitive (V16 7)]])\<rparr>
   = Some (\<lparr>root_schema = Struct [String, Array (Primitive UnsignedInteger 2)] [''name'', ''values''],
      root = Some (MStruct [MString [], MArray [MPrimitive (V16 0), MPrimitive (V16 7)]])\<rparr>, MPrimitive (V16 7))"
proof -
  let ?s = "Struct [String, Array (Primitive UnsignedInteger 2)] [''name'', ''values'']"
  let ?r = "\<lparr>root_schema = ?s, root = Some (MStruct [MString [], MArray [MPrimitive (V16 0), MPrimitive (V16 7)]])\<rparr>"
  have "root_build_at (\<lambda>s n. n < 100) 0 [(ByKey ''values'', 2), (ByIndex 1, 0)]
          (builder_set (MPrimitive (V16 7))) (heapMessageRoot ?s) = Some ?r"
    by (simp add: root_build_at_def HeapMessageRoot_build_def heapMessageRoot_def message_access_defs
        MessageParameterKeyPackIndex_def member_store_def Array_Builder_def Primitive_Builder_set_def
        array_resize_def tuple_get_def array_get_def zero_value_def numeral_2_eq_2)
  from builder_set_read_back [OF _ _ _ _ _ this, of "Primitive UnsignedInteger 2"] show ?thesis
    by (simp add: msg_ok_default SIZE_MOD_def heapMessageRoot_def zero_value_def)
qed

text \<open>
  Building below one member of a tuple, a struct or an array leaves what is read from every
  other member as it was, whether the members are named by index or by key.
\<close>

theorem builder_other_members_unchanged:
  assumes "build_at can_resize s ((r, n) # p) f m = Some m'" and "member_index s r' \<noteq> member_index s r"
    and "\<And>ss ks. s \<noteq> UnionOf ss ks"
  shows "map_option snd (read_path s (r' # q) m') = map_option snd (read_path s (r' # q) m)"
proof -
  from assms(1) obtain t m1 e1 e' where st: "builder_init can_resize s r n m = Some (m1, t, e1)"
    "m' = member_store s r e' m1"
    by (auto split: bind_splits)
  from builder_init_parts [OF st(1)] obtain i e where i: "member_index s r = Some i"
    "container_get s i m = Some (m1, e)" by metis
  show ?thesis
  proof (cases "member_index s r'")
    case (Some j)
    with container_get_store_other [OF i(2) _ assms(3), of j e'] assms(2) i(1) show ?thesis
      by (cases "sub_schema s j"; cases "container_get s j m"; cases "container_get s j m'")
         (auto simp: st(2) reader_get_parts member_store_def split: prod.splits bind_splits)
  qed (simp add: reader_get_parts)
qed

theorem builder_other_members_unchanged_witness:
  "map_option snd (read_path (Tuple [String, Primitive SignedInteger 1]) [ByIndex 1]
      (MTuple [MString [65], MPrimitive (V8 3)])) = Some (MPrimitive (V8 3))"
proof -
  have "build_at (\<lambda>s n. True) (Tuple [String, Primitive SignedInteger 1]) [(ByIndex 0, 0)] (builder_set (MString [65]))
          (MTuple [MString [], MPrimitive (V8 3)]) = Some (MTuple [MString [65], MPrimitive (V8 3)])"
    by (simp add: tuple_get_def message_access_defs member_store_def String_Builder_set_def)
  from builder_other_members_unchanged [OF this, of "ByIndex 1" "[]"] show ?thesis
    by (simp add: tuple_get_def message_access_defs)
qed

text \<open>
  A \<open>Reader\<close> of a union is not read only. Asking it for another alternative than the active one
  replaces the stored message by a default constructed one of the alternative asked for.
\<close>

theorem union_reader_get_replaces:
  assumes "i < length ss" and "i \<noteq> idx"
  shows "read_path (UnionOf ss ks) [ByIndex i] (MUnion idx m)
           = Some (MUnion i (default_message (ss ! i)), default_message (ss ! i))"
  using assms by (simp add: union_get_def message_access_defs member_store_def)

theorem union_reader_get_replaces_witness:
  "read_path (UnionOf [String, Primitive UnsignedInteger 4] [''text'', ''id'']) [ByIndex 1] (MUnion 0 (MString [104, 105]))
     = Some (MUnion 1 (MPrimitive (V32 0)), MPrimitive (V32 0))"
  using union_reader_get_replaces [of 1 "[String, Primitive UnsignedInteger 4]" 0]
  by (simp add: zero_value_def)

end
