(* ===== verification/Proto_Kel.thy ===== *)
theory Proto_Kel
  imports Messages
begin

text \<open>
  The wire format of \<open>source/forstio/proto_kel.h\<close>: the class templates \<open>ProtoKelEncodeImpl\<close> and
  \<open>ProtoKelDecodeImpl\<close>, one specialisation per schema class, and \<open>ProtoKelCodec\<close>, which frames a
  message with its length.

  The template recursion over the schema is recursion over the datatype \<open>schema\<close>. The members of
  a parameter pack are handled by functions that take the encoders, sizes or decoders of the
  members as a list and walk through it the way \<open>encodeMembers<i>\<close>, \<open>sizeMembers<i>\<close> and
  \<open>decodeMembers<i>\<close> do. The reference serialisation \<open>wire\<close> says which bytes a message stands for.
\<close>

section \<open>Encoding\<close>

text \<open>\<open>encodeMembers\<close> of tuples and structs.\<close>

fun encodeMembers :: "(message \<Rightarrow> 'b \<Rightarrow> (error \<times> 'b) option) list \<Rightarrow> message list \<Rightarrow> 'b \<Rightarrow> (error \<times> 'b) option" where
  "encodeMembers [] [] b = Some (noError, b)"
| "encodeMembers (enc # encs) (m # ms) b = do {
     (error, b) \<leftarrow> enc m b;
     if failed error then Some (error, b) else encodeMembers encs ms b
   }"
| "encodeMembers _ _ b = None"

text \<open>\<open>encodeMembers\<close> of unions: \<open>i\<close> is the template parameter, \<open>index\<close> the active alternative.\<close>

fun encodeAlternatives :: "'b Buffer \<Rightarrow> nat \<Rightarrow> (message \<Rightarrow> 'b \<Rightarrow> (error \<times> 'b) option) list \<Rightarrow>
    nat \<Rightarrow> message \<Rightarrow> 'b \<Rightarrow> (error \<times> 'b) option" where
  "encodeAlternatives vt i [] index m b = Some (noError, b)"
| "encodeAlternatives vt i (enc # encs) index m b =
     (if index = i then do {
        (error, b) \<leftarrow> ShiftStreamValue4_encode vt (of_nat i) b;
        if failed error then Some (error, b) else enc m b
      } else encodeAlternatives vt (Suc i) encs index m b)"

text \<open>The loop over the elements of an array.\<close>

fun encodeElements :: "(message \<Rightarrow> 'b \<Rightarrow> (error \<times> 'b) option) \<Rightarrow> message list \<Rightarrow> 'b \<Rightarrow> (error \<times> 'b) option" where
  "encodeElements enc [] b = Some (noError, b)"
| "encodeElements enc (m # ms) b = do {
     (error, b) \<leftarrow> enc m b;
     if failed error then Some (error, b) else encodeElements enc ms b
   }"

definition encodeString :: "'b Buffer \<Rightarrow> byte list \<Rightarrow> 'b \<Rightarrow> (error \<times> 'b) option" where
  "encodeString vt view b = do {
     let sz = length view;
     (error, b) \<leftarrow> writeRequireLength vt b (sz_add 8 sz);
     if failed error then Some (error, b)
     else do {
       (error, b) \<leftarrow> ShiftStreamValue8_encode vt (of_nat sz) b;
       if failed error then Some (error, b)
       else do {
         b \<leftarrow> write_each vt b 0 view;
         b \<leftarrow> writeAdvance vt b (length view);
         Some (noError, b)
       }
     }
   }"

definition encodeArray :: "'b Buffer \<Rightarrow> (message \<Rightarrow> 'b \<Rightarrow> (error \<times> 'b) option) \<Rightarrow> message list \<Rightarrow> 'b \<Rightarrow> (error \<times> 'b) option" where
  "encodeArray vt enc ms b = do {
     (error, b) \<leftarrow> ShiftStreamValue8_encode vt (of_nat (length ms)) b;
     if failed error then Some (error, b) else encodeElements enc ms b
   }"

fun encodeImpl :: "'b Buffer \<Rightarrow> schema \<Rightarrow> message \<Rightarrow> 'b \<Rightarrow> (error \<times> 'b) option" where
  "encodeImpl vt (Primitive k N) (MPrimitive v) b = StreamValue_encode vt v b"
| "encodeImpl vt String (MString view) b = encodeString vt view b"
| "encodeImpl vt (Tuple ss) (MTuple ms) b = encodeMembers (map (\<lambda>s m b. encodeImpl vt s m b) ss) ms b"
| "encodeImpl vt (Struct ss ks) (MStruct ms) b = encodeMembers (map (\<lambda>s m b. encodeImpl vt s m b) ss) ms b"
| "encodeImpl vt (UnionOf ss ks) (MUnion index m) b =
     encodeAlternatives vt 0 (map (\<lambda>s m b. encodeImpl vt s m b) ss) index m b"
| "encodeImpl vt (Array s) (MArray ms) b = encodeArray vt (\<lambda>m b. encodeImpl vt s m b) ms b"
| "encodeImpl vt _ _ b = None"

section \<open>Sizes\<close>

fun sizeMembers :: "(message \<Rightarrow> size_t option) list \<Rightarrow> message list \<Rightarrow> size_t option" where
  "sizeMembers [] [] = Some 0"
| "sizeMembers (sz # szs) (m # ms) = do {
     a \<leftarrow> sz m;
     b \<leftarrow> sizeMembers szs ms;
     Some (sz_add a b)
   }"
| "sizeMembers _ _ = None"

fun sizeAlternatives :: "nat \<Rightarrow> (message \<Rightarrow> size_t option) list \<Rightarrow> nat \<Rightarrow> message \<Rightarrow> size_t option" where
  "sizeAlternatives i [] index m = Some 0"
| "sizeAlternatives i (sz # szs) index m =
     (if index = i then sz m else sizeAlternatives (Suc i) szs index m)"

text \<open>The loop \<open>members += size(data.get(i))\<close>.\<close>

fun sizeElements :: "(message \<Rightarrow> size_t option) \<Rightarrow> message list \<Rightarrow> size_t \<Rightarrow> size_t option" where
  "sizeElements sz [] members = Some members"
| "sizeElements sz (m # ms) members = do {
     a \<leftarrow> sz m;
     sizeElements sz ms (sz_add members a)
   }"

fun sizeImpl :: "schema \<Rightarrow> message \<Rightarrow> size_t option" where
  "sizeImpl (Primitive k N) (MPrimitive v) = Some (StreamValue_size v)"
| "sizeImpl String (MString view) = Some (sz_add 8 (length view))"
| "sizeImpl (Tuple ss) (MTuple ms) = sizeMembers (map (\<lambda>s m. sizeImpl s m) ss) ms"
| "sizeImpl (Struct ss ks) (MStruct ms) = sizeMembers (map (\<lambda>s m. sizeImpl s m) ss) ms"
| "sizeImpl (UnionOf ss ks) (MUnion index m) = do {
     n \<leftarrow> sizeAlternatives 0 (map (\<lambda>s m. sizeImpl s m) ss) index m;
     Some (sz_add 4 n)
   }"
| "sizeImpl (Array s) (MArray ms) = sizeElements (\<lambda>m. sizeImpl s m) ms 8"
| "sizeImpl _ _ = None"

section \<open>Decoding\<close>

text \<open>
  A decoder gets the message its builder refers to and returns what becomes of it, on an error
  too: the members decoded before the error keep their new values.
\<close>

fun decodeMembers :: "(message \<Rightarrow> 'b \<Rightarrow> (error \<times> message \<times> 'b) option) list \<Rightarrow> message list \<Rightarrow> 'b \<Rightarrow>
    (error \<times> message list \<times> 'b) option" where
  "decodeMembers [] [] b = Some (noError, [], b)"
| "decodeMembers (dec # decs) (m # ms) b = do {
     (error, m, b) \<leftarrow> dec m b;
     if failed error then Some (error, m # ms, b)
     else do {
       (error, ms, b) \<leftarrow> decodeMembers decs ms b;
       Some (error, m # ms, b)
     }
   }"
| "decodeMembers _ _ b = None"

text \<open>
  \<open>decodeMembers\<close> of unions. \<open>V\<close> are the member schemas, which \<open>init<i>\<close> needs to replace the
  active alternative.
\<close>

fun decodeAlternatives :: "schema list \<Rightarrow> nat \<Rightarrow> (message \<Rightarrow> 'b \<Rightarrow> (error \<times> message \<times> 'b) option) list \<Rightarrow>
    nat \<times> message \<Rightarrow> 'b \<Rightarrow> 32 word \<Rightarrow> (error \<times> (nat \<times> message) \<times> 'b) option" where
  "decodeAlternatives V i [] value b uid = Some (noError, value, b)"
| "decodeAlternatives V i (dec # decs) value b uid =
     (if unat uid = i then do {
        (index, m) \<leftarrow> union_get V i value;
        (error, m, b) \<leftarrow> dec m b;
        if failed error then Some (error, (index, m), b)
        else decodeAlternatives V (Suc i) decs (index, m) b uid
      } else decodeAlternatives V (Suc i) decs value b uid)"

fun decodeElements :: "(message \<Rightarrow> 'b \<Rightarrow> (error \<times> message \<times> 'b) option) \<Rightarrow> message list \<Rightarrow> 'b \<Rightarrow>
    (error \<times> message list \<times> 'b) option" where
  "decodeElements dec [] b = Some (noError, [], b)"
| "decodeElements dec (m # ms) b = do {
     (error, m, b) \<leftarrow> dec m b;
     if failed error then Some (error, m # ms, b)
     else do {
       (error, ms, b) \<leftarrow> decodeElements dec ms b;
       Some (error, m # ms, b)
     }
   }"

text \<open>A value of a primitive type is set even when decoding it fails; it is 0 then.\<close>

definition decodePrimitive :: "'b Buffer \<Rightarrow> nat \<Rightarrow> 'b \<Rightarrow> (error \<times> stream_value \<times> 'b) option" where
  "decodePrimitive vt N b = StreamValue_decode vt (zero_value N) b"

definition decodeString :: "'b Buffer \<Rightarrow> byte list \<Rightarrow> 'b \<Rightarrow> (error \<times> byte list \<times> 'b) option" where
  "decodeString vt data b = do {
     n \<leftarrow> readCompositeLength vt b;
     if 8 > n then Some (recoverableError ''Buffer too small'', data, b)
     else do {
       (error, sz, b) \<leftarrow> ShiftStreamValue8_decode vt 0 b;
       if failed error then Some (error, data, b)
       else do {
         n \<leftarrow> readCompositeLength vt b;
         if unat sz > n then Some (recoverableError ''Buffer too small'', data, b)
         else do {
           value \<leftarrow> read_each vt b 0 (unat sz);
           b \<leftarrow> readAdvance vt b (length value);
           Some (noError, value, b)
         }
       }
     }
   }"

text \<open>The length read from the wire is passed to \<open>resize\<close> without a check.\<close>

definition decodeArray :: "(schema \<Rightarrow> nat \<Rightarrow> bool) \<Rightarrow> 'b Buffer \<Rightarrow> schema \<Rightarrow>
    (message \<Rightarrow> 'b \<Rightarrow> (error \<times> message \<times> 'b) option) \<Rightarrow> message list \<Rightarrow> 'b \<Rightarrow>
    (error \<times> message list \<times> 'b) option" where
  "decodeArray can_resize vt s dec data b = do {
     (error, array_length, b) \<leftarrow> ShiftStreamValue8_decode vt 0 b;
     if failed error then Some (error, data, b)
     else do {
       data \<leftarrow> array_resize can_resize s (unat array_length) data;
       decodeElements dec data b
     }
   }"

definition decodeUnion :: "'b Buffer \<Rightarrow> schema list \<Rightarrow> (message \<Rightarrow> 'b \<Rightarrow> (error \<times> message \<times> 'b) option) list \<Rightarrow>
    nat \<times> message \<Rightarrow> 'b \<Rightarrow> (error \<times> (nat \<times> message) \<times> 'b) option" where
  "decodeUnion vt V decs value b = do {
     (error, uid, b) \<leftarrow> ShiftStreamValue4_decode vt 0 b;
     if failed error then Some (error, value, b)
     else if unat uid \<ge> length V then Some (criticalError ''Union doesn't have this many id's'', value, b)
     else decodeAlternatives V 0 decs value b uid
   }"

fun decodeImpl :: "(schema \<Rightarrow> nat \<Rightarrow> bool) \<Rightarrow> 'b Buffer \<Rightarrow> schema \<Rightarrow> message \<Rightarrow> 'b \<Rightarrow>
    (error \<times> message \<times> 'b) option" where
  "decodeImpl cr vt (Primitive k N) (MPrimitive v) b = do {
     (error, v, b) \<leftarrow> decodePrimitive vt N b;
     Some (error, MPrimitive v, b)
   }"
| "decodeImpl cr vt String (MString data) b = do {
     (error, data, b) \<leftarrow> decodeString vt data b;
     Some (error, MString data, b)
   }"
| "decodeImpl cr vt (Tuple ss) (MTuple ms) b = do {
     (error, ms, b) \<leftarrow> decodeMembers (map (\<lambda>s m b. decodeImpl cr vt s m b) ss) ms b;
     Some (error, MTuple ms, b)
   }"
| "decodeImpl cr vt (Struct ss ks) (MStruct ms) b = do {
     (error, ms, b) \<leftarrow> decodeMembers (map (\<lambda>s m b. decodeImpl cr vt s m b) ss) ms b;
     Some (error, MStruct ms, b)
   }"
| "decodeImpl cr vt (UnionOf ss ks) (MUnion index m) b = do {
     (error, (index, m), b) \<leftarrow> decodeUnion vt ss (map (\<lambda>s m b. decodeImpl cr vt s m b) ss) (index, m) b;
     Some (error, MUnion index m, b)
   }"
| "decodeImpl cr vt (Array s) (MArray ms) b = do {
     (error, ms, b) \<leftarrow> decodeArray cr vt s (\<lambda>m b. decodeImpl cr vt s m b) ms b;
     Some (error, MArray ms, b)
   }"
| "decodeImpl cr vt _ _ b = None"

section \<open>The codec\<close>

record Limits =
  packet_size :: "64 word"

definition Limits_default :: Limits where
  "Limits_default = \<lparr>packet_size = 4096\<rparr>"

definition ProtoKelCodec_encode :: "'b Buffer \<Rightarrow> schema \<Rightarrow> message \<Rightarrow> 'b \<Rightarrow> (error \<times> 'b) option" where
  "ProtoKelCodec_encode vt s reader buffer = do {
     let view = view_new buffer;
     packet_length \<leftarrow> sizeImpl s reader;
     (error, view) \<leftarrow> writeRequireLength (view_vt vt) view (sz_add packet_length 8);
     if failed error then Some (error, bv_buffer view)
     else do {
       (error, view) \<leftarrow> ShiftStreamValue8_encode (view_vt vt) (of_nat packet_length) view;
       if failed error then Some (error, bv_buffer view)
       else do {
         (error, view) \<leftarrow> encodeImpl (view_vt vt) s reader view;
         if failed error then Some (error, bv_buffer view)
         else do {
           buffer \<leftarrow> writeAdvance vt (bv_buffer view) (view_writeOffset view);
           Some (noError, buffer)
         }
       }
     }
   }"

text \<open>\<open>std::to_string\<close> of an unsigned number.\<close>

fun to_string :: "nat \<Rightarrow> string" where
  "to_string n = (if n < 10 then [char_of (48 + n)] else to_string (n div 10) @ [char_of (48 + n mod 10)])"

declare to_string.simps [simp del]

text \<open>\<open>alloc\<close> says whether the string of the formatted error can be allocated.\<close>

definition packet_too_big :: "bool \<Rightarrow> 64 word \<Rightarrow> error" where
  "packet_too_big alloc packet_length =
     criticalError_fmt (if alloc then Some (''Packet size too big: '' @ to_string (unat packet_length)) else None)
       ''Packet size too big'' GenericCritical"

definition ProtoKelCodec_decode :: "(schema \<Rightarrow> nat \<Rightarrow> bool) \<Rightarrow> bool \<Rightarrow> 'b Buffer \<Rightarrow> Limits \<Rightarrow>
    schema \<Rightarrow> message \<Rightarrow> 'b \<Rightarrow> (error \<times> message \<times> 'b) option" where
  "ProtoKelCodec_decode cr alloc vt limits s builder buffer = do {
     let view = view_new buffer;
     (error, packet_length, view) \<leftarrow> ShiftStreamValue8_decode (view_vt vt) 0 view;
     if failed error then Some (error, builder, bv_buffer view)
     else if packet_length > packet_size limits then
       Some (packet_too_big alloc packet_length, builder, bv_buffer view)
     else do {
       (error, builder, view) \<leftarrow> decodeImpl cr (view_vt vt) s builder view;
       if failed error then Some (error, builder, bv_buffer view)
       else do {
         n \<leftarrow> sizeImpl s builder;
         if n \<noteq> unat packet_length then
           Some (criticalError ''Bad packet format'', builder, bv_buffer view)
         else do {
           buffer \<leftarrow> readAdvance vt (bv_buffer view) (view_readOffset view);
           Some (noError, builder, buffer)
         }
       }
     }
   }"

section \<open>The reference serialisation\<close>

definition le64 :: "nat \<Rightarrow> byte list" where
  "le64 n = le_bytes (of_nat n :: 64 word)"

definition le32 :: "nat \<Rightarrow> byte list" where
  "le32 n = le_bytes (of_nat n :: 32 word)"

fun wire :: "message \<Rightarrow> byte list" where
  "wire (MPrimitive v) = value_bytes v"
| "wire (MString bs) = le64 (length bs) @ bs"
| "wire (MTuple ms) = concat (map wire ms)"
| "wire (MStruct ms) = concat (map wire ms)"
| "wire (MUnion i m) = le32 i @ wire m"
| "wire (MArray ms) = le64 (length ms) @ concat (map wire ms)"

text \<open>A packet: the length of the message and the message.\<close>

definition packet :: "message \<Rightarrow> byte list" where
  "packet m = le64 (length (wire m)) @ wire m"

text \<open>The arrays inside a message have sizes that \<open>resize\<close> can give them.\<close>

fun msg_fits :: "(schema \<Rightarrow> nat \<Rightarrow> bool) \<Rightarrow> schema \<Rightarrow> message \<Rightarrow> bool" where
  "msg_fits cr (Tuple ss) (MTuple ms) \<longleftrightarrow> list_all2 (msg_fits cr) ss ms"
| "msg_fits cr (Struct ss ks) (MStruct ms) \<longleftrightarrow> list_all2 (msg_fits cr) ss ms"
| "msg_fits cr (UnionOf ss ks) (MUnion i m) \<longleftrightarrow> msg_fits cr (ss ! i) m"
| "msg_fits cr (Array s) (MArray ms) \<longleftrightarrow> cr s (length ms) \<and> list_all (msg_fits cr s) ms"
| "msg_fits cr _ _ \<longleftrightarrow> True"

lemma length_le [simp]: "length (le64 n) = 8" "length (le32 n) = 4"
  by (simp_all add: le64_def le32_def)

lemma length_packet [simp]: "length (packet m) = 8 + length (wire m)"
  by (simp add: packet_def)

lemma unat_of_nat_64: "n < SIZE_MOD \<Longrightarrow> unat (of_nat n :: 64 word) = n"
  by (simp add: unat_of_nat SIZE_MOD_def)

lemma unat_of_nat_32: "n < 2 ^ 32 \<Longrightarrow> unat (of_nat n :: 32 word) = n"
  by (simp add: unat_of_nat)

lemma le64_unat: "le64 (unat (w :: 64 word)) = le_bytes w"
  by (simp add: le64_def)

lemma le32_unat: "le32 (unat (w :: 32 word)) = le_bytes w"
  by (simp add: le32_def)

lemma le_word_le64: "(le_word (le64 n) :: 64 word) = of_nat n"
  by (simp add: le64_def le_word_bytes)

lemma le_word_le32: "(le_word (le32 n) :: 32 word) = of_nat n"
  by (simp add: le32_def le_word_bytes)

lemma le64_inject: "m < SIZE_MOD \<Longrightarrow> n < SIZE_MOD \<Longrightarrow> le64 m = le64 n \<longleftrightarrow> m = n"
  by (metis le64_def le_word_le64 unat_of_nat_64)

lemma le32_inject: "m < 2 ^ 32 \<Longrightarrow> n < 2 ^ 32 \<Longrightarrow> le32 m = le32 n \<longleftrightarrow> m = n"
  by (metis le32_def le_word_le32 unat_of_nat_32)

section \<open>Sizes are exact\<close>

lemma sz_add_mod: "sz_add (a mod SIZE_MOD) (b mod SIZE_MOD) = (a + b) mod SIZE_MOD"
  by (simp add: sz_add_def mod_add_eq)

lemma sizeMembers_wire:
  "list_all2 (\<lambda>sz m. sz m = Some (length (wire m) mod SIZE_MOD)) szs ms \<Longrightarrow>
     sizeMembers szs ms = Some (length (concat (map wire ms)) mod SIZE_MOD)"
  by (induction szs ms rule: list_all2_induct) (simp_all add: sz_add_mod)

lemma sizeElements_wire:
  "list_all (\<lambda>m. sz m = Some (length (wire m) mod SIZE_MOD)) ms \<Longrightarrow>
     sizeElements sz ms (n mod SIZE_MOD) = Some ((n + length (concat (map wire ms))) mod SIZE_MOD)"
  by (induction ms arbitrary: n) (simp_all add: sz_add_mod add.assoc)

lemma sizeAlternatives_nth:
  "j < length szs \<Longrightarrow> sizeAlternatives i szs (i + j) m = (szs ! j) m"
proof (induction szs arbitrary: i j)
  case (Cons sz szs)
  then show ?case using Cons.IH [of "j - 1" "Suc i"] by (cases j) auto
qed simp

lemma sizeImpl_wire: "msg_ok s m \<Longrightarrow> sizeImpl s m = Some (length (wire m) mod SIZE_MOD)"
proof (induction s arbitrary: m)
  case (Primitive k N)
  then obtain v where "m = MPrimitive v" by (cases m) auto
  moreover have "StreamValue_size v < SIZE_MOD"
    using StreamValue_size_bounds(2) [of v] by (simp add: SIZE_MOD_def)
  ultimately show ?case by simp
next
  case String
  then show ?case by (cases m) (auto simp: sz_add_def)
next
  case (Tuple ss)
  then obtain ms where "m = MTuple ms" "list_all2 msg_ok ss ms" by (cases m) auto
  with Tuple.IH show ?case
    by (auto intro!: sizeMembers_wire simp: list_all2_conv_all_nth)
next
  case (Struct ss ks)
  then obtain ms where "m = MStruct ms" "list_all2 msg_ok ss ms" by (cases m) auto
  with Struct.IH show ?case
    by (auto intro!: sizeMembers_wire simp: list_all2_conv_all_nth)
next
  case (UnionOf ss ks)
  then obtain i m' where m: "m = MUnion i m'" "i < length ss" "msg_ok (ss ! i) m'" by (cases m) auto
  with UnionOf.IH [of "ss ! i" m'] sizeAlternatives_nth [of i "map (\<lambda>s m. sizeImpl s m) ss" 0 m'] show ?case
    using sz_add_mod [of 4 "length (wire m')"] by (simp add: SIZE_MOD_def)
next
  case (Array s)
  then obtain ms where "m = MArray ms" "list_all (msg_ok s) ms" by (cases m) auto
  with Array.IH sizeElements_wire [of "\<lambda>m. sizeImpl s m" ms 8] show ?case
    by (simp add: list_all_iff SIZE_MOD_def)
qed

section \<open>Encoding through the writing contract\<close>

context buffer_writer0
begin

text \<open>An encoder for a message: with room for it, it appends the bytes of the message.\<close>

definition encodes :: "(message \<Rightarrow> 'a \<Rightarrow> (error \<times> 'a) option) \<Rightarrow> message \<Rightarrow> bool" where
  "encodes enc m \<longleftrightarrow> (\<forall>b. inv b \<longrightarrow> length (wire m) \<le> length (wr b) \<longrightarrow>
     (\<exists>b'. enc m b = Some (noError, b') \<and> inv b' \<and> wt b' = wt b @ wire m
         \<and> wr b' = drop (length (wire m)) (wr b)))"

lemma encodesD:
  assumes "encodes enc m" and "inv b" and "length (wire m) \<le> length (wr b)"
  obtains b' where "enc m b = Some (noError, b')" "inv b'" "wt b' = wt b @ wire m"
    "wr b' = drop (length (wire m)) (wr b)"
  using assms unfolding encodes_def by blast

lemma encode64:
  assumes "inv b" and "8 \<le> length (wr b)"
  obtains b' where "ShiftStreamValue8_encode vt (of_nat n) b = Some (noError, b')" "inv b'"
    "wt b' = wt b @ le64 n" "wr b' = drop 8 (wr b)"
  using StreamValue_encode_correct [OF assms(1), of "V64 (of_nat n)"] assms(2) by (auto simp: le64_def)

lemma encode32:
  assumes "inv b" and "4 \<le> length (wr b)"
  obtains b' where "ShiftStreamValue4_encode vt (of_nat n) b = Some (noError, b')" "inv b'"
    "wt b' = wt b @ le32 n" "wr b' = drop 4 (wr b)"
  using StreamValue_encode_correct [OF assms(1), of "V32 (of_nat n)"] assms(2) by (auto simp: le32_def)

lemma encodeMembers_correct:
  assumes "list_all2 encodes encs ms" and "inv b" and "length (concat (map wire ms)) \<le> length (wr b)"
  shows "\<exists>b'. encodeMembers encs ms b = Some (noError, b') \<and> inv b' \<and> wt b' = wt b @ concat (map wire ms)
           \<and> wr b' = drop (length (concat (map wire ms))) (wr b)"
  using assms
proof (induction encs ms arbitrary: b rule: list_all2_induct)
  case (Cons enc encs m ms)
  from encodesD [OF Cons.hyps(1) Cons.prems(1)] Cons.prems(2) obtain b1 where
    b1: "enc m b = Some (noError, b1)" "inv b1" "wt b1 = wt b @ wire m"
      "wr b1 = drop (length (wire m)) (wr b)" by auto
  with Cons.IH [OF b1(2)] Cons.prems show ?case by (auto simp: add.commute)
qed simp

lemma encodeElements_correct:
  assumes "list_all (encodes enc) ms" and "inv b" and "length (concat (map wire ms)) \<le> length (wr b)"
  shows "\<exists>b'. encodeElements enc ms b = Some (noError, b') \<and> inv b' \<and> wt b' = wt b @ concat (map wire ms)
           \<and> wr b' = drop (length (concat (map wire ms))) (wr b)"
proof -
  have "encodeElements enc ms b = encodeMembers (map (\<lambda>m. enc) ms) ms b" for ms b
    by (induction ms arbitrary: b) (simp_all cong: if_cong)
  with encodeMembers_correct [of "map (\<lambda>m. enc) ms" ms b] assms show ?thesis
    by (simp add: list_all2_conv_all_nth list_all_length)
qed

lemma encodeAlternatives_correct:
  assumes "j < length encs" and "encodes (encs ! j) m" and "inv b" and "4 + length (wire m) \<le> length (wr b)"
  shows "\<exists>b'. encodeAlternatives vt i encs (i + j) m b = Some (noError, b') \<and> inv b'
           \<and> wt b' = wt b @ le32 (i + j) @ wire m \<and> wr b' = drop (4 + length (wire m)) (wr b)"
  using assms(1,2)
proof (induction encs arbitrary: i j)
  case (Cons enc encs)
  show ?case
  proof (cases j)
    case 0
    from assms(4) have 4: "4 \<le> length (wr b)" by simp
    obtain b1 where b1: "ShiftStreamValue4_encode vt (of_nat i) b = Some (noError, b1)" "inv b1"
      "wt b1 = wt b @ le32 i" "wr b1 = drop 4 (wr b)" using encode32 [OF assms(3) 4] .
    have "encodes enc m" "length (wire m) \<le> length (wr b1)" using Cons.prems 0 assms(4) b1(4) by simp_all
    from encodesD [OF this(1) b1(2) this(2)] obtain b2 where
      "enc m b1 = Some (noError, b2)" "inv b2" "wt b2 = wt b1 @ wire m"
      "wr b2 = drop (length (wire m)) (wr b1)" .
    with b1 0 show ?thesis by (simp add: add.commute)
  next
    case (Suc j')
    with Cons.IH [of j' "Suc i"] Cons.prems show ?thesis by auto
  qed
qed simp

lemma encodeString_encodes: "encodes (\<lambda>m b. encodeString vt bs b) (MString bs)"
  unfolding encodes_def
proof (intro allI impI)
  fix b assume b: "inv b" and len: "length (wire (MString bs)) \<le> length (wr b)"
  have bound: "8 + length bs \<le> PTRDIFF_MAX" using writable_bound [OF b] len by simp
  have 8: "8 \<le> length (wr b)" using len by simp
  obtain b1 where b1: "ShiftStreamValue8_encode vt (of_nat (length bs)) b = Some (noError, b1)" "inv b1"
    "wt b1 = wt b @ le64 (length bs)" "wr b1 = drop 8 (wr b)" using encode64 [OF b 8] .
  have "length bs \<le> length (wr b1)" using b1(4) len by simp
  from write_each_advance0 [OF b1(2) this] obtain b2 b3 where
    b3: "write_each vt b1 0 bs = Some b2" "writeAdvance vt b2 (length bs) = Some b3" "inv b3"
      "wt b3 = wt b1 @ bs" "wr b3 = drop (length bs) (wr b1)" by blast
  have "writeRequireLength vt b (sz_add 8 (length bs)) = Some (noError, b)"
    using write_require [OF b bound] PTRDIFF_MAX_less [OF bound] len by (simp add: sz_add_exact)
  with b1 b3 show "\<exists>b'. encodeString vt bs b = Some (noError, b') \<and> inv b'
      \<and> wt b' = wt b @ wire (MString bs) \<and> wr b' = drop (length (wire (MString bs))) (wr b)"
    by (simp add: encodeString_def add.commute)
qed

lemma encodeImpl_encodes: "msg_ok s m \<Longrightarrow> encodes (\<lambda>m b. encodeImpl vt s m b) m"
proof (induction s arbitrary: m)
  case (Primitive k N)
  then obtain v where "m = MPrimitive v" by (cases m) auto
  then show ?case using StreamValue_encode_correct [of _ v] by (auto simp: encodes_def)
next
  case String
  then obtain bs where "m = MString bs" by (cases m) auto
  then show ?case using encodeString_encodes [of bs] by (simp add: encodes_def)
next
  case (Tuple ss)
  then obtain ms where m: "m = MTuple ms" "list_all2 msg_ok ss ms" by (cases m) auto
  with Tuple.IH have "list_all2 encodes (map (\<lambda>s m b. encodeImpl vt s m b) ss) ms"
    by (auto simp: list_all2_conv_all_nth)
  from encodeMembers_correct [OF this] m show ?case by (simp add: encodes_def)
next
  case (Struct ss ks)
  then obtain ms where m: "m = MStruct ms" "list_all2 msg_ok ss ms" by (cases m) auto
  with Struct.IH have "list_all2 encodes (map (\<lambda>s m b. encodeImpl vt s m b) ss) ms"
    by (auto simp: list_all2_conv_all_nth)
  from encodeMembers_correct [OF this] m show ?case by (simp add: encodes_def)
next
  case (UnionOf ss ks)
  then obtain i m' where m: "m = MUnion i m'" "i < length ss" "msg_ok (ss ! i) m'" by (cases m) auto
  with UnionOf.IH [of "ss ! i" m']
    encodeAlternatives_correct [of i "map (\<lambda>s m b. encodeImpl vt s m b) ss" m' _ 0] show ?case
    by (simp add: encodes_def)
next
  case (Array s)
  then obtain ms where m: "m = MArray ms" "list_all (msg_ok s) ms" by (cases m) auto
  with Array.IH have ok: "list_all (encodes (\<lambda>m b. encodeImpl vt s m b)) ms"
    by (auto simp: list_all_iff)
  show ?case unfolding encodes_def
  proof (intro allI impI)
    fix b assume b: "inv b" and len: "length (wire m) \<le> length (wr b)"
    then have 8: "8 \<le> length (wr b)" using m by simp
    obtain b1 where b1: "ShiftStreamValue8_encode vt (of_nat (length ms)) b = Some (noError, b1)" "inv b1"
      "wt b1 = wt b @ le64 (length ms)" "wr b1 = drop 8 (wr b)" using encode64 [OF b 8] .
    with encodeElements_correct [OF ok b1(2)] len m(1)
    show "\<exists>b'. encodeImpl vt (Array s) m b = Some (noError, b') \<and> inv b'
        \<and> wt b' = wt b @ wire m \<and> wr b' = drop (length (wire m)) (wr b)"
      by (auto simp: encodeArray_def add.commute)
  qed
qed

end

end
