(* ===== verification/Proto_Kel_Correct.thy ===== *)
theory Proto_Kel_Correct
  imports Proto_Kel
begin

text \<open>
  What the codec of \<open>proto_kel.h\<close> achieves. Decoding is analysed through the reading contract:
  a decoder of a schema only ever returns well typed messages whose serialisation it has consumed
  (\<open>decoder\<close>), returns every message whose bytes it finds and asks for more on a part of them
  (\<open>recognises\<close>), and returns exactly if the vectors can be resized to the lengths that the bytes
  announce (\<open>tracks\<close>). The codec
  on top of a view is analysed for any buffer that stores what is written, and the properties are
  stated for the ring buffer.
\<close>

section \<open>Decoding through the reading contract\<close>

lemma decodeAlternatives_past:
  "unat uid < i \<Longrightarrow> decodeAlternatives V i decs value b uid = Some (noError, value, b)"
  by (induction decs arbitrary: i) simp_all

text \<open>Exactly the decoder of the alternative with the id read is run, on that alternative.\<close>

lemma decodeAlternatives_select:
  "j < length decs \<Longrightarrow> unat uid = i + j \<Longrightarrow> decodeAlternatives V i decs value b uid = do {
     (index, m) \<leftarrow> union_get V (i + j) value;
     (error, m, b) \<leftarrow> (decs ! j) m b;
     Some (if failed error then error else noError, (index, m), b)
   }"
proof (induction decs arbitrary: i j)
  case (Cons dec decs)
  show ?case
  proof (cases j)
    case 0
    with Cons.prems show ?thesis
      by (auto intro!: bind_option_cong simp: decodeAlternatives_past split: prod.split)
  next
    case (Suc j')
    with Cons.IH [of j' "Suc i"] Cons.prems show ?thesis by simp
  qed
qed simp

section \<open>Announced lengths\<close>

text \<open>
  A reading of bytes as a message of a schema that builds no message: the sizes to which arrays have to
  be resized on the way, in this order and with the schema of their elements, and the bytes that follow
  the message, if it is there completely and its union ids exist.
\<close>

type_synonym announcement = "(schema \<times> nat) list \<times> byte list option"

definition next64 :: "byte list \<Rightarrow> (nat \<times> byte list) option" where
  "next64 bs = (if 8 \<le> length bs then Some (unat (le_word (take 8 bs) :: 64 word), drop 8 bs) else None)"

definition next32 :: "byte list \<Rightarrow> (nat \<times> byte list) option" where
  "next32 bs = (if 4 \<le> length bs then Some (unat (le_word (take 4 bs) :: 32 word), drop 4 bs) else None)"

fun announced_all :: "(byte list \<Rightarrow> announcement) list \<Rightarrow> byte list \<Rightarrow> announcement" where
  "announced_all [] bs = ([], Some bs)"
| "announced_all (a # as) bs = (case a bs of
     (ns, None) \<Rightarrow> (ns, None)
   | (ns, Some bs) \<Rightarrow> (case announced_all as bs of (ns', r) \<Rightarrow> (ns @ ns', r)))"

fun announced :: "schema \<Rightarrow> byte list \<Rightarrow> announcement" where
  "announced (Primitive k N) bs = ([], if N \<le> length bs then Some (drop N bs) else None)"
| "announced String bs = ([], case next64 bs of
     Some (n, bs) \<Rightarrow> if n \<le> length bs then Some (drop n bs) else None
   | None \<Rightarrow> None)"
| "announced (Tuple ss) bs = announced_all (map (\<lambda>s bs. announced s bs) ss) bs"
| "announced (Struct ss ks) bs = announced_all (map (\<lambda>s bs. announced s bs) ss) bs"
| "announced (UnionOf ss ks) bs = (case next32 bs of
     Some (i, bs) \<Rightarrow> if i < length ss then (map (\<lambda>s bs. announced s bs) ss ! i) bs else ([], None)
   | None \<Rightarrow> ([], None))"
| "announced (Array s) bs = (case next64 bs of
     Some (n, bs) \<Rightarrow> (case announced_all (replicate n (\<lambda>bs. announced s bs)) bs of (ns, r) \<Rightarrow> ((s, n) # ns, r))
   | None \<Rightarrow> ([], None))"

text \<open>The same for a packet: nothing is read after a length beyond the limit.\<close>

definition packet_announces :: "Limits \<Rightarrow> schema \<Rightarrow> byte list \<Rightarrow> (schema \<times> nat) list" where
  "packet_announces limits s bs = (case next64 bs of
     Some (n, bs) \<Rightarrow> if n \<le> unat (packet_size limits) then fst (announced s bs) else []
   | None \<Rightarrow> [])"

definition resizable :: "(schema \<Rightarrow> nat \<Rightarrow> bool) \<Rightarrow> (schema \<times> nat) list \<Rightarrow> bool" where
  "resizable cr ns \<longleftrightarrow> (\<forall>(s, n) \<in> set ns. cr s n)"

lemma resizable_simps [simp]:
  "resizable cr []" "resizable cr ((s, n) # ns) \<longleftrightarrow> cr s n \<and> resizable cr ns"
  "resizable cr (ns @ ns') \<longleftrightarrow> resizable cr ns \<and> resizable cr ns'"
  by (auto simp: resizable_def)

lemma next64_simps [simp]:
  "n < SIZE_MOD \<Longrightarrow> next64 (le64 n @ bs) = Some (n, bs)" "length bs < 8 \<Longrightarrow> next64 bs = None"
  by (simp_all add: next64_def le_word_le64 unat_of_nat_64)

lemma next32_simps [simp]:
  "n < 2 ^ 32 \<Longrightarrow> next32 (le32 n @ bs) = Some (n, bs)" "length bs < 4 \<Longrightarrow> next32 bs = None"
  by (simp_all add: next32_def le_word_le32 unat_of_nat_32)

text \<open>A schema without arrays announces nothing.\<close>

fun array_free :: "schema \<Rightarrow> bool" where
  "array_free (Tuple ss) \<longleftrightarrow> list_all array_free ss"
| "array_free (Struct ss ks) \<longleftrightarrow> list_all array_free ss"
| "array_free (UnionOf ss ks) \<longleftrightarrow> list_all array_free ss"
| "array_free (Array s) \<longleftrightarrow> False"
| "array_free _ \<longleftrightarrow> True"

lemma announced_all_none: "(\<And>a bs. a \<in> set as \<Longrightarrow> fst (a bs) = []) \<Longrightarrow> fst (announced_all as bs) = []"
proof (induction as arbitrary: bs)
  case (Cons a as)
  from Cons.prems [of a bs] obtain r where "a bs = ([], r)" by (cases "a bs") auto
  with Cons show ?case by (auto split: option.split prod.split)
qed simp

lemma announced_array_free: "array_free s \<Longrightarrow> fst (announced s bs) = []"
  by (induction s arbitrary: bs) (auto simp: list_all_iff intro!: announced_all_none split: option.split)

lemma strict_prefix_append_cases:
  assumes "strict_prefix xs (ys @ zs)"
  obtains "strict_prefix xs ys" | xs' where "xs = ys @ xs'" "strict_prefix xs' zs"
  using assms by (cases "xs = ys") (auto simp: strict_prefix_def prefix_append)

context buffer_reader
begin

text \<open>
  What a decoder of a schema does: whatever it returns, the message is well typed, a part of the
  readable bytes has been consumed, and without an error this part is the serialisation of the
  message.
\<close>

definition decoder :: "schema \<Rightarrow> (message \<Rightarrow> 'b \<Rightarrow> (error \<times> message \<times> 'b) option) \<Rightarrow> bool" where
  "decoder s dec \<longleftrightarrow> (\<forall>b old e m b'. inv b \<longrightarrow> msg_ok s old \<longrightarrow> dec old b = Some (e, m, b') \<longrightarrow>
     inv b' \<and> msg_ok s m \<and> suffix (rd b') (rd b) \<and> (\<not> failed e \<longrightarrow> rd b = wire m @ rd b'))"

lemma decoderD:
  assumes "decoder s dec" and "inv b" and "msg_ok s old" and "dec old b = Some (e, m, b')"
  shows "inv b'" "msg_ok s m" "suffix (rd b') (rd b)" "\<not> failed e \<Longrightarrow> rd b = wire m @ rd b'"
  using assms unfolding decoder_def by blast+

text \<open>
  A decoder recognises a message: it returns the message when its bytes are readable, whatever
  follows, and asks for more when only a part of them is.
\<close>

definition recognises :: "schema \<Rightarrow> (message \<Rightarrow> 'b \<Rightarrow> (error \<times> message \<times> 'b) option) \<Rightarrow> message \<Rightarrow> bool" where
  "recognises s dec m \<longleftrightarrow> (\<forall>b old. inv b \<longrightarrow> msg_ok s old \<longrightarrow>
     (\<forall>rest. rd b = wire m @ rest \<longrightarrow> (\<exists>b'. dec old b = Some (noError, m, b') \<and> inv b' \<and> rd b' = rest))
     \<and> (strict_prefix (rd b) (wire m) \<longrightarrow> (\<exists>m' b'. dec old b = Some (too_small, m', b'))))"

lemma recognisesD:
  assumes "recognises s dec m" and "inv b" and "msg_ok s old"
  shows "rd b = wire m @ rest \<Longrightarrow> \<exists>b'. dec old b = Some (noError, m, b') \<and> inv b' \<and> rd b' = rest"
    "strict_prefix (rd b) (wire m) \<Longrightarrow> \<exists>m' b'. dec old b = Some (too_small, m', b')"
  using assms unfolding recognises_def by blast+

lemma decode64:
  assumes "inv b"
  obtains "length (rd b) < 8" "ShiftStreamValue8_decode vt v b = Some (too_small, v, b)"
  | n b' where "n < SIZE_MOD" "ShiftStreamValue8_decode vt v b = Some (noError, of_nat n, b')" "inv b'"
      "rd b = le64 n @ rd b'"
proof (cases "8 \<le> length (rd b)")
  case True
  let ?w = "le_word (take 8 (rd b)) :: 64 word"
  from StreamValue_decode_correct [OF assms, of "V64 v"] True obtain b' where
    b': "ShiftStreamValue8_decode vt v b = Some (noError, ?w, b')" "inv b'" "rd b' = drop 8 (rd b)"
    by (auto elim!: bind_eq_SomeE)
  have "rd b = le64 (unat ?w) @ rd b'"
    using True b' by (simp add: le64_unat le_bytes_word)
  moreover have "unat ?w < SIZE_MOD" using unsigned_less [of ?w, where 'a = nat] by (simp add: SIZE_MOD_def)
  ultimately show thesis using that(2) [of "unat ?w" b'] b' by simp
next
  case False
  with that(1) StreamValue_decode_too_small [OF assms, of "V64 v"] show thesis
    by (auto simp: too_small_def elim!: bind_eq_SomeE)
qed

lemma decode32:
  assumes "inv b"
  obtains "length (rd b) < 4" "ShiftStreamValue4_decode vt v b = Some (too_small, v, b)"
  | n b' where "n < 2 ^ 32" "ShiftStreamValue4_decode vt v b = Some (noError, of_nat n, b')" "inv b'"
      "rd b = le32 n @ rd b'"
proof (cases "4 \<le> length (rd b)")
  case True
  let ?w = "le_word (take 4 (rd b)) :: 32 word"
  from StreamValue_decode_correct [OF assms, of "V32 v"] True obtain b' where
    b': "ShiftStreamValue4_decode vt v b = Some (noError, ?w, b')" "inv b'" "rd b' = drop 4 (rd b)"
    by (auto elim!: bind_eq_SomeE)
  have "rd b = le32 (unat ?w) @ rd b'"
    using True b' by (simp add: le32_unat le_bytes_word)
  moreover have "unat ?w < 2 ^ 32" using unsigned_less [of ?w, where 'a = nat] by simp
  ultimately show thesis using that(2) [of "unat ?w" b'] b' by simp
next
  case False
  with that(1) StreamValue_decode_too_small [OF assms, of "V32 v"] show thesis
    by (auto simp: too_small_def elim!: bind_eq_SomeE)
qed

lemma decode64_known:
  assumes "inv b" and "rd b = le64 n @ rest" and "n < SIZE_MOD"
  shows "\<exists>b'. ShiftStreamValue8_decode vt v b = Some (noError, of_nat n, b') \<and> inv b' \<and> rd b' = rest"
proof (rule decode64 [OF assms(1), of v])
  assume "length (rd b) < 8"
  with assms(2) show ?thesis by simp
next
  fix n' b'
  assume b': "n' < SIZE_MOD" "ShiftStreamValue8_decode vt v b = Some (noError, of_nat n', b')"
    "inv b'" "rd b = le64 n' @ rd b'"
  then have "le64 n' = le64 n" "rd b' = rest" using assms(2) by simp_all
  with b' assms(3) show ?thesis using le64_inject by blast
qed

lemma decode32_known:
  assumes "inv b" and "rd b = le32 n @ rest" and "n < 2 ^ 32"
  shows "\<exists>b'. ShiftStreamValue4_decode vt v b = Some (noError, of_nat n, b') \<and> inv b' \<and> rd b' = rest"
proof (rule decode32 [OF assms(1), of v])
  assume "length (rd b) < 4"
  with assms(2) show ?thesis by simp
next
  fix n' b'
  assume b': "n' < 2 ^ 32" "ShiftStreamValue4_decode vt v b = Some (noError, of_nat n', b')"
    "inv b'" "rd b = le32 n' @ rd b'"
  then have "le32 n' = le32 n" "rd b' = rest" using assms(2) by simp_all
  with b' assms(3) show ?thesis using le32_inject by blast
qed

lemma decode64_short:
  assumes "inv b" and "strict_prefix (rd b) (le64 n)"
  shows "ShiftStreamValue8_decode vt v b = Some (too_small, v, b)" "length (rd b) < 8"
proof -
  show len: "length (rd b) < 8" using prefix_length_less [OF assms(2)] by simp
  with StreamValue_decode_too_small [OF assms(1), of "V64 v"]
  show "ShiftStreamValue8_decode vt v b = Some (too_small, v, b)"
    by (auto simp: too_small_def elim!: bind_eq_SomeE)
qed

lemma decode32_short:
  assumes "inv b" and "strict_prefix (rd b) (le32 n)"
  shows "ShiftStreamValue4_decode vt v b = Some (too_small, v, b)"
  using StreamValue_decode_too_small [OF assms(1), of "V32 v"] prefix_length_less [OF assms(2)]
  by (auto simp: too_small_def elim!: bind_eq_SomeE)

lemma decodePrimitive_decoder:
  assumes "N \<in> {1, 2, 4, 8}"
  shows "decoder (Primitive k N) (\<lambda>m b. decodeImpl cr vt (Primitive k N) m b)"
  unfolding decoder_def
proof (intro allI impI)
  fix b old e m b'
  assume b: "inv b" "msg_ok (Primitive k N) old" "decodeImpl cr vt (Primitive k N) old b = Some (e, m, b')"
  then obtain v where "old = MPrimitive v" by (cases old) auto
  with b(3) obtain v' where v': "StreamValue_decode vt (zero_value N) b = Some (e, v', b')" "m = MPrimitive v'"
    by (auto simp: decodePrimitive_def elim!: bind_eq_SomeE)
  have size: "StreamValue_size (zero_value N) = N" using assms by simp
  show "inv b' \<and> msg_ok (Primitive k N) m \<and> suffix (rd b') (rd b) \<and> (\<not> failed e \<longrightarrow> rd b = wire m @ rd b')"
  proof (cases "N \<le> length (rd b)")
    case True
    let ?v = "value_of (zero_value N) (take N (rd b))"
    have "StreamValue_size ?v = N" "value_bytes ?v = take N (rd b)"
      using same_size_value_of [THEN StreamValue_size_same, of "zero_value N" "take N (rd b)"] size True
      by (simp_all add: value_bytes_of)
    with StreamValue_decode_correct [OF b(1), of "zero_value N"] True size v' show ?thesis
      by (auto simp: suffix_drop)
  next
    case False
    with StreamValue_decode_too_small [OF b(1), of "zero_value N"] size v' b show ?thesis
      by auto
  qed
qed

lemma same_size_zero: "StreamValue_size v = N \<Longrightarrow> same_size (zero_value N) v"
  by (cases v) (auto simp: zero_value_def)

lemma decodePrimitive_recognises:
  assumes "msg_ok (Primitive k N) m"
  shows "recognises (Primitive k N) (\<lambda>m b. decodeImpl cr vt (Primitive k N) m b) m"
proof -
  from assms obtain v where v: "m = MPrimitive v" "StreamValue_size v = N" by (cases m) auto
  note z = same_size_zero [OF v(2)]
  have size: "StreamValue_size (zero_value N) = N" using StreamValue_size_same [OF z] v by simp
  show ?thesis unfolding recognises_def
  proof (intro allI impI conjI)
    fix b old rest
    assume b: "inv b" "msg_ok (Primitive k N) old" and rd: "rd b = wire m @ rest"
    then obtain v0 where old: "old = MPrimitive v0" by (cases old) auto
    have t: "take N (rd b) = value_bytes v" "drop N (rd b) = rest" "N \<le> length (rd b)" using v rd by simp_all
    from StreamValue_decode_correct [OF b(1), of "zero_value N"] size t old v(1)
    show "\<exists>b'. decodeImpl cr vt (Primitive k N) old b = Some (noError, m, b') \<and> inv b' \<and> rd b' = rest"
      by (auto simp: decodePrimitive_def value_of_bytes [OF z])
  next
    fix b old
    assume b: "inv b" "msg_ok (Primitive k N) old" and "strict_prefix (rd b) (wire m)"
    then have "length (rd b) < N" using v prefix_length_less by fastforce
    moreover obtain v0 where "old = MPrimitive v0" using b(2) by (cases old) auto
    ultimately show "\<exists>m' b'. decodeImpl cr vt (Primitive k N) old b = Some (too_small, m', b')"
      using StreamValue_decode_too_small [OF b(1), of "zero_value N"] size
      by (simp add: decodePrimitive_def too_small_def)
  qed
qed

lemma decodeString_decoder: "decoder String (\<lambda>m b. decodeImpl cr vt String m b)"
  unfolding decoder_def
proof (intro allI impI)
  fix b old e m b'
  assume b: "inv b" "msg_ok String old" "decodeImpl cr vt String old b = Some (e, m, b')"
  then obtain d where d: "old = MString d" "length d < SIZE_MOD" by (cases old) auto
  with b(3) obtain d' where d': "decodeString vt d b = Some (e, d', b')" "m = MString d'"
    by (auto elim!: bind_eq_SomeE)
  show "inv b' \<and> msg_ok String m \<and> suffix (rd b') (rd b) \<and> (\<not> failed e \<longrightarrow> rd b = wire m @ rd b')"
  proof (rule decode64 [OF b(1), of 0])
    assume "length (rd b) < 8"
    with d' d b show ?thesis by (auto simp: decodeString_def readable)
  next
    fix n b1
    assume n: "n < SIZE_MOD" "ShiftStreamValue8_decode vt 0 b = Some (noError, of_nat n, b1)" "inv b1"
      "rd b = le64 n @ rd b1"
    show ?thesis
    proof (cases "n \<le> length (rd b1)")
      case True
      with read_advance [OF n(3), of n] obtain b2 where
        "readAdvance vt b1 n = Some b2" "inv b2" "rd b2 = drop n (rd b1)" by blast
      with d' n True b(1) read_each_correct [OF n(3), of 0 n] show ?thesis
        by (auto simp: decodeString_def readable unat_of_nat_64 suffix_drop suffix_appendI)
    next
      case False
      with d' d n b(1) show ?thesis
        by (auto simp: decodeString_def readable unat_of_nat_64 suffix_appendI)
    qed
  qed
qed

lemma decodeString_recognises:
  assumes "msg_ok String m"
  shows "recognises String (\<lambda>m b. decodeImpl cr vt String m b) m"
proof -
  from assms obtain bs where m: "m = MString bs" "length bs < SIZE_MOD" by (cases m) auto
  show ?thesis unfolding recognises_def
  proof (intro allI impI conjI)
    fix b old rest
    assume b: "inv b" "msg_ok String old" and rd: "rd b = wire m @ rest"
    then obtain d where old: "old = MString d" by (cases old) auto
    from decode64_known [OF b(1), of "length bs" "bs @ rest" 0] rd m obtain b1 where
      b1: "ShiftStreamValue8_decode vt 0 b = Some (noError, of_nat (length bs), b1)" "inv b1"
        "rd b1 = bs @ rest" by auto
    from read_advance [OF b1(2), of "length bs"] b1(3) obtain b2 where
      "readAdvance vt b1 (length bs) = Some b2" "inv b2" "rd b2 = rest" by auto
    with b1 b(1) old m rd read_each_correct [OF b1(2), of 0 "length bs"]
    show "\<exists>b'. decodeImpl cr vt String old b = Some (noError, m, b') \<and> inv b' \<and> rd b' = rest"
      by (simp add: decodeString_def readable unat_of_nat_64)
  next
    fix b old
    assume b: "inv b" "msg_ok String old" and pre: "strict_prefix (rd b) (wire m)"
    then obtain d where old: "old = MString d" by (cases old) auto
    from pre m have "strict_prefix (rd b) (le64 (length bs) @ bs)" by simp
    then show "\<exists>m' b'. decodeImpl cr vt String old b = Some (too_small, m', b')"
    proof (cases rule: strict_prefix_append_cases)
      case 1
      with decode64_short(2) [OF b(1)] old b show ?thesis
        by (auto simp: decodeString_def readable too_small_def)
    next
      case (2 xs)
      from prefix_length_less [OF 2(2)] have "length xs < length bs" .
      with decode64_known [OF b(1) 2(1) m(2), of 0] 2 old b m(2) show ?thesis
        by (auto simp: decodeString_def readable too_small_def unat_of_nat_64)
    qed
  qed
qed

lemma decodeMembers_decoder:
  assumes "list_all2 decoder ss decs" and "list_all2 msg_ok ss olds" and "inv b"
    and "decodeMembers decs olds b = Some (e, ms, b')"
  shows "inv b' \<and> list_all2 msg_ok ss ms \<and> suffix (rd b') (rd b)
     \<and> (\<not> failed e \<longrightarrow> rd b = concat (map wire ms) @ rd b')"
  using assms
proof (induction ss decs arbitrary: olds b e ms b' rule: list_all2_induct)
  case Nil
  then show ?case by simp
next
  case (Cons s ss dec decs)
  from Cons.prems(1) obtain old olds' where olds: "olds = old # olds'" "msg_ok s old" "list_all2 msg_ok ss olds'"
    by (auto simp: list_all2_Cons1)
  from Cons.prems(3) olds(1) obtain e1 m1 b1 where d: "dec old b = Some (e1, m1, b1)"
    by (auto elim!: bind_eq_SomeE)
  note D = decoderD [OF Cons.hyps(1) Cons.prems(2) olds(2) d]
  show ?case
  proof (cases "failed e1")
    case True
    with D olds d Cons.prems(3) show ?thesis by auto
  next
    case False
    with Cons.prems(3) olds(1) d obtain ms' where
      ms': "decodeMembers decs olds' b1 = Some (e, ms', b')" "ms = m1 # ms'"
      by (auto elim!: bind_eq_SomeE)
    from Cons.IH [OF olds(3) D(1) ms'(1)] D False ms'(2) show ?thesis
      by (auto intro: suffix_order.trans)
  qed
qed

lemma decodeMembers_recognises:
  assumes "list_all2 (\<lambda>(s, dec) m. recognises s dec m) (zip ss decs) ms" and "length ss = length decs"
    and "list_all2 msg_ok ss olds" and "inv b"
  shows "(\<forall>rest. rd b = concat (map wire ms) @ rest \<longrightarrow>
      (\<exists>b'. decodeMembers decs olds b = Some (noError, ms, b') \<and> inv b' \<and> rd b' = rest))
    \<and> (strict_prefix (rd b) (concat (map wire ms)) \<longrightarrow>
      (\<exists>ms' b'. decodeMembers decs olds b = Some (too_small, ms', b')))"
  using assms
proof (induction ss arbitrary: decs ms olds b)
  case Nil
  then show ?case by (auto simp: strict_prefix_def)
next
  case (Cons s ss)
  from Cons.prems obtain dec decs' m ms' old olds' where
    eq: "decs = dec # decs'" "ms = m # ms'" "olds = old # olds'" and
    r: "recognises s dec m" "list_all2 (\<lambda>(s, dec) m. recognises s dec m) (zip ss decs') ms'"
      "length ss = length decs'" "msg_ok s old" "list_all2 msg_ok ss olds'"
    by (cases decs) (auto simp: list_all2_Cons1)
  note IH = Cons.IH [OF r(2,3,5)] and R = recognisesD [OF r(1) Cons.prems(4) r(4)]
  show ?case unfolding eq
  proof (intro conjI allI impI)
    fix rest assume "rd b = concat (map wire (m # ms')) @ rest"
    then obtain b1 where "dec old b = Some (noError, m, b1)" "inv b1" "rd b1 = concat (map wire ms') @ rest"
      using R(1) [of "concat (map wire ms') @ rest"] by auto
    with IH [of b1] show "\<exists>b'. decodeMembers (dec # decs') (old # olds') b = Some (noError, m # ms', b')
        \<and> inv b' \<and> rd b' = rest" by auto
  next
    assume "strict_prefix (rd b) (concat (map wire (m # ms')))"
    then have "strict_prefix (rd b) (wire m @ concat (map wire ms'))" by simp
    then show "\<exists>ms'' b'. decodeMembers (dec # decs') (old # olds') b = Some (too_small, ms'', b')"
    proof (cases rule: strict_prefix_append_cases)
      case 1
      with R(2) show ?thesis by (auto simp: too_small_def)
    next
      case (2 xs)
      with R(1) [OF 2(1)] obtain b1 where "dec old b = Some (noError, m, b1)" "inv b1" "rd b1 = xs" by auto
      with IH [of b1] 2 show ?thesis by auto
    qed
  qed
qed

lemma decodeElements_members: "decodeElements dec ms b = decodeMembers (map (\<lambda>m. dec) ms) ms b"
  by (induction ms arbitrary: b) (simp_all cong: if_cong)

lemma decodeElements_decoder:
  assumes "decoder s dec" and "list_all (msg_ok s) olds" and "inv b"
    and "decodeElements dec olds b = Some (e, ms, b')"
  shows "inv b' \<and> list_all (msg_ok s) ms \<and> length ms = length olds \<and> suffix (rd b') (rd b)
     \<and> (\<not> failed e \<longrightarrow> rd b = concat (map wire ms) @ rd b')"
  using decodeMembers_decoder [of "map (\<lambda>m. s) olds" "map (\<lambda>m. dec) olds" olds b e ms b'] assms
  by (auto simp: decodeElements_members list_all2_conv_all_nth list_all_length)

lemma decodeUnion_decoder:
  assumes "\<And>s. s \<in> set ss \<Longrightarrow> decoder s (\<lambda>m b. decodeImpl cr vt s m b)" and wf: "wf_schema (UnionOf ss ks)"
  shows "decoder (UnionOf ss ks) (\<lambda>m b. decodeImpl cr vt (UnionOf ss ks) m b)"
  unfolding decoder_def
proof (intro allI impI)
  fix b old e m b'
  assume b: "inv b" "msg_ok (UnionOf ss ks) old" "decodeImpl cr vt (UnionOf ss ks) old b = Some (e, m, b')"
  then obtain i0 m0 where old: "old = MUnion i0 m0" "i0 < length ss" "msg_ok (ss ! i0) m0" by (cases old) auto
  let ?decs = "map (\<lambda>s m b. decodeImpl cr vt s m b) ss"
  from b(3) old(1) obtain i1 m1 where u: "decodeUnion vt ss ?decs (i0, m0) b = Some (e, (i1, m1), b')"
    "m = MUnion i1 m1" by (auto elim!: bind_eq_SomeE)
  show "inv b' \<and> msg_ok (UnionOf ss ks) m \<and> suffix (rd b') (rd b) \<and> (\<not> failed e \<longrightarrow> rd b = wire m @ rd b')"
  proof (rule decode32 [OF b(1), of 0])
    assume "ShiftStreamValue4_decode vt 0 b = Some (too_small, 0, b)"
    with u old b show ?thesis by (auto simp: decodeUnion_def too_small_def)
  next
    fix n b1
    assume n: "n < 2 ^ 32" "ShiftStreamValue4_decode vt 0 b = Some (noError, of_nat n, b1)" "inv b1"
      "rd b = le32 n @ rd b1"
    note un = unat_of_nat_32 [OF n(1)]
    show ?thesis
    proof (cases "n < length ss")
      case False
      with u n old un show ?thesis by (auto simp: decodeUnion_def suffix_appendI)
    next
      case True
      define m2 where "m2 = (if n \<noteq> i0 then default_message (ss ! n) else m0)"
      have m2: "msg_ok (ss ! n) m2"
        using old True wf by (auto simp: m2_def list_all_length intro: msg_ok_default)
      have "union_get ss n (i0, m0) = Some (n, m2)"
        using True by (simp add: union_get_def m2_def)
      with u(1) n(2) un True obtain e1 where
        d: "decodeImpl cr vt (ss ! n) m2 b1 = Some (e1, m1, b')" "i1 = n" "e = (if failed e1 then e1 else noError)"
        using decodeAlternatives_select [of n ?decs "of_nat n" 0 ss "(i0, m0)" b1]
        by (auto simp: decodeUnion_def elim!: bind_eq_SomeE)
      have "ss ! n \<in> set ss" using True by simp
      from decoderD [OF assms(1) [OF this] n(3) m2 d(1)] d(2,3) True u(2) n(4) show ?thesis
        by (auto intro: suffix_appendI split: if_splits)
    qed
  qed
qed

lemma decodeUnion_recognises:
  assumes "recognises (ss ! i) (\<lambda>m b. decodeImpl cr vt (ss ! i) m b) m" and "i < length ss"
    and wf: "wf_schema (UnionOf ss ks)"
  shows "recognises (UnionOf ss ks) (\<lambda>m b. decodeImpl cr vt (UnionOf ss ks) m b) (MUnion i m)"
  unfolding recognises_def
proof (intro allI impI)
  fix b old
  assume b: "inv b" "msg_ok (UnionOf ss ks) old"
  then obtain i0 m0 where old: "old = MUnion i0 m0" "i0 < length ss" "msg_ok (ss ! i0) m0" by (cases old) auto
  define m2 where "m2 = (if i \<noteq> i0 then default_message (ss ! i) else m0)"
  have m2: "msg_ok (ss ! i) m2"
    using old assms(2) wf by (auto simp: m2_def list_all_length intro: msg_ok_default)
  have i: "i < 2 ^ 32" using assms(2) wf by simp
  let ?decs = "map (\<lambda>s m b. decodeImpl cr vt s m b) ss"
  have "union_get ss i (i0, m0) = Some (i, m2)"
    using assms(2) by (simp add: union_get_def m2_def)
  then have alt: "decodeAlternatives ss 0 ?decs (i0, m0) b1 (of_nat i) = do {
      (error, m, b) \<leftarrow> decodeImpl cr vt (ss ! i) m2 b1;
      Some (if failed error then error else noError, (i, m), b) }" for b1
    using decodeAlternatives_select [of i ?decs "of_nat i" 0 ss "(i0, m0)" b1] assms(2) unat_of_nat_32 [OF i]
    by simp
  have run: "decodeImpl cr vt (UnionOf ss ks) old b = do {
      (error, m, b) \<leftarrow> decodeImpl cr vt (ss ! i) m2 b1;
      Some (if failed error then error else noError, MUnion i m, b) }"
    if "ShiftStreamValue4_decode vt 0 b = Some (noError, of_nat i, b1)" for b1
    using that old(1) assms(2) unat_of_nat_32 [OF i]
    by (simp add: decodeUnion_def alt) (auto intro!: bind_option_cong split: prod.split)
  show "(\<forall>rest. rd b = wire (MUnion i m) @ rest \<longrightarrow>
        (\<exists>b'. decodeImpl cr vt (UnionOf ss ks) old b = Some (noError, MUnion i m, b') \<and> inv b' \<and> rd b' = rest))
      \<and> (strict_prefix (rd b) (wire (MUnion i m)) \<longrightarrow>
        (\<exists>m' b'. decodeImpl cr vt (UnionOf ss ks) old b = Some (too_small, m', b')))"
  proof (intro conjI allI impI)
    fix rest assume "rd b = wire (MUnion i m) @ rest"
    with decode32_known [OF b(1) _ i, of "wire m @ rest" 0] obtain b1 where
      b1: "ShiftStreamValue4_decode vt 0 b = Some (noError, of_nat i, b1)" "inv b1" "rd b1 = wire m @ rest" by auto
    with recognisesD(1) [OF assms(1) b1(2) m2 b1(3)] run show
      "\<exists>b'. decodeImpl cr vt (UnionOf ss ks) old b = Some (noError, MUnion i m, b') \<and> inv b' \<and> rd b' = rest" by auto
  next
    assume "strict_prefix (rd b) (wire (MUnion i m))"
    then have "strict_prefix (rd b) (le32 i @ wire m)" by simp
    then show "\<exists>m' b'. decodeImpl cr vt (UnionOf ss ks) old b = Some (too_small, m', b')"
    proof (cases rule: strict_prefix_append_cases)
      case 1
      from decode32_short [OF b(1) 1, of 0] old(1) show ?thesis by (simp add: decodeUnion_def too_small_def)
    next
      case (2 xs)
      from decode32_known [OF b(1) 2(1) i, of 0] obtain b1 where
        b1: "ShiftStreamValue4_decode vt 0 b = Some (noError, of_nat i, b1)" "inv b1" "rd b1 = xs" by auto
      with recognisesD(2) [OF assms(1) b1(2) m2] 2(2) run show ?thesis by (auto simp: too_small_def)
    qed
  qed
qed

lemma decodeArray_decoder:
  assumes "decoder s (\<lambda>m b. decodeImpl cr vt s m b)" and wf: "wf_schema (Array s)"
  shows "decoder (Array s) (\<lambda>m b. decodeImpl cr vt (Array s) m b)"
  unfolding decoder_def
proof (intro allI impI)
  fix b old e m b'
  assume b: "inv b" "msg_ok (Array s) old" "decodeImpl cr vt (Array s) old b = Some (e, m, b')"
  then obtain ms0 where old: "old = MArray ms0" "list_all (msg_ok s) ms0" by (cases old) auto
  let ?dec = "\<lambda>m b. decodeImpl cr vt s m b"
  from b(3) old(1) obtain ms where a: "decodeArray cr vt s ?dec ms0 b = Some (e, ms, b')"
    "m = MArray ms" by (auto elim!: bind_eq_SomeE)
  show "inv b' \<and> msg_ok (Array s) m \<and> suffix (rd b') (rd b) \<and> (\<not> failed e \<longrightarrow> rd b = wire m @ rd b')"
  proof (rule decode64 [OF b(1), of 0])
    assume "ShiftStreamValue8_decode vt 0 b = Some (too_small, 0, b)"
    with a old b show ?thesis by (auto simp: decodeArray_def too_small_def)
  next
    fix n b1
    assume n: "n < SIZE_MOD" "ShiftStreamValue8_decode vt 0 b = Some (noError, of_nat n, b1)" "inv b1"
      "rd b = le64 n @ rd b1"
    from a n(2) unat_of_nat_64 [OF n(1)] obtain ms1 where
      ms1: "array_resize cr s n ms0 = Some ms1" "decodeElements ?dec ms1 b1 = Some (e, ms, b')"
      by (auto simp: decodeArray_def elim!: bind_eq_SomeE)
    from array_resize_ok [OF ms1(1) old(2)] wf have "list_all (msg_ok s) ms1" "length ms1 = n" by simp_all
    with decodeElements_decoder [OF assms(1) this(1) n(3) ms1(2)] a(2) n show ?thesis
      by (auto intro: suffix_appendI)
  qed
qed

lemma decodeArray_recognises:
  assumes "list_all (recognises s (\<lambda>m b. decodeImpl cr vt s m b)) ms" and "length ms < SIZE_MOD"
    and "cr s (length ms)" and wf: "wf_schema (Array s)"
  shows "recognises (Array s) (\<lambda>m b. decodeImpl cr vt (Array s) m b) (MArray ms)"
  unfolding recognises_def
proof (intro allI impI)
  fix b old
  assume b: "inv b" "msg_ok (Array s) old"
  then obtain ms0 where old: "old = MArray ms0" "list_all (msg_ok s) ms0" by (cases old) auto
  let ?dec = "\<lambda>m b. decodeImpl cr vt s m b"
  define ms1 where "ms1 = take (length ms) ms0 @ replicate (length ms - length ms0) (default_message s)"
  have res: "array_resize cr s (length ms) ms0 = Some ms1"
    using assms(3) by (simp add: array_resize_def ms1_def)
  with array_resize_ok [OF res old(2)] wf have ms1: "list_all (msg_ok s) ms1" "length ms1 = length ms" by simp_all
  have run: "decodeImpl cr vt (Array s) old b = do {
      (error, ms, b) \<leftarrow> decodeMembers (map (\<lambda>m. ?dec) ms1) ms1 b1; Some (error, MArray ms, b) }"
    if "ShiftStreamValue8_decode vt 0 b = Some (noError, of_nat (length ms), b1)" for b1
    using that old(1) res unat_of_nat_64 [OF assms(2)] by (simp add: decodeArray_def decodeElements_members)
  have R: "list_all2 (\<lambda>(s, dec) m. recognises s dec m) (zip (map (\<lambda>m. s) ms1) (map (\<lambda>m. ?dec) ms1)) ms"
    "list_all2 msg_ok (map (\<lambda>m. s) ms1) ms1"
    using assms(1) ms1 by (auto simp: list_all2_conv_all_nth list_all_length)
  note elems = decodeMembers_recognises [OF R(1) _ R(2)]
  show "(\<forall>rest. rd b = wire (MArray ms) @ rest \<longrightarrow>
        (\<exists>b'. decodeImpl cr vt (Array s) old b = Some (noError, MArray ms, b') \<and> inv b' \<and> rd b' = rest))
      \<and> (strict_prefix (rd b) (wire (MArray ms)) \<longrightarrow>
        (\<exists>m' b'. decodeImpl cr vt (Array s) old b = Some (too_small, m', b')))"
  proof (intro conjI allI impI)
    fix rest assume "rd b = wire (MArray ms) @ rest"
    with decode64_known [OF b(1) _ assms(2), of "concat (map wire ms) @ rest" 0] obtain b1 where
      b1: "ShiftStreamValue8_decode vt 0 b = Some (noError, of_nat (length ms), b1)" "inv b1"
        "rd b1 = concat (map wire ms) @ rest" by auto
    with elems [of b1] run show
      "\<exists>b'. decodeImpl cr vt (Array s) old b = Some (noError, MArray ms, b') \<and> inv b' \<and> rd b' = rest" by auto
  next
    assume "strict_prefix (rd b) (wire (MArray ms))"
    then have "strict_prefix (rd b) (le64 (length ms) @ concat (map wire ms))" by simp
    then show "\<exists>m' b'. decodeImpl cr vt (Array s) old b = Some (too_small, m', b')"
    proof (cases rule: strict_prefix_append_cases)
      case 1
      from decode64_short(1) [OF b(1) 1, of 0] old(1) show ?thesis by (simp add: decodeArray_def too_small_def)
    next
      case (2 xs)
      from decode64_known [OF b(1) 2(1) assms(2), of 0] obtain b1 where
        b1: "ShiftStreamValue8_decode vt 0 b = Some (noError, of_nat (length ms), b1)" "inv b1" "rd b1 = xs" by auto
      with elems [of b1] 2(2) run show ?thesis by auto
    qed
  qed
qed

lemma decodeImpl_decoder: "wf_schema s \<Longrightarrow> decoder s (\<lambda>m b. decodeImpl cr vt s m b)"
proof (induction s)
  case (Primitive k N)
  then show ?case using primitive_supported_size [of k N] by (intro decodePrimitive_decoder) simp
next
  case String
  show ?case by (rule decodeString_decoder)
next
  case (Tuple ss)
  then have "list_all2 decoder ss (map (\<lambda>s m b. decodeImpl cr vt s m b) ss)"
    by (simp add: list_all2_conv_all_nth list_all_length)
  note D = decodeMembers_decoder [OF this]
  show ?case unfolding decoder_def
  proof (intro allI impI)
    fix b old e m b'
    assume b: "inv b" "msg_ok (Tuple ss) old" "decodeImpl cr vt (Tuple ss) old b = Some (e, m, b')"
    then obtain olds where old: "old = MTuple olds" "list_all2 msg_ok ss olds" by (cases old) auto
    with b(3) obtain ms where
      ms: "decodeMembers (map (\<lambda>s m b. decodeImpl cr vt s m b) ss) olds b = Some (e, ms, b')" "m = MTuple ms"
      by (auto elim!: bind_eq_SomeE)
    from D [OF old(2) b(1) ms(1)] ms(2)
    show "inv b' \<and> msg_ok (Tuple ss) m \<and> suffix (rd b') (rd b) \<and> (\<not> failed e \<longrightarrow> rd b = wire m @ rd b')"
      by simp
  qed
next
  case (Struct ss ks)
  then have "list_all2 decoder ss (map (\<lambda>s m b. decodeImpl cr vt s m b) ss)"
    by (simp add: list_all2_conv_all_nth list_all_length)
  note D = decodeMembers_decoder [OF this]
  show ?case unfolding decoder_def
  proof (intro allI impI)
    fix b old e m b'
    assume b: "inv b" "msg_ok (Struct ss ks) old" "decodeImpl cr vt (Struct ss ks) old b = Some (e, m, b')"
    then obtain olds where old: "old = MStruct olds" "list_all2 msg_ok ss olds" by (cases old) auto
    with b(3) obtain ms where
      ms: "decodeMembers (map (\<lambda>s m b. decodeImpl cr vt s m b) ss) olds b = Some (e, ms, b')" "m = MStruct ms"
      by (auto elim!: bind_eq_SomeE)
    from D [OF old(2) b(1) ms(1)] ms(2)
    show "inv b' \<and> msg_ok (Struct ss ks) m \<and> suffix (rd b') (rd b) \<and> (\<not> failed e \<longrightarrow> rd b = wire m @ rd b')"
      by simp
  qed
next
  case (UnionOf ss ks)
  then show ?case by (intro decodeUnion_decoder) (auto simp: list_all_iff)
next
  case (Array s)
  then show ?case by (intro decodeArray_decoder) auto
qed

lemma decodeImpl_recognises:
  "wf_schema s \<Longrightarrow> msg_ok s m \<Longrightarrow> msg_fits cr s m \<Longrightarrow> recognises s (\<lambda>m b. decodeImpl cr vt s m b) m"
proof (induction s arbitrary: m)
  case (Primitive k N)
  then show ?case by (intro decodePrimitive_recognises)
next
  case String
  then show ?case by (intro decodeString_recognises)
next
  case (Tuple ss)
  then obtain ms where m: "m = MTuple ms" "list_all2 msg_ok ss ms" "list_all2 (msg_fits cr) ss ms"
    by (cases m) auto
  have "list_all2 (\<lambda>(s, dec) m. recognises s dec m) (zip ss (map (\<lambda>s m b. decodeImpl cr vt s m b) ss)) ms"
    using Tuple m by (auto simp: list_all2_conv_all_nth list_all_length)
  note R = decodeMembers_recognises [OF this]
  show ?case unfolding recognises_def m(1)
  proof (intro allI impI)
    fix b old assume b: "inv b" "msg_ok (Tuple ss) old"
    then obtain olds where old: "old = MTuple olds" "list_all2 msg_ok ss olds" by (cases old) auto
    from R [OF _ old(2) b(1)] show "(\<forall>rest. rd b = wire (MTuple ms) @ rest \<longrightarrow>
        (\<exists>b'. decodeImpl cr vt (Tuple ss) old b = Some (noError, MTuple ms, b') \<and> inv b' \<and> rd b' = rest))
      \<and> (strict_prefix (rd b) (wire (MTuple ms)) \<longrightarrow> (\<exists>m' b'. decodeImpl cr vt (Tuple ss) old b = Some (too_small, m', b')))"
      unfolding old(1) by auto
  qed
next
  case (Struct ss ks)
  then obtain ms where m: "m = MStruct ms" "list_all2 msg_ok ss ms" "list_all2 (msg_fits cr) ss ms"
    by (cases m) auto
  have "list_all2 (\<lambda>(s, dec) m. recognises s dec m) (zip ss (map (\<lambda>s m b. decodeImpl cr vt s m b) ss)) ms"
    using Struct m by (auto simp: list_all2_conv_all_nth list_all_length)
  note R = decodeMembers_recognises [OF this]
  show ?case unfolding recognises_def m(1)
  proof (intro allI impI)
    fix b old assume b: "inv b" "msg_ok (Struct ss ks) old"
    then obtain olds where old: "old = MStruct olds" "list_all2 msg_ok ss olds" by (cases old) auto
    from R [OF _ old(2) b(1)] show "(\<forall>rest. rd b = wire (MStruct ms) @ rest \<longrightarrow>
        (\<exists>b'. decodeImpl cr vt (Struct ss ks) old b = Some (noError, MStruct ms, b') \<and> inv b' \<and> rd b' = rest))
      \<and> (strict_prefix (rd b) (wire (MStruct ms)) \<longrightarrow> (\<exists>m' b'. decodeImpl cr vt (Struct ss ks) old b = Some (too_small, m', b')))"
      unfolding old(1) by auto
  qed
next
  case (UnionOf ss ks)
  then obtain i m' where m: "m = MUnion i m'" "i < length ss" "msg_ok (ss ! i) m'" "msg_fits cr (ss ! i) m'"
    by (cases m) auto
  with UnionOf show ?case by (simp del: wf_schema.simps) (intro decodeUnion_recognises; auto simp: list_all_length)
next
  case (Array s)
  then obtain ms where m: "m = MArray ms" "list_all (msg_ok s) ms" "length ms < SIZE_MOD" "cr s (length ms)"
    "list_all (msg_fits cr s) ms" by (cases m) auto
  with Array show ?case unfolding m(1) by (intro decodeArray_recognises) (auto simp: list_all_iff)
qed

text \<open>
  A decoder that follows the announcements \<open>a\<close>: it returns if the vectors can be resized as they say, and
  returns without an error if the message is there.
\<close>

definition tracks :: "(schema \<Rightarrow> nat \<Rightarrow> bool) \<Rightarrow> (byte list \<Rightarrow> announcement) \<Rightarrow> schema \<Rightarrow>
    (message \<Rightarrow> 'b \<Rightarrow> (error \<times> message \<times> 'b) option) \<Rightarrow> bool" where
  "tracks cr a s dec \<longleftrightarrow> (\<forall>b old. inv b \<longrightarrow> msg_ok s old \<longrightarrow> (case dec old b of
     None \<Rightarrow> \<not> resizable cr (fst (a (rd b)))
   | Some (e, m, b') \<Rightarrow> resizable cr (fst (a (rd b))) \<and> snd (a (rd b)) = (if failed e then None else Some (rd b'))))"

lemma tracksD:
  assumes "tracks cr a s dec" and "inv b" and "msg_ok s old"
  shows "dec old b = None \<Longrightarrow> \<not> resizable cr (fst (a (rd b)))"
    "dec old b = Some (e, m, b') \<Longrightarrow> resizable cr (fst (a (rd b)))"
    "dec old b = Some (e, m, b') \<Longrightarrow> snd (a (rd b)) = (if failed e then None else Some (rd b'))"
  using assms unfolding tracks_def by (force split: option.splits prod.splits)+

lemma tracksI:
  assumes "\<And>b old. inv b \<Longrightarrow> msg_ok s old \<Longrightarrow> (case dec old b of
     None \<Rightarrow> \<not> resizable cr (fst (a (rd b)))
   | Some (e, m, b') \<Rightarrow> resizable cr (fst (a (rd b))) \<and> snd (a (rd b)) = (if failed e then None else Some (rd b')))"
  shows "tracks cr a s dec"
  using assms unfolding tracks_def by blast

lemma decodeMembers_tracks:
  assumes "\<And>t. t \<in> set ts \<Longrightarrow> tracks cr (a t) (s t) (dec t) \<and> decoder (s t) (dec t)"
    and "list_all2 msg_ok (map s ts) olds" and "inv b"
  shows "case decodeMembers (map dec ts) olds b of
     None \<Rightarrow> \<not> resizable cr (fst (announced_all (map a ts) (rd b)))
   | Some (e, ms, b') \<Rightarrow> resizable cr (fst (announced_all (map a ts) (rd b)))
       \<and> snd (announced_all (map a ts) (rd b)) = (if failed e then None else Some (rd b'))"
  using assms
proof (induction ts arbitrary: olds b)
  case Nil
  then show ?case by simp
next
  case (Cons t ts)
  from Cons.prems(2) obtain old olds' where olds: "olds = old # olds'" "msg_ok (s t) old" "list_all2 msg_ok (map s ts) olds'"
    by (auto simp: list_all2_Cons1)
  have t: "tracks cr (a t) (s t) (dec t)" "decoder (s t) (dec t)" using Cons.prems(1) by simp_all
  note T = tracksD [OF t(1) Cons.prems(3) olds(2)]
  obtain ns r where a: "a t (rd b) = (ns, r)" by fastforce
  show ?case
  proof (cases "dec t old b")
    case None
    with T(1) a olds(1) show ?thesis by (auto split: option.split prod.split)
  next
    case (Some emb)
    then obtain e m b1 where d: "dec t old b = Some (e, m, b1)" by (cases emb) auto
    note D = decoderD(1) [OF t(2) Cons.prems(3) olds(2) d]
    show ?thesis
    proof (cases "failed e")
      case True
      with d T(2,3) [OF d] a olds(1) show ?thesis by simp
    next
      case False
      with T(2,3) [OF d] a have ns: "resizable cr ns" "r = Some (rd b1)" by simp_all
      obtain ns' r' where a': "announced_all (map a ts) (rd b1) = (ns', r')" by fastforce
      have "\<And>t. t \<in> set ts \<Longrightarrow> tracks cr (a t) (s t) (dec t) \<and> decoder (s t) (dec t)" using Cons.prems(1) by simp
      note IH = Cons.IH [OF this olds(3) D, unfolded a' fst_conv snd_conv]
      with IH d False a a' ns olds(1) show ?thesis
        by (cases "decodeMembers (map dec ts) olds' b1") (auto split: prod.splits)
    qed
  qed
qed

lemma decodePrimitive_tracks:
  assumes "N \<in> {1, 2, 4, 8}"
  shows "tracks cr (announced (Primitive k N)) (Primitive k N) (\<lambda>m b. decodeImpl cr vt (Primitive k N) m b)"
proof (rule tracksI)
  fix b old assume b: "inv b" "msg_ok (Primitive k N) old"
  then obtain v where old: "old = MPrimitive v" by (cases old) auto
  have size: "StreamValue_size (zero_value N) = N" using assms by simp
  show "case decodeImpl cr vt (Primitive k N) old b of
      None \<Rightarrow> \<not> resizable cr (fst (announced (Primitive k N) (rd b)))
    | Some (e, m, b') \<Rightarrow> resizable cr (fst (announced (Primitive k N) (rd b)))
        \<and> snd (announced (Primitive k N) (rd b)) = (if failed e then None else Some (rd b'))"
    using StreamValue_decode_correct [OF b(1), of "zero_value N"]
      StreamValue_decode_too_small [OF b(1), of "zero_value N"] size old
    by (cases "N \<le> length (rd b)") (auto simp: decodePrimitive_def too_small_def)
qed

lemma decodeString_tracks: "tracks cr (announced String) String (\<lambda>m b. decodeImpl cr vt String m b)"
proof (rule tracksI)
  fix b old assume b: "inv b" "msg_ok String old"
  then obtain d where old: "old = MString d" by (cases old) auto
  show "case decodeImpl cr vt String old b of
      None \<Rightarrow> \<not> resizable cr (fst (announced String (rd b)))
    | Some (e, m, b') \<Rightarrow> resizable cr (fst (announced String (rd b)))
        \<and> snd (announced String (rd b)) = (if failed e then None else Some (rd b'))"
  proof (rule decode64 [OF b(1), of 0])
    fix n b1
    assume n: "n < SIZE_MOD" "ShiftStreamValue8_decode vt 0 b = Some (noError, of_nat n, b1)" "inv b1"
      "rd b = le64 n @ rd b1"
    with read_advance [OF n(3), of n] read_each_correct [OF n(3), of 0 n] b(1) old show ?thesis
      by (cases "n \<le> length (rd b1)") (auto simp: decodeString_def readable unat_of_nat_64)
  qed (use b old in \<open>simp add: decodeString_def readable\<close>)
qed

lemma decodeUnion_tracks:
  assumes "\<And>s. s \<in> set ss \<Longrightarrow> tracks cr (announced s) s (\<lambda>m b. decodeImpl cr vt s m b)" and wf: "wf_schema (UnionOf ss ks)"
  shows "tracks cr (announced (UnionOf ss ks)) (UnionOf ss ks) (\<lambda>m b. decodeImpl cr vt (UnionOf ss ks) m b)"
proof (rule tracksI)
  fix b old assume b: "inv b" "msg_ok (UnionOf ss ks) old"
  then obtain i0 m0 where old: "old = MUnion i0 m0" "i0 < length ss" "msg_ok (ss ! i0) m0" by (cases old) auto
  let ?decs = "map (\<lambda>s m b. decodeImpl cr vt s m b) ss"
  show "case decodeImpl cr vt (UnionOf ss ks) old b of
      None \<Rightarrow> \<not> resizable cr (fst (announced (UnionOf ss ks) (rd b)))
    | Some (e, m, b') \<Rightarrow> resizable cr (fst (announced (UnionOf ss ks) (rd b)))
        \<and> snd (announced (UnionOf ss ks) (rd b)) = (if failed e then None else Some (rd b'))"
  proof (rule decode32 [OF b(1), of 0])
    fix n b1
    assume n: "n < 2 ^ 32" "ShiftStreamValue4_decode vt 0 b = Some (noError, of_nat n, b1)" "inv b1" "rd b = le32 n @ rd b1"
    note un = unat_of_nat_32 [OF n(1)]
    show ?thesis
    proof (cases "n < length ss")
      case True
      define m2 where "m2 = (if n \<noteq> i0 then default_message (ss ! n) else m0)"
      have m2: "msg_ok (ss ! n) m2" using old True wf by (auto simp: m2_def list_all_length intro: msg_ok_default)
      have "union_get ss n (i0, m0) = Some (n, m2)" using True by (simp add: union_get_def m2_def)
      then have run: "decodeImpl cr vt (UnionOf ss ks) old b = do {
          (error, m, b) \<leftarrow> decodeImpl cr vt (ss ! n) m2 b1;
          Some (if failed error then error else noError, MUnion n m, b) }"
        using decodeAlternatives_select [of n ?decs "of_nat n" 0 ss "(i0, m0)" b1] True n(2) old(1) un
        by (simp add: decodeUnion_def) (auto intro!: bind_option_cong split: prod.split)
      have "tracks cr (announced (ss ! n)) (ss ! n) (\<lambda>m b. decodeImpl cr vt (ss ! n) m b)" using assms(1) True by simp
      note T = tracksD [OF this n(3) m2]
      show ?thesis using run T n(1,4) True by (cases "decodeImpl cr vt (ss ! n) m2 b1") auto
    qed (use n old un in \<open>simp add: decodeUnion_def\<close>)
  qed (use old in \<open>simp add: decodeUnion_def too_small_def\<close>)
qed

lemma decodeArray_tracks:
  assumes "tracks cr (announced s) s (\<lambda>m b. decodeImpl cr vt s m b)" and wf: "wf_schema (Array s)"
  shows "tracks cr (announced (Array s)) (Array s) (\<lambda>m b. decodeImpl cr vt (Array s) m b)"
proof (rule tracksI)
  fix b old assume b: "inv b" "msg_ok (Array s) old"
  then obtain ms0 where old: "old = MArray ms0" "list_all (msg_ok s) ms0" by (cases old) auto
  show "case decodeImpl cr vt (Array s) old b of
      None \<Rightarrow> \<not> resizable cr (fst (announced (Array s) (rd b)))
    | Some (e, m, b') \<Rightarrow> resizable cr (fst (announced (Array s) (rd b)))
        \<and> snd (announced (Array s) (rd b)) = (if failed e then None else Some (rd b'))"
  proof (rule decode64 [OF b(1), of 0])
    fix n b1
    assume n: "n < SIZE_MOD" "ShiftStreamValue8_decode vt 0 b = Some (noError, of_nat n, b1)" "inv b1" "rd b = le64 n @ rd b1"
    note un = unat_of_nat_64 [OF n(1)]
    obtain ns r where a: "announced_all (replicate n (announced s)) (rd b1) = (ns, r)" by fastforce
    show ?thesis
    proof (cases "array_resize cr s n ms0")
      case None
      then have "\<not> cr s n" by (simp add: array_resize_def split: if_splits)
      with None n a old(1) un show ?thesis by (simp add: decodeArray_def)
    next
      case (Some ms1)
      with array_resize_ok [OF Some old(2)] wf have ms1: "list_all (msg_ok s) ms1" "length ms1 = n" by simp_all
      have cr: "cr s n" using Some by (simp add: array_resize_def split: if_splits)
      have old1: "list_all2 msg_ok (map (\<lambda>m. s) ms1) ms1" using ms1(1) by (auto simp: list_all2_conv_all_nth list_all_length)
      have elem: "tracks cr (announced s) s (\<lambda>m b. decodeImpl cr vt s m b) \<and> decoder s (\<lambda>m b. decodeImpl cr vt s m b)"
        using assms(1) decodeImpl_decoder [of s cr] wf by simp
      have "announced_all (map (\<lambda>m. announced s) ms1) (rd b1) = (ns, r)" using a ms1(2) by (simp add: map_replicate_const)
      note M = decodeMembers_tracks [of ms1 cr "\<lambda>m. announced s" "\<lambda>m. s" "\<lambda>m m b. decodeImpl cr vt s m b",
        OF elem old1 n(3), unfolded this fst_conv snd_conv]
      with M Some n a old(1) un cr show ?thesis
        by (cases "decodeMembers (map (\<lambda>m m b. decodeImpl cr vt s m b) ms1) ms1 b1")
          (auto simp: decodeArray_def decodeElements_members split: prod.splits)
    qed
  qed (use old in \<open>simp add: decodeArray_def too_small_def\<close>)
qed

lemma decodeImpl_tracks: "wf_schema s \<Longrightarrow> tracks cr (announced s) s (\<lambda>m b. decodeImpl cr vt s m b)"
proof (induction s)
  case (Primitive k N)
  then show ?case using primitive_supported_size [of k N] by (intro decodePrimitive_tracks) simp
next
  case String
  show ?case by (rule decodeString_tracks)
next
  case (Tuple ss)
  then have ss: "tracks cr (announced s) s (\<lambda>m b. decodeImpl cr vt s m b) \<and> decoder s (\<lambda>m b. decodeImpl cr vt s m b)"
    if "s \<in> set ss" for s using that decodeImpl_decoder by (auto simp: list_all_iff)
  note M = decodeMembers_tracks [of ss cr announced "\<lambda>s. s" "\<lambda>s m b. decodeImpl cr vt s m b", OF ss]
  show ?case
  proof (rule tracksI)
    fix b old assume b: "inv b" "msg_ok (Tuple ss) old"
    then obtain olds where "old = MTuple olds" "list_all2 msg_ok ss olds" by (cases old) auto
    with M [of olds b] b(1) show "case decodeImpl cr vt (Tuple ss) old b of
        None \<Rightarrow> \<not> resizable cr (fst (announced (Tuple ss) (rd b)))
      | Some (e, m, b') \<Rightarrow> resizable cr (fst (announced (Tuple ss) (rd b)))
          \<and> snd (announced (Tuple ss) (rd b)) = (if failed e then None else Some (rd b'))"
      by (cases "decodeMembers (map (\<lambda>s m b. decodeImpl cr vt s m b) ss) olds b") auto
  qed
next
  case (Struct ss ks)
  then have ss: "tracks cr (announced s) s (\<lambda>m b. decodeImpl cr vt s m b) \<and> decoder s (\<lambda>m b. decodeImpl cr vt s m b)"
    if "s \<in> set ss" for s using that decodeImpl_decoder by (auto simp: list_all_iff)
  note M = decodeMembers_tracks [of ss cr announced "\<lambda>s. s" "\<lambda>s m b. decodeImpl cr vt s m b", OF ss]
  show ?case
  proof (rule tracksI)
    fix b old assume b: "inv b" "msg_ok (Struct ss ks) old"
    then obtain olds where "old = MStruct olds" "list_all2 msg_ok ss olds" by (cases old) auto
    with M [of olds b] b(1) show "case decodeImpl cr vt (Struct ss ks) old b of
        None \<Rightarrow> \<not> resizable cr (fst (announced (Struct ss ks) (rd b)))
      | Some (e, m, b') \<Rightarrow> resizable cr (fst (announced (Struct ss ks) (rd b)))
          \<and> snd (announced (Struct ss ks) (rd b)) = (if failed e then None else Some (rd b'))"
      by (cases "decodeMembers (map (\<lambda>s m b. decodeImpl cr vt s m b) ss) olds b") auto
  qed
next
  case (UnionOf ss ks)
  then show ?case by (intro decodeUnion_tracks) (auto simp: list_all_iff)
next
  case (Array s)
  then show ?case by (intro decodeArray_tracks) auto
qed

end

section \<open>The codec on a buffer\<close>

text \<open>A client that sends or receives several messages of one schema, each into a new message object.\<close>

fun encode_messages :: "'b Buffer \<Rightarrow> schema \<Rightarrow> message list \<Rightarrow> 'b \<Rightarrow> (error \<times> 'b) option" where
  "encode_messages vt s [] b = Some (noError, b)"
| "encode_messages vt s (m # ms) b = do {
     (e, b) \<leftarrow> ProtoKelCodec_encode vt s m b;
     if failed e then Some (e, b) else encode_messages vt s ms b
   }"

fun decode_messages :: "(schema \<Rightarrow> nat \<Rightarrow> bool) \<Rightarrow> bool \<Rightarrow> 'b Buffer \<Rightarrow> Limits \<Rightarrow> schema \<Rightarrow> nat \<Rightarrow> 'b \<Rightarrow>
    (error \<times> message list \<times> 'b) option" where
  "decode_messages cr alloc vt limits s 0 b = Some (noError, [], b)"
| "decode_messages cr alloc vt limits s (Suc k) b = do {
     (e, m, b) \<leftarrow> ProtoKelCodec_decode cr alloc vt limits s (default_message s) b;
     if failed e then Some (e, [], b)
     else do {
       (e, ms, b) \<leftarrow> decode_messages cr alloc vt limits s k b;
       Some (e, m # ms, b)
     }
   }"

context viewable_writer
begin

lemma codec_encode_correct:
  assumes "inv b" and "msg_ok s m" and "length (packet m) \<le> length (wr b)"
  shows "\<exists>b'. ProtoKelCodec_encode vt s m b = Some (noError, b') \<and> inv b' \<and> rd b' = rd b @ packet m
           \<and> wr b' = drop (length (packet m)) (wr b)"
proof -
  let ?n = "length (wire m)"
  have bound: "?n + 8 \<le> PTRDIFF_MAX" using writable_bound [OF assms(1)] assms(3) by simp
  then have n: "?n < SIZE_MOD" "?n + 8 < SIZE_MOD" using PTRDIFF_MAX_less by force+
  note w = writing_view_new [OF assms(1)]
  have req: "writeRequireLength (view_vt vt) (view_new b) (sz_add ?n 8) = Some (noError, view_new b)"
    using wview.write_require [OF w bound] assms(3) n by (simp add: sz_add_exact)
  have 8: "8 \<le> length (view_wr (view_new b))" using assms(3) by simp
  obtain v1 where v1: "ShiftStreamValue8_encode (view_vt vt) (of_nat ?n) (view_new b) = Some (noError, v1)"
    "writing_view (rd b) v1" "view_wt v1 = le64 ?n" "view_wr v1 = drop 8 (wr b)"
    using wview.encode64 [OF w 8, of ?n] by auto
  have len: "?n \<le> length (view_wr v1)" using v1(4) assms(3) by simp
  obtain v2 where v2: "encodeImpl (view_vt vt) s m v1 = Some (noError, v2)" "writing_view (rd b) v2"
    "view_wt v2 = packet m" "view_wr v2 = drop (length (packet m)) (wr b)"
    using wview.encodesD [OF wview.encodeImpl_encodes [OF assms(2)] v1(2) len] v1(3,4)
    by (auto simp: packet_def add.commute)
  have "view_wt v2 \<noteq> []" using v2(3) by (metis length_packet length_0_conv add_is_0 zero_neq_numeral)
  from commit_view [OF v2(2) this] obtain b' where
    b': "writeAdvance vt (bv_buffer v2) (view_writeOffset v2) = Some b'" "inv b'" "rd b' = rd b @ packet m"
      "wr b' = drop (length (packet m)) (wr b)" using v2(3,4) by auto
  with req v1(1) v2(1) sizeImpl_wire [OF assms(2)] n(1) show ?thesis
    by (simp add: ProtoKelCodec_encode_def)
qed

lemma codec_encode_too_small:
  assumes "inv b" and "msg_ok s m" and "length (wr b) < length (packet m)" and "length (packet m) \<le> PTRDIFF_MAX"
  shows "ProtoKelCodec_encode vt s m b = Some (too_small, b)"
proof -
  let ?n = "length (wire m)"
  have bound: "?n + 8 \<le> PTRDIFF_MAX" using assms(4) by simp
  then have n: "?n < SIZE_MOD" "?n + 8 < SIZE_MOD" using PTRDIFF_MAX_less by force+
  note w = writing_view_new [OF assms(1)]
  have "writeRequireLength (view_vt vt) (view_new b) (sz_add ?n 8) = Some (too_small, view_new b)"
    using wview.write_require [OF w bound] assms(3) n by (simp add: sz_add_exact too_small_def)
  with sizeImpl_wire [OF assms(2)] n(1) show ?thesis
    by (simp add: ProtoKelCodec_encode_def too_small_def view_new_def)
qed

text \<open>Sequences of messages through one buffer.\<close>

lemma encode_messages_correct:
  assumes "inv b" and "list_all (msg_ok s) ms" and "length (concat (map packet ms)) \<le> length (wr b)"
  shows "\<exists>b'. encode_messages vt s ms b = Some (noError, b') \<and> inv b' \<and> rd b' = rd b @ concat (map packet ms)"
  using assms
proof (induction ms arbitrary: b)
  case Nil
  then show ?case by simp
next
  case (Cons m ms)
  then obtain b1 where "ProtoKelCodec_encode vt s m b = Some (noError, b1)" "inv b1" "rd b1 = rd b @ packet m"
    "wr b1 = drop (length (packet m)) (wr b)" using codec_encode_correct [of b s m] by auto
  with Cons.IH [of b1] Cons.prems show ?case by auto
qed

end

context viewable_reader
begin

lemma codec_decode_sound:
  assumes "inv b" and "wf_schema s" and "msg_ok s old"
    and "ProtoKelCodec_decode cr alloc vt limits s old b = Some (e, m, b')"
  shows "msg_ok s m \<and> (if failed e then b' = b
     else e = noError \<and> inv b' \<and> rd b = packet m @ rd b' \<and> length (wire m) \<le> unat (packet_size limits))"
proof -
  note r = reading_view_new [OF assms(1)]
  show ?thesis
  proof (rule rview.decode64 [OF r, of 0])
    assume "ShiftStreamValue8_decode (view_vt vt) 0 (view_new b) = Some (too_small, 0, view_new b)"
    with assms(3,4) show ?thesis by (auto simp: ProtoKelCodec_decode_def too_small_def view_new_def)
  next
    fix n v1
    assume n: "n < SIZE_MOD" "ShiftStreamValue8_decode (view_vt vt) 0 (view_new b) = Some (noError, of_nat n, v1)"
      and v1: "reading_view b v1" "view_rd (view_new b) = le64 n @ view_rd v1"
    show ?thesis
    proof (cases "packet_size limits < of_nat n")
      case True
      with n v1 assms(3,4) show ?thesis
        by (auto simp: ProtoKelCodec_decode_def packet_too_big_def reading_view_def)
    next
      case False
      with assms(4) n obtain e1 v2 where
        d: "decodeImpl cr (view_vt vt) s old v1 = Some (e1, m, v2)"
        and rest: "(if failed e1 then Some (e1, m, bv_buffer v2)
          else do { k \<leftarrow> sizeImpl s m;
            if k \<noteq> n then Some (criticalError ''Bad packet format'', m, bv_buffer v2)
            else do { buffer \<leftarrow> readAdvance vt (bv_buffer v2) (view_readOffset v2); Some (noError, m, buffer) } })
          = Some (e, m, b')"
        by (auto simp: ProtoKelCodec_decode_def unat_of_nat_64 elim!: bind_eq_SomeE split: if_splits)
      note D = rview.decoderD [OF rview.decodeImpl_decoder [OF assms(2)] v1(1) assms(3) d]
      have buf: "bv_buffer v2 = b" using D(1) by (simp add: reading_view_def)
      show ?thesis
      proof (cases "failed e1 \<or> length (wire m) mod SIZE_MOD \<noteq> n")
        case True
        with rest D(2) buf sizeImpl_wire [OF D(2)] show ?thesis by (auto split: if_splits)
      next
        case ok: False
        with D(4) have v: "view_rd v1 = wire m @ view_rd v2" by simp
        from arg_cong [OF v1(2), of length] v have "length (wire m) \<le> length (rd b)" by simp
        with readable_bound [OF assms(1)] PTRDIFF_MAX_less have lt: "length (wire m) < SIZE_MOD" by force
        from commit_reading_view [OF D(1)] obtain b2 where
          "readAdvance vt b (view_readOffset v2) = Some b2" "inv b2" "rd b2 = view_rd v2" by blast
        with rest ok sizeImpl_wire [OF D(2)] buf lt v v1(2) D(2) have
          "e = noError" "b' = b2" "inv b2" "rd b = packet m @ rd b2" "n = length (wire m)"
          by (auto simp: packet_def)
        moreover have "n \<le> unat (packet_size limits)"
          using False unat_of_nat_64 [OF n(1)] by (simp add: word_less_nat_alt not_less)
        ultimately show ?thesis using D(2) by simp
      qed
    qed
  qed
qed

lemma codec_decode_complete:
  assumes "inv b" and "wf_schema s" and "msg_ok s old" and "msg_ok s m" and "msg_fits cr s m"
    and "rd b = packet m @ rest" and "length (wire m) \<le> unat (packet_size limits)"
  shows "\<exists>b'. ProtoKelCodec_decode cr alloc vt limits s old b = Some (noError, m, b') \<and> inv b' \<and> rd b' = rest"
proof -
  let ?n = "length (wire m)"
  have n: "?n < SIZE_MOD"
    using assms(7) unsigned_less [of "packet_size limits", where 'a = nat] by (simp add: SIZE_MOD_def)
  note r = reading_view_new [OF assms(1)]
  from rview.decode64_known [OF r _ n, of "wire m @ rest" 0] assms(6) obtain v1 where
    v1: "ShiftStreamValue8_decode (view_vt vt) 0 (view_new b) = Some (noError, of_nat ?n, v1)"
      "reading_view b v1" "view_rd v1 = wire m @ rest" by (auto simp: packet_def)
  have small: "\<not> packet_size limits < of_nat ?n"
    using assms(7) unat_of_nat_64 [OF n] by (simp add: word_less_nat_alt)
  from rview.recognisesD(1) [OF rview.decodeImpl_recognises [OF assms(2,4,5)] v1(2) assms(3) v1(3)]
  obtain v2 where v2: "decodeImpl cr (view_vt vt) s old v1 = Some (noError, m, v2)" "reading_view b v2"
    "view_rd v2 = rest" by blast
  from commit_reading_view [OF v2(2)] v2(2,3) obtain b2 where
    "readAdvance vt (bv_buffer v2) (view_readOffset v2) = Some b2" "inv b2" "rd b2 = rest"
    by (auto simp: reading_view_def)
  with v1(1) v2(1) small n sizeImpl_wire [OF assms(4)] show ?thesis
    by (simp add: ProtoKelCodec_decode_def unat_of_nat_64)
qed

lemma codec_decode_truncated:
  assumes "inv b" and "wf_schema s" and "msg_ok s old" and "msg_ok s m" and "msg_fits cr s m"
    and "strict_prefix (rd b) (packet m)" and "length (wire m) \<le> unat (packet_size limits)"
  shows "\<exists>m'. ProtoKelCodec_decode cr alloc vt limits s old b = Some (too_small, m', b)"
proof -
  let ?n = "length (wire m)"
  have n: "?n < SIZE_MOD"
    using assms(7) unsigned_less [of "packet_size limits", where 'a = nat] by (simp add: SIZE_MOD_def)
  note r = reading_view_new [OF assms(1)]
  from assms(6) have "strict_prefix (view_rd (view_new b)) (le64 ?n @ wire m)" by (simp add: packet_def)
  then show ?thesis
  proof (cases rule: strict_prefix_append_cases)
    case 1
    from rview.decode64_short(1) [OF r 1, of 0] show ?thesis
      by (simp add: ProtoKelCodec_decode_def too_small_def view_new_def)
  next
    case (2 xs)
    from rview.decode64_known [OF r 2(1) n, of 0] obtain v1 where
      v1: "ShiftStreamValue8_decode (view_vt vt) 0 (view_new b) = Some (noError, of_nat ?n, v1)"
        "reading_view b v1" "view_rd v1 = xs" by auto
    have small: "\<not> packet_size limits < of_nat ?n"
      using assms(7) unat_of_nat_64 [OF n] by (simp add: word_less_nat_alt)
    from rview.recognisesD(2) [OF rview.decodeImpl_recognises [OF assms(2,4,5)] v1(2) assms(3)] 2(2) v1(3)
    obtain m' v2 where v2: "decodeImpl cr (view_vt vt) s old v1 = Some (too_small, m', v2)" by auto
    note D = rview.decoderD [OF rview.decodeImpl_decoder [OF assms(2)] v1(2) assms(3) v2]
    have "bv_buffer v2 = b" using D(1) by (simp add: reading_view_def)
    with v1(1) v2 small show ?thesis
      by (simp add: ProtoKelCodec_decode_def too_small_def)
  qed
qed

lemma codec_decode_empty:
  assumes "inv b" and "rd b = []"
  shows "ProtoKelCodec_decode cr alloc vt limits s old b = Some (too_small, old, b)"
proof -
  have "strict_prefix (view_rd (view_new b)) (le64 0)" using assms(2) by (simp add: strict_prefix_def le64_def le_bytes_def upt_rec)
  from rview.decode64_short(1) [OF reading_view_new [OF assms(1)] this] show ?thesis
    by (simp add: ProtoKelCodec_decode_def too_small_def view_new_def)
qed

text \<open>The codec returns exactly if the vectors can be resized as the readable bytes announce.\<close>

lemma codec_decode_returns:
  assumes "inv b" and "wf_schema s" and "msg_ok s old"
  shows "ProtoKelCodec_decode cr alloc vt limits s old b \<noteq> None \<longleftrightarrow> resizable cr (packet_announces limits s (rd b))"
proof (rule rview.decode64 [OF reading_view_new [OF assms(1)], of 0])
  assume "length (view_rd (view_new b)) < 8"
    "ShiftStreamValue8_decode (view_vt vt) 0 (view_new b) = Some (too_small, 0, view_new b)"
  then show ?thesis by (simp add: ProtoKelCodec_decode_def too_small_def packet_announces_def)
next
  fix n v1
  assume n: "n < SIZE_MOD" "ShiftStreamValue8_decode (view_vt vt) 0 (view_new b) = Some (noError, of_nat n, v1)"
    and v1: "reading_view b v1" "view_rd (view_new b) = le64 n @ view_rd v1"
  have big: "packet_size limits < of_nat n \<longleftrightarrow> \<not> n \<le> unat (packet_size limits)"
    using unat_of_nat_64 [OF n(1)] by (simp add: word_less_nat_alt not_le)
  note T = rview.tracksD [OF rview.decodeImpl_tracks [OF assms(2)] v1(1) assms(3), of cr]
  have ann: "packet_announces limits s (rd b) = (if n \<le> unat (packet_size limits) then fst (announced s (view_rd v1)) else [])"
    using v1(2) n(1) by (simp add: packet_announces_def)
  show ?thesis
  proof (cases "n \<le> unat (packet_size limits)")
    case True
    show ?thesis
    proof (cases "decodeImpl cr (view_vt vt) s old v1")
      case None
      with T(1) n(2) True big ann show ?thesis by (simp add: ProtoKelCodec_decode_def)
    next
      case (Some emv)
      then obtain e m v2 where d: "decodeImpl cr (view_vt vt) s old v1 = Some (e, m, v2)" by (cases emv) auto
      note D = rview.decoderD [OF rview.decodeImpl_decoder [OF assms(2)] v1(1) assms(3) d]
      from commit_reading_view [OF D(1)] D(1) have "readAdvance vt (bv_buffer v2) (view_readOffset v2) \<noteq> None"
        by (auto simp: reading_view_def)
      with n(2) d sizeImpl_wire [OF D(2)] big True ann T(2) [OF d] show ?thesis
        by (auto simp: ProtoKelCodec_decode_def)
    qed
  next
    case False
    with n(2) big ann show ?thesis by (simp add: ProtoKelCodec_decode_def)
  qed
qed

lemma decode_messages_correct:
  assumes "inv b" and "wf_schema s" and "list_all (msg_ok s) ms" and "list_all (msg_fits cr s) ms"
    and "\<forall>m \<in> set ms. length (wire m) \<le> unat (packet_size limits)"
    and "rd b = concat (map packet ms) @ rest"
  shows "\<exists>b'. decode_messages cr alloc vt limits s (length ms) b = Some (noError, ms, b') \<and> inv b' \<and> rd b' = rest"
  using assms(1,3-6)
proof (induction ms arbitrary: b)
  case Nil
  then show ?case by simp
next
  case (Cons m ms)
  from codec_decode_complete [OF Cons.prems(1) assms(2) msg_ok_default [OF assms(2)], of m cr
      "concat (map packet ms) @ rest" limits alloc] Cons.prems obtain b1 where
    "ProtoKelCodec_decode cr alloc vt limits s (default_message s) b = Some (noError, m, b1)" "inv b1"
    "rd b1 = concat (map packet ms) @ rest" by auto
  with Cons.IH [of b1] Cons.prems show ?case by auto
qed

end

lemma msg_fits_all: "msg_ok s m \<Longrightarrow> (\<And>s n. cr s n) \<Longrightarrow> msg_fits cr s m"
proof (induction s arbitrary: m)
  case (UnionOf ss ks)
  then show ?case by (cases m) auto
next
  case (Array s)
  then show ?case by (cases m) (auto simp: list_all_iff)
next
  case (Tuple ss)
  then show ?case by (cases m) (auto simp: list_all2_conv_all_nth)
next
  case (Struct ss ks)
  then show ?case by (cases m) (auto simp: list_all2_conv_all_nth)
qed simp_all

section \<open>Properties\<close>

text \<open>
  C3: messages of a schema encoded one after the other into an empty ring buffer come out of the
  decoder unchanged and in order, and leave the buffer empty. This holds for every well formed
  schema, nested to any depth, as long as the packets fit into the buffer, no message is larger
  than the limit, and the arrays can be resized to their lengths.
\<close>

theorem kel_messages_roundtrip:
  assumes "ring_inv r" and "ring_rd r = []" and "wf_schema s" and "list_all (msg_ok s) ms"
    and "list_all (msg_fits can_resize s) ms"
    and "length (concat (map packet ms)) \<le> length (ring_wr r)"
    and "\<forall>m \<in> set ms. length (wire m) \<le> unat (packet_size limits)"
  shows "\<exists>r1 r2. encode_messages ring_vt s ms r = Some (noError, r1)
    \<and> decode_messages can_resize alloc ring_vt limits s (length ms) r1 = Some (noError, ms, r2)
    \<and> ring_inv r2 \<and> ring_rd r2 = []"
  using ring.encode_messages_correct [OF assms(1,4,6)] assms
    ring.decode_messages_correct [OF _ assms(3,4,5,7), of _ "[]" alloc] by fastforce

theorem kel_messages_roundtrip_witness:
  "\<exists>r1 r2. encode_messages ring_vt
        (Struct [String, UnionOf [Primitive UnsignedInteger 2, Array (Primitive SignedInteger 1)] [''a'', ''b'']] [''n'', ''u''])
        [MStruct [MString [104, 105], MUnion 1 (MArray [MPrimitive (V8 1), MPrimitive (V8 2)])],
         MStruct [MString [], MUnion 0 (MPrimitive (V16 513))]] (ring_new 64) = Some (noError, r1)
    \<and> decode_messages (\<lambda>s n. n < 1000) True ring_vt Limits_default
        (Struct [String, UnionOf [Primitive UnsignedInteger 2, Array (Primitive SignedInteger 1)] [''a'', ''b'']] [''n'', ''u''])
        2 r1 = Some (noError,
        [MStruct [MString [104, 105], MUnion 1 (MArray [MPrimitive (V8 1), MPrimitive (V8 2)])],
         MStruct [MString [], MUnion 0 (MPrimitive (V16 513))]], r2) \<and> ring_rd r2 = []"
proof -
  let ?s = "Struct [String, UnionOf [Primitive UnsignedInteger 2, Array (Primitive SignedInteger 1)] [''a'', ''b'']] [''n'', ''u'']"
  let ?ms = "[MStruct [MString [104, 105], MUnion 1 (MArray [MPrimitive (V8 1), MPrimitive (V8 2)])],
         MStruct [MString [], MUnion 0 (MPrimitive (V16 513))]]"
  have s: "wf_schema ?s" by simp
  have ok: "list_all (msg_ok ?s) ?ms" "list_all (msg_fits (\<lambda>s n. n < 1000) ?s) ?ms"
    by (simp_all add: SIZE_MOD_def)
  have len: "length (concat (map packet ?ms)) \<le> length (ring_wr (ring_new 64))"
    "\<forall>m \<in> set ?ms. length (wire m) \<le> unat (packet_size Limits_default)"
    by (simp_all add: Limits_default_def)
  have r: "ring_inv (ring_new 64)" by (simp add: ring_inv_new PTRDIFF_MAX_def)
  have two: "length ?ms = 2" by simp
  from kel_messages_roundtrip [OF r ring_rd_new s ok len, of True] show ?thesis
    unfolding two by blast
qed

text \<open>
  C20: encoding a message of a schema into a ring buffer is all or nothing. With room for the packet
  the readable bytes grow by exactly the packet, the length of the message followed by its
  serialisation; otherwise the call returns the recoverable error and the buffer is unchanged.
\<close>

theorem kel_encode_all_or_nothing:
  assumes "ring_inv r" and "msg_ok s m" and "length (packet m) \<le> PTRDIFF_MAX"
  shows "if length (packet m) \<le> length (ring_wr r)
    then \<exists>r'. ProtoKelCodec_encode ring_vt s m r = Some (noError, r') \<and> ring_inv r'
           \<and> ring_rd r' = ring_rd r @ packet m
    else ProtoKelCodec_encode ring_vt s m r = Some (recoverableError ''Buffer too small'', r)"
  using ring.codec_encode_correct [OF assms(1,2)] ring.codec_encode_too_small [OF assms(1,2) _ assms(3)]
  by (auto simp: too_small_def not_le simp del: length_ring_wr)

theorem kel_encode_all_or_nothing_witness:
  "(\<exists>r'. ProtoKelCodec_encode ring_vt String (MString [7]) (ring_new 17) = Some (noError, r')
      \<and> ring_rd r' = [9, 0, 0, 0, 0, 0, 0, 0, 1, 0, 0, 0, 0, 0, 0, 0, 7])
   \<and> ProtoKelCodec_encode ring_vt String (MString [7]) (ring_new 16)
       = Some (recoverableError ''Buffer too small'', ring_new 16)"
proof -
  have p: "packet (MString [7]) = [9, 0, 0, 0, 0, 0, 0, 0, 1, 0, 0, 0, 0, 0, 0, 0, 7]"
    by (simp add: packet_def le64_def le_bytes_def upt_rec)
  show ?thesis
    using kel_encode_all_or_nothing [of "ring_new 17" String "MString [7]"]
      kel_encode_all_or_nothing [of "ring_new 16" String "MString [7]"]
    by (auto simp: p ring_inv_new PTRDIFF_MAX_def SIZE_MOD_def)
qed

text \<open>
  C19: whatever bytes are readable, decoding never invents or damages anything. When it returns an
  error, the ring buffer is exactly as it was. When it succeeds, the message is well typed, not
  larger than the limit, and the bytes consumed are exactly its packet, so that encoding it again
  gives the same bytes.
\<close>

theorem kel_decode_sound:
  assumes "ring_inv r" and "wf_schema s" and "msg_ok s old"
    and "ProtoKelCodec_decode can_resize alloc ring_vt limits s old r = Some (e, m, r')"
  shows "msg_ok s m \<and> (if failed e then r' = r
     else ring_inv r' \<and> ring_rd r = packet m @ ring_rd r' \<and> length (wire m) \<le> unat (packet_size limits))"
  using ring.codec_decode_sound [OF assms] by auto

theorem kel_decode_sound_witness:
  "msg_ok (Primitive UnsignedInteger 1) (MPrimitive (V8 0))
   \<and> ProtoKelCodec_decode (\<lambda>s n. True) True ring_vt Limits_default (Primitive UnsignedInteger 1)
       (MPrimitive (V8 5)) (ring_new 3) = Some (recoverableError ''Buffer too small'', MPrimitive (V8 5), ring_new 3)"
proof -
  have r: "ring_inv (ring_new 3)" by (simp add: ring_inv_new PTRDIFF_MAX_def)
  have "ShiftStreamValue8_decode (view_vt ring_vt) 0 (view_new (ring_new 3))
      = Some (too_small, 0, view_new (ring_new 3))"
    using ring.rview.decode64_short(1) [OF ring.reading_view_new [OF r], of 0 0] by (simp add: strict_prefix_def le64_def le_bytes_def upt_rec)
  then have d: "ProtoKelCodec_decode (\<lambda>s n. True) True ring_vt Limits_default (Primitive UnsignedInteger 1)
       (MPrimitive (V8 5)) (ring_new 3) = Some (recoverableError ''Buffer too small'', MPrimitive (V8 5), ring_new 3)"
    by (simp add: ProtoKelCodec_decode_def too_small_def view_new_def)
  from kel_decode_sound [OF r _ _ d] d show ?thesis by simp
qed

text \<open>
  C21: a packet that has only partly arrived makes the decoder ask for more. On every proper prefix
  of a packet, the empty one included, decoding returns the recoverable error and leaves the ring
  buffer as it was, so that the caller can read more bytes and decode again.
\<close>

theorem kel_decode_partial_packet:
  assumes "ring_inv r" and "wf_schema s" and "msg_ok s old" and "msg_ok s m" and "msg_fits can_resize s m"
    and "strict_prefix (ring_rd r) (packet m)" and "length (wire m) \<le> unat (packet_size limits)"
  shows "\<exists>m'. ProtoKelCodec_decode can_resize alloc ring_vt limits s old r
    = Some (recoverableError ''Buffer too small'', m', r)"
  using ring.codec_decode_truncated [OF assms] by (simp add: too_small_def)

theorem kel_decode_partial_packet_witness:
  "\<exists>m'. ProtoKelCodec_decode (\<lambda>s n. n < 10) False ring_vt Limits_default (Array (Primitive UnsignedInteger 1))
      (MArray []) \<lparr>rb_buffer = [9, 0, 0, 0, 0, 0, 0, 0, 1], rb_read_position = 0, rb_write_position = 0,
        rb_write_reached_read = True\<rparr>
    = Some (recoverableError ''Buffer too small'', m',
       \<lparr>rb_buffer = [9, 0, 0, 0, 0, 0, 0, 0, 1], rb_read_position = 0, rb_write_position = 0,
        rb_write_reached_read = True\<rparr>)"
proof -
  let ?r = "\<lparr>rb_buffer = [9, 0, 0, 0, 0, 0, 0, 0, 1], rb_read_position = 0, rb_write_position = 0,
        rb_write_reached_read = True\<rparr> :: ring_buffer"
  let ?m = "MArray [MPrimitive (V8 3)]"
  have p: "packet ?m = [9, 0, 0, 0, 0, 0, 0, 0, 1, 0, 0, 0, 0, 0, 0, 0, 3]"
    by (simp add: packet_def le64_def le_bytes_def upt_rec)
  have r: "ring_inv ?r" by (simp add: ring_inv_def ring_size_def PTRDIFF_MAX_def)
  have rd: "ring_rd ?r = [9, 0, 0, 0, 0, 0, 0, 0, 1]"
    by (simp add: ring_rd_def ring_fill_def ring_size_def)
  have pre: "strict_prefix (ring_rd ?r) (packet ?m)"
    unfolding rd p by (simp add: strict_prefix_def)
  have "wf_schema (Array (Primitive UnsignedInteger 1))"
    "msg_ok (Array (Primitive UnsignedInteger 1)) (MArray [])"
    "msg_ok (Array (Primitive UnsignedInteger 1)) ?m"
    "msg_fits (\<lambda>s n. n < 10) (Array (Primitive UnsignedInteger 1)) ?m"
    "length (wire ?m) \<le> unat (packet_size Limits_default)"
    by (simp_all add: SIZE_MOD_def Limits_default_def)
  from kel_decode_partial_packet [OF r this(1-4) pre this(5)] show ?thesis .
qed

text \<open>
  C22: decoding returns on every content of the ring buffer and for every schema, no assertion fails, no
  access leaves a buffer or a vector and no loop runs forever, exactly if every vector of an array can be
  resized to the length that the bytes announce for it. Which lengths these are is read off the bytes
  alone, by \<open>packet_announces\<close>; a schema without arrays
  announces none, so that decoding it always returns.
\<close>

theorem kel_decode_returns:
  assumes "ring_inv r" and "wf_schema s" and "msg_ok s old"
  shows "((\<exists>e m r'. ProtoKelCodec_decode can_resize alloc ring_vt limits s old r = Some (e, m, r'))
      \<longleftrightarrow> resizable can_resize (packet_announces limits s (ring_rd r)))
    \<and> (array_free s \<longrightarrow> packet_announces limits s (ring_rd r) = [])"
  using ring.codec_decode_returns [OF assms, of can_resize alloc limits] announced_array_free [of s]
  by (auto simp: packet_announces_def split: option.splits)

text \<open>Two strings are announced, and vectors of up to \<open>2 ^ 40\<close> elements can be allocated.\<close>

theorem kel_decode_returns_witness:
  "\<exists>e m r'. ProtoKelCodec_decode (\<lambda>s n. n \<le> 2 ^ 40) True ring_vt Limits_default (Array String) (MArray [])
     \<lparr>rb_buffer = [24, 0, 0, 0, 0, 0, 0, 0, 2, 0, 0, 0, 0, 0, 0, 0], rb_read_position = 0, rb_write_position = 0,
      rb_write_reached_read = True\<rparr> = Some (e, m, r')"
proof -
  let ?r = "\<lparr>rb_buffer = [24, 0, 0, 0, 0, 0, 0, 0, 2, 0, 0, 0, 0, 0, 0, 0], rb_read_position = 0, rb_write_position = 0,
      rb_write_reached_read = True\<rparr> :: ring_buffer"
  have "ring_inv ?r" by (simp add: ring_inv_def ring_size_def PTRDIFF_MAX_def)
  moreover have "ring_rd ?r = le64 24 @ le64 2 @ []"
    by (simp add: ring_rd_def ring_fill_def ring_size_def le64_def le_bytes_def upt_rec)
  then have "packet_announces Limits_default (Array String) (ring_rd ?r) = [(String, 2)]"
    using next64_simps(1) [of 2 "[]"]
    by (simp add: packet_announces_def Limits_default_def SIZE_MOD_def) (simp add: numeral_2_eq_2)
  ultimately show ?thesis using kel_decode_returns [of ?r "Array String" "MArray []" "\<lambda>s n. n \<le> 2 ^ 40" True Limits_default] by simp
qed

text \<open>
  C35: the lengths that a packet announces are not checked. The element count of an array is read from the packet
  and given to \<open>resize\<close> before it is compared with anything, the packet length and the limit
  included: 16 readable bytes make the decoder leave with an exception whenever the announced
  count can not be allocated, however small the announced packet length and the limit are.
\<close>

theorem kel_array_length_unchecked:
  assumes "ring_inv r" and "ring_rd r = le64 k @ le64 n @ rest" and "k < SIZE_MOD" and "n < SIZE_MOD"
    and "k \<le> unat (packet_size limits)" and "\<not> can_resize s n"
  shows "ProtoKelCodec_decode can_resize alloc ring_vt limits (Array s) (MArray ms) r = None"
proof -
  note v = ring.reading_view_new [OF assms(1)]
  from ring.rview.decode64_known [OF v _ assms(3), of "le64 n @ rest" 0] assms(2) obtain v1 where
    v1: "ShiftStreamValue8_decode (view_vt ring_vt) 0 (view_new r) = Some (noError, of_nat k, v1)"
      "ring.reading_view r v1" "ring.view_rd v1 = le64 n @ rest" by auto
  from ring.rview.decode64_known [OF v1(2,3) assms(4), of 0] obtain v2 where
    "ShiftStreamValue8_decode (view_vt ring_vt) 0 v1 = Some (noError, of_nat n, v2)" by auto
  moreover have "\<not> packet_size limits < of_nat k"
    using assms(5) unat_of_nat_64 [OF assms(3)] by (simp add: word_less_nat_alt)
  ultimately show ?thesis
    using v1(1) assms(6) unat_of_nat_64 [OF assms(4)]
    by (simp add: ProtoKelCodec_decode_def decodeArray_def array_resize_def)
qed

theorem kel_array_length_unchecked_witness:
  "ProtoKelCodec_decode (\<lambda>s n. n \<le> 2 ^ 40) True ring_vt Limits_default (Array String) (MArray [])
     \<lparr>rb_buffer = [8, 0, 0, 0, 0, 0, 0, 0, 255, 255, 255, 255, 255, 255, 255, 255],
      rb_read_position = 0, rb_write_position = 0, rb_write_reached_read = True\<rparr> = None"
proof -
  let ?r = "\<lparr>rb_buffer = [8, 0, 0, 0, 0, 0, 0, 0, 255, 255, 255, 255, 255, 255, 255, 255],
      rb_read_position = 0, rb_write_position = 0, rb_write_reached_read = True\<rparr> :: ring_buffer"
  have "ring_inv ?r" by (simp add: ring_inv_def ring_size_def PTRDIFF_MAX_def)
  moreover have "ring_rd ?r = le64 8 @ le64 (2 ^ 64 - 1) @ []"
    by (simp add: ring_rd_def ring_fill_def ring_size_def le64_def le_bytes_def upt_rec)
  ultimately show ?thesis
    by (rule kel_array_length_unchecked) (simp_all add: SIZE_MOD_def Limits_default_def)
qed

text \<open>
  A packet whose announced length exceeds the limit is refused with a critical error before
  any of it is decoded: the message and the ring buffer stay as they were.
\<close>

theorem kel_decode_oversized:
  assumes "ring_inv r" and "ring_rd r = le64 k @ rest" and "k < SIZE_MOD" and "unat (packet_size limits) < k"
  shows "\<exists>e. ProtoKelCodec_decode can_resize alloc ring_vt limits s old r = Some (e, old, r) \<and> isCritical e"
proof -
  from ring.rview.decode64_known [OF ring.reading_view_new [OF assms(1)] _ assms(3), of rest 0] assms(2)
  obtain v1 where v1: "ShiftStreamValue8_decode (view_vt ring_vt) 0 (view_new r) = Some (noError, of_nat k, v1)"
    "ring.reading_view r v1" by auto
  have "packet_size limits < of_nat k"
    using assms(4) unat_of_nat_64 [OF assms(3)] by (simp add: word_less_nat_alt)
  with v1 show ?thesis
    by (simp add: ProtoKelCodec_decode_def packet_too_big_def ring.reading_view_def)
qed

theorem kel_decode_oversized_witness:
  "\<exists>e. ProtoKelCodec_decode (\<lambda>s n. True) True ring_vt \<lparr>packet_size = 5\<rparr> String (MString [1])
      \<lparr>rb_buffer = [6, 0, 0, 0, 0, 0, 0, 0], rb_read_position = 0, rb_write_position = 0, rb_write_reached_read = True\<rparr>
    = Some (e, MString [1],
      \<lparr>rb_buffer = [6, 0, 0, 0, 0, 0, 0, 0], rb_read_position = 0, rb_write_position = 0, rb_write_reached_read = True\<rparr>)
    \<and> isCritical e"
proof -
  let ?r = "\<lparr>rb_buffer = [6, 0, 0, 0, 0, 0, 0, 0], rb_read_position = 0, rb_write_position = 0,
      rb_write_reached_read = True\<rparr> :: ring_buffer"
  have "ring_inv ?r" by (simp add: ring_inv_def ring_size_def PTRDIFF_MAX_def)
  moreover have "ring_rd ?r = le64 6 @ []"
    by (simp add: ring_rd_def ring_fill_def ring_size_def le64_def le_bytes_def upt_rec)
  ultimately show ?thesis
    by (rule kel_decode_oversized) (simp_all add: SIZE_MOD_def)
qed

text \<open>
  C33: the size computed before encoding is the number of bytes the encoding has, modulo the
  wrap-around of \<open>size_t\<close>, for every well typed message.
\<close>

theorem kel_size_exact:
  assumes "msg_ok s m"
  shows "sizeImpl s m = Some (length (wire m) mod 2 ^ 64)"
  using sizeImpl_wire [OF assms] by (simp add: SIZE_MOD_def)

theorem kel_size_exact_witness:
  "sizeImpl (Tuple [String, Primitive FloatingPoint 8]) (MTuple [MString [1, 2, 3], MPrimitive (V64 1)]) = Some 19"
  using kel_size_exact [of "Tuple [String, Primitive FloatingPoint 8]" "MTuple [MString [1, 2, 3], MPrimitive (V64 1)]"]
  by (simp add: SIZE_MOD_def)

text \<open>No serialisation of a message is a proper prefix of another one of the same schema.\<close>

lemma wire_prefix_free:
  assumes "wf_schema s" and "msg_ok s m1" and "msg_ok s m2" and "wire m1 @ rest1 = wire m2 @ rest2"
    and "length (wire m1 @ rest1) \<le> PTRDIFF_MAX"
  shows "m1 = m2 \<and> rest1 = rest2"
proof -
  let ?N = "length (wire m1 @ rest1)"
  from ring.push_correct [OF ring_inv_new [OF assms(5)], of "wire m1 @ rest1"] obtain r where
    r: "ring_inv r" "ring_rd r = wire m1 @ rest1" by auto
  have "ring.recognises s (\<lambda>m b. decodeImpl (\<lambda>s n. True) ring_vt s m b) m" if "msg_ok s m" for m
    using ring.decodeImpl_recognises [OF assms(1) that] msg_fits_all [OF that] by simp
  from ring.recognisesD(1) [OF this r(1) msg_ok_default [OF assms(1)]] assms(2-4) r(2) show ?thesis
    by (metis (no_types, lifting) option.inject prod.inject)
qed

end
