(* ===== verification/Ring_Segments.thy ===== *)
theory Ring_Segments
  imports Proto_Kel_Correct
begin

text \<open>
  A ring buffer that a stream reads from or writes to. A stream is given the address and the length of the first
  readable or writable segment (\<open>read\<close>, \<open>readSegmentLength\<close>, \<open>write\<close>, \<open>writeSegmentLength\<close>) and transfers bytes at that
  address while other code fills or drains the buffer. The lemmas say what the segments are in terms of the content, and
  two further interpretations of the contracts say that filling keeps the read position and draining the write position
  and the memory, so that the address given to the stream stays valid.
\<close>

section \<open>Segments as memory\<close>

lemma ring_memcpy_from:
  "l + n \<le> ring_size r \<Longrightarrow> memcpy_from ring_vt r l n = Some (take n (drop l (rb_buffer r)))"
  by (induction n arbitrary: l) (simp_all add: ring_vt_def ring_load_def ring_size_def Cons_nth_drop_Suc [symmetric])

lemma ring_memcpy_to:
  "l + length xs \<le> ring_size r \<Longrightarrow>
     memcpy_to ring_vt r l xs = Some (r\<lparr>rb_buffer := overwrite l xs (rb_buffer r)\<rparr>)"
  by (induction xs arbitrary: r l) (simp_all add: ring_vt_def ring_store_def ring_size_def overwrite_Cons)

lemma ring_read_address: "ring_inv r \<Longrightarrow> ring_fill r \<noteq> 0 \<Longrightarrow> ring_read r 0 = Some (rb_read_position r)"
proof -
  assume r: "ring_inv r" "ring_fill r \<noteq> 0"
  then have "0 < ring_size r" using ring_inv_bounds(4) [OF r(1)] by linarith
  with r show ?thesis by (simp add: ring_read_loc ring_inv_def)
qed

lemma ring_write_address:
  "ring_inv r \<Longrightarrow> ring_fill r < ring_size r \<Longrightarrow> ring_write r 0 = Some (rb_write_position r)"
  by (auto simp: ring_write_loc ring_inv_def)

lemma ring_read_segment_empty: "ring_inv r \<Longrightarrow> ring_fill r = 0 \<Longrightarrow> ring_readSegmentLength r 0 = Some 0"
  using ring_inv_bounds [of r]
  by (auto simp: ring_readSegmentLength_def ring_inv_def ring_fill_def ring_readPosition_def ring_writePosition_def
      ring_wrap_def sz_add_def sz_sub_def SIZE_MOD_def PTRDIFF_MAX_def split: if_splits)

lemma ring_write_segment_full:
  "ring_inv r \<Longrightarrow> 0 < ring_size r \<Longrightarrow> ring_fill r = ring_size r \<Longrightarrow> ring_writeSegmentLength r 0 = Some 0"
  using ring_inv_bounds [of r] PTRDIFF_MAX_double
  by (auto simp: ring_writeSegmentLength_def ring_inv_def ring_fill_def ring_readPosition_def ring_writePosition_def
      ring_wrap_def size_simps split: if_splits)

text \<open>Memory from the read position on holds readable bytes, memory from the write position on writable ones.\<close>

lemma ring_read_memory:
  assumes "ring_inv r" and "n \<le> ring_fill r" and "rb_read_position r + n \<le> ring_size r"
  shows "take n (drop (rb_read_position r) (rb_buffer r)) = take n (ring_rd r)"
proof -
  have "memcpy_from ring_vt r (rb_read_position r) n = Some (take n (drop 0 (ring_rd r)))"
    using assms by (intro ring.memcpy_from_correct) (simp_all add: ring_vt_def ring_read_loc)
  with ring_memcpy_from [OF assms(3)] show ?thesis by simp
qed

lemma ring_write_memory:
  assumes "ring_inv r" and "length bs \<le> ring_size r - ring_fill r" and "rb_write_position r + length bs \<le> ring_size r"
  defines "r1 \<equiv> r\<lparr>rb_buffer := overwrite (rb_write_position r) bs (rb_buffer r)\<rparr>"
  shows "ring_inv r1" "ring_rd r1 = ring_rd r" "ring_wr r1 = overwrite 0 bs (ring_wr r)"
proof -
  have "\<exists>b'. memcpy_to ring_vt r (rb_write_position r) bs = Some b' \<and> ring_inv b' \<and> ring_rd b' = ring_rd r
      \<and> ring_wr b' = overwrite 0 bs (ring_wr r)"
    using assms by (intro ring.memcpy_to_correct) (simp_all add: ring_vt_def ring_write_loc)
  with ring_memcpy_to [OF assms(3)] show "ring_inv r1" "ring_rd r1 = ring_rd r" "ring_wr r1 = overwrite 0 bs (ring_wr r)"
    by (simp_all add: r1_def)
qed

lemma ring_wr_memory:
  assumes "ring_inv r" and "n \<le> ring_size r - ring_fill r" and "rb_write_position r + n \<le> ring_size r"
  shows "take n (ring_wr r) = take n (drop (rb_write_position r) (rb_buffer r))"
proof -
  let ?bs = "take n (drop (rb_write_position r) (rb_buffer r))"
  have len: "length ?bs = n" using assms(3) by (simp add: ring_size_def)
  have "overwrite (rb_write_position r) ?bs (rb_buffer r) = rb_buffer r"
    using len by (simp add: overwrite_def) (metis append_take_drop_id drop_drop add.commute)
  then have "ring_wr r = overwrite 0 ?bs (ring_wr r)"
    using ring_write_memory(3) [of r ?bs] assms len by simp
  then show ?thesis using len by (metis overwrite_0_split(1) length_ring_wr assms(2))
qed

text \<open>The first segments: they are not empty unless the buffer is empty or full, and end in the vector.\<close>

lemma ring_first_read_segment:
  assumes "ring_inv r" and "ring_fill r \<noteq> 0"
  obtains n where "ring_readSegmentLength r 0 = Some n" and "0 < n" and "n \<le> ring_fill r"
    and "rb_read_position r + n \<le> ring_size r"
proof -
  have pos: "0 < ring_size r" using assms ring_inv_bounds(4) [OF assms(1)] by linarith
  from ring_read_segment_abs [OF assms(1), of 0] assms(2) obtain n l where
    n: "ring_readSegmentLength r 0 = Some n" "0 < n" "n \<le> ring_fill r" "\<And>j. j < n \<Longrightarrow> ring_read r j = Some (l + j)" by auto
  have l: "l = rb_read_position r" using n(4) [of 0] n(2) ring_read_address [OF assms] by simp
  have "(rb_read_position r + (n - 1)) mod ring_size r = l + (n - 1)"
    using n(2,3) n(4) [of "n - 1"] by (simp add: ring_read_loc [OF assms(1)])
  then have "l + (n - 1) < ring_size r" using pos by (metis mod_less_divisor)
  with n l that show ?thesis by simp
qed

lemma ring_first_write_segment:
  assumes "ring_inv r" and "ring_fill r < ring_size r"
  obtains n where "ring_writeSegmentLength r 0 = Some n" and "0 < n" and "n \<le> ring_size r - ring_fill r"
    and "rb_write_position r + n \<le> ring_size r"
proof -
  have pos: "0 < ring_size r" using assms(2) by linarith
  from ring_write_segment_abs [OF assms(1), of 0] assms(2) obtain n l where
    n: "ring_writeSegmentLength r 0 = Some n" "0 < n" "n \<le> ring_size r - ring_fill r"
      "\<And>j. j < n \<Longrightarrow> ring_write r j = Some (l + j)" by auto
  have l: "l = rb_write_position r" using n(4) [of 0] n(2) ring_write_address [OF assms] by simp
  have "(rb_write_position r + (n - 1)) mod ring_size r = l + (n - 1)"
    using n(2,3) n(4) [of "n - 1"] by (simp add: ring_write_loc [OF assms(1)])
  then have "l + (n - 1) < ring_size r" using pos by (metis mod_less_divisor)
  with n l that show ?thesis by simp
qed

section \<open>Filling and draining\<close>

lemma ring_store_keeps:
  "ring_store r l v = Some r' \<Longrightarrow> rb_read_position r' = rb_read_position r \<and> ring_size r' = ring_size r"
  by (auto simp: ring_store_def ring_size_def split: if_splits)

lemma ring_writeAdvance_keeps:
  "ring_writeAdvance r n = Some r' \<Longrightarrow> rb_read_position r' = rb_read_position r \<and> rb_buffer r' = rb_buffer r"
  by (auto simp: ring_writeAdvance_def Let_def assert_that_def split: if_splits)

lemma ring_readAdvance_keeps:
  "ring_readAdvance r n = Some r' \<Longrightarrow> rb_write_position r' = rb_write_position r \<and> rb_buffer r' = rb_buffer r"
  by (auto simp: ring_readAdvance_def Let_def assert_that_def split: if_splits)

interpretation filling: viewable_writer ring_vt
  "\<lambda>r. ring_inv r \<and> rb_read_position r = p \<and> ring_size r = n" ring_rd ring_wr for p n
proof (unfold_locales, goal_cases)
  case (3 b i)
  with ring.write_loc [of b i] obtain l where "write_at ring_vt b i = Some l"
    "\<And>v. \<exists>b'. store ring_vt b l v = Some b' \<and> ring_inv b' \<and> ring_rd b' = ring_rd b \<and> ring_wr b' = (ring_wr b)[i := v]" by auto
  with 3 show ?case using ring_store_keeps [of b l] by (fastforce simp: ring_vt_def)
next
  case (6 b k)
  with ring.write_advance [of b k] obtain b' where "writeAdvance ring_vt b k = Some b'" "ring_inv b'"
    "ring_rd b' = ring_rd b @ take k (ring_wr b)" "ring_wr b' = drop k (ring_wr b)" by auto
  with 6 show ?case using ring_writeAdvance_keeps [of b k b'] by (simp add: ring_vt_def ring_size_def)
qed (use ring.writable ring.writable_bound ring.write_at_store ring.write_segment ring.write_require ring.write_require_any in blast)+

interpretation draining: viewable_reader ring_vt
  "\<lambda>r. ring_inv r \<and> rb_write_position r = p \<and> rb_buffer r = mem" ring_rd for p mem
proof (unfold_locales, goal_cases)
  case (5 b k)
  with ring.read_advance [of b k] obtain b' where "readAdvance ring_vt b k = Some b'" "ring_inv b'"
    "ring_rd b' = drop k (ring_rd b)" by auto
  with 5 show ?case using ring_readAdvance_keeps [of b k b'] by (simp add: ring_vt_def)
qed (use ring.readable ring.readable_bound ring.read_loc ring.read_segment in blast)+

end
