(* ===== verification/Io_Helpers.thy ===== *)
theory Io_Helpers
  imports Errors
begin

text \<open>
  Reading and writing a fixed amount through a stream: the stepping loops of
  \<open>source/forstio/io_helpers.cpp\<close>, the class \<open>AsyncIoStream\<close> of \<open>io.cpp\<close> that starts them, and the
  streams of the unix driver (\<open>driver/io-unix.cpp\<close>, \<open>UnixIoStream::read\<close> and \<open>write\<close>) they run on.

  The memory of the caller is a list of bytes and a buffer pointer an offset into it; touching
  memory outside the list is \<open>None\<close>. A stream is a function on a state \<open>'s\<close>: \<open>read\<close> returns the
  bytes it has stored at the buffer, whose number is the value the C++ function returns. The
  system calls \<open>recv\<close> and \<open>send\<close> are parameters.
\<close>

section \<open>State\<close>

record ReadIoTask =
  rt_buffer :: size_t
  rt_min_length :: size_t
  rt_max_length :: size_t
  rt_already_read :: size_t

text \<open>\<open>read_done\<close> is the feeder, with the results fed to it so far.\<close>

record ReadTaskAndStepHelper =
  read_task :: "ReadIoTask option"
  read_done :: "size_t error_or list option"

record WriteIoTask =
  wt_buffer :: size_t
  wt_length :: size_t
  wt_already_written :: size_t

record WriteTaskAndStepHelper =
  write_task :: "WriteIoTask option"
  write_done :: "size_t error_or list option"

type_synonym 's in_stream = "'s \<Rightarrow> size_t \<Rightarrow> byte list error_or \<times> 's"
type_synonym 's out_stream = "'s \<Rightarrow> byte list \<Rightarrow> size_t error_or \<times> 's"

section \<open>The steppers\<close>

definition finish_read :: "size_t error_or \<Rightarrow> ReadTaskAndStepHelper \<Rightarrow> ReadTaskAndStepHelper" where
  "finish_read result h =
     h\<lparr>read_task := None, read_done := map_option (\<lambda>fed. fed @ [result]) (read_done h)\<rparr>"

definition finish_write :: "size_t error_or \<Rightarrow> WriteTaskAndStepHelper \<Rightarrow> WriteTaskAndStepHelper" where
  "finish_write result h =
     h\<lparr>write_task := None, write_done := map_option (\<lambda>fed. fed @ [result]) (write_done h)\<rparr>"

text \<open>
  \<open>readStep\<close>. A \<open>std::variant\<close> holds a value or an error, so that the last branch of the code, for
  neither, is never taken. Nothing in the loop bounds the number of its rounds; that it ends is a
  consequence of the stream's contract.
\<close>

partial_function (option) readStep ::
    "'s in_stream \<Rightarrow> ReadTaskAndStepHelper \<Rightarrow> byte list \<Rightarrow> 's \<Rightarrow> (ReadTaskAndStepHelper \<times> byte list \<times> 's) option" where
  "readStep reader h mem s =
     (case read_task h of
        None \<Rightarrow> Some (h, mem, s)
      | Some task \<Rightarrow>
          (case reader s (rt_max_length task) of
             (IsError error, s) \<Rightarrow>
               Some (if isCritical error then finish_read (IsError (copyError True error)) h else h, mem, s)
           | (IsValue bytes, s) \<Rightarrow>
               if rt_buffer task + length bytes \<le> length mem then
                 (if length bytes \<ge> rt_min_length task \<and> length bytes \<le> rt_max_length task then
                    readStep reader (finish_read (IsValue (sz_add (length bytes) (rt_already_read task))) h)
                      (overwrite (rt_buffer task) bytes mem) s
                  else
                    readStep reader
                      (h\<lparr>read_task := Some \<lparr>rt_buffer = rt_buffer task + length bytes,
                         rt_min_length = sz_sub (rt_min_length task) (length bytes),
                         rt_max_length = sz_sub (rt_max_length task) (length bytes),
                         rt_already_read = sz_add (rt_already_read task) (length bytes)\<rparr>\<rparr>)
                      (overwrite (rt_buffer task) bytes mem) s)
               else None))"

partial_function (option) writeStep ::
    "'s out_stream \<Rightarrow> byte list \<Rightarrow> WriteTaskAndStepHelper \<Rightarrow> 's \<Rightarrow> (WriteTaskAndStepHelper \<times> 's) option" where
  "writeStep writer mem h s =
     (case write_task h of
        None \<Rightarrow> Some (h, s)
      | Some task \<Rightarrow>
          if wt_buffer task + wt_length task \<le> length mem then
            (case writer s (take (wt_length task) (drop (wt_buffer task) mem)) of
               (IsValue n, s) \<Rightarrow>
                 if n \<le> wt_length task then
                   (if n = wt_length task then
                      writeStep writer mem (finish_write (IsValue (sz_add n (wt_already_written task))) h) s
                    else
                      writeStep writer mem
                        (h\<lparr>write_task := Some \<lparr>wt_buffer = wt_buffer task + n,
                           wt_length = sz_sub (wt_length task) n,
                           wt_already_written = sz_add (wt_already_written task) n\<rparr>\<rparr>) s)
                 else None
             | (IsError error, s) \<Rightarrow>
                 Some (if isCritical error then finish_write (IsError (copyError True error)) h else h, s))
          else None)"

section \<open>AsyncIoStream\<close>

definition AsyncIoStream_read ::
    "'s in_stream \<Rightarrow> size_t \<Rightarrow> size_t \<Rightarrow> size_t \<Rightarrow> ReadTaskAndStepHelper \<Rightarrow> byte list \<Rightarrow> 's \<Rightarrow>
     (ReadTaskAndStepHelper \<times> byte list \<times> 's) option" where
  "AsyncIoStream_read stream buffer min_length max_length h mem s = do {
     assert_that (max_length \<ge> min_length \<and> min_length > 0);
     assert_that (read_task h = None);
     readStep stream
       (h\<lparr>read_task := Some \<lparr>rt_buffer = buffer, rt_min_length = min_length, rt_max_length = max_length,
          rt_already_read = 0\<rparr>\<rparr>) mem s
   }"

definition AsyncIoStream_readDone :: "ReadTaskAndStepHelper \<Rightarrow> ReadTaskAndStepHelper" where
  "AsyncIoStream_readDone h = h\<lparr>read_done := Some []\<rparr>"

definition AsyncIoStream_write ::
    "'s out_stream \<Rightarrow> size_t \<Rightarrow> size_t \<Rightarrow> byte list \<Rightarrow> WriteTaskAndStepHelper \<Rightarrow> 's \<Rightarrow>
     (WriteTaskAndStepHelper \<times> 's) option" where
  "AsyncIoStream_write stream buffer len mem h s = do {
     assert_that (len > 0);
     assert_that (write_task h = None);
     writeStep stream mem
       (h\<lparr>write_task := Some \<lparr>wt_buffer = buffer, wt_length = len, wt_already_written = 0\<rparr>\<rparr>) s
   }"

definition AsyncIoStream_writeDone :: "WriteTaskAndStepHelper \<Rightarrow> WriteTaskAndStepHelper" where
  "AsyncIoStream_writeDone h = h\<lparr>write_done := Some []\<rparr>"

section \<open>Streams of the unix driver\<close>

text \<open>
  \<open>recv\<close> returns the bytes received, none of them at the end of the stream, or fails. \<open>send\<close>
  returns the number of bytes sent or fails with an \<open>errno\<close>.
\<close>

datatype errno = EAGAIN | EWOULDBLOCK | EINPROGRESS | EINTR | OtherErrno nat

type_synonym 'k recv_call = "'k \<Rightarrow> size_t \<Rightarrow> byte list option \<times> 'k"
type_synonym 'k send_call = "'k \<Rightarrow> byte list \<Rightarrow> (errno + nat) \<times> 'k"

definition UnixIoStream_read :: "'k recv_call \<Rightarrow> 'k in_stream" where
  "UnixIoStream_read recv k len =
     (case recv k len of
        (Some bytes, k) \<Rightarrow>
          if length bytes > 0 then (IsValue bytes, k)
          else (IsError (criticalError_code ''Disconnected'' Disconnected), k)
      | (None, k) \<Rightarrow> (IsError (recoverableError ''Currently busy''), k))"

text \<open>A \<open>send\<close> that returns 0 leaves \<open>errno\<close> as an earlier call has set it: \<open>old_errno\<close>.\<close>

definition UnixIoStream_write :: "errno \<Rightarrow> 'k send_call \<Rightarrow> 'k out_stream" where
  "UnixIoStream_write old_errno send k data =
     (case send k data of
        (Inr n, k) \<Rightarrow>
          if n > 0 then (IsValue n, k)
          else if old_errno = EAGAIN \<or> old_errno = EWOULDBLOCK
          then (IsError (recoverableError ''Currently busy''), k)
          else (IsError (criticalError_code ''Disconnected'' Disconnected), k)
      | (Inl error, k) \<Rightarrow>
          if error = EAGAIN \<or> error = EWOULDBLOCK
          then (IsError (recoverableError ''Currently busy''), k)
          else (IsError (criticalError_code ''Disconnected'' Disconnected), k))"

section \<open>The contract of an input stream\<close>

text \<open>
  A successful read returns at least one byte and not more than asked for. \<open>received\<close> are the
  bytes the stream has handed out so far; an error hands out none.
\<close>

locale input_stream =
  fixes reader :: "'s in_stream"
    and received :: "'s \<Rightarrow> byte list"
  assumes read_value: "reader s n = (IsValue bytes, s') \<Longrightarrow> 0 < n \<Longrightarrow>
      0 < length bytes \<and> length bytes \<le> n \<and> received s' = received s @ bytes"
    and read_error: "reader s n = (IsError error, s') \<Longrightarrow> received s' = received s"

locale output_stream =
  fixes writer :: "'s out_stream"
    and sent :: "'s \<Rightarrow> byte list"
  assumes write_value: "writer s data = (IsValue n, s') \<Longrightarrow> data \<noteq> [] \<Longrightarrow>
      0 < n \<and> n \<le> length data \<and> sent s' = sent s @ take n data"
    and write_error: "writer s data = (IsError error, s') \<Longrightarrow> sent s' = sent s"

text \<open>What POSIX documents of \<open>recv\<close> and \<open>send\<close> on a stream socket.\<close>

locale posix_socket =
  fixes recv :: "'k recv_call" and send :: "'k send_call"
    and received sent :: "'k \<Rightarrow> byte list"
  assumes recv_bytes: "recv k n = (Some bytes, k') \<Longrightarrow>
      length bytes \<le> n \<and> received k' = received k @ bytes \<and> sent k' = sent k"
    and recv_fails: "recv k n = (None, k') \<Longrightarrow> received k' = received k \<and> sent k' = sent k"
    and send_bytes: "send k data = (Inr n, k') \<Longrightarrow>
      n \<le> length data \<and> sent k' = sent k @ take n data \<and> received k' = received k"
    and send_fails: "send k data = (Inl error, k') \<Longrightarrow> sent k' = sent k \<and> received k' = received k"

sublocale posix_socket \<subseteq> unix_in: input_stream "UnixIoStream_read recv" received
proof (unfold_locales, goal_cases)
  case (1 s n bytes s')
  then show ?case
    using recv_bytes [of s n] by (auto simp: UnixIoStream_read_def split: prod.splits option.splits if_splits)
next
  case (2 s n error s')
  then show ?case
    using recv_bytes [of s n] recv_fails [of s n]
    by (auto simp: UnixIoStream_read_def split: prod.splits option.splits if_splits)
qed

sublocale posix_socket \<subseteq> unix_out: output_stream "UnixIoStream_write old_errno send" sent for old_errno
proof (unfold_locales, goal_cases)
  case (1 s data n s')
  then show ?case
    using send_bytes [of s data] by (auto simp: UnixIoStream_write_def split: prod.splits sum.splits if_splits)
next
  case (2 s data error s')
  then show ?case
    using send_bytes [of s data] send_fails [of s data]
    by (auto simp: UnixIoStream_write_def split: prod.splits sum.splits if_splits)
qed

section \<open>What a read task achieves\<close>

text \<open>
  The state of a helper and the memory after \<open>bs\<close> has been received for a task that started with
  the buffer at \<open>buffer\<close>, the lengths \<open>mn\<close> and \<open>mx\<close>, the memory \<open>mem0\<close> and the results \<open>done0\<close>.
\<close>

definition read_progress ::
    "size_t \<Rightarrow> size_t \<Rightarrow> size_t \<Rightarrow> byte list \<Rightarrow> size_t error_or list option \<Rightarrow> byte list \<Rightarrow>
     ReadTaskAndStepHelper \<Rightarrow> byte list \<Rightarrow> bool" where
  "read_progress buffer mn mx mem0 done0 bs h mem \<longleftrightarrow>
     length bs \<le> mx \<and> mem = overwrite buffer bs mem0
     \<and> (case read_task h of
          Some task \<Rightarrow> length bs < mn \<and> read_done h = done0
            \<and> task = \<lparr>rt_buffer = buffer + length bs, rt_min_length = mn - length bs,
                      rt_max_length = mx - length bs, rt_already_read = length bs\<rparr>
        | None \<Rightarrow> mn \<le> length bs \<and> read_done h = map_option (\<lambda>fed. fed @ [IsValue (length bs)]) done0
            \<or> length bs < mn \<and> (\<exists>e. isCritical e \<and> read_done h = map_option (\<lambda>fed. fed @ [IsError e]) done0))"

definition write_progress ::
    "size_t \<Rightarrow> size_t \<Rightarrow> size_t error_or list option \<Rightarrow> nat \<Rightarrow> WriteTaskAndStepHelper \<Rightarrow> bool" where
  "write_progress buffer len done0 n h \<longleftrightarrow>
     n \<le> len
     \<and> (case write_task h of
          Some task \<Rightarrow> n < len \<and> write_done h = done0
            \<and> task = \<lparr>wt_buffer = buffer + n, wt_length = len - n, wt_already_written = n\<rparr>
        | None \<Rightarrow> n = len \<and> write_done h = map_option (\<lambda>fed. fed @ [IsValue len]) done0
            \<or> n < len \<and> (\<exists>e. isCritical e \<and> write_done h = map_option (\<lambda>fed. fed @ [IsError e]) done0))"

lemma isCritical_copyError [simp]: "isCritical (copyError alloc e) = isCritical e"
  by (simp add: isCritical_def)

text \<open>
  The steps that follow each other as the stream becomes ready; between two of them the outside
  world acts on the stream.
\<close>

fun read_events :: "'s in_stream \<Rightarrow> ('s \<Rightarrow> 's) list \<Rightarrow> ReadTaskAndStepHelper \<times> byte list \<times> 's \<Rightarrow>
    (ReadTaskAndStepHelper \<times> byte list \<times> 's) option" where
  "read_events reader [] st = Some st"
| "read_events reader (env # envs) (h, mem, s) = do {
     st \<leftarrow> readStep reader h mem (env s);
     read_events reader envs st
   }"

fun write_events :: "'s out_stream \<Rightarrow> byte list \<Rightarrow> ('s \<Rightarrow> 's) list \<Rightarrow> WriteTaskAndStepHelper \<times> 's \<Rightarrow>
    (WriteTaskAndStepHelper \<times> 's) option" where
  "write_events writer mem [] st = Some st"
| "write_events writer mem (env # envs) (h, s) = do {
     st \<leftarrow> writeStep writer mem h (env s);
     write_events writer mem envs st
   }"

context input_stream
begin

lemma readStep_progress:
  assumes "read_progress buffer mn mx mem0 done0 bs h mem" and "mn \<le> mx" and "mx < SIZE_MOD"
    and "buffer + mx \<le> length mem0"
  shows "\<exists>h' mem' s' more. readStep reader h mem s = Some (h', mem', s')
           \<and> read_progress buffer mn mx mem0 done0 (bs @ more) h' mem' \<and> received s' = received s @ more"
  using assms(1)
proof (induction "mn - length bs" arbitrary: bs h mem s rule: less_induct)
  case less
  show ?case
  proof (cases "read_task h")
    case None
    with less.prems show ?thesis by (subst readStep.simps) (auto intro!: exI [of _ "[]"])
  next
    case (Some task)
    with less.prems have len: "length bs < mn" "read_done h = done0" "mem = overwrite buffer bs mem0"
      and task: "task = \<lparr>rt_buffer = buffer + length bs, rt_min_length = mn - length bs,
                      rt_max_length = mx - length bs, rt_already_read = length bs\<rparr>"
      by (auto simp: read_progress_def)
    obtain r s1 where rd: "reader s (mx - length bs) = (r, s1)" by fastforce
    show ?thesis
    proof (cases r)
      case (IsError e)
      let ?h = "if isCritical e then finish_read (IsError (copyError True e)) h else h"
      have "readStep reader h mem s = Some (?h, mem, s1)"
        using Some task rd IsError by (subst readStep.simps) simp
      moreover have "read_progress buffer mn mx mem0 done0 bs ?h mem"
        using less.prems len Some
        by (auto simp: read_progress_def finish_read_def intro!: exI [of _ "copyError True e"])
      ultimately show ?thesis
        using read_error rd IsError by (auto intro!: exI [of _ "[]"])
    next
      case (IsValue bytes)
      have b: "0 < length bytes" "length bytes \<le> mx - length bs" "received s1 = received s @ bytes"
        using read_value [OF rd [unfolded IsValue]] len(1) assms(2) by simp_all
      have lm: "length mem = length mem0" using len(1,3) assms(2,4) by simp
      have ow: "overwrite (buffer + length bs) bytes mem = overwrite buffer (bs @ bytes) mem0"
        using overwrite_append [of buffer bs bytes mem0] len(1,3) b(2) assms(2,4) by simp
      let ?bs = "bs @ bytes"
      let ?done = "mn - length bs \<le> length bytes"
      let ?h = "if ?done then finish_read (IsValue (length ?bs)) h
        else h\<lparr>read_task := Some \<lparr>rt_buffer = buffer + length ?bs, rt_min_length = mn - length ?bs,
          rt_max_length = mx - length ?bs, rt_already_read = length ?bs\<rparr>\<rparr>"
      have step: "readStep reader h mem s = readStep reader ?h (overwrite buffer ?bs mem0) s1"
        using Some task rd IsValue b len(1) lm ow assms(2-4)
        by (subst readStep.simps) (auto simp: size_simps ac_simps)
      have "read_progress buffer mn mx mem0 done0 ?bs ?h (overwrite buffer ?bs mem0)"
        using b len assms(2) by (auto simp: read_progress_def finish_read_def)
      moreover have "mn - length ?bs < mn - length bs" unfolding length_append using b(1) len(1) by linarith
      ultimately obtain h' mem' s' more where
        "readStep reader ?h (overwrite buffer ?bs mem0) s1 = Some (h', mem', s')"
        "read_progress buffer mn mx mem0 done0 (?bs @ more) h' mem'" "received s' = received s1 @ more"
        using less.hyps [of ?bs] by blast
      with step b(3) show ?thesis by (intro exI [of _ h'] exI [of _ mem'] exI [of _ s'] exI [of _ "bytes @ more"]) simp
    qed
  qed
qed

lemma read_events_progress:
  assumes "read_progress buffer mn mx mem0 done0 bs h mem" and "mn \<le> mx" and "mx < SIZE_MOD"
    and "buffer + mx \<le> length mem0" and "\<forall>env \<in> set envs. \<forall>s. received (env s) = received s"
  shows "\<exists>h' mem' s' more. read_events reader envs (h, mem, s) = Some (h', mem', s')
           \<and> read_progress buffer mn mx mem0 done0 (bs @ more) h' mem' \<and> received s' = received s @ more"
  using assms(1,5)
proof (induction envs arbitrary: bs h mem s)
  case Nil
  then show ?case by (auto intro!: exI [of _ "[]"])
next
  case (Cons env envs)
  from readStep_progress [OF Cons.prems(1) assms(2-4), of "env s"] obtain h1 mem1 s1 more1 where
    1: "readStep reader h mem (env s) = Some (h1, mem1, s1)"
      "read_progress buffer mn mx mem0 done0 (bs @ more1) h1 mem1" "received s1 = received (env s) @ more1" by blast
  from Cons.IH [OF 1(2), of s1] Cons.prems(2) obtain h2 mem2 s2 more2 where
    "read_events reader envs (h1, mem1, s1) = Some (h2, mem2, s2)"
    "read_progress buffer mn mx mem0 done0 ((bs @ more1) @ more2) h2 mem2" "received s2 = received s1 @ more2" by auto
  with 1 Cons.prems(2) show ?case by (auto intro!: exI [of _ "more1 @ more2"])
qed

lemma read_start_progress:
  assumes "0 < mn" and "mn \<le> mx" and "mx < SIZE_MOD" and "buffer + mx \<le> length mem" and "read_task h = None"
    and "\<forall>env \<in> set envs. \<forall>s. received (env s) = received s"
  shows "\<exists>h' mem' s' bs. (do {
      st \<leftarrow> AsyncIoStream_read reader buffer mn mx h mem s;
      read_events reader envs st }) = Some (h', mem', s')
    \<and> read_progress buffer mn mx mem (read_done h) bs h' mem' \<and> received s' = received s @ bs"
proof -
  let ?h = "h\<lparr>read_task := Some \<lparr>rt_buffer = buffer, rt_min_length = mn, rt_max_length = mx, rt_already_read = 0\<rparr>\<rparr>"
  have "read_progress buffer mn mx mem (read_done h) [] ?h mem"
    using assms(1) by (simp add: read_progress_def)
  from readStep_progress [OF this assms(2-4), of s] obtain h1 mem1 s1 bs where
    1: "readStep reader ?h mem s = Some (h1, mem1, s1)"
      "read_progress buffer mn mx mem (read_done h) bs h1 mem1" "received s1 = received s @ bs" by auto
  from read_events_progress [OF 1(2) assms(2-4,6), of s1] 1 assms(1,2,5) show ?thesis
    by (fastforce simp: AsyncIoStream_read_def)
qed

end

context output_stream
begin

lemma writeStep_progress:
  assumes "write_progress buffer len done0 n h" and "len < SIZE_MOD" and "buffer + len \<le> length mem"
  shows "\<exists>h' s' k. writeStep writer mem h s = Some (h', s') \<and> write_progress buffer len done0 (n + k) h'
           \<and> sent s' = sent s @ take k (drop (buffer + n) mem)"
  using assms(1)
proof (induction "len - n" arbitrary: n h s rule: less_induct)
  case less
  show ?case
  proof (cases "write_task h")
    case None
    with less.prems show ?thesis by (subst writeStep.simps) (auto intro!: exI [of _ 0])
  next
    case (Some task)
    with less.prems have n: "n < len" "write_done h = done0"
      and task: "task = \<lparr>wt_buffer = buffer + n, wt_length = len - n, wt_already_written = n\<rparr>"
      by (auto simp: write_progress_def)
    let ?data = "take (len - n) (drop (buffer + n) mem)"
    have data: "length ?data = len - n" using n assms(3) by simp
    then have ne: "?data \<noteq> []" using n by (metis length_0_conv zero_less_diff less_irrefl)
    obtain r s1 where wr: "writer s ?data = (r, s1)" by fastforce
    have range: "buffer + n + (len - n) \<le> length mem" using n assms(3) by simp
    show ?thesis
    proof (cases r)
      case (IsError e)
      let ?h = "if isCritical e then finish_write (IsError (copyError True e)) h else h"
      have "writeStep writer mem h s = Some (?h, s1)"
        using Some task wr IsError range by (subst writeStep.simps) simp
      moreover have "write_progress buffer len done0 n ?h"
        using less.prems n Some
        by (auto simp: write_progress_def finish_write_def intro!: exI [of _ "copyError True e"])
      ultimately show ?thesis
        using write_error wr IsError by (auto intro!: exI [of _ 0])
    next
      case (IsValue m)
      have m: "0 < m" "m \<le> len - n" "sent s1 = sent s @ take m (drop (buffer + n) mem)"
        using write_value [OF wr [unfolded IsValue] ne] data by (simp_all add: min_def)
      let ?h = "if m = len - n then finish_write (IsValue len) h
        else h\<lparr>write_task := Some \<lparr>wt_buffer = buffer + (n + m), wt_length = len - (n + m), wt_already_written = n + m\<rparr>\<rparr>"
      have step: "writeStep writer mem h s = writeStep writer mem ?h s1"
        using Some task wr IsValue m n(1) range assms(2)
        by (subst writeStep.simps) (auto simp: size_simps add.assoc)
      have "write_progress buffer len done0 (n + m) ?h"
        using m n by (auto simp: write_progress_def finish_write_def)
      moreover have "len - (n + m) < len - n" using m(1) n(1) by simp
      ultimately obtain h' s' k where
        "writeStep writer mem ?h s1 = Some (h', s')" "write_progress buffer len done0 (n + m + k) h'"
        "sent s' = sent s1 @ take k (drop (buffer + (n + m)) mem)"
        using less.hyps [of "n + m"] by blast
      with step m(3) take_drop_add [of m "buffer + n" mem k] show ?thesis
        by (intro exI [of _ h'] exI [of _ s'] exI [of _ "m + k"]) (simp add: add.assoc)
    qed
  qed
qed

lemma write_events_progress:
  assumes "write_progress buffer len done0 n h" and "len < SIZE_MOD" and "buffer + len \<le> length mem"
    and "\<forall>env \<in> set envs. \<forall>s. sent (env s) = sent s"
  shows "\<exists>h' s' k. write_events writer mem envs (h, s) = Some (h', s') \<and> write_progress buffer len done0 (n + k) h'
           \<and> sent s' = sent s @ take k (drop (buffer + n) mem)"
  using assms(1,4)
proof (induction envs arbitrary: n h s)
  case Nil
  then show ?case by (auto intro!: exI [of _ 0])
next
  case (Cons env envs)
  from writeStep_progress [OF Cons.prems(1) assms(2,3), of "env s"] obtain h1 s1 k1 where
    1: "writeStep writer mem h (env s) = Some (h1, s1)" "write_progress buffer len done0 (n + k1) h1"
      "sent s1 = sent (env s) @ take k1 (drop (buffer + n) mem)" by blast
  from Cons.IH [OF 1(2), of s1] Cons.prems(2) obtain h2 s2 k2 where
    2: "write_events writer mem envs (h1, s1) = Some (h2, s2)" "write_progress buffer len done0 (n + k1 + k2) h2"
      "sent s2 = sent s1 @ take k2 (drop (buffer + (n + k1)) mem)" by auto
  have "take k1 (drop (buffer + n) mem) @ take k2 (drop (buffer + (n + k1)) mem) = take (k1 + k2) (drop (buffer + n) mem)"
    using take_drop_add [of k1 "buffer + n" mem k2] by (simp add: add.assoc)
  with 1 2 Cons.prems(2) show ?case by (auto intro!: exI [of _ "k1 + k2"] simp: add.assoc)
qed

lemma write_start_progress:
  assumes "0 < len" and "len < SIZE_MOD" and "buffer + len \<le> length mem" and "write_task h = None"
    and "\<forall>env \<in> set envs. \<forall>s. sent (env s) = sent s"
  shows "\<exists>h' s' n. (do {
      st \<leftarrow> AsyncIoStream_write writer buffer len mem h s;
      write_events writer mem envs st }) = Some (h', s')
    \<and> write_progress buffer len (write_done h) n h' \<and> sent s' = sent s @ take n (drop buffer mem)"
proof -
  let ?h = "h\<lparr>write_task := Some \<lparr>wt_buffer = buffer, wt_length = len, wt_already_written = 0\<rparr>\<rparr>"
  have "write_progress buffer len (write_done h) 0 ?h"
    using assms(1) by (simp add: write_progress_def)
  from writeStep_progress [OF this assms(2,3), of s] obtain h1 s1 k where
    1: "writeStep writer mem ?h s = Some (h1, s1)" "write_progress buffer len (write_done h) k h1"
      "sent s1 = sent s @ take k (drop buffer mem)" by auto
  from write_events_progress [OF 1(2) assms(2,3,5), of s1] obtain h2 s2 j where
    2: "write_events writer mem envs (h1, s1) = Some (h2, s2)" "write_progress buffer len (write_done h) (k + j) h2"
      "sent s2 = sent s1 @ take j (drop (buffer + k) mem)" by blast
  have "take k (drop buffer mem) @ take j (drop (buffer + k) mem) = take (k + j) (drop buffer mem)"
    by (rule take_drop_add)
  with 1 2 assms(1,4) show ?thesis by (auto intro!: exI [of _ "k + j"] simp: AsyncIoStream_write_def)
qed

end

text \<open>A step changes only what the stream's function changes.\<close>

lemma readStep_keeps:
  assumes "\<And>s n. Q s \<Longrightarrow> Q (snd (reader s n))" and "readStep reader h mem s = Some (h', mem', s')" and "Q s"
  shows "Q s'"
proof -
  have "case (h', mem', s') of (h', mem', s') \<Rightarrow> reader = reader \<longrightarrow> Q s \<longrightarrow> Q s'"
    using assms(2)
  proof (rule readStep.raw_induct [where P = "\<lambda>rd h mem s r. case r of (h', mem', s') \<Rightarrow> rd = reader \<longrightarrow> Q s \<longrightarrow> Q s'", rotated], goal_cases)
    case (1 rs rd h mem s y)
    have keep: "Q s1" if "reader s n = (x, s1)" "Q s" for n x s1 using assms(1) [OF that(2), of n] that(1) by simp
    have IH: "Q s'" if "rs reader h mem s = Some (h', mem', s')" "Q s" for h mem s h' mem' s'
      using 1(1) [OF that(1)] that(2) by simp
    show ?case using 1(2) keep
      by (auto split: option.splits prod.splits error_or.splits if_splits dest: keep IH)
  qed
  then show ?thesis using assms(3) by simp
qed

lemma writeStep_keeps:
  assumes "\<And>s data. Q s \<Longrightarrow> Q (snd (writer s data))" and "writeStep writer mem h s = Some (h', s')" and "Q s"
  shows "Q s'"
proof -
  have "case (h', s') of (h', s') \<Rightarrow> writer = writer \<longrightarrow> Q s \<longrightarrow> Q s'"
    using assms(2)
  proof (rule writeStep.raw_induct [where P = "\<lambda>wr mem h s r. case r of (h', s') \<Rightarrow> wr = writer \<longrightarrow> Q s \<longrightarrow> Q s'", rotated], goal_cases)
    case (1 rs wr mem h s y)
    have keep: "Q s1" if "writer s data = (x, s1)" "Q s" for data x s1 using assms(1) [OF that(2), of data] that(1) by simp
    have IH: "Q s'" if "rs writer mem h s = Some (h', s')" "Q s" for mem h s h' s'
      using 1(1) [OF that(1)] that(2) by simp
    show ?case using 1(2) keep
      by (auto split: option.splits prod.splits error_or.splits if_splits dest: keep IH)
  qed
  then show ?thesis using assms(3) by simp
qed

text \<open>A stream in both directions: neither direction changes what the other one has transferred.\<close>

locale duplex_stream = input_stream reader received + output_stream writer sent
  for reader :: "'s in_stream" and writer :: "'s out_stream" and received sent :: "'s \<Rightarrow> byte list" +
  assumes reader_keeps_sent: "sent (snd (reader s n)) = sent s"
    and writer_keeps_received: "received (snd (writer s data)) = received s"
begin

lemma readStep_sent: "readStep reader h mem s = Some (h', mem', s') \<Longrightarrow> sent s' = sent s"
  by (rule readStep_keeps [where Q = "\<lambda>s'. sent s' = sent s"]) (simp_all add: reader_keeps_sent)

lemma writeStep_received: "writeStep writer mem h s = Some (h', s') \<Longrightarrow> received s' = received s"
  by (rule writeStep_keeps [where Q = "\<lambda>s'. received s' = received s"]) (simp_all add: writer_keeps_received)

end

context posix_socket
begin

lemma read_keeps_sent: "sent (snd (UnixIoStream_read recv k n)) = sent k"
  using recv_bytes [of k n] recv_fails [of k n] by (auto simp: UnixIoStream_read_def split: prod.splits option.splits)

lemma write_keeps_received: "received (snd (UnixIoStream_write old_errno send k data)) = received k"
  using send_bytes [of k data] send_fails [of k data] by (auto simp: UnixIoStream_write_def split: prod.splits sum.splits)

lemmas unix_read_progress = unix_in.read_start_progress
lemmas unix_write_progress = unix_out.write_start_progress

end

sublocale posix_socket \<subseteq> unix_stream: duplex_stream "UnixIoStream_read recv" "UnixIoStream_write old_errno send" received sent
  for old_errno
  by unfold_locales (simp_all add: read_keeps_sent write_keeps_received)

section \<open>A socket\<close>

text \<open>
  A stream socket that satisfies the contract: the data that arrives is a list of chunks, an empty
  one for the end of the stream; \<open>sk_room\<close> lists how much the next \<open>send\<close> calls can take.
\<close>

record socket =
  sk_in :: "byte list list"
  sk_received :: "byte list"
  sk_room :: "nat list"
  sk_sent :: "byte list"

definition socket_recv :: "socket recv_call" where
  "socket_recv k n =
     (case sk_in k of
        [] \<Rightarrow> (None, k)
      | c # cs \<Rightarrow> (Some (take n c),
          k\<lparr>sk_in := (if n < length c then drop n c # cs else cs), sk_received := sk_received k @ take n c\<rparr>))"

definition socket_send :: "socket send_call" where
  "socket_send k data =
     (case sk_room k of
        [] \<Rightarrow> (Inl EAGAIN, k)
      | r # rs \<Rightarrow> (Inr (min r (length data)), k\<lparr>sk_room := rs, sk_sent := sk_sent k @ take (min r (length data)) data\<rparr>))"

interpretation sock: posix_socket socket_recv socket_send sk_received sk_sent
  by unfold_locales (auto simp: socket_recv_def socket_send_def split: list.splits)

section \<open>Properties\<close>

text \<open>
  Reading between \<open>min_length\<close> and \<open>max_length\<close> bytes through a unix stream. However the bytes
  arrive, in whatever chunks and over however many readiness events, every call returns, the bytes
  received for the task, and nothing else, are stored at the buffer in order, never more than
  \<open>max_length\<close> of them, and the feeder gets exactly one result: their number, as soon as
  \<open>min_length\<close> has been reached, or a critical error before that. Until then the task stays.
\<close>

theorem async_read_transfers_exactly:
  assumes "posix_socket recv send received sent" and "0 < mn" and "mn \<le> mx" and "mx < SIZE_MOD"
    and "buffer + mx \<le> length mem" and "\<forall>env \<in> set envs. \<forall>k. received (env k) = received k"
  shows "\<exists>h' mem' k' bs. (do {
      st \<leftarrow> AsyncIoStream_read (UnixIoStream_read recv) buffer mn mx \<lparr>read_task = None, read_done = Some []\<rparr> mem k;
      read_events (UnixIoStream_read recv) envs st }) = Some (h', mem', k')
    \<and> received k' = received k @ bs \<and> length bs \<le> mx \<and> mem' = overwrite buffer bs mem
    \<and> (if mn \<le> length bs then read_task h' = None \<and> read_done h' = Some [IsValue (length bs)]
       else read_task h' \<noteq> None \<and> read_done h' = Some []
            \<or> read_task h' = None \<and> (\<exists>e. isCritical e \<and> read_done h' = Some [IsError e]))"
proof -
  from posix_socket.unix_read_progress
    [OF assms(1-5) _ assms(6), of "\<lparr>read_task = None, read_done = Some []\<rparr>" k]
  obtain h' mem' k' bs where "(do {
      st \<leftarrow> AsyncIoStream_read (UnixIoStream_read recv) buffer mn mx \<lparr>read_task = None, read_done = Some []\<rparr> mem k;
      read_events (UnixIoStream_read recv) envs st }) = Some (h', mem', k')"
    "read_progress buffer mn mx mem (Some []) bs h' mem'" "received k' = received k @ bs" by auto
  then show ?thesis
    by (intro exI [of _ h'] exI [of _ mem'] exI [of _ k'] exI [of _ bs])
       (auto simp: read_progress_def split: option.splits)
qed

theorem async_read_transfers_exactly_witness:
  "\<exists>h' mem' k' bs. (do {
      st \<leftarrow> AsyncIoStream_read (UnixIoStream_read socket_recv) 1 2 3 \<lparr>read_task = None, read_done = Some []\<rparr>
        [0, 0, 0, 0, 0] \<lparr>sk_in = [[7]], sk_received = [], sk_room = [], sk_sent = []\<rparr>;
      read_events (UnixIoStream_read socket_recv) [\<lambda>k. k\<lparr>sk_in := [[8, 9, 10]]\<rparr>] st }) = Some (h', mem', k')
    \<and> sk_received k' = bs \<and> length bs \<le> 3 \<and> mem' = overwrite 1 bs [0, 0, 0, 0, 0]
    \<and> (2 \<le> length bs \<longrightarrow> read_done h' = Some [IsValue (length bs)])"
proof -
  let ?k = "\<lparr>sk_in = [[7]], sk_received = [], sk_room = [], sk_sent = []\<rparr> :: socket"
  have "\<forall>env \<in> set [\<lambda>k. k\<lparr>sk_in := [[8, 9, 10]]\<rparr>]. \<forall>k :: socket. sk_received (env k) = sk_received k"
    by simp
  from async_read_transfers_exactly
    [OF sock.posix_socket_axioms _ _ _ _ this, of 2 3 1 "[0, 0, 0, 0, 0]" ?k] show ?thesis
    by (auto simp: SIZE_MOD_def split: if_splits)
qed

text \<open>
  Writing \<open>length\<close> bytes through a unix stream. However much each \<open>send\<close> call takes, every call
  returns, the bytes sent are the first bytes of the buffer in order, none is sent twice or left out,
  and the feeder gets exactly one result: the length when all have been sent, or a critical
  error before that. Until then the task stays.
\<close>

theorem async_write_transfers_exactly:
  assumes "posix_socket recv send received sent" and "0 < len" and "len < SIZE_MOD"
    and "buffer + len \<le> length mem" and "\<forall>env \<in> set envs. \<forall>k. sent (env k) = sent k"
  shows "\<exists>h' k' n. (do {
      st \<leftarrow> AsyncIoStream_write (UnixIoStream_write old_errno send) buffer len mem \<lparr>write_task = None, write_done = Some []\<rparr> k;
      write_events (UnixIoStream_write old_errno send) mem envs st }) = Some (h', k')
    \<and> n \<le> len \<and> sent k' = sent k @ take n (drop buffer mem)
    \<and> (if n = len then write_task h' = None \<and> write_done h' = Some [IsValue len]
       else write_task h' \<noteq> None \<and> write_done h' = Some []
            \<or> write_task h' = None \<and> (\<exists>e. isCritical e \<and> write_done h' = Some [IsError e]))"
proof -
  from posix_socket.unix_write_progress
    [OF assms(1-4) _ assms(5), of "\<lparr>write_task = None, write_done = Some []\<rparr>" old_errno k]
  obtain h' k' n where "(do {
      st \<leftarrow> AsyncIoStream_write (UnixIoStream_write old_errno send) buffer len mem \<lparr>write_task = None, write_done = Some []\<rparr> k;
      write_events (UnixIoStream_write old_errno send) mem envs st }) = Some (h', k')"
    "write_progress buffer len (Some []) n h'" "sent k' = sent k @ take n (drop buffer mem)" by auto
  then show ?thesis
    by (intro exI [of _ h'] exI [of _ k'] exI [of _ n])
       (auto simp: write_progress_def split: option.splits)
qed

theorem async_write_transfers_exactly_witness:
  "\<exists>h' k' n. (do {
      st \<leftarrow> AsyncIoStream_write (UnixIoStream_write EAGAIN socket_send) 1 3 [5, 6, 7, 8] \<lparr>write_task = None, write_done = Some []\<rparr>
        \<lparr>sk_in = [], sk_received = [], sk_room = [2], sk_sent = []\<rparr>;
      write_events (UnixIoStream_write EAGAIN socket_send) [5, 6, 7, 8] [\<lambda>k. k\<lparr>sk_room := [9]\<rparr>] st }) = Some (h', k')
    \<and> n \<le> 3 \<and> sk_sent k' = take n [6, 7, 8] \<and> (n = 3 \<longrightarrow> write_done h' = Some [IsValue 3])"
proof -
  let ?k = "\<lparr>sk_in = [], sk_received = [], sk_room = [2], sk_sent = []\<rparr> :: socket"
  have "\<forall>env \<in> set [\<lambda>k. k\<lparr>sk_room := [9]\<rparr>]. \<forall>k :: socket. sk_sent (env k) = sk_sent k" by simp
  from async_write_transfers_exactly
    [OF sock.posix_socket_axioms _ _ _ this, of 3 1 "[5, 6, 7, 8]" EAGAIN ?k] show ?thesis
    by (auto simp: SIZE_MOD_def split: if_splits)
qed

text \<open>
  The class of error of a unix stream. The end of the stream is the critical error
  \<open>Disconnected\<close> when reading; every failure of \<open>recv\<close>, a reset connection included, is reported as
  recoverable, so that a pending read task survives it, while a failure of \<open>send\<close> other than a full
  socket is critical and ends the write task.
\<close>

theorem unix_stream_error_classes:
  "(case UnixIoStream_read recv k len of
      (IsError e, _) \<Rightarrow> (if fst (recv k len) = None then isRecoverable e
                         else fst (recv k len) = Some [] \<and> isCritical e \<and> error_num e = Disconnected)
    | (IsValue bytes, _) \<Rightarrow> fst (recv k len) = Some bytes \<and> bytes \<noteq> [])
   \<and> (case UnixIoStream_write old_errno send k data of
      (IsError e, _) \<Rightarrow> (case fst (send k data) of
                           Inl no \<Rightarrow> (if no \<in> {EAGAIN, EWOULDBLOCK} then isRecoverable e else isCritical e)
                         | Inr n \<Rightarrow> n = 0)
    | (IsValue n, _) \<Rightarrow> fst (send k data) = Inr n \<and> 0 < n)"
  by (auto simp: UnixIoStream_read_def UnixIoStream_write_def criticalError_code_def makeError_def
      Error_view_def isCritical_def Disconnected_def split: prod.splits option.splits sum.splits)

end
