(* ===== verification/Streaming_Peer.thy ===== *)
theory Streaming_Peer
  imports Ring_Segments Io_Helpers
begin

text \<open>
  Class \<open>StreamingIoPeer\<close> (\<open>source/forstio/io_peer.h\<close> and \<open>io_peer.tmpl.h\<close>): messages in both directions over an
  asynchronous stream. A peer owns the stream, a codec, a ring buffer for each direction and two sinks, whose functions run
  when the stream reports that a read or a write is done.

  The template is never instantiated in the repository and would not compile as it stands. Three names in it do not exist:
  \<open>handle\<close> of a conveyor feeder, \<open>readSegmengtLength\<close> of a buffer, and \<open>bytes\<close> in the function of the write sink, whose
  parameter is declared without a type. The model reads them as \<open>feed\<close>, \<open>readSegmentLength\<close> and the value of the conveyor,
  the only members that fit; \<open>send\<close> is declared \<open>void\<close> and returns errors, and the model returns them. The definitions
  repeat the default template arguments of the declarations, and a stray semicolon ends the initialiser of \<open>sink_write\<close>;
  neither says anything about behaviour, and the model passes over both.

  The conveyor from a stepper to the function of a sink is the list of the results that wait in it. The codec is that of
  the Kel format with its default limits, the buffers are ring buffers, the template's default.
\<close>

section \<open>State\<close>

text \<open>
  What the template is instantiated with, the stream below and the outcome of allocations: \<open>Incoming\<close> and \<open>Outgoing\<close>, the functions
  of the \<open>IoStream\<close>, and the parameters of the decoder.
\<close>

record 's peer_setup =
  ps_incoming :: schema
  ps_outgoing :: schema
  ps_reader :: "'s in_stream"
  ps_writer :: "'s out_stream"
  ps_resize :: "schema \<Rightarrow> nat \<Rightarrow> bool"
  ps_alloc :: bool

text \<open>
  \<open>incoming_feeder\<close> is what has been fed to it. \<open>sink_read\<close> and \<open>sink_write\<close> say whether the event of the sink's node is armed;
  a sink that has destroyed its conveyor leaves the feeder of its stepper without a conveyor.
\<close>

record 's streaming_peer =
  incoming_feeder :: "message error_or list"
  io_state :: 's
  io_read :: ReadTaskAndStepHelper
  io_write :: WriteTaskAndStepHelper
  io_on_disconnect :: "unit list option"
  in_buffer :: ring_buffer
  out_buffer :: ring_buffer
  sink_read :: bool
  sink_write :: bool

section \<open>Reading\<close>

text \<open>\<open>io_stream->read(&in_buffer.write(), 1, in_buffer.writeSegmentLength())\<close>\<close>

definition peer_start_read :: "'s peer_setup \<Rightarrow> 's streaming_peer \<Rightarrow> 's streaming_peer option" where
  "peer_start_read cf p = do {
     buffer \<leftarrow> ring_write (in_buffer p) 0;
     len \<leftarrow> ring_writeSegmentLength (in_buffer p) 0;
     (h, mem, s) \<leftarrow> AsyncIoStream_read (ps_reader cf) buffer 1 len (io_read p) (rb_buffer (in_buffer p)) (io_state p);
     Some (p\<lparr>io_read := h, in_buffer := (in_buffer p)\<lparr>rb_buffer := mem\<rparr>, io_state := s\<rparr>)
   }"

text \<open>The loop that decodes what is there. The error is what the function of the conveyor returns; \<open>noError\<close> stands for \<open>Void\<close>.\<close>

partial_function (option) peer_decode_loop ::
    "'s peer_setup \<Rightarrow> ring_buffer \<Rightarrow> message error_or list \<Rightarrow> (error \<times> ring_buffer \<times> message error_or list) option" where
  "peer_decode_loop cf buffer fed = do {
     (error, root, buffer) \<leftarrow> ProtoKelCodec_decode (ps_resize cf) (ps_alloc cf) ring_vt Limits_default (ps_incoming cf)
       (default_message (ps_incoming cf)) buffer;
     if isCritical error then Some (error, buffer, fed)
     else if \<not> failed error then peer_decode_loop cf buffer (fed @ [IsValue root])
     else Some (noError, buffer, fed)
   }"

definition peer_on_read_done :: "'s peer_setup \<Rightarrow> size_t \<Rightarrow> 's streaming_peer \<Rightarrow> (error \<times> 's streaming_peer) option" where
  "peer_on_read_done cf bytes p = do {
     buffer \<leftarrow> ring_writeAdvance (in_buffer p) bytes;
     let p = p\<lparr>in_buffer := buffer\<rparr>;
     len \<leftarrow> ring_writeSegmentLength (in_buffer p) 0;
     if len = 0 then Some (criticalError ''Message too long'', p)
     else do {
       p \<leftarrow> peer_start_read cf p;
       (error, buffer, fed) \<leftarrow> peer_decode_loop cf (in_buffer p) (incoming_feeder p);
       Some (error, p\<lparr>in_buffer := buffer, incoming_feeder := fed\<rparr>)
     }
   }"

text \<open>
  \<open>SinkConveyorNode::childHasFired\<close> on a result of the conveyor before it: only a critical error arms the node. The error function
  given to \<open>Conveyor::sink\<close> is not kept anywhere; the one of the read sink, which would fail the feeder, never runs.
\<close>

definition peer_sink_result :: "error \<Rightarrow> bool \<Rightarrow> bool" where
  "peer_sink_result error armed = (armed \<or> isCritical error)"

text \<open>A result of \<open>readDone\<close> reaches the sink; errors pass the function of \<open>then\<close> by.\<close>

definition peer_read_result :: "'s peer_setup \<Rightarrow> 's streaming_peer \<Rightarrow> 's streaming_peer option" where
  "peer_read_result cf p =
     (case read_done (io_read p) of
        Some (IsError error # results) \<Rightarrow>
          Some (p\<lparr>io_read := (io_read p)\<lparr>read_done := Some results\<rparr>, sink_read := peer_sink_result error (sink_read p)\<rparr>)
      | Some (IsValue bytes # results) \<Rightarrow> do {
          (error, p) \<leftarrow> peer_on_read_done cf bytes (p\<lparr>io_read := (io_read p)\<lparr>read_done := Some results\<rparr>\<rparr>);
          Some (p\<lparr>sink_read := peer_sink_result error (sink_read p)\<rparr>)
        }
      | _ \<Rightarrow> Some p)"

text \<open>\<open>SinkConveyorNode::fire\<close>: the conveyor is destroyed, and the feeder of the stepper feeds nothing from then on.\<close>

definition peer_sink_read_fire :: "'s streaming_peer \<Rightarrow> 's streaming_peer" where
  "peer_sink_read_fire p =
     (if sink_read p then p\<lparr>io_read := (io_read p)\<lparr>read_done := None\<rparr>, sink_read := False\<rparr> else p)"

section \<open>Writing\<close>

text \<open>\<open>io_stream->write(&out_buffer.read(), out_buffer.readSegmentLength())\<close>\<close>

definition peer_start_write :: "'s peer_setup \<Rightarrow> 's streaming_peer \<Rightarrow> 's streaming_peer option" where
  "peer_start_write cf p = do {
     buffer \<leftarrow> ring_read (out_buffer p) 0;
     len \<leftarrow> ring_readSegmentLength (out_buffer p) 0;
     (h, s) \<leftarrow> AsyncIoStream_write (ps_writer cf) buffer len (rb_buffer (out_buffer p)) (io_write p) (io_state p);
     Some (p\<lparr>io_write := h, io_state := s\<rparr>)
   }"

definition peer_on_write_done :: "'s peer_setup \<Rightarrow> size_t \<Rightarrow> 's streaming_peer \<Rightarrow> 's streaming_peer option" where
  "peer_on_write_done cf bytes p = do {
     buffer \<leftarrow> ring_readAdvance (out_buffer p) bytes;
     let p = p\<lparr>out_buffer := buffer\<rparr>;
     if ring_readCompositeLength buffer > 0 then peer_start_write cf p else Some p
   }"

definition peer_write_result :: "'s peer_setup \<Rightarrow> 's streaming_peer \<Rightarrow> 's streaming_peer option" where
  "peer_write_result cf p =
     (case write_done (io_write p) of
        Some (IsError error # results) \<Rightarrow>
          Some (p\<lparr>io_write := (io_write p)\<lparr>write_done := Some results\<rparr>, sink_write := peer_sink_result error (sink_write p)\<rparr>)
      | Some (IsValue bytes # results) \<Rightarrow>
          peer_on_write_done cf bytes (p\<lparr>io_write := (io_write p)\<lparr>write_done := Some results\<rparr>\<rparr>)
      | _ \<Rightarrow> Some p)"

definition peer_sink_write_fire :: "'s streaming_peer \<Rightarrow> 's streaming_peer" where
  "peer_sink_write_fire p =
     (if sink_write p then p\<lparr>io_write := (io_write p)\<lparr>write_done := None\<rparr>, sink_write := False\<rparr> else p)"

definition StreamingIoPeer_send :: "'s peer_setup \<Rightarrow> message \<Rightarrow> 's streaming_peer \<Rightarrow> (error \<times> 's streaming_peer) option" where
  "StreamingIoPeer_send cf msg p = do {
     len \<leftarrow> ring_readSegmentLength (out_buffer p) 0;
     let restart_write = (len = 0);
     (error, buffer) \<leftarrow> ProtoKelCodec_encode ring_vt (ps_outgoing cf) msg (out_buffer p);
     let p = p\<lparr>out_buffer := buffer\<rparr>;
     if failed error then Some (error, p)
     else do {
       p \<leftarrow> (if restart_write then peer_start_write cf p else Some p);
       Some (noError, p)
     }
   }"

text \<open>\<open>onReadDisconnected\<close> gives the stream a new feeder, which the stream feeds when the other end is gone.\<close>

definition StreamingIoPeer_onReadDisconnected :: "'s streaming_peer \<Rightarrow> 's streaming_peer" where
  "StreamingIoPeer_onReadDisconnected p = p\<lparr>io_on_disconnect := Some []\<rparr>"

section \<open>Construction\<close>

definition StreamingIoPeer_new ::
    "'s peer_setup \<Rightarrow> ReadTaskAndStepHelper \<Rightarrow> WriteTaskAndStepHelper \<Rightarrow> 's \<Rightarrow> ring_buffer \<Rightarrow> ring_buffer \<Rightarrow>
     's streaming_peer option" where
  "StreamingIoPeer_new cf hr hw s inb outb =
     peer_start_read cf
       \<lparr>incoming_feeder = [], io_state = s, io_read = AsyncIoStream_readDone hr, io_write = AsyncIoStream_writeDone hw,
        io_on_disconnect = None, in_buffer = inb, out_buffer = outb, sink_read = False, sink_write = False\<rparr>"

text \<open>The constructor with default buffers, on a stream that has just been made.\<close>

definition newStreamingIoPeer :: "'s peer_setup \<Rightarrow> 's \<Rightarrow> 's streaming_peer option" where
  "newStreamingIoPeer cf s =
     StreamingIoPeer_new cf \<lparr>read_task = None, read_done = None\<rparr> \<lparr>write_task = None, write_done = None\<rparr> s ring_default ring_default"

section \<open>Runs\<close>

text \<open>
  What can happen to a peer. The stream becomes ready, after something has happened to it outside the program; the event loop carries
  a result to a sink or fires a sink; the program sends a message. The order is arbitrary. A run also collects the messages
  that \<open>send\<close> has accepted. \<open>Disconnects\<close> is the event of the stream that the other end is gone.
\<close>

datatype 's peer_action =
    ReadReady "'s \<Rightarrow> 's"
  | WriteReady "'s \<Rightarrow> 's"
  | ReadResult
  | WriteResult
  | SinkReadFires
  | SinkWriteFires
  | Send message
  | OnReadDisconnected
  | Disconnects

fun peer_step :: "'s peer_setup \<Rightarrow> 's peer_action \<Rightarrow> 's streaming_peer \<times> message list \<Rightarrow>
    ('s streaming_peer \<times> message list) option" where
  "peer_step cf (ReadReady env) (p, acc) = do {
     (h, mem, s) \<leftarrow> readStep (ps_reader cf) (io_read p) (rb_buffer (in_buffer p)) (env (io_state p));
     Some (p\<lparr>io_read := h, in_buffer := (in_buffer p)\<lparr>rb_buffer := mem\<rparr>, io_state := s\<rparr>, acc)
   }"
| "peer_step cf (WriteReady env) (p, acc) = do {
     (h, s) \<leftarrow> writeStep (ps_writer cf) (rb_buffer (out_buffer p)) (io_write p) (env (io_state p));
     Some (p\<lparr>io_write := h, io_state := s\<rparr>, acc)
   }"
| "peer_step cf ReadResult (p, acc) = do { p \<leftarrow> peer_read_result cf p; Some (p, acc) }"
| "peer_step cf WriteResult (p, acc) = do { p \<leftarrow> peer_write_result cf p; Some (p, acc) }"
| "peer_step cf SinkReadFires (p, acc) = Some (peer_sink_read_fire p, acc)"
| "peer_step cf SinkWriteFires (p, acc) = Some (peer_sink_write_fire p, acc)"
| "peer_step cf (Send msg) (p, acc) = do {
     (error, p) \<leftarrow> StreamingIoPeer_send cf msg p;
     Some (p, if failed error then acc else acc @ [msg])
   }"
| "peer_step cf OnReadDisconnected (p, acc) = Some (StreamingIoPeer_onReadDisconnected p, acc)"
| "peer_step cf Disconnects (p, acc) =
     Some (p\<lparr>io_on_disconnect := map_option (\<lambda>fed. fed @ [()]) (io_on_disconnect p)\<rparr>, acc)"

fun peer_run :: "'s peer_setup \<Rightarrow> 's peer_action list \<Rightarrow> 's streaming_peer \<times> message list \<Rightarrow>
    ('s streaming_peer \<times> message list) option" where
  "peer_run cf [] st = Some st"
| "peer_run cf (a # as) st = do { st \<leftarrow> peer_step cf a st; peer_run cf as st }"

lemma peer_run_append: "peer_run cf (as @ bs) st = do { st \<leftarrow> peer_run cf as st; peer_run cf bs st }"
proof (induction as arbitrary: st)
  case (Cons a as)
  then show ?case by (cases "peer_step cf a st") simp_all
qed simp

end
