(* ===== verification/Streaming_Peer_Correct.thy ===== *)
theory Streaming_Peer_Correct
  imports Streaming_Peer
begin

text \<open>
  What a streaming peer achieves over any run: which messages it hands over, which bytes it sends, and that neither direction
  touches memory it must not touch or fails an assertion, in whatever order results, readiness and calls of the program come.
\<close>

section \<open>Sequences of packets\<close>

text \<open>A message that the receiver accepts: it is of the schema and within the limit of the codec.\<close>

definition sendable :: "schema \<Rightarrow> message \<Rightarrow> bool" where
  "sendable s m \<longleftrightarrow> msg_ok s m \<and> length (wire m) \<le> unat (packet_size Limits_default)"

abbreviation packets :: "message list \<Rightarrow> byte list" where
  "packets ms \<equiv> concat (map packet ms)"

lemma packet_not_Nil [simp]: "packet m \<noteq> []"
  by (metis length_packet list.size(3) add_is_0 zero_neq_numeral)

lemma sendable_bound:
  assumes "sendable s m"
  shows "length (wire m) < SIZE_MOD" "length (wire m) \<le> PTRDIFF_MAX"
  using assms by (simp_all add: sendable_def Limits_default_def SIZE_MOD_def PTRDIFF_MAX_def)

lemma packet_prefix_free:
  assumes "wf_schema s" and "sendable s m1" and "sendable s m2" and "packet m1 @ xs = packet m2 @ ys"
  shows "m1 = m2 \<and> xs = ys"
proof -
  from assms(4) have "le64 (length (wire m1)) = le64 (length (wire m2))" "wire m1 @ xs = wire m2 @ ys"
    by (simp_all add: packet_def append_eq_append_conv)
  moreover from this(1) have "length (wire m1) = length (wire m2)"
    using le64_inject sendable_bound(1) [OF assms(2)] sendable_bound(1) [OF assms(3)] by blast
  ultimately have "wire m1 = wire m2" "xs = ys" by simp_all
  with wire_prefix_free [OF assms(1), of m1 m2 "[]" "[]"] assms(2,3) sendable_bound(2) [OF assms(2)] show ?thesis
    by (simp add: sendable_def)
qed

text \<open>Messages found at the beginning of a sequence of packets are those that were put there.\<close>

lemma packets_prefix:
  assumes "wf_schema s" and "list_all (sendable s) ms" and "list_all (sendable s) all" and "prefix (packets ms @ rest) (packets all)"
  shows "\<exists>more. all = ms @ more \<and> prefix rest (packets more)"
  using assms(2-4)
proof (induction ms arbitrary: all)
  case (Cons m ms)
  then obtain m' all' where all: "all = m' # all'" by (cases all) auto
  from Cons.prems(3) all obtain z where "packet m @ packets ms @ rest @ z = packet m' @ packets all'"
    by (auto simp: prefix_def)
  with packet_prefix_free [OF assms(1)] Cons.prems(1,2) all have "m = m'" "packets ms @ rest @ z = packets all'" by auto
  moreover from this(2) have "prefix (packets ms @ rest) (packets all')" by (metis prefixI append.assoc)
  ultimately show ?case using Cons.IH [of all'] Cons.prems(1,2) all by simp
qed simp

section \<open>Decoding what is there\<close>

text \<open>No message that the decoder can take is completely there.\<close>

definition no_packet :: "'s peer_setup \<Rightarrow> byte list \<Rightarrow> bool" where
  "no_packet cf bs \<longleftrightarrow>
     (\<forall>m. sendable (ps_incoming cf) m \<and> msg_fits (ps_resize cf) (ps_incoming cf) m \<longrightarrow> \<not> prefix (packet m) bs)"

text \<open>
  Received bytes on which the decoder does not throw: whatever of them has been taken as messages, decoding the rest returns.
\<close>

abbreviation peer_decode :: "'s peer_setup \<Rightarrow> ring_buffer \<Rightarrow> (error \<times> message \<times> ring_buffer) option" where
  "peer_decode cf r \<equiv> ProtoKelCodec_decode (ps_resize cf) (ps_alloc cf) ring_vt Limits_default (ps_incoming cf)
     (default_message (ps_incoming cf)) r"

definition decodable :: "'s peer_setup \<Rightarrow> byte list \<Rightarrow> bool" where
  "decodable cf bs \<longleftrightarrow> (\<forall>ms r. list_all (sendable (ps_incoming cf)) ms \<and> ring_inv r \<and> bs = packets ms @ ring_rd r \<longrightarrow> peer_decode cf r \<noteq> None)"

lemma peer_decode_step:
  assumes "ring_inv r" and "wf_schema (ps_incoming cf)" and "peer_decode cf r = Some (e, m, r')"
  shows "if failed e then r' = r
    else sendable (ps_incoming cf) m \<and> ring_inv r' \<and> ring_rd r = packet m @ ring_rd r'
      \<and> rb_write_position r' = rb_write_position r \<and> rb_buffer r' = rb_buffer r"
  using draining.codec_decode_sound [OF _ assms(2) msg_ok_default [OF assms(2)] assms(3), of "rb_write_position r" "rb_buffer r"] assms(1)
  by (auto simp: sendable_def split: if_splits)

lemma peer_decode_no_packet:
  assumes "ring_inv r" and "wf_schema (ps_incoming cf)" and "peer_decode cf r = Some (e, m, r')" and "failed e"
  shows "no_packet cf (ring_rd r)"
  unfolding no_packet_def
proof (intro allI impI notI)
  fix m assume m: "sendable (ps_incoming cf) m \<and> msg_fits (ps_resize cf) (ps_incoming cf) m" "prefix (packet m) (ring_rd r)"
  then obtain rest where "ring_rd r = packet m @ rest" by (auto simp: prefix_def)
  with ring.codec_decode_complete [OF assms(1,2) msg_ok_default [OF assms(2)], of m "ps_resize cf" rest Limits_default "ps_alloc cf"] m(1) assms(3,4)
  show False by (auto simp: sendable_def)
qed

lemma not_critical_not_failed: "\<not> failed e \<Longrightarrow> \<not> isCritical e"
  by (simp add: failed_def isCritical_def)

lemma peer_decode_loop_correct:
  assumes "ring_inv r" and "wf_schema (ps_incoming cf)" and "decodable cf (packets ms @ ring_rd r)"
    and "list_all (sendable (ps_incoming cf)) ms"
  shows "\<exists>e r' more. peer_decode_loop cf r fed = Some (e, r', fed @ map IsValue more) \<and> ring_inv r'
    \<and> rb_write_position r' = rb_write_position r \<and> rb_buffer r' = rb_buffer r
    \<and> list_all (sendable (ps_incoming cf)) more \<and> ring_rd r = packets more @ ring_rd r'
    \<and> (\<not> isCritical e \<longrightarrow> no_packet cf (ring_rd r'))"
  using assms(1,3,4)
proof (induction "length (ring_rd r)" arbitrary: r fed ms rule: less_induct)
  case less
  from less.prems obtain e m r1 where d: "peer_decode cf r = Some (e, m, r1)" by (fastforce simp: decodable_def)
  note step = peer_decode_step [OF less.prems(1) assms(2) d]
  show ?case
  proof (cases "failed e")
    case True
    with step d peer_decode_no_packet [OF less.prems(1) assms(2) d True] less.prems(1) show ?thesis
      by (subst peer_decode_loop.simps) (auto intro!: exI [of _ "[]"])
  next
    case False
    with step have r1: "sendable (ps_incoming cf) m" "ring_inv r1" "ring_rd r = packet m @ ring_rd r1"
      "rb_write_position r1 = rb_write_position r" "rb_buffer r1 = rb_buffer r" by simp_all
    have lt: "length (ring_rd r1) < length (ring_rd r)" unfolding r1(3) by simp
    have rest: "decodable cf (packets (ms @ [m]) @ ring_rd r1)" "list_all (sendable (ps_incoming cf)) (ms @ [m])"
      using less.prems(2,3) r1(1,3) by simp_all
    from less.hyps [OF lt r1(2) rest, of "fed @ [IsValue m]"] obtain e' r' more where
      "peer_decode_loop cf r1 (fed @ [IsValue m]) = Some (e', r', (fed @ [IsValue m]) @ map IsValue more)" "ring_inv r'"
      "rb_write_position r' = rb_write_position r1" "rb_buffer r' = rb_buffer r1" "list_all (sendable (ps_incoming cf)) more"
      "ring_rd r1 = packets more @ ring_rd r'" "\<not> isCritical e' \<longrightarrow> no_packet cf (ring_rd r')" by blast
    with d False r1 not_critical_not_failed [OF False] show ?thesis
      by (subst peer_decode_loop.simps) (auto intro!: exI [of _ "m # more"])
  qed
qed

section \<open>The receiving direction\<close>

text \<open>
  The state of reading. \<open>bs\<close> are the bytes that the stream has stored behind the write position and whose number waits in the
  conveyor. As long as the sink lives and has seen no critical error, there is a task or a result.
\<close>

definition read_state :: "bool \<Rightarrow> ring_buffer \<Rightarrow> ReadTaskAndStepHelper \<Rightarrow> byte list \<Rightarrow> bool" where
  "read_state armed r h bs \<longleftrightarrow>
     rb_write_position r + length bs \<le> ring_size r \<and> length bs \<le> ring_size r - ring_fill r
     \<and> take (length bs) (drop (rb_write_position r) (rb_buffer r)) = bs
     \<and> (case read_task h of
          Some task \<Rightarrow> bs = [] \<and> (read_done h = None \<or> read_done h = Some [])
            \<and> (\<exists>n. 0 < n \<and> rb_write_position r + n \<le> ring_size r \<and> n \<le> ring_size r - ring_fill r
                 \<and> task = \<lparr>rt_buffer = rb_write_position r, rt_min_length = 1, rt_max_length = n, rt_already_read = 0\<rparr>)
        | None \<Rightarrow> read_done h = None
            \<or> read_done h = Some [] \<and> armed \<and> bs = []
            \<or> read_done h = Some [IsValue (length bs)] \<and> bs \<noteq> []
            \<or> (\<exists>e. isCritical e \<and> read_done h = Some [IsError e] \<and> bs = []))"

lemma read_state_mono: "read_state armed r h bs \<Longrightarrow> (armed \<Longrightarrow> armed') \<Longrightarrow> read_state armed' r h bs"
  by (auto simp: read_state_def split: option.splits)

lemma read_state_drain:
  assumes "read_state armed r h bs" and "rb_write_position r' = rb_write_position r" and "rb_buffer r' = rb_buffer r"
    and "ring_fill r' \<le> ring_fill r"
  shows "read_state armed r' h bs"
  using assms by (fastforce simp: read_state_def ring_size_def split: option.splits)

lemma ring_memory_fields [simp]:
  "rb_write_position (r\<lparr>rb_buffer := mem\<rparr>) = rb_write_position r" "ring_size (r\<lparr>rb_buffer := mem\<rparr>) = length mem"
  "length mem = length (rb_buffer r) \<Longrightarrow> ring_fill (r\<lparr>rb_buffer := mem\<rparr>) = ring_fill r"
  by (simp_all add: ring_size_def ring_fill_def)

context duplex_stream
begin

lemma read_progress_state:
  assumes "read_progress (rb_write_position r) 1 n (rb_buffer r) d bs h mem" and "d = None \<or> d = Some []"
    and "0 < n" and "rb_write_position r + n \<le> ring_size r" and "n \<le> ring_size r - ring_fill r"
  shows "read_state armed (r\<lparr>rb_buffer := mem\<rparr>) h bs"
proof -
  have mem: "mem = overwrite (rb_write_position r) bs (rb_buffer r)" "length bs \<le> n"
    using assms(1) by (simp_all add: read_progress_def)
  then have len: "length mem = length (rb_buffer r)" "take (length bs) (drop (rb_write_position r) mem) = bs"
    using assms(4) by (simp_all add: ring_size_def overwrite_def)
  show ?thesis
    using assms mem(2) len unfolding read_state_def read_progress_def
    by (auto simp: ring_size_def split: option.splits)
qed

lemma readStep_state:
  assumes "ring_inv r" and "read_state armed r h bs"
  shows "\<exists>h' mem s' more. readStep reader h (rb_buffer r) s = Some (h', mem, s')
    \<and> ring_inv (r\<lparr>rb_buffer := mem\<rparr>) \<and> ring_rd (r\<lparr>rb_buffer := mem\<rparr>) = ring_rd r \<and> length mem = ring_size r
    \<and> read_state armed (r\<lparr>rb_buffer := mem\<rparr>) h' (bs @ more) \<and> (read_done h = None \<longleftrightarrow> read_done h' = None)
    \<and> received s' = received s @ more \<and> sent s' = sent s"
proof (cases "read_task h")
  case None
  then have "readStep reader h (rb_buffer r) s = Some (h, rb_buffer r, s)" by (subst readStep.simps) simp
  with assms show ?thesis by (auto simp: ring_size_def intro!: exI [of _ "[]"])
next
  case (Some task)
  with assms(2) obtain n where bs: "bs = []" "read_done h = None \<or> read_done h = Some []"
    and n: "0 < n" "rb_write_position r + n \<le> ring_size r" "n \<le> ring_size r - ring_fill r"
      "task = \<lparr>rt_buffer = rb_write_position r, rt_min_length = 1, rt_max_length = n, rt_already_read = 0\<rparr>"
    by (auto simp: read_state_def)
  have "n < SIZE_MOD" using n(2) ring_inv_bounds(1) [OF assms(1)] PTRDIFF_MAX_less [of "ring_size r"] by linarith
  moreover have "read_progress (rb_write_position r) 1 n (rb_buffer r) (read_done h) [] h (rb_buffer r)"
    using Some n by (simp add: read_progress_def)
  ultimately obtain h' mem s' more where 1: "readStep reader h (rb_buffer r) s = Some (h', mem, s')"
      "read_progress (rb_write_position r) 1 n (rb_buffer r) (read_done h) more h' mem" "received s' = received s @ more"
    using readStep_progress [of "rb_write_position r" 1 n "rb_buffer r" "read_done h" "[]" h "rb_buffer r" s] n
    by (auto simp: ring_size_def)
  have mem: "mem = overwrite (rb_write_position r) more (rb_buffer r)" "length more \<le> n"
    using 1(2) by (simp_all add: read_progress_def)
  then have "ring_inv (r\<lparr>rb_buffer := mem\<rparr>)" "ring_rd (r\<lparr>rb_buffer := mem\<rparr>) = ring_rd r" "length mem = ring_size r"
    using ring_write_memory(1,2) [OF assms(1), of more] n(2,3) by (simp_all add: ring_size_def)
  moreover have "read_done h = None \<longleftrightarrow> read_done h' = None"
    using 1(2) by (auto simp: read_progress_def split: option.splits)
  ultimately show ?thesis
    using 1 readStep_sent [OF 1(1)] read_progress_state [OF 1(2) bs(2) n(1-3)] bs(1) by auto
qed

end

text \<open>
  The peer has handed over \<open>ms\<close>, and nothing else; the bytes received are the packets of these messages, then what is readable in the
  buffer, then what waits behind the write position. A live peer has left no complete packet in the buffer.
\<close>

definition receiving :: "'s peer_setup \<Rightarrow> byte list \<Rightarrow> 's streaming_peer \<Rightarrow> message list \<Rightarrow> bool" where
  "receiving cf R p ms \<longleftrightarrow>
     ring_inv (in_buffer p) \<and> 0 < ring_size (in_buffer p)
     \<and> list_all (sendable (ps_incoming cf)) ms \<and> incoming_feeder p = map IsValue ms
     \<and> (\<exists>bs. read_state (sink_read p) (in_buffer p) (io_read p) bs \<and> R = packets ms @ ring_rd (in_buffer p) @ bs)
     \<and> (\<not> sink_read p \<and> read_done (io_read p) \<noteq> None \<longrightarrow> no_packet cf (ring_rd (in_buffer p)))"

locale peer_system = duplex_stream "ps_reader cf" "ps_writer cf" received sent
  for cf :: "'s peer_setup" and received sent :: "'s \<Rightarrow> byte list"
begin

lemma start_read_correct:
  assumes "ring_inv (in_buffer p)" and "ring_fill (in_buffer p) < ring_size (in_buffer p)"
    and "read_task (io_read p) = None" and "read_done (io_read p) = Some []"
  shows "\<exists>h mem s bs. peer_start_read cf p = Some (p\<lparr>io_read := h, in_buffer := (in_buffer p)\<lparr>rb_buffer := mem\<rparr>, io_state := s\<rparr>)
    \<and> ring_inv ((in_buffer p)\<lparr>rb_buffer := mem\<rparr>) \<and> ring_rd ((in_buffer p)\<lparr>rb_buffer := mem\<rparr>) = ring_rd (in_buffer p)
    \<and> length mem = ring_size (in_buffer p) \<and> read_state armed ((in_buffer p)\<lparr>rb_buffer := mem\<rparr>) h bs \<and> read_done h \<noteq> None
    \<and> received s = received (io_state p) @ bs \<and> sent s = sent (io_state p)"
proof -
  from ring_first_write_segment [OF assms(1,2)] obtain n where
    n: "ring_writeSegmentLength (in_buffer p) 0 = Some n" "0 < n" "n \<le> ring_size (in_buffer p) - ring_fill (in_buffer p)"
      "rb_write_position (in_buffer p) + n \<le> ring_size (in_buffer p)" .
  let ?h = "(io_read p)\<lparr>read_task := Some \<lparr>rt_buffer = rb_write_position (in_buffer p), rt_min_length = 1, rt_max_length = n, rt_already_read = 0\<rparr>\<rparr>"
  have "read_state armed (in_buffer p) ?h []" using n assms(4) by (simp add: read_state_def)
  from readStep_state [OF assms(1) this, of "io_state p"] obtain h mem s bs where
    step: "readStep (ps_reader cf) ?h (rb_buffer (in_buffer p)) (io_state p) = Some (h, mem, s)"
    and res: "ring_inv ((in_buffer p)\<lparr>rb_buffer := mem\<rparr>)" "ring_rd ((in_buffer p)\<lparr>rb_buffer := mem\<rparr>) = ring_rd (in_buffer p)"
    "length mem = ring_size (in_buffer p)" "read_state armed ((in_buffer p)\<lparr>rb_buffer := mem\<rparr>) h bs" "read_done h \<noteq> None"
    "received s = received (io_state p) @ bs" "sent s = sent (io_state p)" using assms(4) by auto
  have "peer_start_read cf p = Some (p\<lparr>io_read := h, in_buffer := (in_buffer p)\<lparr>rb_buffer := mem\<rparr>, io_state := s\<rparr>)"
    using step n(1,2) assms(1-3) by (simp add: peer_start_read_def AsyncIoStream_read_def ring_write_address)
  with res show ?thesis by blast
qed

lemma on_read_done_correct:
  assumes "ring_inv (in_buffer p)" and "wf_schema (ps_incoming cf)" and "list_all (sendable (ps_incoming cf)) ms"
    and "incoming_feeder p = map IsValue ms" and "bs \<noteq> []" and "read_state armed (in_buffer p) h bs"
    and "read_task (io_read p) = None" and "read_done (io_read p) = Some []"
    and "received (io_state p) = packets ms @ ring_rd (in_buffer p) @ bs" and "decodable cf (received (io_state p))"
  shows "\<exists>e p' more. peer_on_read_done cf (length bs) p = Some (e, p')
    \<and> receiving cf (received (io_state p')) (p'\<lparr>sink_read := peer_sink_result e armed'\<rparr>) (ms @ more)
    \<and> sent (io_state p') = sent (io_state p) \<and> out_buffer p' = out_buffer p \<and> io_write p' = io_write p \<and> sink_write p' = sink_write p
    \<and> sink_read p' = sink_read p"
proof -
  let ?r = "in_buffer p"
  have len: "0 < length bs" "length bs \<le> ring_size ?r - ring_fill ?r" "rb_write_position ?r + length bs \<le> ring_size ?r"
    "take (length bs) (drop (rb_write_position ?r) (rb_buffer ?r)) = bs"
    using assms(5,6) by (simp_all add: read_state_def)
  from ring_writeAdvance_abs [OF assms(1) len(1,2)] obtain r1 where
    r1: "ring_writeAdvance ?r (length bs) = Some r1" "ring_inv r1" "ring_rd r1 = ring_rd ?r @ bs"
    using ring_wr_memory [OF assms(1) len(2,3)] len(4) by auto
  have size1: "ring_size r1 = ring_size ?r" using ring_writeAdvance_keeps [OF r1(1)] by (simp add: ring_size_def)
  with len(1,2) have pos: "0 < ring_size r1" by linarith
  show ?thesis
  proof (cases "ring_fill r1 = ring_size r1")
    case True
    have "peer_on_read_done cf (length bs) p = Some (criticalError ''Message too long'', p\<lparr>in_buffer := r1\<rparr>)"
      using r1(1) ring_write_segment_full [OF r1(2) pos True] by (simp add: peer_on_read_done_def)
    moreover have "read_state True r1 (io_read p) []"
      using assms(7,8) ring_inv_bounds(3) [OF r1(2)] by (simp add: read_state_def)
    ultimately show ?thesis
      using assms(3,4,9) r1 pos by (auto simp: receiving_def peer_sink_result_def intro!: exI [of _ "[]"])
  next
    case False
    then have room: "ring_fill r1 < ring_size r1" using ring_inv_bounds(4) [OF r1(2)] by simp
    let ?p = "p\<lparr>in_buffer := r1\<rparr>"
    from start_read_correct [of ?p] r1(2) room assms(7,8) obtain h' mem s bs' where
      2: "peer_start_read cf ?p = Some (?p\<lparr>io_read := h', in_buffer := r1\<lparr>rb_buffer := mem\<rparr>, io_state := s\<rparr>)"
        "ring_inv (r1\<lparr>rb_buffer := mem\<rparr>)" "ring_rd (r1\<lparr>rb_buffer := mem\<rparr>) = ring_rd r1" "length mem = ring_size r1"
        "read_state False (r1\<lparr>rb_buffer := mem\<rparr>) h' bs'" "read_done h' \<noteq> None"
        "received s = received (io_state p) @ bs'" "sent s = sent (io_state p)" by fastforce
    have dec: "decodable cf (packets ms @ ring_rd (r1\<lparr>rb_buffer := mem\<rparr>))"
      using assms(9,10) r1(3) unfolding 2(3) by simp
    from peer_decode_loop_correct [OF 2(2) assms(2) dec assms(3), of "map IsValue ms"] obtain e r3 more where
      3: "peer_decode_loop cf (r1\<lparr>rb_buffer := mem\<rparr>) (map IsValue ms) = Some (e, r3, map IsValue ms @ map IsValue more)" "ring_inv r3"
        "rb_write_position r3 = rb_write_position r1" "rb_buffer r3 = mem" "list_all (sendable (ps_incoming cf)) more"
        "ring_rd r1 = packets more @ ring_rd r3" "\<not> isCritical e \<longrightarrow> no_packet cf (ring_rd r3)" unfolding 2(3) by auto
    have "ring_fill r3 \<le> ring_fill (r1\<lparr>rb_buffer := mem\<rparr>)"
      using length_ring_rd [OF 3(2)] length_ring_rd [OF 2(2)] 3(6) 2(3) by simp
    then have st: "read_state False r3 h' bs'" using read_state_drain [OF 2(5)] 3(3,4) by simp
    let ?p' = "p\<lparr>io_read := h', io_state := s, in_buffer := r3, incoming_feeder := map IsValue (ms @ more)\<rparr>"
    from ring_first_write_segment [OF r1(2) room] obtain n where "ring_writeSegmentLength r1 0 = Some n" "0 < n" .
    then have run: "peer_on_read_done cf (length bs) p = Some (e, ?p')"
      using r1(1) 2(1) 3(1) assms(4) by (auto simp: peer_on_read_done_def)
    have "ring_size r3 = ring_size r1" using 3(4) 2(4) by (simp add: ring_size_def)
    then have "receiving cf (received s) (?p'\<lparr>sink_read := peer_sink_result e armed'\<rparr>) (ms @ more)"
      using assms(3,9) r1(3) pos 2(7) 3 read_state_mono [OF st]
      by (auto simp: receiving_def peer_sink_result_def intro!: exI [of _ bs'])
    with run 2(8) show ?thesis by auto
  qed
qed

lemma read_result_correct:
  assumes "receiving cf (received (io_state p)) p ms" and "wf_schema (ps_incoming cf)" and "decodable cf (received (io_state p))"
  shows "\<exists>p' more. peer_read_result cf p = Some p' \<and> receiving cf (received (io_state p')) p' (ms @ more)
    \<and> sent (io_state p') = sent (io_state p) \<and> out_buffer p' = out_buffer p \<and> io_write p' = io_write p \<and> sink_write p' = sink_write p"
proof -
  from assms(1) obtain bs where inv: "ring_inv (in_buffer p)" "0 < ring_size (in_buffer p)" "list_all (sendable (ps_incoming cf)) ms"
      "incoming_feeder p = map IsValue ms"
    and bs: "read_state (sink_read p) (in_buffer p) (io_read p) bs" "received (io_state p) = packets ms @ ring_rd (in_buffer p) @ bs"
    by (auto simp: receiving_def)
  have tasks: "read_done (io_read p) = None \<or> read_done (io_read p) = Some []
      \<or> read_task (io_read p) = None \<and> (read_done (io_read p) = Some [IsValue (length bs)] \<and> bs \<noteq> []
          \<or> (\<exists>e. isCritical e \<and> read_done (io_read p) = Some [IsError e] \<and> bs = []))"
    using bs(1) by (auto simp: read_state_def split: option.splits)
  consider "read_done (io_read p) = None \<or> read_done (io_read p) = Some []"
    | (finished) "read_task (io_read p) = None" "read_done (io_read p) = Some [IsValue (length bs)]" "bs \<noteq> []"
    | (error) e where "read_task (io_read p) = None" "isCritical e" "read_done (io_read p) = Some [IsError e]" "bs = []"
    using tasks by metis
  then show ?thesis
  proof cases
    case 1
    then have "peer_read_result cf p = Some p" by (auto simp: peer_read_result_def)
    with assms(1) show ?thesis by (auto intro!: exI [of _ "[]"])
  next
    case finished
    let ?p = "p\<lparr>io_read := (io_read p)\<lparr>read_done := Some []\<rparr>\<rparr>"
    from on_read_done_correct [of ?p ms bs "sink_read p" "io_read p" "sink_read p"] inv bs assms(2,3) finished
    obtain e p' more where "peer_on_read_done cf (length bs) ?p = Some (e, p')"
      "receiving cf (received (io_state p')) (p'\<lparr>sink_read := peer_sink_result e (sink_read p)\<rparr>) (ms @ more)"
      "sent (io_state p') = sent (io_state p)" "out_buffer p' = out_buffer p" "io_write p' = io_write p" "sink_write p' = sink_write p"
      "sink_read p' = sink_read p" by auto
    with finished show ?thesis by (auto simp: peer_read_result_def)
  next
    case error
    let ?p = "p\<lparr>io_read := (io_read p)\<lparr>read_done := Some []\<rparr>, sink_read := True\<rparr>"
    have "peer_read_result cf p = Some ?p" using error by (simp add: peer_read_result_def peer_sink_result_def)
    moreover have "receiving cf (received (io_state ?p)) ?p ms"
      using inv bs error by (auto simp: receiving_def read_state_def)
    ultimately show ?thesis by (auto intro!: exI [of _ "[]"])
  qed
qed

end

section \<open>The sending direction\<close>

text \<open>
  Bytes \<open>S\<close> have been sent. Together with what is readable in the buffer and not sent yet they are the packets of the accepted messages.
  Either a write of the first segment is under way or done, or nothing is left to send, or writing has failed for good.
\<close>

definition write_state :: "bool \<Rightarrow> ring_buffer \<Rightarrow> WriteTaskAndStepHelper \<Rightarrow> nat \<Rightarrow> bool" where
  "write_state armed r h n \<longleftrightarrow>
     (\<exists>len. \<not> armed \<and> 0 < len \<and> len \<le> ring_fill r \<and> rb_read_position r + len \<le> ring_size r
        \<and> write_progress (rb_read_position r) len (Some []) n h)
     \<or> write_task h = None \<and> write_done h = Some [] \<and> \<not> armed \<and> ring_rd r = []
     \<or> write_task h = None \<and> (write_done h = None \<or> write_done h = Some [] \<and> armed) \<and> ring_rd r \<noteq> []"

definition sending :: "byte list \<Rightarrow> 's streaming_peer \<Rightarrow> message list \<Rightarrow> bool" where
  "sending S p acc \<longleftrightarrow> ring_inv (out_buffer p)
     \<and> (\<exists>n. n \<le> ring_fill (out_buffer p) \<and> S @ drop n (ring_rd (out_buffer p)) = packets acc
          \<and> write_state (sink_write p) (out_buffer p) (io_write p) n)"

text \<open>Encoding another message leaves the segment that is being written where it is.\<close>

lemma write_state_fill:
  assumes "write_state armed r h n" and "ring_rd r \<noteq> []" and "ring_inv r" and "ring_inv r'" and "ring_rd r' = ring_rd r @ bs"
    and "rb_read_position r' = rb_read_position r" and "ring_size r' = ring_size r"
  shows "write_state armed r' h n"
proof -
  have "ring_fill r \<le> ring_fill r'" using length_ring_rd [OF assms(3)] length_ring_rd [OF assms(4)] assms(5) by simp
  with assms show ?thesis unfolding write_state_def by fastforce
qed

lemma ring_rd_Nil_iff: "ring_inv r \<Longrightarrow> ring_rd r = [] \<longleftrightarrow> ring_fill r = 0"
  using length_ring_rd [of r] by (metis length_0_conv)

context peer_system
begin

lemma writeStep_state:
  assumes "ring_inv r" and "write_state armed r h n" and "n \<le> ring_fill r"
  shows "\<exists>h' s' k. writeStep (ps_writer cf) (rb_buffer r) h s = Some (h', s') \<and> write_state armed r h' (n + k) \<and> n + k \<le> ring_fill r
    \<and> sent s' = sent s @ take k (drop n (ring_rd r)) \<and> received s' = received s"
proof (cases "write_task h")
  case None
  then have "writeStep (ps_writer cf) (rb_buffer r) h s = Some (h, s)" by (subst writeStep.simps) simp
  with assms show ?thesis by (auto intro!: exI [of _ 0])
next
  case (Some task)
  with assms(2) obtain len where len: "\<not> armed" "0 < len" "len \<le> ring_fill r" "rb_read_position r + len \<le> ring_size r"
    "write_progress (rb_read_position r) len (Some []) n h" by (auto simp: write_state_def)
  have "len < SIZE_MOD" using len(4) ring_inv_bounds(1) [OF assms(1)] PTRDIFF_MAX_less [of "ring_size r"] by linarith
  from writeStep_progress [OF len(5) this, of "rb_buffer r" s] len(4) obtain h' s' k where
    1: "writeStep (ps_writer cf) (rb_buffer r) h s = Some (h', s')" "write_progress (rb_read_position r) len (Some []) (n + k) h'"
      "sent s' = sent s @ take k (drop (rb_read_position r + n) (rb_buffer r))" by (auto simp: ring_size_def)
  have nk: "n + k \<le> len" using 1(2) by (simp add: write_progress_def)
  have "take (n + k) (drop (rb_read_position r) (rb_buffer r)) = take (n + k) (ring_rd r)"
    using nk len(3,4) by (intro ring_read_memory [OF assms(1)]) simp_all
  then have "take k (drop (rb_read_position r + n) (rb_buffer r)) = take k (drop n (ring_rd r))"
    by (metis take_drop drop_drop add.commute)
  with 1 nk len writeStep_received [OF 1(1)] show ?thesis by (auto simp: write_state_def)
qed

lemma start_write_correct:
  assumes "ring_inv (out_buffer p)" and "ring_rd (out_buffer p) \<noteq> []" and "sent (io_state p) @ ring_rd (out_buffer p) = packets acc"
    and "write_task (io_write p) = None" and "write_done (io_write p) = Some []" and "\<not> sink_write p"
  shows "\<exists>h s. peer_start_write cf p = Some (p\<lparr>io_write := h, io_state := s\<rparr>)
    \<and> sending (sent s) (p\<lparr>io_write := h, io_state := s\<rparr>) acc \<and> received s = received (io_state p)"
proof -
  let ?r = "out_buffer p"
  have fill: "ring_fill ?r \<noteq> 0" using assms(1,2) by (simp add: ring_rd_Nil_iff)
  from ring_first_read_segment [OF assms(1) fill] obtain len where
    len: "ring_readSegmentLength ?r 0 = Some len" "0 < len" "len \<le> ring_fill ?r" "rb_read_position ?r + len \<le> ring_size ?r" .
  let ?h = "(io_write p)\<lparr>write_task := Some \<lparr>wt_buffer = rb_read_position ?r, wt_length = len, wt_already_written = 0\<rparr>\<rparr>"
  have "write_state False ?r ?h 0" using len assms(5) by (auto simp: write_state_def write_progress_def)
  from writeStep_state [OF assms(1) this, of "io_state p"] obtain h s k where
    step: "writeStep (ps_writer cf) (rb_buffer ?r) ?h (io_state p) = Some (h, s)" and
    res: "write_state False ?r h k" "k \<le> ring_fill ?r" "sent s = sent (io_state p) @ take k (ring_rd ?r)" "received s = received (io_state p)"
    by auto
  have "peer_start_write cf p = Some (p\<lparr>io_write := h, io_state := s\<rparr>)"
    using step len(1,2) assms(1,4) fill by (simp add: peer_start_write_def AsyncIoStream_write_def ring_read_address)
  moreover have "sending (sent s) (p\<lparr>io_write := h, io_state := s\<rparr>) acc"
    using res assms(1,3,6) by (auto simp: sending_def intro!: exI [of _ k])
  ultimately show ?thesis using res(4) by blast
qed

lemma write_result_correct:
  assumes "sending (sent (io_state p)) p acc"
  shows "\<exists>p'. peer_write_result cf p = Some p' \<and> sending (sent (io_state p')) p' acc \<and> received (io_state p') = received (io_state p)
    \<and> in_buffer p' = in_buffer p \<and> io_read p' = io_read p \<and> sink_read p' = sink_read p \<and> incoming_feeder p' = incoming_feeder p"
proof -
  let ?r = "out_buffer p" and ?h = "io_write p"
  from assms obtain n where n: "ring_inv ?r" "n \<le> ring_fill ?r" "sent (io_state p) @ drop n (ring_rd ?r) = packets acc"
    "write_state (sink_write p) ?r ?h n" by (auto simp: sending_def)
  consider "write_done ?h = None \<or> write_done ?h = Some []"
    | (finished) "write_task ?h = None" "0 < n" "\<not> sink_write p" "write_done ?h = Some [IsValue n]"
    | (error) e where "write_task ?h = None" "isCritical e" "write_done ?h = Some [IsError e]" "ring_rd ?r \<noteq> []"
    using n(1,4) unfolding write_state_def write_progress_def by (auto simp: ring_rd_Nil_iff split: option.splits)
  then show ?thesis
  proof cases
    case 1
    then have "peer_write_result cf p = Some p" by (auto simp: peer_write_result_def)
    with assms show ?thesis by auto
  next
    case finished
    let ?p = "p\<lparr>io_write := ?h\<lparr>write_done := Some []\<rparr>\<rparr>"
    from ring_readAdvance_abs [OF n(1,2)] obtain r1 where r1: "ring_readAdvance ?r n = Some r1" "ring_inv r1" "ring_rd r1 = drop n (ring_rd ?r)"
      by blast
    show ?thesis
    proof (cases "ring_rd r1 = []")
      case True
      then have "peer_write_result cf p = Some (?p\<lparr>out_buffer := r1\<rparr>)"
        using finished r1 by (simp add: peer_write_result_def peer_on_write_done_def ring_rd_Nil_iff)
      moreover have "sending (sent (io_state p)) (?p\<lparr>out_buffer := r1\<rparr>) acc"
        using True finished n(3) r1 by (auto simp: sending_def write_state_def intro!: exI [of _ 0])
      ultimately show ?thesis by auto
    next
      case False
      then have "0 < ring_fill r1" using r1(2) by (simp add: ring_rd_Nil_iff)
      then have run: "peer_write_result cf p = peer_start_write cf (?p\<lparr>out_buffer := r1\<rparr>)"
        using finished r1(1,2) by (simp add: peer_write_result_def peer_on_write_done_def Let_def)
      from start_write_correct [of "?p\<lparr>out_buffer := r1\<rparr>" acc] False finished n(3) r1(2,3) show ?thesis
        unfolding run by auto
    qed
  next
    case error
    let ?p = "p\<lparr>io_write := ?h\<lparr>write_done := Some []\<rparr>, sink_write := True\<rparr>"
    have "peer_write_result cf p = Some ?p" using error by (simp add: peer_write_result_def peer_sink_result_def)
    moreover have "sending (sent (io_state p)) ?p acc" using n error by (auto simp: sending_def write_state_def)
    ultimately show ?thesis by auto
  qed
qed

lemma send_correct:
  assumes "sending (sent (io_state p)) p acc" and "msg_ok (ps_outgoing cf) m" and "length (packet m) \<le> PTRDIFF_MAX"
  shows "\<exists>e p'. StreamingIoPeer_send cf m p = Some (e, p') \<and> sending (sent (io_state p')) p' (if failed e then acc else acc @ [m])
    \<and> (failed e \<longleftrightarrow> length (ring_wr (out_buffer p)) < length (packet m)) \<and> (if failed e then e = too_small \<and> p' = p else e = noError)
    \<and> received (io_state p') = received (io_state p)
    \<and> in_buffer p' = in_buffer p \<and> io_read p' = io_read p \<and> sink_read p' = sink_read p \<and> incoming_feeder p' = incoming_feeder p"
proof -
  let ?r = "out_buffer p"
  from assms(1) obtain n where n: "ring_inv ?r" "n \<le> ring_fill ?r" "sent (io_state p) @ drop n (ring_rd ?r) = packets acc"
    "write_state (sink_write p) ?r (io_write p) n" by (auto simp: sending_def)
  have seg: "\<exists>len. ring_readSegmentLength ?r 0 = Some len \<and> (len = 0 \<longleftrightarrow> ring_rd ?r = [])"
    using ring_read_segment_empty [OF n(1)] ring_first_read_segment [OF n(1)] ring_rd_Nil_iff [OF n(1)] by (metis less_not_refl)
  show ?thesis
  proof (cases "length (packet m) \<le> length (ring_wr ?r)")
    case False
    then have "ProtoKelCodec_encode ring_vt (ps_outgoing cf) m ?r = Some (too_small, ?r)"
      using ring.codec_encode_too_small [OF n(1) assms(2) _ assms(3)] by simp
    with seg False assms(1) show ?thesis by (auto simp: StreamingIoPeer_send_def too_small_def)
  next
    case True
    from filling.codec_encode_correct [of ?r "rb_read_position ?r" "ring_size ?r", OF _ assms(2) True] n(1) obtain r1 where
      r1: "ProtoKelCodec_encode ring_vt (ps_outgoing cf) m ?r = Some (noError, r1)" "ring_inv r1" "ring_rd r1 = ring_rd ?r @ packet m"
        "rb_read_position r1 = rb_read_position ?r" "ring_size r1 = ring_size ?r" by auto
    have fill: "ring_fill ?r \<le> ring_fill r1" using length_ring_rd [OF n(1)] length_ring_rd [OF r1(2)] r1(3) by simp
    show ?thesis
    proof (cases "ring_rd ?r = []")
      case empty: True
      have "write_task (io_write p) = None" "write_done (io_write p) = Some []" "\<not> sink_write p" "n = 0"
        using n(1,2,4) empty by (auto simp: write_state_def ring_rd_Nil_iff)
      with start_write_correct [of "p\<lparr>out_buffer := r1\<rparr>" "acc @ [m]"] r1(2,3) n(3) empty obtain h s where
        "peer_start_write cf (p\<lparr>out_buffer := r1\<rparr>) = Some (p\<lparr>out_buffer := r1, io_write := h, io_state := s\<rparr>)"
        "sending (sent s) (p\<lparr>out_buffer := r1, io_write := h, io_state := s\<rparr>) (acc @ [m])" "received s = received (io_state p)" by auto
      with seg empty r1(1) True show ?thesis by (intro exI [of _ noError]) (auto simp: StreamingIoPeer_send_def)
    next
      case busy: False
      have "sending (sent (io_state p)) (p\<lparr>out_buffer := r1\<rparr>) (acc @ [m])"
        using n fill r1 write_state_fill [OF n(4) busy n(1) r1(2-5)] length_ring_rd [OF n(1)]
        by (auto simp: sending_def intro!: exI [of _ n])
      with seg busy r1(1) True show ?thesis by (intro exI [of _ noError]) (auto simp: StreamingIoPeer_send_def)
    qed
  qed
qed

end

section \<open>Runs of a peer\<close>

text \<open>What happens to the stream outside the program transfers nothing, and the program sends messages of the schema.\<close>

fun action_ok :: "'s peer_setup \<Rightarrow> ('s \<Rightarrow> byte list) \<Rightarrow> ('s \<Rightarrow> byte list) \<Rightarrow> 's peer_action \<Rightarrow> bool" where
  "action_ok cf received sent (ReadReady env) \<longleftrightarrow> (\<forall>s. received (env s) = received s \<and> sent (env s) = sent s)"
| "action_ok cf received sent (WriteReady env) \<longleftrightarrow> (\<forall>s. received (env s) = received s \<and> sent (env s) = sent s)"
| "action_ok cf received sent (Send m) \<longleftrightarrow> msg_ok (ps_outgoing cf) m \<and> length (packet m) \<le> PTRDIFF_MAX"
| "action_ok cf received sent _ \<longleftrightarrow> True"

text \<open>A peer on a stream that has just been made, with buffers of \<open>N\<close> and \<open>M\<close> bytes, and what happens to it.\<close>

definition peer_session :: "'s peer_setup \<Rightarrow> nat \<Rightarrow> nat \<Rightarrow> 's \<Rightarrow> 's peer_action list \<Rightarrow> ('s streaming_peer \<times> message list) option" where
  "peer_session cf N M s as = do {
     p \<leftarrow> StreamingIoPeer_new cf \<lparr>read_task = None, read_done = None\<rparr> \<lparr>write_task = None, write_done = None\<rparr> s (ring_new N) (ring_new M);
     peer_run cf as (p, [])
   }"

lemma receiving_cong:
  "receiving cf R p ms \<Longrightarrow> in_buffer p' = in_buffer p \<Longrightarrow> io_read p' = io_read p \<Longrightarrow> sink_read p' = sink_read p \<Longrightarrow>
     incoming_feeder p' = incoming_feeder p \<Longrightarrow> receiving cf R p' ms"
  by (simp add: receiving_def)

lemma sending_cong:
  "sending S p acc \<Longrightarrow> out_buffer p' = out_buffer p \<Longrightarrow> io_write p' = io_write p \<Longrightarrow> sink_write p' = sink_write p \<Longrightarrow> sending S p' acc"
  by (simp add: sending_def)

lemma read_state_orphan: "read_state armed r h bs \<Longrightarrow> read_state armed' r (h\<lparr>read_done := None\<rparr>) bs"
  by (simp add: read_state_def split: option.splits)

lemma sink_read_fire_receiving: "receiving cf R p ms \<Longrightarrow> receiving cf R (peer_sink_read_fire p) ms"
  using read_state_orphan by (auto simp: peer_sink_read_fire_def receiving_def)

lemma sink_write_fire_sending:
  assumes "sending S p acc"
  shows "sending S (peer_sink_write_fire p) acc"
  using assms by (auto simp: peer_sink_write_fire_def sending_def write_state_def)

context peer_system
begin

definition peer_ok :: "message list \<Rightarrow> 's streaming_peer \<times> message list \<Rightarrow> bool" where
  "peer_ok ms st \<longleftrightarrow> (case st of (p, acc) \<Rightarrow>
     receiving cf (received (io_state p)) p ms \<and> sending (sent (io_state p)) p acc)"

lemma new_correct:
  assumes "0 < N" and "N \<le> PTRDIFF_MAX" and "M \<le> PTRDIFF_MAX" and "received s = []" and "sent s = []" and "wf_schema (ps_incoming cf)"
  shows "\<exists>p. StreamingIoPeer_new cf \<lparr>read_task = None, read_done = None\<rparr> \<lparr>write_task = None, write_done = None\<rparr> s (ring_new N) (ring_new M)
    = Some p \<and> peer_ok [] (p, [])"
proof -
  let ?p = "\<lparr>incoming_feeder = [], io_state = s, io_read = \<lparr>read_task = None, read_done = Some []\<rparr>,
    io_write = \<lparr>write_task = None, write_done = Some []\<rparr>, io_on_disconnect = None, in_buffer = ring_new N, out_buffer = ring_new M, sink_read = False, sink_write = False\<rparr>"
  have new: "ring_inv (ring_new N)" "ring_inv (ring_new M)" "ring_size (ring_new N) = N" "ring_fill (ring_new N) = 0"
    using assms by (simp_all add: ring_inv_new) (simp_all add: ring_new_def ring_size_def ring_fill_def)
  with start_read_correct [of ?p False] assms(1) obtain h mem s' bs where
    1: "peer_start_read cf ?p = Some (?p\<lparr>io_read := h, in_buffer := (ring_new N)\<lparr>rb_buffer := mem\<rparr>, io_state := s'\<rparr>)"
      "ring_inv ((ring_new N)\<lparr>rb_buffer := mem\<rparr>)" "ring_rd ((ring_new N)\<lparr>rb_buffer := mem\<rparr>) = []"
      "length mem = N" "read_state False ((ring_new N)\<lparr>rb_buffer := mem\<rparr>) h bs" "received s' = bs" "sent s' = []"
    using assms(4,5) by fastforce
  have "no_packet cf []" by (simp add: no_packet_def)
  with 1 new assms(1) have "peer_ok [] (?p\<lparr>io_read := h, in_buffer := (ring_new N)\<lparr>rb_buffer := mem\<rparr>, io_state := s'\<rparr>, [])"
    by (auto simp: peer_ok_def receiving_def sending_def write_state_def)
  with 1(1) show ?thesis by (simp add: StreamingIoPeer_new_def AsyncIoStream_readDone_def AsyncIoStream_writeDone_def)
qed

lemma ready_read_correct:
  assumes "peer_ok ms (p, acc)" and "action_ok cf received sent (ReadReady env)"
  shows "\<exists>st. peer_step cf (ReadReady env) (p, acc) = Some st \<and> peer_ok ms st"
proof -
  have rcv: "receiving cf (received (io_state p)) p ms" and snd: "sending (sent (io_state p)) p acc"
    using assms(1) by (simp_all add: peer_ok_def)
  from rcv obtain bs where bs: "ring_inv (in_buffer p)" "read_state (sink_read p) (in_buffer p) (io_read p) bs"
    "received (io_state p) = packets ms @ ring_rd (in_buffer p) @ bs" by (auto simp: receiving_def)
  from readStep_state [OF bs(1,2), of "env (io_state p)"] obtain h mem s more where
    1: "readStep (ps_reader cf) (io_read p) (rb_buffer (in_buffer p)) (env (io_state p)) = Some (h, mem, s)"
      "ring_inv ((in_buffer p)\<lparr>rb_buffer := mem\<rparr>)" "ring_rd ((in_buffer p)\<lparr>rb_buffer := mem\<rparr>) = ring_rd (in_buffer p)"
      "length mem = ring_size (in_buffer p)" "read_state (sink_read p) ((in_buffer p)\<lparr>rb_buffer := mem\<rparr>) h (bs @ more)"
      "read_done (io_read p) = None \<longleftrightarrow> read_done h = None"
      "received s = received (io_state p) @ more" "sent s = sent (io_state p)" using assms(2) by auto
  let ?p = "p\<lparr>io_read := h, in_buffer := (in_buffer p)\<lparr>rb_buffer := mem\<rparr>, io_state := s\<rparr>"
  have "receiving cf (received s) ?p ms" using rcv bs(3) 1 by (auto simp: receiving_def intro!: exI [of _ "bs @ more"])
  moreover have "sending (sent s) ?p acc" using snd 1(8) sending_cong [of _ p acc ?p] by simp
  ultimately show ?thesis using 1(1) by (auto simp: peer_ok_def)
qed

lemma ready_write_correct:
  assumes "peer_ok ms (p, acc)" and "action_ok cf received sent (WriteReady env)"
  shows "\<exists>st. peer_step cf (WriteReady env) (p, acc) = Some st \<and> peer_ok ms st"
proof -
  have rcv: "receiving cf (received (io_state p)) p ms" and snd: "sending (sent (io_state p)) p acc"
    using assms(1) by (simp_all add: peer_ok_def)
  from snd obtain n where n: "ring_inv (out_buffer p)" "n \<le> ring_fill (out_buffer p)"
    "sent (io_state p) @ drop n (ring_rd (out_buffer p)) = packets acc" "write_state (sink_write p) (out_buffer p) (io_write p) n"
    by (auto simp: sending_def)
  from writeStep_state [OF n(1,4,2), of "env (io_state p)"] obtain h s k where
    1: "writeStep (ps_writer cf) (rb_buffer (out_buffer p)) (io_write p) (env (io_state p)) = Some (h, s)"
      "write_state (sink_write p) (out_buffer p) h (n + k)" "n + k \<le> ring_fill (out_buffer p)"
      "sent s = sent (io_state p) @ take k (drop n (ring_rd (out_buffer p)))" "received s = received (io_state p)"
    using assms(2) by auto
  let ?p = "p\<lparr>io_write := h, io_state := s\<rparr>"
  have "drop n (ring_rd (out_buffer p)) = take k (drop n (ring_rd (out_buffer p))) @ drop (n + k) (ring_rd (out_buffer p))"
    by (metis append_take_drop_id drop_drop add.commute)
  then have "sending (sent s) ?p acc" using n(1,3) 1 by (auto simp: sending_def intro!: exI [of _ "n + k"])
  moreover have "receiving cf (received s) ?p ms" using rcv 1(5) receiving_cong [of _ _ p ms ?p] by simp
  ultimately show ?thesis using 1(1) by (auto simp: peer_ok_def)
qed

lemma step_correct:
  assumes "peer_ok ms (p, acc)" and "wf_schema (ps_incoming cf)" and "a = ReadResult \<Longrightarrow> decodable cf (received (io_state p))"
    and "action_ok cf received sent a"
  shows "\<exists>st more. peer_step cf a (p, acc) = Some st \<and> peer_ok (ms @ more) st"
proof -
  have rcv: "receiving cf (received (io_state p)) p ms" and snd: "sending (sent (io_state p)) p acc"
    using assms(1) by (simp_all add: peer_ok_def)
  show ?thesis
  proof (cases a)
    case (ReadReady env)
    with ready_read_correct [OF assms(1)] assms(4) show ?thesis by (metis append_Nil2)
  next
    case (WriteReady env)
    with ready_write_correct [OF assms(1)] assms(4) show ?thesis by (metis append_Nil2)
  next
    case ReadResult
    from read_result_correct [OF rcv assms(2) assms(3) [OF ReadResult]] obtain p' more where "peer_read_result cf p = Some p'"
      "receiving cf (received (io_state p')) p' (ms @ more)" "sent (io_state p') = sent (io_state p)" "out_buffer p' = out_buffer p"
      "io_write p' = io_write p" "sink_write p' = sink_write p" by blast
    with snd ReadResult sending_cong [of _ p acc p'] show ?thesis by (auto simp: peer_ok_def)
  next
    case WriteResult
    from write_result_correct [OF snd] rcv receiving_cong [of _ _ p ms] WriteResult show ?thesis
      by (fastforce simp: peer_ok_def intro!: exI [of _ "[]"])
  next
    case SinkReadFires
    have same: "io_state (peer_sink_read_fire p) = io_state p" by (simp add: peer_sink_read_fire_def)
    have "sending (sent (io_state p)) (peer_sink_read_fire p) acc"
      by (rule sending_cong [OF snd]) (simp_all add: peer_sink_read_fire_def)
    with sink_read_fire_receiving [OF rcv] same SinkReadFires show ?thesis by (auto simp: peer_ok_def intro!: exI [of _ "[]"])
  next
    case SinkWriteFires
    have same: "io_state (peer_sink_write_fire p) = io_state p" by (simp add: peer_sink_write_fire_def)
    have "receiving cf (received (io_state p)) (peer_sink_write_fire p) ms"
      by (rule receiving_cong [OF rcv]) (simp_all add: peer_sink_write_fire_def)
    with sink_write_fire_sending [OF snd] same SinkWriteFires show ?thesis by (auto simp: peer_ok_def intro!: exI [of _ "[]"])
  next
    case (Send m)
    from send_correct [OF snd, of m] assms(4) Send obtain e p' where "StreamingIoPeer_send cf m p = Some (e, p')"
      "sending (sent (io_state p')) p' (if failed e then acc else acc @ [m])" "received (io_state p') = received (io_state p)"
      "in_buffer p' = in_buffer p" "io_read p' = io_read p" "sink_read p' = sink_read p" "incoming_feeder p' = incoming_feeder p" by auto
    with rcv Send receiving_cong [of _ _ p ms p'] show ?thesis by (auto simp: peer_ok_def intro!: exI [of _ "[]"])
  next
    case OnReadDisconnected
    with rcv snd show ?thesis
      by (auto simp: peer_ok_def StreamingIoPeer_onReadDisconnected_def receiving_def sending_def intro!: exI [of _ "[]"])
  next
    case Disconnects
    with rcv snd show ?thesis by (auto simp: peer_ok_def receiving_def sending_def intro!: exI [of _ "[]"])
  qed
qed

lemma run_correct:
  assumes "peer_ok ms st" and "wf_schema (ps_incoming cf)" and "list_all (action_ok cf received sent) as"
    and "\<And>as' p acc. prefix as' as \<Longrightarrow> peer_run cf as' st = Some (p, acc) \<Longrightarrow> decodable cf (received (io_state p))"
  shows "\<exists>st' more. peer_run cf as st = Some st' \<and> peer_ok (ms @ more) st'"
  using assms(3,4)
proof (induction as rule: rev_induct)
  case Nil
  with assms(1) show ?case by (auto intro!: exI [of _ "[]"])
next
  case (snoc a as)
  then obtain p acc more where 1: "peer_run cf as st = Some (p, acc)" "peer_ok (ms @ more) (p, acc)"
    by (metis list_all_append prefix_snoc surj_pair)
  have "decodable cf (received (io_state p))" using snoc.prems(2) [OF _ 1(1)] by simp
  from step_correct [OF 1(2) assms(2) this, of a] snoc.prems(1) 1(1) show ?case
    by (auto simp: peer_run_append)
qed

lemma session_correct:
  assumes "0 < N" and "N \<le> PTRDIFF_MAX" and "M \<le> PTRDIFF_MAX" and "received s = []" and "sent s = []"
    and "wf_schema (ps_incoming cf)" and "list_all (action_ok cf received sent) as"
    and "\<And>as' p acc. prefix as' as \<Longrightarrow> peer_session cf N M s as' = Some (p, acc) \<Longrightarrow> decodable cf (received (io_state p))"
  shows "\<exists>p acc ms. peer_session cf N M s as = Some (p, acc) \<and> peer_ok ms (p, acc)"
proof -
  from new_correct [OF assms(1-6)] obtain p where
    p: "StreamingIoPeer_new cf \<lparr>read_task = None, read_done = None\<rparr> \<lparr>write_task = None, write_done = None\<rparr> s (ring_new N) (ring_new M) = Some p"
    and ok: "peer_ok [] (p, [])" by blast
  have "peer_session cf N M s as' = peer_run cf as' (p, [])" for as' using p by (simp add: peer_session_def)
  with run_correct [OF ok assms(6,7)] assms(8) show ?thesis by fastforce
qed

text \<open>What the invariant says of a peer that is at rest.\<close>

lemma peer_ok_received:
  assumes "peer_ok ms (p, acc)"
  shows "incoming_feeder p = map IsValue ms" "list_all (sendable (ps_incoming cf)) ms" "prefix (packets ms) (received (io_state p))"
    "\<not> sink_read p \<Longrightarrow> read_done (io_read p) = Some [] \<Longrightarrow> \<exists>rest. received (io_state p) = packets ms @ rest \<and> no_packet cf rest"
proof -
  from assms obtain bs where r: "incoming_feeder p = map IsValue ms" "list_all (sendable (ps_incoming cf)) ms"
      "read_state (sink_read p) (in_buffer p) (io_read p) bs" "received (io_state p) = packets ms @ ring_rd (in_buffer p) @ bs"
      "\<not> sink_read p \<and> read_done (io_read p) \<noteq> None \<longrightarrow> no_packet cf (ring_rd (in_buffer p))"
    by (auto simp: peer_ok_def receiving_def)
  then show "incoming_feeder p = map IsValue ms" "list_all (sendable (ps_incoming cf)) ms" "prefix (packets ms) (received (io_state p))"
    by simp_all
  assume "\<not> sink_read p" "read_done (io_read p) = Some []"
  moreover from this r(3) have "bs = []" by (auto simp: read_state_def split: option.splits)
  ultimately show "\<exists>rest. received (io_state p) = packets ms @ rest \<and> no_packet cf rest" using r(4,5) by auto
qed

lemma peer_ok_sent:
  assumes "peer_ok ms (p, acc)"
  shows "prefix (sent (io_state p)) (packets acc)"
    "\<not> sink_write p \<Longrightarrow> write_task (io_write p) = None \<Longrightarrow> write_done (io_write p) = Some [] \<Longrightarrow> sent (io_state p) = packets acc"
proof -
  from assms obtain n where n: "sent (io_state p) @ drop n (ring_rd (out_buffer p)) = packets acc"
    "write_state (sink_write p) (out_buffer p) (io_write p) n" by (auto simp: peer_ok_def sending_def)
  then show "prefix (sent (io_state p)) (packets acc)" by (metis prefixI)
  assume "\<not> sink_write p" "write_task (io_write p) = None" "write_done (io_write p) = Some []"
  with n(2) have "ring_rd (out_buffer p) = []" by (auto simp: write_state_def write_progress_def)
  with n(1) show "sent (io_state p) = packets acc" by simp
qed

text \<open>
  A peer that will never read again: no read is under way, no result waits, and the sink is armed or gone. Whatever happens then, it hands
  over nothing, and its input buffer stays as it is.
\<close>

definition silenced :: "'a streaming_peer \<Rightarrow> bool" where
  "silenced p \<longleftrightarrow> read_task (io_read p) = None \<and> (read_done (io_read p) = None \<or> read_done (io_read p) = Some [] \<and> sink_read p)"

lemma silenced_step:
  assumes "silenced p" and "peer_step cf a (p, acc) = Some (p', acc')"
  shows "silenced p' \<and> in_buffer p' = in_buffer p \<and> incoming_feeder p' = incoming_feeder p"
proof (cases a)
  case (ReadReady env)
  have "readStep (ps_reader cf) (io_read p) (rb_buffer (in_buffer p)) (env (io_state p)) = Some (io_read p, rb_buffer (in_buffer p), env (io_state p))"
    using assms(1) by (subst readStep.simps) (simp add: silenced_def)
  with ReadReady assms show ?thesis by (auto simp: silenced_def)
next
  case (WriteReady env)
  with assms show ?thesis by (auto simp: silenced_def elim!: bind_eq_SomeE)
next
  case ReadResult
  with assms show ?thesis by (auto simp: silenced_def peer_read_result_def)
next
  case WriteResult
  with assms show ?thesis
    by (auto simp: silenced_def peer_write_result_def peer_on_write_done_def peer_start_write_def Let_def
        split: option.splits list.splits error_or.splits if_splits elim!: bind_eq_SomeE)
next
  case (Send m)
  with assms show ?thesis
    by (auto simp: silenced_def StreamingIoPeer_send_def peer_start_write_def Let_def split: if_splits elim!: bind_eq_SomeE)
qed (use assms in \<open>auto simp: silenced_def peer_sink_read_fire_def peer_sink_write_fire_def StreamingIoPeer_onReadDisconnected_def split: if_splits\<close>)

lemma silenced_run:
  assumes "silenced p" and "peer_ok ms (p, acc)" and "wf_schema (ps_incoming cf)" and "list_all (action_ok cf received sent) as"
  shows "\<exists>p' acc'. peer_run cf as (p, acc) = Some (p', acc') \<and> in_buffer p' = in_buffer p \<and> incoming_feeder p' = incoming_feeder p"
  using assms(1,2,4)
proof (induction as arbitrary: p acc ms)
  case (Cons a as)
  have "\<exists>st more. peer_step cf a (p, acc) = Some st \<and> peer_ok (ms @ more) st"
  proof (cases "a = ReadResult")
    case True
    with Cons.prems(1,2) show ?thesis by (auto simp: silenced_def peer_read_result_def intro!: exI [of _ "[]"])
  next
    case False
    with step_correct [OF Cons.prems(2) assms(3), of a] Cons.prems(3) show ?thesis by simp
  qed
  then obtain p1 acc1 more where 1: "peer_step cf a (p, acc) = Some (p1, acc1)" "peer_ok (ms @ more) (p1, acc1)" by auto
  note S = silenced_step [OF Cons.prems(1) 1(1)]
  from Cons.IH [OF conjunct1 [OF S] 1(2)] Cons.prems(3) 1(1) S show ?case by simp
qed simp

text \<open>The result that fills the buffer silences the peer.\<close>

lemma full_buffer_silences:
  assumes "peer_ok ms (p, acc)" and "read_done (io_read p) = Some (IsValue (length (ring_wr (in_buffer p))) # results)"
  shows "\<exists>p'. peer_read_result cf p = Some p' \<and> silenced p' \<and> incoming_feeder p' = incoming_feeder p
    \<and> ring_rd (in_buffer p') = ring_rd (in_buffer p) @ ring_wr (in_buffer p)"
proof -
  let ?r = "in_buffer p" and ?n = "length (ring_wr (in_buffer p))"
  from assms(1) obtain bs where inv: "ring_inv ?r" "read_state (sink_read p) ?r (io_read p) bs" by (auto simp: peer_ok_def receiving_def)
  from inv(2) assms(2) have idle: "read_task (io_read p) = None" "results = []" "length bs = ?n" "bs \<noteq> []"
    by (auto simp: read_state_def split: option.splits)
  then have n: "0 < ?n" "?n \<le> ring_size ?r - ring_fill ?r" by (metis length_greater_0_conv, simp)
  from ring_writeAdvance_abs [OF inv(1) n] obtain r where
    r: "ring_writeAdvance ?r ?n = Some r" "ring_inv r" "ring_rd r = ring_rd ?r @ ring_wr ?r" "ring_wr r = []" by auto
  have size: "ring_size r = ring_size ?r" using ring_writeAdvance_keeps [OF r(1)] by (simp add: ring_size_def)
  with n have pos: "0 < ring_size r" by simp
  have "ring_fill r = ring_size r" using arg_cong [OF r(4), of length] ring_inv_bounds(4) [OF r(2)] by simp
  from ring_write_segment_full [OF r(2) pos this] r(1) assms(2)
  have "peer_read_result cf p = Some (p\<lparr>io_read := (io_read p)\<lparr>read_done := Some results\<rparr>, in_buffer := r, sink_read := True\<rparr>)"
    by (simp add: peer_read_result_def peer_on_read_done_def peer_sink_result_def del: length_ring_wr)
  with r(3) idle show ?thesis by (simp add: silenced_def)
qed

end

end
