(* ===== verification/Peer_Exchange.thy ===== *)
theory Peer_Exchange
  imports Streaming_Peer_Correct
begin

text \<open>
  Streaming peers on streams of the unix driver, the properties of a run, and two peers that are connected by a network.
\<close>

section \<open>Peers on unix streams\<close>

definition unix_setup ::
    "'k recv_call \<Rightarrow> 'k send_call \<Rightarrow> errno \<Rightarrow> schema \<Rightarrow> schema \<Rightarrow> (schema \<Rightarrow> nat \<Rightarrow> bool) \<Rightarrow> bool \<Rightarrow> 'k peer_setup" where
  "unix_setup recv send old_errno incoming outgoing can_resize alloc =
     \<lparr>ps_incoming = incoming, ps_outgoing = outgoing, ps_reader = UnixIoStream_read recv, ps_writer = UnixIoStream_write old_errno send,
      ps_resize = can_resize, ps_alloc = alloc\<rparr>"

lemma unix_setup_sel [simp]:
  "ps_incoming (unix_setup recv send e si so cr alloc) = si" "ps_outgoing (unix_setup recv send e si so cr alloc) = so"
  "ps_reader (unix_setup recv send e si so cr alloc) = UnixIoStream_read recv"
  "ps_writer (unix_setup recv send e si so cr alloc) = UnixIoStream_write e send"
  "ps_resize (unix_setup recv send e si so cr alloc) = cr" "ps_alloc (unix_setup recv send e si so cr alloc) = alloc"
  by (simp_all add: unix_setup_def)

context posix_socket
begin

lemma peer_on_socket: "peer_system (unix_setup recv send old_errno si so cr alloc) received sent"
  unfolding peer_system_def unix_setup_sel by (rule unix_stream.duplex_stream_axioms)

end

sublocale posix_socket \<subseteq> unix_peer: peer_system "unix_setup recv send old_errno si so cr alloc" received sent for old_errno si so cr alloc
  by (rule peer_on_socket)

section \<open>Traffic\<close>

text \<open>
  What a peer relies on when it decodes the bytes \<open>bs\<close>: the vectors of arrays can be resized to the lengths that the bytes
  announce. After any messages that the bytes begin with, this concerns the packet that comes next. It says nothing of
  schemas without arrays.
\<close>

definition announcements_ok :: "'s peer_setup \<Rightarrow> byte list \<Rightarrow> bool" where
  "announcements_ok cf bs \<longleftrightarrow> (\<forall>ms rest. list_all (sendable (ps_incoming cf)) ms \<and> bs = packets ms @ rest \<longrightarrow>
     resizable (ps_resize cf) (packet_announces Limits_default (ps_incoming cf) rest))"

lemma announcements_array_free: "array_free (ps_incoming cf) \<Longrightarrow> announcements_ok cf bs"
  by (auto simp: announcements_ok_def packet_announces_def announced_array_free split: option.split)

text \<open>Then decoding returns, and it does on what a peer of the same schema sends.\<close>

lemma decodable_announced:
  assumes "wf_schema (ps_incoming cf)" and "announcements_ok cf bs"
  shows "decodable cf bs"
  using ring.codec_decode_returns [OF _ assms(1) msg_ok_default [OF assms(1)]] assms(2)
  by (auto simp: decodable_def announcements_ok_def)

lemma decodable_packets:
  assumes "wf_schema (ps_incoming cf)" and "list_all (sendable (ps_incoming cf)) ms"
    and "list_all (msg_fits (ps_resize cf) (ps_incoming cf)) ms" and "prefix bs (packets ms)"
  shows "decodable cf bs"
  unfolding decodable_def
proof (intro allI impI, elim conjE)
  fix ms1 r assume r: "list_all (sendable (ps_incoming cf)) ms1" "ring_inv r" "bs = packets ms1 @ ring_rd r"
  from packets_prefix [OF assms(1) r(1) assms(2)] assms(4) r(3) obtain ms2 where
    ms2: "ms = ms1 @ ms2" "prefix (ring_rd r) (packets ms2)" by auto
  note old = msg_ok_default [OF assms(1)]
  show "peer_decode cf r \<noteq> None"
  proof (cases ms2)
    case Nil
    with ms2(2) ring.codec_decode_empty [OF r(2)] show ?thesis by simp
  next
    case (Cons m ms3)
    then have m: "msg_ok (ps_incoming cf) m" "msg_fits (ps_resize cf) (ps_incoming cf) m"
      "length (wire m) \<le> unat (packet_size Limits_default)"
      using assms(2,3) ms2(1) by (simp_all add: sendable_def)
    from ms2(2) Cons have "prefix (ring_rd r) (packet m) \<or> prefix (packet m) (ring_rd r)"
      by (metis concat.simps(2) list.simps(9) prefix_append prefixI)
    then consider rest where "ring_rd r = packet m @ rest" | "strict_prefix (ring_rd r) (packet m)"
      by (metis prefixE append_Nil2 strict_prefix_def)
    then show ?thesis
    proof cases
      case 1
      from ring.codec_decode_complete [OF r(2) assms(1) old m(1,2) 1 m(3), of "ps_alloc cf"] show ?thesis by auto
    next
      case 2
      from ring.codec_decode_truncated [OF r(2) assms(1) old m(1,2) 2 m(3), of "ps_alloc cf"] show ?thesis by auto
    qed
  qed
qed

text \<open>
  What a live peer at rest has handed over when the bytes it has received are the beginning of a sequence of packets: every message whose
  packet has arrived.
\<close>

lemma complete_packets_handed_over:
  assumes "wf_schema (ps_incoming cf)" and "list_all (sendable (ps_incoming cf)) (ms @ ns)"
    and "list_all (msg_fits (ps_resize cf) (ps_incoming cf)) (ms @ ns)"
    and "prefix (packets ms @ rest) (packets (ms @ ns))" and "no_packet cf rest"
    and "length (packets (take k (ms @ ns))) \<le> length (packets ms @ rest)" and "k \<le> length (ms @ ns)"
  shows "k \<le> length ms"
proof (rule ccontr)
  assume "\<not> k \<le> length ms"
  then obtain j where k: "k = length ms + Suc j" by (metis less_imp_Suc_add add_Suc_right not_le)
  with assms(7) obtain m ns1 where ns: "ns = m # ns1" by (cases ns) auto
  have "length (packet m) \<le> length (packets (take k ns))" if "0 < k" for k using that ns by (cases k) auto
  from this [of "Suc j"] assms(6) k have "length (packet m) \<le> length rest" by simp
  moreover have "prefix rest (packet m @ packets ns1)" using assms(4) ns by simp
  ultimately have "prefix (packet m) rest" by (metis prefix_length_prefix prefixI)
  with assms(2,3,5) ns show False by (simp add: no_packet_def)
qed

section \<open>Properties\<close>

text \<open>
  A session with buffers of \<open>N\<close> and \<open>M\<close> bytes on a connection over which nothing has been transferred, and what the program and
  the system do with it.
\<close>

definition session_ok :: "'s peer_setup \<Rightarrow> ('s \<Rightarrow> byte list) \<Rightarrow> ('s \<Rightarrow> byte list) \<Rightarrow> nat \<Rightarrow> nat \<Rightarrow> 's \<Rightarrow> 's peer_action list \<Rightarrow> bool" where
  "session_ok cf received sent N M s as \<longleftrightarrow>
     wf_schema (ps_incoming cf) \<and> 0 < N \<and> N \<le> PTRDIFF_MAX \<and> M \<le> PTRDIFF_MAX \<and> received s = [] \<and> sent s = []
     \<and> list_all (action_ok cf received sent) as"

definition traffic_decodable :: "'s peer_setup \<Rightarrow> ('s \<Rightarrow> byte list) \<Rightarrow> nat \<Rightarrow> nat \<Rightarrow> 's \<Rightarrow> 's peer_action list \<Rightarrow> bool" where
  "traffic_decodable cf received N M s as \<longleftrightarrow>
     (\<forall>as' p acc. prefix as' as \<and> peer_session cf N M s as' = Some (p, acc) \<longrightarrow> decodable cf (received (io_state p)))"

text \<open>The same with the condition on the bytes received instead of one on the decoder.\<close>

definition traffic_resizable :: "'s peer_setup \<Rightarrow> ('s \<Rightarrow> byte list) \<Rightarrow> nat \<Rightarrow> nat \<Rightarrow> 's \<Rightarrow> 's peer_action list \<Rightarrow> bool" where
  "traffic_resizable cf received N M s as \<longleftrightarrow>
     (\<forall>as' p acc. prefix as' as \<and> peer_session cf N M s as' = Some (p, acc) \<longrightarrow> announcements_ok cf (received (io_state p)))"

lemma traffic_resizable_decodable:
  "session_ok cf received sent N M s as \<Longrightarrow> traffic_resizable cf received N M s as \<Longrightarrow> traffic_decodable cf received N M s as"
  using decodable_announced [of cf] by (auto simp: session_ok_def traffic_resizable_def traffic_decodable_def)

lemma unix_session:
  assumes "posix_socket recv send received sent" and "session_ok cf received sent N M s as" and "traffic_decodable cf received N M s as"
    and "cf = unix_setup recv send e si so cr alloc"
  obtains p acc ms where "peer_session cf N M s as = Some (p, acc)" and "peer_system.peer_ok cf received sent ms (p, acc)"
    and "peer_system cf received sent"
proof -
  have sys: "peer_system cf received sent" unfolding assms(4) by (rule posix_socket.peer_on_socket [OF assms(1)])
  from peer_system.session_correct [OF sys, of N M s as] assms(2,3) that sys show ?thesis
    by (fastforce simp: session_ok_def traffic_decodable_def)
qed

text \<open>
  C9: a streaming peer hands over exactly the messages it receives. Whatever bytes arrive, in whatever chunks, and in whatever order the event
  loop, the stream and the program act, every call returns and no assertion fails, as long as the vectors of arrays can be resized to the
  lengths that the bytes received announce; a schema without arrays needs nothing of the kind. What has been handed over are messages of the
  schema, in order, whose packets are the beginning of the bytes received. When the peer is alive and no result waits, no complete packet is
  left behind. No error is ever handed over: the function given to \<open>sink\<close> for that purpose is not called.
\<close>

theorem peer_receives_exactly:
  assumes "posix_socket recv send received sent" and "cf = unix_setup recv send old_errno si so can_resize alloc"
    and "session_ok cf received sent N M s as" and "traffic_resizable cf received N M s as"
  shows "\<exists>p acc ms. peer_session cf N M s as = Some (p, acc) \<and> incoming_feeder p = map IsValue ms \<and> list_all (sendable si) ms
    \<and> prefix (packets ms) (received (io_state p))
    \<and> (\<not> sink_read p \<and> read_done (io_read p) = Some [] \<longrightarrow>
         (\<exists>rest. received (io_state p) = packets ms @ rest \<and> no_packet cf rest))"
proof -
  obtain p acc ms where p: "peer_session cf N M s as = Some (p, acc)" and ok: "peer_system.peer_ok cf received sent ms (p, acc)"
    and sys: "peer_system cf received sent" using unix_session [OF assms(1,3) traffic_resizable_decodable [OF assms(3,4)] assms(2)] .
  from peer_system.peer_ok_received [OF sys ok] p assms(2) show ?thesis by auto
qed

text \<open>
  C10: a streaming peer sends exactly the messages it has accepted, provided that decoding returns on what it receives meanwhile (the
  condition \<open>traffic_decodable\<close>: an exception of the decoder would end the program). The bytes sent are always a beginning of the packets of the messages that
  \<open>send\<close> has accepted, in order, and all of them once no write is under way and none has failed. In every state that can be reached,
  \<open>send\<close> accepts a message if its packet fits into the buffer and otherwise returns the recoverable error and changes nothing.
\<close>

theorem peer_sends_exactly:
  assumes "posix_socket recv send received sent" and "cf = unix_setup recv send old_errno si so can_resize alloc"
    and "session_ok cf received sent N M s as" and "traffic_decodable cf received N M s as"
  shows "\<exists>p acc. peer_session cf N M s as = Some (p, acc) \<and> prefix (sent (io_state p)) (packets acc)
    \<and> (\<not> sink_write p \<and> write_task (io_write p) = None \<and> write_done (io_write p) = Some [] \<longrightarrow> sent (io_state p) = packets acc)
    \<and> (\<forall>m. msg_ok so m \<and> length (packet m) \<le> PTRDIFF_MAX \<longrightarrow>
         (if length (packet m) \<le> length (ring_wr (out_buffer p)) then \<exists>p'. StreamingIoPeer_send cf m p = Some (noError, p')
          else StreamingIoPeer_send cf m p = Some (recoverableError ''Buffer too small'', p)))"
proof -
  obtain p acc ms where p: "peer_session cf N M s as = Some (p, acc)" and ok: "peer_system.peer_ok cf received sent ms (p, acc)"
    and sys: "peer_system cf received sent" using unix_session [OF assms(1,3,4,2)] .
  have "sending (sent (io_state p)) p acc" using ok by (simp add: peer_system.peer_ok_def [OF sys])
  note send = peer_system.send_correct [OF sys this]
  have "if length (packet m) \<le> length (ring_wr (out_buffer p)) then \<exists>p'. StreamingIoPeer_send cf m p = Some (noError, p')
      else StreamingIoPeer_send cf m p = Some (recoverableError ''Buffer too small'', p)"
    if "msg_ok so m" "length (packet m) \<le> PTRDIFF_MAX" for m
    using send [of m] that assms(2) by (auto simp: too_small_def)
  with peer_system.peer_ok_sent [OF sys ok] p show ?thesis by (intro exI [of _ p] exI [of _ acc]) auto
qed

text \<open>
  C4: two streaming peers exchange messages. The first one has accepted the messages \<open>acc\<close>, within the limits of the codec, and the network
  delivers what it has sent, in order and possibly not yet everything. Then the second peer hands over a beginning of \<open>acc\<close>, the same
  messages in the same order; and when it is alive and at rest, every message of \<open>acc\<close> whose packet has arrived completely.
\<close>

theorem peers_exchange_messages:
  fixes s1 :: 'a and s2 :: 'b
  assumes sockets: "posix_socket recv1 send1 received1 sent1" "posix_socket recv2 send2 received2 sent2"
    and peers: "cf1 = unix_setup recv1 send1 e1 back msgs cr1 alloc1" "cf2 = unix_setup recv2 send2 e2 msgs back cr2 alloc2"
    and sender: "session_ok cf1 received1 sent1 N1 M1 s1 as1" "traffic_decodable cf1 received1 N1 M1 s1 as1"
      "peer_session cf1 N1 M1 s1 as1 = Some (p1, acc)"
    and limits: "list_all (sendable msgs) acc" "list_all (msg_fits cr2 msgs) acc"
    and receiver: "session_ok cf2 received2 sent2 N2 M2 s2 as2"
    and network: "\<forall>as p acc2. prefix as as2 \<and> peer_session cf2 N2 M2 s2 as = Some (p, acc2) \<longrightarrow>
      prefix (received2 (io_state p)) (sent1 (io_state p1))"
  shows "\<exists>p2 acc2 ms. peer_session cf2 N2 M2 s2 as2 = Some (p2, acc2) \<and> incoming_feeder p2 = map IsValue ms \<and> prefix ms acc
    \<and> (\<not> sink_read p2 \<and> read_done (io_read p2) = Some [] \<longrightarrow>
         (\<forall>k \<le> length acc. length (packets (take k acc)) \<le> length (received2 (io_state p2)) \<longrightarrow> k \<le> length ms))"
proof -
  obtain p acc' ms' where "peer_session cf1 N1 M1 s1 as1 = Some (p, acc')" "peer_system.peer_ok cf1 received1 sent1 ms' (p, acc')"
    "peer_system cf1 received1 sent1" using unix_session [OF sockets(1) sender(1,2) peers(1)] .
  then have sent: "prefix (sent1 (io_state p1)) (packets acc)" using sender(3) peer_system.peer_ok_sent(1) by fastforce
  have wf: "wf_schema (ps_incoming cf2)" "ps_incoming cf2 = msgs" "ps_resize cf2 = cr2" using receiver peers(2) by (simp_all add: session_ok_def)
  have arrives: "prefix (received2 (io_state p)) (packets acc)" if "prefix as as2" "peer_session cf2 N2 M2 s2 as = Some (p, acc2)" for as p acc2
    using network that sent by (meson prefix_order.trans)
  then have traffic: "traffic_decodable cf2 received2 N2 M2 s2 as2"
    using decodable_packets [OF wf(1)] limits wf(2,3) by (fastforce simp: traffic_decodable_def)
  obtain p2 acc2 ms where p2: "peer_session cf2 N2 M2 s2 as2 = Some (p2, acc2)" and ok: "peer_system.peer_ok cf2 received2 sent2 ms (p2, acc2)"
    and sys: "peer_system cf2 received2 sent2" using unix_session [OF sockets(2) receiver traffic peers(2)] .
  note got = peer_system.peer_ok_received [OF sys ok]
  have all: "prefix (received2 (io_state p2)) (packets acc)" using arrives [OF _ p2] by simp
  with got(3) have "prefix (packets ms @ []) (packets acc)" by simp
  from packets_prefix [OF wf(1) got(2) _ this] limits(1) wf(2) obtain ns where ns: "acc = ms @ ns" by auto
  have "k \<le> length ms" if "\<not> sink_read p2" "read_done (io_read p2) = Some []" "k \<le> length acc"
    "length (packets (take k acc)) \<le> length (received2 (io_state p2))" for k
  proof -
    from got(4) [OF that(1,2)] obtain rest where "received2 (io_state p2) = packets ms @ rest" "no_packet cf2 rest" by blast
    with all that(4) ns have 1: "prefix (packets ms @ rest) (packets (ms @ ns))" "no_packet cf2 rest"
      "length (packets (take k (ms @ ns))) \<le> length (packets ms @ rest)" by (simp_all only:)
    have 2: "list_all (sendable (ps_incoming cf2)) (ms @ ns)" "list_all (msg_fits (ps_resize cf2) (ps_incoming cf2)) (ms @ ns)"
      "k \<le> length (ms @ ns)" using limits that(3) wf(2,3) ns by simp_all
    show ?thesis by (rule complete_packets_handed_over [OF wf(1) 2(1,2) 1 2(3)])
  qed
  moreover have "prefix ms acc" using ns by simp
  ultimately show ?thesis using p2 got(1) by blast
qed

text \<open>
  C40: a burst that fills the buffer silences a peer for good. At any point of a session, when the bytes that have just been read fill the
  input buffer, the peer hands over nothing of what the buffer holds, even if these are complete messages, and nothing ever after: whatever
  the system, the event loop and the program do from then on, every call returns, the feeder gets neither a message nor an error, and the
  bytes stay in the buffer.
\<close>

theorem peer_full_buffer_stops:
  assumes "posix_socket recv send received sent" and "cf = unix_setup recv send old_errno si so can_resize alloc"
    and "session_ok cf received sent N M s (as @ ReadResult # later)" and "traffic_resizable cf received N M s as"
    and "peer_session cf N M s as = Some (p, acc)"
    and "read_done (io_read p) = Some (IsValue (length (ring_wr (in_buffer p))) # results)"
  shows "\<exists>p' acc'. peer_session cf N M s (as @ ReadResult # later) = Some (p', acc')
    \<and> incoming_feeder p' = incoming_feeder p \<and> ring_rd (in_buffer p') = ring_rd (in_buffer p) @ ring_wr (in_buffer p)"
proof -
  have ok: "session_ok cf received sent N M s as" and later: "list_all (action_ok cf received sent) later"
    and wf: "wf_schema (ps_incoming cf)" using assms(3) by (simp_all add: session_ok_def)
  note traffic = traffic_resizable_decodable [OF ok assms(4)]
  obtain ms where inv: "peer_system.peer_ok cf received sent ms (p, acc)" and sys: "peer_system cf received sent"
    using unix_session [OF assms(1) ok traffic assms(2)] assms(5) by fastforce
  from peer_system.full_buffer_silences [OF sys inv assms(6)] obtain p1 where
    p1: "peer_read_result cf p = Some p1" "peer_system.silenced p1" "incoming_feeder p1 = incoming_feeder p"
      "ring_rd (in_buffer p1) = ring_rd (in_buffer p) @ ring_wr (in_buffer p)" by blast
  have "decodable cf (received (io_state p))" using traffic assms(5) by (auto simp: traffic_decodable_def)
  with peer_system.step_correct [OF sys inv wf, of ReadResult] p1(1) obtain more where
    inv1: "peer_system.peer_ok cf received sent (ms @ more) (p1, acc)" by auto
  from peer_system.silenced_run [OF sys p1(2) inv1 wf later] p1 assms(5) show ?thesis
    by (auto simp: peer_session_def peer_run_append bind_eq_Some_conv)
qed

section \<open>A conversation\<close>

text \<open>A code equation on integers, whose numerals are binary, and those of the loops.\<close>

lemma sz_add_code [code]: "sz_add x y = nat ((int x + int y) mod 18446744073709551616)"
  by (simp add: sz_add_def SIZE_MOD_def nat_mod_distrib nat_add_distrib)

lemma sz_sub_code [code]: "sz_sub x y = nat ((int x - int y) mod 18446744073709551616)"
proof -
  have "int (sz_sub x y) = (int x + (int SIZE_MOD - int y mod int SIZE_MOD)) mod int SIZE_MOD"
    using mod_less_divisor [OF SIZE_MOD_pos, of y] by (simp only: sz_sub_def of_nat_mod of_nat_add of_nat_diff less_imp_le)
  also have "\<dots> = (int x - int y) mod int SIZE_MOD"
    by (metis mod_add_self2 mod_diff_right_eq add_diff_eq diff_add_eq)
  finally show ?thesis by (simp add: SIZE_MOD_def)
qed

declare push_loop.simps [code] pop_loop.simps [code] readStep.simps [code] writeStep.simps [code] peer_decode_loop.simps [code]

definition hello :: message where
  "hello = MPrimitive (V16 513)"

definition hello_bytes :: "byte list" where
  "hello_bytes = [2, 0, 0, 0, 0, 0, 0, 0, 1, 2]"

definition hello_setup :: "socket peer_setup" where
  "hello_setup = unix_setup socket_recv socket_send EAGAIN (Primitive UnsignedInteger 2) (Primitive UnsignedInteger 2) (\<lambda>s n. True) True"

definition hello_socket :: "byte list list \<Rightarrow> nat list \<Rightarrow> socket" where
  "hello_socket chunks rooms = \<lparr>sk_in = chunks, sk_received = [], sk_room = rooms, sk_sent = []\<rparr>"

definition hello_actions :: "socket peer_action list" where
  "hello_actions = [Send hello, ReadResult, WriteReady id, ReadResult, WriteResult]"

lemma hello_packet: "packet hello = hello_bytes"
  by (simp add: hello_def hello_bytes_def packet_def) code_simp

lemma hello_ok: "sendable (Primitive UnsignedInteger 2) hello" "msg_fits cr (Primitive UnsignedInteger 2) hello" "length (packet hello) \<le> PTRDIFF_MAX"
  by (simp_all add: hello_def sendable_def Limits_default_def PTRDIFF_MAX_def)

lemma hello_session:
  "case peer_session hello_setup 16 16 (hello_socket [[2, 0, 0, 0], [0, 0, 0, 0, 1, 2]] [4, 20]) hello_actions of
     None \<Rightarrow> False | Some (p, acc) \<Rightarrow> incoming_feeder p = [IsValue hello] \<and> acc = [hello] \<and> sk_sent (io_state p) = hello_bytes
       \<and> \<not> sink_read p \<and> read_done (io_read p) = Some []"
  by code_simp

lemma hello_receiver:
  "list_all (\<lambda>as. case peer_session hello_setup 16 16 (hello_socket [[2, 0, 0, 0], [0, 0, 0, 0, 1, 2]] []) as of
       None \<Rightarrow> False | Some (p, acc) \<Rightarrow> prefix (sk_received (io_state p)) hello_bytes) (prefixes [ReadResult, ReadResult])
   \<and> (case peer_session hello_setup 16 16 (hello_socket [[2, 0, 0, 0], [0, 0, 0, 0, 1, 2]] []) [ReadResult, ReadResult] of
       None \<Rightarrow> False | Some (p, acc) \<Rightarrow> \<not> sink_read p \<and> read_done (io_read p) = Some [] \<and> sk_received (io_state p) = hello_bytes)"
  by code_simp

lemma hello_sender:
  "case peer_session hello_setup 16 16 (hello_socket [] [4, 20]) [Send hello, WriteReady id] of
     None \<Rightarrow> False | Some (p, acc) \<Rightarrow> acc = [hello] \<and> sk_sent (io_state p) = hello_bytes"
  by code_simp

lemma hello_burst:
  "case peer_session hello_setup 10 10 (hello_socket [hello_bytes, hello_bytes] []) [] of
     None \<Rightarrow> False | Some (p, acc) \<Rightarrow> incoming_feeder p = [] \<and> read_done (io_read p) = Some [IsValue 10]
       \<and> in_buffer p = \<lparr>rb_buffer = hello_bytes, rb_read_position = 0, rb_write_position = 0, rb_write_reached_read = False\<rparr>"
  by code_simp

lemma hello_socket_ok: "posix_socket socket_recv socket_send sk_received sk_sent"
  by (rule sock.posix_socket_axioms)

lemma hello_session_ok:
  assumes "list_all (action_ok hello_setup sk_received sk_sent) as"
  shows "session_ok hello_setup sk_received sk_sent 16 16 (hello_socket chunks rooms) as"
    "traffic_decodable hello_setup sk_received 16 16 (hello_socket chunks rooms) as"
    "traffic_resizable hello_setup sk_received 16 16 (hello_socket chunks rooms) as"
proof -
  show ok: "session_ok hello_setup sk_received sk_sent 16 16 (hello_socket chunks rooms) as"
    using assms by (simp add: session_ok_def hello_setup_def hello_socket_def PTRDIFF_MAX_def)
  show res: "traffic_resizable hello_setup sk_received 16 16 (hello_socket chunks rooms) as"
    using announcements_array_free [of hello_setup] by (simp add: traffic_resizable_def hello_setup_def)
  show "traffic_decodable hello_setup sk_received 16 16 (hello_socket chunks rooms) as"
    by (rule traffic_resizable_decodable [OF ok res])
qed

lemma hello_actions_ok: "action_ok hello_setup sk_received sk_sent (Send hello)" "list_all (action_ok hello_setup sk_received sk_sent) hello_actions"
  using hello_ok by (simp_all add: hello_actions_def hello_setup_def sendable_def)

theorem peer_receives_exactly_witness:
  "\<exists>p acc ms rest. peer_session hello_setup 16 16 (hello_socket [[2, 0, 0, 0], [0, 0, 0, 0, 1, 2]] [4, 20]) hello_actions = Some (p, acc)
     \<and> incoming_feeder p = map IsValue ms \<and> sk_received (io_state p) = packets ms @ rest \<and> no_packet hello_setup rest"
proof -
  let ?s = "hello_socket [[2, 0, 0, 0], [0, 0, 0, 0, 1, 2]] [4, 20]"
  from hello_session obtain p acc where p: "peer_session hello_setup 16 16 ?s hello_actions = Some (p, acc)"
    "\<not> sink_read p" "read_done (io_read p) = Some []" by (auto split: option.splits)
  from peer_receives_exactly [OF hello_socket_ok hello_setup_def hello_session_ok(1,3) [OF hello_actions_ok(2)], of "[[2, 0, 0, 0], [0, 0, 0, 0, 1, 2]]" "[4, 20]"]
    p(1) obtain ms where "incoming_feeder p = map IsValue ms"
      "\<not> sink_read p \<and> read_done (io_read p) = Some [] \<longrightarrow> (\<exists>rest. sk_received (io_state p) = packets ms @ rest \<and> no_packet hello_setup rest)"
    by auto
  with p show ?thesis by blast
qed

theorem peer_sends_exactly_witness:
  "\<exists>p acc. peer_session hello_setup 16 16 (hello_socket [[2, 0, 0, 0], [0, 0, 0, 0, 1, 2]] [4, 20]) hello_actions = Some (p, acc)
     \<and> prefix (sk_sent (io_state p)) (packets acc)"
  using peer_sends_exactly [OF hello_socket_ok hello_setup_def hello_session_ok(1,2) [OF hello_actions_ok(2)]] by blast

theorem peers_exchange_messages_witness:
  "\<exists>p2 acc2. peer_session hello_setup 16 16 (hello_socket [[2, 0, 0, 0], [0, 0, 0, 0, 1, 2]] []) [ReadResult, ReadResult] = Some (p2, acc2)
     \<and> incoming_feeder p2 = [IsValue hello]"
proof -
  let ?s2 = "hello_socket [[2, 0, 0, 0], [0, 0, 0, 0, 1, 2]] []"
  from hello_sender obtain p1 where p1: "peer_session hello_setup 16 16 (hello_socket [] [4, 20]) [Send hello, WriteReady id] = Some (p1, [hello])"
    "sk_sent (io_state p1) = hello_bytes" by (auto split: option.splits)
  have acts: "list_all (action_ok hello_setup sk_received sk_sent) [Send hello, WriteReady id]"
    "list_all (action_ok hello_setup sk_received sk_sent) [ReadResult, ReadResult]" using hello_actions_ok(1) by simp_all
  have net: "\<forall>as p acc2. prefix as [ReadResult, ReadResult] \<and> peer_session hello_setup 16 16 ?s2 as = Some (p, acc2) \<longrightarrow>
      prefix (sk_received (io_state p)) (sk_sent (io_state p1))"
  proof (intro allI impI, elim conjE)
    fix as p acc2 assume "prefix as [ReadResult, ReadResult]" "peer_session hello_setup 16 16 ?s2 as = Some (p, acc2)"
    with conjunct1 [OF hello_receiver] show "prefix (sk_received (io_state p)) (sk_sent (io_state p1))"
      unfolding p1(2) list_all_iff in_set_prefixes [symmetric] by fastforce
  qed
  have lim: "list_all (sendable (Primitive UnsignedInteger 2)) [hello]" "list_all (msg_fits (\<lambda>s n. True) (Primitive UnsignedInteger 2)) [hello]"
    using hello_ok by simp_all
  from peers_exchange_messages [OF hello_socket_ok hello_socket_ok hello_setup_def hello_setup_def hello_session_ok(1,2) [OF acts(1)] p1(1) lim
      hello_session_ok(1) [OF acts(2)] net] obtain p2 acc2 ms where
    2: "peer_session hello_setup 16 16 ?s2 [ReadResult, ReadResult] = Some (p2, acc2)" "incoming_feeder p2 = map IsValue ms" "prefix ms [hello]"
      "\<not> sink_read p2 \<and> read_done (io_read p2) = Some [] \<longrightarrow>
         (\<forall>k \<le> length [hello]. length (packets (take k [hello])) \<le> length (sk_received (io_state p2)) \<longrightarrow> k \<le> length ms)" by blast
  from conjunct2 [OF hello_receiver] 2(1) have "\<not> sink_read p2" "read_done (io_read p2) = Some []" "sk_received (io_state p2) = hello_bytes"
    by (simp_all split: option.splits prod.splits)
  with 2(4) have "1 \<le> length ms" using hello_packet by (auto dest: spec [of _ 1])
  with 2(3) have "ms = [hello]" by (auto simp: prefix_Cons)
  with 2(1,2) show ?thesis by simp
qed

text \<open>A message of ten bytes arrives in a buffer of ten bytes; later another one could be read.\<close>

theorem peer_full_buffer_stops_witness:
  "\<exists>p acc. peer_session hello_setup 10 10 (hello_socket [packet hello, packet hello] [])
       [ReadResult, ReadReady id, ReadResult, SinkReadFires, ReadReady id, ReadResult] = Some (p, acc)
     \<and> incoming_feeder p = [] \<and> ring_rd (in_buffer p) = packet hello"
proof -
  let ?s = "hello_socket [packet hello, packet hello] []" and ?later = "[ReadReady id, ReadResult, SinkReadFires, ReadReady id, ReadResult]"
  from hello_burst obtain p acc where p: "peer_session hello_setup 10 10 ?s [] = Some (p, acc)" "incoming_feeder p = []"
      "read_done (io_read p) = Some [IsValue 10]"
      "in_buffer p = \<lparr>rb_buffer = hello_bytes, rb_read_position = 0, rb_write_position = 0, rb_write_reached_read = False\<rparr>"
    unfolding hello_packet by (auto simp: peer_session_def split: option.splits bind_splits)
  have r: "ring_rd (in_buffer p) = []" "ring_wr (in_buffer p) = hello_bytes" "length hello_bytes = 10"
    unfolding p(4) by (simp_all add: ring_size_def ring_rd_def ring_wr_def ring_fill_def hello_bytes_def)
  have "session_ok hello_setup sk_received sk_sent 10 10 ?s ([] @ ReadResult # ?later)"
    by (simp add: session_ok_def hello_setup_def hello_socket_def PTRDIFF_MAX_def)
  moreover have "traffic_resizable hello_setup sk_received 10 10 ?s []"
    using announcements_array_free [of hello_setup] by (simp add: traffic_resizable_def hello_setup_def)
  moreover have "read_done (io_read p) = Some (IsValue (length (ring_wr (in_buffer p))) # [])" using p(3) r(2,3) by simp
  ultimately show ?thesis
    using peer_full_buffer_stops [OF hello_socket_ok hello_setup_def _ _ p(1), of ?later "[]"] p(2) r(1,2) hello_packet by auto
qed

end
