(* ===== verification/Event_Loop.thy ===== *)
theory Event_Loop
  imports Errors
begin

text \<open>
  The event queue of \<open>source/forstio/async.h\<close> and \<open>async.cpp\<close>: classes \<open>Event\<close> and \<open>EventLoop\<close>. The
  queue is an intrusive doubly linked list. An \<open>Event **\<close> is the address of the loop's \<open>head\<close> or of
  the \<open>next\<close> member of an event: the datatype \<open>slot\<close>. The members \<open>prev\<close> and \<open>next\<close> of all events are
  an explicit store, so that the model writes through the same pointers as the code. Accessing a
  member of an event that has been destroyed is undefined behaviour: \<open>None\<close>.

  The abstract queue is three lists, \<open>sched\<close>: the events armed by \<open>armNext\<close> since the last turn,
  the events queued for later behind them, and the events queued last.
\<close>

section \<open>State\<close>

type_synonym event = nat

datatype slot = HeadSlot | NextSlot event

record event_loop =
  head :: "event option"
  tail :: slot
  next_insert_point :: slot
  later_insert_point :: slot
  is_runnable :: bool
  ev_prev :: "event \<Rightarrow> slot option"
  ev_next :: "event \<Rightarrow> event option"
  ev_alive :: "event \<Rightarrow> bool"
  entered :: bool

text \<open>\<open>entered\<close> is \<open>local_loop == this\<close>: the loop is the current one of its thread.\<close>

definition EventLoop_new :: event_loop where
  "EventLoop_new =
     \<lparr>head = None, tail = HeadSlot, next_insert_point = HeadSlot, later_insert_point = HeadSlot,
      is_runnable = False, ev_prev = (\<lambda>e. None), ev_next = (\<lambda>e. None), ev_alive = (\<lambda>e. False),
      entered = False\<rparr>"

section \<open>Pointers\<close>

definition slot_content :: "event_loop \<Rightarrow> slot \<Rightarrow> event option" where
  "slot_content l s = (case s of HeadSlot \<Rightarrow> head l | NextSlot e \<Rightarrow> ev_next l e)"

definition slot_valid :: "event_loop \<Rightarrow> slot \<Rightarrow> bool" where
  "slot_valid l s = (case s of HeadSlot \<Rightarrow> True | NextSlot e \<Rightarrow> ev_alive l e)"

definition read_slot :: "event_loop \<Rightarrow> slot \<Rightarrow> event option option" where
  "read_slot l s = (if slot_valid l s then Some (slot_content l s) else None)"

definition write_slot :: "slot \<Rightarrow> event option \<Rightarrow> event_loop \<Rightarrow> event_loop option" where
  "write_slot s v l =
     (if slot_valid l s
      then Some (case s of HeadSlot \<Rightarrow> l\<lparr>head := v\<rparr> | NextSlot e \<Rightarrow> l\<lparr>ev_next := (ev_next l)(e := v)\<rparr>)
      else None)"

definition write_prev :: "event \<Rightarrow> slot option \<Rightarrow> event_loop \<Rightarrow> event_loop option" where
  "write_prev e p l = (if ev_alive l e then Some (l\<lparr>ev_prev := (ev_prev l)(e := p)\<rparr>) else None)"

section \<open>Events\<close>

definition setRunnable :: "bool \<Rightarrow> event_loop \<Rightarrow> event_loop" where
  "setRunnable runnable l = l\<lparr>is_runnable := runnable\<rparr>"

text \<open>
  The part the three arming functions share: \<open>next = *p; prev = p; *prev = this\<close> and the back
  pointer of the next event.
\<close>

definition link_event :: "event \<Rightarrow> slot \<Rightarrow> event_loop \<Rightarrow> event_loop option" where
  "link_event this p l = do {
     n \<leftarrow> read_slot l p;
     l \<leftarrow> write_slot (NextSlot this) n l;
     l \<leftarrow> write_prev this (Some p) l;
     l \<leftarrow> write_slot p (Some this) l;
     case n of None \<Rightarrow> Some l | Some x \<Rightarrow> write_prev x (Some (NextSlot this)) l
   }"

definition armNext :: "event \<Rightarrow> event_loop \<Rightarrow> event_loop option" where
  "armNext this l = do {
     assert_that (entered l);
     if ev_prev l this = None then do {
       let p = next_insert_point l;
       l \<leftarrow> link_event this p l;
       let l = l\<lparr>next_insert_point := NextSlot this\<rparr>;
       let l = (if later_insert_point l = p then l\<lparr>later_insert_point := NextSlot this\<rparr> else l);
       let l = (if tail l = p then l\<lparr>tail := NextSlot this\<rparr> else l);
       Some (setRunnable True l)
     } else Some l
   }"

definition armLater :: "event \<Rightarrow> event_loop \<Rightarrow> event_loop option" where
  "armLater this l = do {
     assert_that (entered l);
     if ev_prev l this = None then do {
       let p = later_insert_point l;
       l \<leftarrow> link_event this p l;
       let l = l\<lparr>later_insert_point := NextSlot this\<rparr>;
       let l = (if tail l = p then l\<lparr>tail := NextSlot this\<rparr> else l);
       Some (setRunnable True l)
     } else Some l
   }"

definition armLast :: "event \<Rightarrow> event_loop \<Rightarrow> event_loop option" where
  "armLast this l = do {
     assert_that (entered l);
     if ev_prev l this = None then do {
       let p = later_insert_point l;
       l \<leftarrow> link_event this p l;
       let l = (if tail l = p then l\<lparr>tail := NextSlot this\<rparr> else l);
       Some (setRunnable True l)
     } else Some l
   }"

definition disarm :: "event \<Rightarrow> event_loop \<Rightarrow> event_loop option" where
  "disarm this l =
     (case ev_prev l this of
        None \<Rightarrow> Some l
      | Some p \<Rightarrow> do {
          let n = ev_next l this;
          let l = (if tail l = NextSlot this then l\<lparr>tail := p\<rparr> else l);
          let l = (if next_insert_point l = NextSlot this then l\<lparr>next_insert_point := p\<rparr> else l);
          l \<leftarrow> write_slot p n l;
          l \<leftarrow> (case n of None \<Rightarrow> Some l | Some x \<Rightarrow> write_prev x (Some p) l);
          Some (l\<lparr>ev_prev := (ev_prev l)(this := None), ev_next := (ev_next l)(this := None)\<rparr>)
        })"

definition isArmed :: "event \<Rightarrow> event_loop \<Rightarrow> bool" where
  "isArmed this l \<longleftrightarrow> ev_prev l this \<noteq> None"

text \<open>Construction and destruction of an event object; the destructor disarms it.\<close>

definition Event_new :: "event \<Rightarrow> event_loop \<Rightarrow> event_loop" where
  "Event_new this l = l\<lparr>ev_alive := (ev_alive l)(this := True),
     ev_prev := (ev_prev l)(this := None), ev_next := (ev_next l)(this := None)\<rparr>"

definition Event_delete :: "event \<Rightarrow> event_loop \<Rightarrow> event_loop option" where
  "Event_delete this l = do {
     l \<leftarrow> disarm this l;
     Some (l\<lparr>ev_alive := (ev_alive l)(this := False)\<rparr>)
   }"

section \<open>The loop\<close>

definition enterScope :: "event_loop \<Rightarrow> event_loop option" where
  "enterScope l = do { assert_that (\<not> entered l); Some (l\<lparr>entered := True\<rparr>) }"

definition leaveScope :: "event_loop \<Rightarrow> event_loop option" where
  "leaveScope l = do { assert_that (entered l); Some (l\<lparr>entered := False\<rparr>) }"

text \<open>The part of \<open>turn\<close> before \<open>fire\<close>: it unlinks the first event.\<close>

definition take_head :: "event \<Rightarrow> event_loop \<Rightarrow> event_loop option" where
  "take_head event l = do {
     h \<leftarrow> read_slot l (NextSlot event);
     let l = l\<lparr>head := h\<rparr>;
     l \<leftarrow> (case h of None \<Rightarrow> Some l | Some x \<Rightarrow> write_prev x (Some HeadSlot) l);
     let l = l\<lparr>next_insert_point := HeadSlot\<rparr>;
     let l = (if later_insert_point l = NextSlot event then l\<lparr>later_insert_point := HeadSlot\<rparr> else l);
     let l = (if tail l = NextSlot event then l\<lparr>tail := HeadSlot\<rparr> else l);
     let l = l\<lparr>ev_next := (ev_next l)(event := None)\<rparr>;
     let l = l\<lparr>ev_prev := (ev_prev l)(event := None)\<rparr>;
     Some (l\<lparr>next_insert_point := HeadSlot\<rparr>)
   }"

text \<open>
  \<open>fire\<close> is the virtual function of the event; it acts on the loop and on the rest \<open>'s\<close> of the
  program's state.
\<close>

type_synonym 's fire = "event \<Rightarrow> event_loop \<times> 's \<Rightarrow> (event_loop \<times> 's) option"

definition turn :: "'s fire \<Rightarrow> event_loop \<times> 's \<Rightarrow> (bool \<times> event_loop \<times> 's) option" where
  "turn fire st =
     (case head (fst st) of
        None \<Rightarrow> Some (False, st)
      | Some event \<Rightarrow> do {
          l \<leftarrow> take_head event (fst st);
          st \<leftarrow> fire event (l, snd st);
          Some (True, st)
        })"

text \<open>The loop of \<open>turnLoop\<close>; the argument is the number of steps \<open>turn_step\<close> is still below its limit.\<close>

fun turnLoop_from :: "nat \<Rightarrow> 's fire \<Rightarrow> event_loop \<times> 's \<Rightarrow> (bool \<times> event_loop \<times> 's) option" where
  "turnLoop_from 0 fire st = Some (True, st)"
| "turnLoop_from (Suc k) fire st =
     (if head (fst st) \<noteq> None then do {
        (ok, st) \<leftarrow> turn fire st;
        if \<not> ok then Some (False, st) else turnLoop_from k fire st
      } else Some (True, st))"

definition turnLoop :: "'s fire \<Rightarrow> event_loop \<times> 's \<Rightarrow> (bool \<times> event_loop \<times> 's) option" where
  "turnLoop fire st = turnLoop_from 65536 fire st"

text \<open>
  \<open>poll\<close> and the three \<open>wait\<close> functions differ in the call on the event port, which belongs to the
  driver: \<open>port\<close> is what that call does to the program, the identity without an event port.
\<close>

definition EventLoop_poll ::
    "(event_loop \<times> 's \<Rightarrow> (event_loop \<times> 's) option) \<Rightarrow> 's fire \<Rightarrow> event_loop \<times> 's \<Rightarrow> (bool \<times> event_loop \<times> 's) option" where
  "EventLoop_poll port fire st = do {
     st \<leftarrow> port st;
     turnLoop fire st
   }"

section \<open>The abstract queue\<close>

record sched =
  nexts :: "event list"
  laters :: "event list"
  lasts :: "event list"

definition sched_queue :: "sched \<Rightarrow> event list" where
  "sched_queue q = nexts q @ laters q @ lasts q"

definition sched_empty :: sched where
  "sched_empty = \<lparr>nexts = [], laters = [], lasts = []\<rparr>"

definition sched_next :: "event \<Rightarrow> sched \<Rightarrow> sched" where
  "sched_next e q = (if e \<in> set (sched_queue q) then q else q\<lparr>nexts := nexts q @ [e]\<rparr>)"

definition sched_later :: "event \<Rightarrow> sched \<Rightarrow> sched" where
  "sched_later e q = (if e \<in> set (sched_queue q) then q else q\<lparr>laters := laters q @ [e]\<rparr>)"

definition sched_last :: "event \<Rightarrow> sched \<Rightarrow> sched" where
  "sched_last e q = (if e \<in> set (sched_queue q) then q else q\<lparr>lasts := e # lasts q\<rparr>)"

definition sched_remove :: "event \<Rightarrow> sched \<Rightarrow> sched" where
  "sched_remove e q = \<lparr>nexts = removeAll e (nexts q), laters = removeAll e (laters q), lasts = removeAll e (lasts q)\<rparr>"

text \<open>Taking the first event: the events armed next become the first ones queued for later.\<close>

definition sched_take :: "sched \<Rightarrow> sched" where
  "sched_take q =
     (if nexts q @ laters q = [] then \<lparr>nexts = [], laters = [], lasts = tl (lasts q)\<rparr>
      else \<lparr>nexts = [], laters = tl (nexts q @ laters q), lasts = lasts q\<rparr>)"

section \<open>The linked list\<close>

text \<open>The slot behind a list of events that starts at slot \<open>s\<close>.\<close>

definition slot_after :: "slot \<Rightarrow> event list \<Rightarrow> slot" where
  "slot_after s xs = (if xs = [] then s else NextSlot (last xs))"

text \<open>The events \<open>xs\<close> are linked one after the other, the first one from slot \<open>s\<close>.\<close>

fun linked :: "event_loop \<Rightarrow> slot \<Rightarrow> event list \<Rightarrow> bool" where
  "linked l s [] \<longleftrightarrow> True"
| "linked l s (x # xs) \<longleftrightarrow> slot_content l s = Some x \<and> ev_prev l x = Some s \<and> ev_alive l x \<and> linked l (NextSlot x) xs"

definition loop_rel :: "event_loop \<Rightarrow> sched \<Rightarrow> bool" where
  "loop_rel l q \<longleftrightarrow>
     linked l HeadSlot (sched_queue q) \<and> distinct (sched_queue q)
     \<and> tail l = slot_after HeadSlot (sched_queue q) \<and> slot_content l (tail l) = None
     \<and> next_insert_point l = slot_after HeadSlot (nexts q)
     \<and> later_insert_point l = slot_after HeadSlot (nexts q @ laters q)
     \<and> (\<forall>e. e \<notin> set (sched_queue q) \<longrightarrow> ev_prev l e = None \<and> ev_next l e = None)"

lemma slot_after_simps [simp]:
  "slot_after s [] = s" "slot_after s (xs @ [x]) = NextSlot x" "slot_after s (x # xs) = slot_after (NextSlot x) xs"
  by (simp_all add: slot_after_def)

lemma slot_after_append: "slot_after s (xs @ ys) = slot_after (slot_after s xs) ys"
  by (simp add: slot_after_def)

lemma linked_append: "linked l s (xs @ ys) \<longleftrightarrow> linked l s xs \<and> linked l (slot_after s xs) ys"
  by (induction xs arbitrary: s) auto

lemma slot_content_NextSlot [simp]: "slot_content l (NextSlot e) = ev_next l e"
  by (simp add: slot_content_def)

lemma slot_content_HeadSlot [simp]: "slot_content l HeadSlot = head l"
  by (simp add: slot_content_def)

lemma slot_valid_HeadSlot [simp]: "slot_valid l HeadSlot"
  by (simp add: slot_valid_def)

lemma slot_valid_NextSlot [simp]: "slot_valid l (NextSlot e) \<longleftrightarrow> ev_alive l e"
  by (simp add: slot_valid_def)

text \<open>A list does not depend on slots and events outside it.\<close>

lemma linked_cong:
  assumes "linked l s xs" and "xs \<noteq> [] \<Longrightarrow> slot_content l' s = slot_content l s"
    and "\<And>x. x \<in> set (butlast xs) \<Longrightarrow> ev_next l' x = ev_next l x"
    and "\<And>x. x \<in> set xs \<Longrightarrow> ev_prev l' x = ev_prev l x \<and> ev_alive l' x = ev_alive l x"
  shows "linked l' s xs"
  using assms
proof (induction xs arbitrary: s)
  case Nil
  then show ?case by simp
next
  case (Cons x xs)
  have "linked l' (NextSlot x) xs"
    using Cons.prems by (cases "xs = []") (simp, intro Cons.IH, auto)
  with Cons.prems show ?case by simp
qed


lemma linked_alive: "linked l s xs \<Longrightarrow> x \<in> set xs \<Longrightarrow> ev_alive l x"
  by (induction xs arbitrary: s) auto

lemma linked_prev: "linked l s (ys @ x # zs) \<Longrightarrow> ev_prev l x = Some (slot_after s ys)"
  by (simp add: linked_append)

lemma slot_valid_after: "linked l HeadSlot ys \<Longrightarrow> slot_valid l (slot_after HeadSlot ys)"
  by (cases ys rule: rev_cases) (auto simp: linked_append)

text \<open>\<open>l'\<close> differs from \<open>l\<close> in the links of the events of \<open>E\<close> and in \<open>head\<close> only.\<close>

definition relinked :: "event set \<Rightarrow> event_loop \<Rightarrow> event_loop \<Rightarrow> bool" where
  "relinked E l l' \<longleftrightarrow>
     tail l' = tail l \<and> next_insert_point l' = next_insert_point l
     \<and> later_insert_point l' = later_insert_point l \<and> ev_alive l' = ev_alive l \<and> entered l' = entered l
     \<and> (\<forall>x. x \<notin> E \<longrightarrow> ev_prev l' x = ev_prev l x \<and> ev_next l' x = ev_next l x)"

lemma link_event_insert:
  assumes linked: "linked l HeadSlot (ys @ zs)" and dist: "distinct (ys @ zs)" and new: "e \<notin> set (ys @ zs)"
    and alive: "ev_alive l e" and last: "slot_content l (slot_after HeadSlot (ys @ zs)) = None"
  shows "\<exists>l'. link_event e (slot_after HeadSlot ys) l = Some l' \<and> linked l' HeadSlot (ys @ e # zs)
     \<and> slot_content l' (slot_after HeadSlot (ys @ e # zs)) = None \<and> relinked (set (ys @ e # zs)) l l'"
proof -
  let ?p = "slot_after HeadSlot ys"
  let ?n = "slot_content l ?p"
  have n: "?n = (case zs of [] \<Rightarrow> None | z # _ \<Rightarrow> Some z)"
    using linked last by (cases zs) (auto simp: linked_append)
  have valid: "slot_valid l ?p" using linked by (simp add: linked_append slot_valid_after)
  have pe: "?p \<noteq> NextSlot e" using new by (auto simp: slot_after_def)
  have pz: "?p \<noteq> NextSlot z" if "z \<in> set zs" for z
    using dist that by (cases ys rule: rev_cases) auto
  have zalive: "\<And>z. z \<in> set zs \<Longrightarrow> ev_alive l z"
    using linked_alive [OF linked] by simp
  define prevs where "prevs = (case zs of [] \<Rightarrow> (ev_prev l)(e := Some ?p)
    | z # _ \<Rightarrow> (ev_prev l)(e := Some ?p, z := Some (NextSlot e)))"
  define l' where "l' = (case ?p of
      HeadSlot \<Rightarrow> l\<lparr>head := Some e, ev_next := (ev_next l)(e := ?n), ev_prev := prevs\<rparr>
    | NextSlot x \<Rightarrow> l\<lparr>ev_next := (ev_next l)(e := ?n, x := Some e), ev_prev := prevs\<rparr>)"
  have run: "link_event e ?p l = Some l'"
    using valid alive zalive pe n
    by (cases zs; cases ?p)
       (auto simp: link_event_def read_slot_def write_slot_def write_prev_def l'_def prevs_def)
  have prev: "ev_prev l' = prevs" and alive': "ev_alive l' = ev_alive l"
    by (simp_all add: l'_def split: slot.split)
  have content: "slot_content l' ?p = Some e" "ev_next l' e = ?n"
    using pe by (auto simp: l'_def slot_content_def split: slot.splits)
  have frame: "\<And>x. x \<noteq> e \<Longrightarrow> ?p \<noteq> NextSlot x \<Longrightarrow> ev_next l' x = ev_next l x"
    by (auto simp: l'_def split: slot.splits)
  have ys: "linked l' HeadSlot ys"
  proof (rule linked_cong [of l])
    show "linked l HeadSlot ys" using linked by (simp add: linked_append)
    show "slot_content l' HeadSlot = slot_content l HeadSlot" if "ys \<noteq> []"
      using that by (simp add: l'_def slot_after_def)
    show "ev_next l' x = ev_next l x" if "x \<in> set (butlast ys)" for x
    proof (rule frame)
      from that dist have "x \<noteq> last ys" by (cases ys rule: rev_cases) auto
      with that show "?p \<noteq> NextSlot x" by (auto simp: slot_after_def)
      show "x \<noteq> e" using that new in_set_butlastD by fastforce
    qed
    show "ev_prev l' x = ev_prev l x \<and> ev_alive l' x = ev_alive l x" if "x \<in> set ys" for x
      using that dist new by (auto simp: prev prevs_def alive' split: list.split)
  qed
  have zs: "linked l' (NextSlot e) zs"
  proof (cases zs)
    case (Cons z zs')
    have "linked l' (NextSlot z) zs'"
    proof (rule linked_cong [of l])
      show "linked l (NextSlot z) zs'" using linked Cons by (simp add: linked_append)
      show "slot_content l' (NextSlot z) = slot_content l (NextSlot z)"
        using frame [of z] pz [of z] Cons new by auto
      show "ev_next l' x = ev_next l x" if "x \<in> set (butlast zs')" for x
        using frame [of x] pz [of x] Cons new in_set_butlastD [OF that] by auto
      show "ev_prev l' x = ev_prev l x \<and> ev_alive l' x = ev_alive l x" if "x \<in> set zs'" for x
        using that dist new Cons by (auto simp: prev prevs_def alive')
    qed
    with Cons zalive [of z] content(2) n show ?thesis by (simp add: prev prevs_def alive')
  qed simp
  have "ev_prev l' e = Some ?p" using new by (auto simp: prev prevs_def split: list.split)
  with ys zs content(1) alive have "linked l' HeadSlot (ys @ e # zs)"
    by (simp add: linked_append alive')
  moreover have "slot_content l' (slot_after HeadSlot (ys @ e # zs)) = None"
  proof (cases zs rule: rev_cases)
    case Nil
    with content(2) n show ?thesis by (simp add: slot_after_append)
  next
    case (snoc zs' z)
    with last have "ev_next l z = None" by (simp add: slot_after_append)
    moreover have "ev_next l' z = ev_next l z"
      using frame [of z] pz [of z] snoc new by auto
    moreover have "slot_after HeadSlot (ys @ e # zs) = NextSlot z"
      using snoc by (simp add: slot_after_def)
    ultimately show ?thesis by simp
  qed
  moreover have "relinked (set (ys @ e # zs)) l l'"
  proof -
    have "ev_next l' x = ev_next l x" if "x \<notin> set (ys @ e # zs)" for x
      using that by (intro frame) (auto simp: slot_after_def split: if_splits)
    moreover have "ev_prev l' x = ev_prev l x" if "x \<notin> set (ys @ e # zs)" for x
      using that by (auto simp: prev prevs_def split: list.split)
    ultimately show ?thesis
      unfolding relinked_def by (auto simp: l'_def split: slot.split)
  qed
  ultimately show ?thesis using run by blast
qed

lemma slot_content_update [simp]:
  "slot_content (l\<lparr>tail := t\<rparr>) s = slot_content l s"
  "slot_content (l\<lparr>next_insert_point := p\<rparr>) s = slot_content l s"
  "slot_content (l\<lparr>later_insert_point := p\<rparr>) s = slot_content l s"
  "slot_content (l\<lparr>is_runnable := r\<rparr>) s = slot_content l s"
  "slot_content (l\<lparr>ev_prev := f\<rparr>) s = slot_content l s"
  by (simp_all add: slot_content_def split: slot.split)

lemma linked_update [simp]:
  "linked (l\<lparr>tail := t\<rparr>) s xs = linked l s xs"
  "linked (l\<lparr>next_insert_point := p\<rparr>) s xs = linked l s xs"
  "linked (l\<lparr>later_insert_point := p\<rparr>) s xs = linked l s xs"
  "linked (l\<lparr>is_runnable := r\<rparr>) s xs = linked l s xs"
  by (induction xs arbitrary: s) simp_all

lemma slot_after_eq_iff:
  assumes "distinct (ys @ zs)"
  shows "slot_after HeadSlot (ys @ zs) = slot_after HeadSlot ys \<longleftrightarrow> zs = []"
  using assms by (cases zs rule: rev_cases; cases ys rule: rev_cases) (auto simp: slot_after_append)

lemma slot_after_insert:
  assumes "distinct (ys @ zs)"
  shows "slot_after HeadSlot (ys @ e # zs) =
    (if slot_after HeadSlot (ys @ zs) = slot_after HeadSlot ys then NextSlot e else slot_after HeadSlot (ys @ zs))"
  using slot_after_eq_iff [OF assms] by (auto simp: slot_after_def)

section \<open>Arming refines the abstract queue\<close>

lemma armed_iff: "loop_rel l q \<Longrightarrow> ev_prev l e = None \<longleftrightarrow> e \<notin> set (sched_queue q)"
  by (auto simp: loop_rel_def dest!: split_list linked_prev)

lemma armNext_rel:
  assumes "loop_rel l q" and "entered l" and "ev_alive l e"
  shows "\<exists>l'. armNext e l = Some l' \<and> loop_rel l' (sched_next e q) \<and> entered l' \<and> ev_alive l' = ev_alive l"
proof (cases "e \<in> set (sched_queue q)")
  case True
  then show ?thesis using assms armed_iff [OF assms(1), of e] by (auto simp: armNext_def sched_next_def)
next
  case False
  let ?ys = "nexts q" and ?zs = "laters q @ lasts q"
  note R = assms(1) [unfolded loop_rel_def sched_queue_def]
  from link_event_insert [of l ?ys ?zs e] R False assms(3) obtain l1 where
    l1: "link_event e (slot_after HeadSlot ?ys) l = Some l1" "linked l1 HeadSlot (?ys @ e # ?zs)"
      "slot_content l1 (slot_after HeadSlot (?ys @ e # ?zs)) = None" "relinked (set (?ys @ e # ?zs)) l l1"
    by (auto simp: sched_queue_def)
  have "distinct (?ys @ laters q)" using R by auto
  then have later: "slot_after HeadSlot (?ys @ e # laters q) =
      (if later_insert_point l = next_insert_point l then NextSlot e else later_insert_point l)"
    using R slot_after_insert [of ?ys "laters q" e] by simp
  have tail: "slot_after HeadSlot (?ys @ e # ?zs) =
      (if tail l = next_insert_point l then NextSlot e else tail l)"
    using R slot_after_insert [of ?ys ?zs e] by simp
  show ?thesis
    using R l1 False assms(2) later tail armed_iff [OF assms(1), of e]
    by (auto simp: armNext_def sched_next_def loop_rel_def sched_queue_def relinked_def setRunnable_def Let_def)
qed

lemma armLater_rel:
  assumes "loop_rel l q" and "entered l" and "ev_alive l e"
  shows "\<exists>l'. armLater e l = Some l' \<and> loop_rel l' (sched_later e q) \<and> entered l' \<and> ev_alive l' = ev_alive l"
proof (cases "e \<in> set (sched_queue q)")
  case True
  then show ?thesis using assms armed_iff [OF assms(1), of e] by (auto simp: armLater_def sched_later_def)
next
  case False
  let ?ys = "nexts q @ laters q" and ?zs = "lasts q"
  note R = assms(1) [unfolded loop_rel_def sched_queue_def]
  from link_event_insert [of l ?ys ?zs e] R False assms(3) obtain l1 where
    l1: "link_event e (slot_after HeadSlot ?ys) l = Some l1" "linked l1 HeadSlot (?ys @ e # ?zs)"
      "slot_content l1 (slot_after HeadSlot (?ys @ e # ?zs)) = None" "relinked (set (?ys @ e # ?zs)) l l1"
    by (auto simp: sched_queue_def)
  have tail: "slot_after HeadSlot (?ys @ e # ?zs) =
      (if tail l = later_insert_point l then NextSlot e else tail l)"
    using R slot_after_insert [of ?ys ?zs e] by simp
  show ?thesis
    using R l1 False assms(2) tail armed_iff [OF assms(1), of e]
    by (auto simp: armLater_def sched_later_def loop_rel_def sched_queue_def relinked_def setRunnable_def Let_def
        slot_after_append)
qed

lemma armLast_rel:
  assumes "loop_rel l q" and "entered l" and "ev_alive l e"
  shows "\<exists>l'. armLast e l = Some l' \<and> loop_rel l' (sched_last e q) \<and> entered l' \<and> ev_alive l' = ev_alive l"
proof (cases "e \<in> set (sched_queue q)")
  case True
  then show ?thesis using assms armed_iff [OF assms(1), of e] by (auto simp: armLast_def sched_last_def)
next
  case False
  let ?ys = "nexts q @ laters q" and ?zs = "lasts q"
  note R = assms(1) [unfolded loop_rel_def sched_queue_def]
  from link_event_insert [of l ?ys ?zs e] R False assms(3) obtain l1 where
    l1: "link_event e (slot_after HeadSlot ?ys) l = Some l1" "linked l1 HeadSlot (?ys @ e # ?zs)"
      "slot_content l1 (slot_after HeadSlot (?ys @ e # ?zs)) = None" "relinked (set (?ys @ e # ?zs)) l l1"
    by (auto simp: sched_queue_def)
  have tail: "slot_after HeadSlot (?ys @ e # ?zs) =
      (if tail l = later_insert_point l then NextSlot e else tail l)"
    using R slot_after_insert [of ?ys ?zs e] by simp
  show ?thesis
    using R l1 False assms(2) tail armed_iff [OF assms(1), of e]
    by (auto simp: armLast_def sched_last_def loop_rel_def sched_queue_def relinked_def setRunnable_def Let_def)
qed

section \<open>Unlinking\<close>

text \<open>The loop after the links around an event have been closed over it.\<close>

definition unlinked :: "event \<Rightarrow> slot \<Rightarrow> event option \<Rightarrow> event_loop \<Rightarrow> event_loop" where
  "unlinked e p n l =
     (case p of HeadSlot \<Rightarrow> l\<lparr>head := n\<rparr> | NextSlot x \<Rightarrow> l\<lparr>ev_next := (ev_next l)(x := n)\<rparr>)
     \<lparr>ev_prev := (case n of None \<Rightarrow> ev_prev l | Some z \<Rightarrow> (ev_prev l)(z := Some p))(e := None),
      ev_next := (case p of HeadSlot \<Rightarrow> ev_next l | NextSlot x \<Rightarrow> (ev_next l)(x := n))(e := None)\<rparr>"

lemma unlinked_linked:
  assumes linked: "linked l HeadSlot (ys @ e # zs)" and dist: "distinct (ys @ e # zs)"
    and last: "slot_content l (slot_after HeadSlot (ys @ e # zs)) = None"
  defines "l' \<equiv> unlinked e (slot_after HeadSlot ys) (ev_next l e) l"
  shows "linked l' HeadSlot (ys @ zs)" and "slot_content l' (slot_after HeadSlot (ys @ zs)) = None"
    and "relinked (set (ys @ e # zs)) l l'" and "ev_prev l' e = None" and "ev_next l' e = None"
proof -
  let ?p = "slot_after HeadSlot ys"
  have n: "ev_next l e = (case zs of [] \<Rightarrow> None | z # _ \<Rightarrow> Some z)"
    using linked last by (cases zs) (auto simp: linked_append slot_after_append)
  have pe: "?p \<noteq> NextSlot e" using dist by (cases ys rule: rev_cases) auto
  have pz: "?p \<noteq> NextSlot z" if "z \<in> set zs" for z
    using dist that by (cases ys rule: rev_cases) auto
  have alive': "ev_alive l' = ev_alive l"
    by (simp add: l'_def unlinked_def split: slot.split)
  have prev: "ev_prev l' x = (if x = e then None else if zs \<noteq> [] \<and> x = hd zs then Some ?p else ev_prev l x)" for x
    by (cases zs) (auto simp: l'_def unlinked_def n split: slot.split)
  have content: "slot_content l' ?p = ev_next l e"
    using pe by (auto simp: l'_def unlinked_def slot_content_def split: slot.splits)
  have frame: "\<And>x. x \<noteq> e \<Longrightarrow> ?p \<noteq> NextSlot x \<Longrightarrow> ev_next l' x = ev_next l x"
    by (auto simp: l'_def unlinked_def split: slot.splits)
  show ep: "ev_prev l' e = None" by (simp add: prev)
  show en: "ev_next l' e = None" by (simp add: l'_def unlinked_def)
  have ys: "linked l' HeadSlot ys"
  proof (rule linked_cong [of l])
    show "linked l HeadSlot ys" using linked by (simp add: linked_append)
    show "slot_content l' HeadSlot = slot_content l HeadSlot" if "ys \<noteq> []"
      using that by (simp add: l'_def unlinked_def slot_after_def)
    show "ev_next l' x = ev_next l x" if "x \<in> set (butlast ys)" for x
    proof (rule frame)
      from that dist show "?p \<noteq> NextSlot x" by (cases ys rule: rev_cases) auto
      show "x \<noteq> e" using that dist in_set_butlastD by fastforce
    qed
    show "ev_prev l' x = ev_prev l x \<and> ev_alive l' x = ev_alive l x" if "x \<in> set ys" for x
      using that dist by (cases zs) (auto simp: prev alive')
  qed
  have zs: "linked l' ?p zs"
  proof (cases zs)
    case (Cons z zs')
    have "linked l' (NextSlot z) zs'"
    proof (rule linked_cong [of l])
      show "linked l (NextSlot z) zs'" using linked Cons by (simp add: linked_append)
      show "slot_content l' (NextSlot z) = slot_content l (NextSlot z)"
        using frame [of z] pz [of z] Cons dist by auto
      show "ev_next l' x = ev_next l x" if "x \<in> set (butlast zs')" for x
        using frame [of x] pz [of x] Cons dist in_set_butlastD [OF that] by auto
      show "ev_prev l' x = ev_prev l x \<and> ev_alive l' x = ev_alive l x" if "x \<in> set zs'" for x
        using that dist Cons by (auto simp: prev alive')
    qed
    moreover have "ev_alive l z" using linked_alive [OF linked, of z] Cons by simp
    ultimately show ?thesis using Cons content n dist by (simp add: prev alive')
  qed simp
  from ys zs show "linked l' HeadSlot (ys @ zs)" by (simp add: linked_append)
  show "slot_content l' (slot_after HeadSlot (ys @ zs)) = None"
  proof (cases zs rule: rev_cases)
    case Nil
    with content n show ?thesis by simp
  next
    case (snoc zs' z)
    with last have "ev_next l z = None" by (simp add: slot_after_def)
    moreover have "ev_next l' z = ev_next l z"
      using frame [of z] pz [of z] snoc dist by auto
    ultimately show ?thesis using snoc by (simp add: slot_after_def)
  qed
  have "ev_next l' x = ev_next l x" if "x \<notin> set (ys @ e # zs)" for x
    using that by (intro frame) (auto simp: slot_after_def split: if_splits)
  moreover have "ev_prev l' x = ev_prev l x" if "x \<notin> set (ys @ e # zs)" for x
    using that by (cases zs) (auto simp: prev)
  ultimately show "relinked (set (ys @ e # zs)) l l'"
    unfolding relinked_def by (auto simp: l'_def unlinked_def split: slot.split)
qed

lemma slot_after_remove:
  assumes "distinct (ys @ e # zs)"
  shows "slot_after HeadSlot (ys @ zs) =
    (if slot_after HeadSlot (ys @ e # zs) = NextSlot e then slot_after HeadSlot ys
     else slot_after HeadSlot (ys @ e # zs))"
  using assms by (cases zs rule: rev_cases) (auto simp: slot_after_def)

lemma take_head_rel:
  assumes "loop_rel l q" and "sched_queue q = e # rest"
  shows "head l = Some e \<and> (\<exists>l'. take_head e l = Some l' \<and> loop_rel l' (sched_take q) \<and> entered l' = entered l
           \<and> ev_alive l' = ev_alive l)"
proof -
  note R = assms(1) [unfolded loop_rel_def]
  note lin = R [THEN conjunct1, unfolded assms(2)]
  note u = unlinked_linked [of l "[]" e rest]
  let ?l = "unlinked e HeadSlot (ev_next l e) l"
  have u1: "linked ?l HeadSlot rest" "slot_content ?l (slot_after HeadSlot rest) = None"
    "relinked (set (e # rest)) l ?l" "ev_prev ?l e = None" "ev_next ?l e = None"
    using u lin R assms(2) by auto
  have alive: "\<And>x. x \<in> set (e # rest) \<Longrightarrow> ev_alive l x" using linked_alive [OF lin] .
  have n: "ev_next l e = (case rest of [] \<Rightarrow> None | z # _ \<Rightarrow> Some z)"
    using lin R assms(2) by (cases rest) auto
  have "take_head e l = Some (?l\<lparr>next_insert_point := HeadSlot,
      later_insert_point := (if later_insert_point l = NextSlot e then HeadSlot else later_insert_point l),
      tail := (if tail l = NextSlot e then HeadSlot else tail l)\<rparr>)"
    using alive n
    by (cases rest) (auto simp: take_head_def read_slot_def write_prev_def unlinked_def Let_def)
  moreover have "sched_queue (sched_take q) = rest"
    using assms(2) by (cases "nexts q"; cases "laters q") (auto simp: sched_queue_def sched_take_def)
  moreover have "slot_after HeadSlot (nexts (sched_take q) @ laters (sched_take q)) =
      (if later_insert_point l = NextSlot e then HeadSlot else later_insert_point l)"
  proof (cases "nexts q @ laters q")
    case Nil
    with R show ?thesis by (simp add: sched_take_def)
  next
    case (Cons x xs)
    then have "x = e" using assms(2) by (cases "nexts q") (auto simp: sched_queue_def)
    moreover have "distinct (x # xs)" using R Cons unfolding sched_queue_def by (metis append_assoc distinct_append)
    ultimately show ?thesis
      using slot_after_remove [of "[]" e xs] R Cons by (simp add: sched_take_def)
  qed
  moreover have "slot_after HeadSlot rest = (if tail l = NextSlot e then HeadSlot else tail l)"
    using slot_after_remove [of "[]" e rest] R assms(2) by simp
  moreover have "nexts (sched_take q) = []" by (simp add: sched_take_def)
  moreover have "ev_prev ?l x = None \<and> ev_next ?l x = None" if "x \<notin> set rest" for x
    using that u1(3-5) R assms(2) by (cases "x = e") (simp_all add: relinked_def)
  moreover have "distinct rest" using R assms(2) by simp
  ultimately show ?thesis
    using u1 lin by (simp add: loop_rel_def relinked_def)
qed

section \<open>Disarming\<close>

lemma disarm_run:
  assumes "linked l HeadSlot (ys @ e # zs)" and "distinct (ys @ e # zs)"
    and "slot_content l (slot_after HeadSlot (ys @ e # zs)) = None"
  defines "p \<equiv> slot_after HeadSlot ys"
  shows "disarm e l = Some ((unlinked e p (ev_next l e) l)\<lparr>
      tail := (if tail l = NextSlot e then p else tail l),
      next_insert_point := (if next_insert_point l = NextSlot e then p else next_insert_point l)\<rparr>)"
proof -
  have prev: "ev_prev l e = Some p" using linked_prev [OF assms(1)] by (simp add: p_def)
  have valid: "slot_valid l p" using assms(1) by (simp add: p_def linked_append slot_valid_after)
  have n: "ev_next l e = (case zs of [] \<Rightarrow> None | z # _ \<Rightarrow> Some z)"
    using assms(1,3) by (cases zs) (auto simp: linked_append slot_after_append)
  have alive: "\<And>z. z \<in> set zs \<Longrightarrow> ev_alive l z" using linked_alive [OF assms(1)] by simp
  have pe: "p \<noteq> NextSlot e" using assms(2) by (cases ys rule: rev_cases) (auto simp: p_def)
  show ?thesis
    using prev valid n alive pe
    by (cases zs; cases p) (auto simp: disarm_def write_slot_def write_prev_def unlinked_def Let_def fun_upd_twist)
qed

lemma prefix_split:
  assumes "xs @ rest = ys @ e # zs" and "distinct (xs @ rest)" and "e \<in> set xs"
  shows "\<exists>us. xs = ys @ e # us"
proof -
  from assms(3) obtain vs us where xs: "xs = vs @ e # us" by (meson split_list)
  with assms(1,2) have "vs = ys"
    by (metis append.assoc append_Cons append_Cons_eq_iff distinct.simps(2) distinct_append not_distinct_conv_prefix in_set_conv_decomp)
  with xs show ?thesis by blast
qed

lemma slot_after_removeAll:
  assumes "xs @ rest = ys @ e # zs" and "distinct (xs @ rest)"
  shows "slot_after HeadSlot (removeAll e xs) =
    (if slot_after HeadSlot xs = NextSlot e then slot_after HeadSlot ys else slot_after HeadSlot xs)"
proof (cases "e \<in> set xs")
  case True
  from prefix_split [OF assms True] obtain us where xs: "xs = ys @ e # us" by blast
  with assms(2) have "removeAll e xs = ys @ us" "distinct (ys @ e # us)" by (auto simp: removeAll_id)
  with slot_after_remove [of ys e us] xs show ?thesis by simp
next
  case False
  then show ?thesis by (cases xs rule: rev_cases) (auto simp: removeAll_id)
qed

lemma disarm_rel:
  assumes "loop_rel l q" and "later_insert_point l \<noteq> NextSlot e"
  shows "\<exists>l'. disarm e l = Some l' \<and> loop_rel l' (sched_remove e q) \<and> entered l' = entered l
           \<and> ev_alive l' = ev_alive l"
proof (cases "e \<in> set (sched_queue q)")
  case False
  then have "sched_remove e q = q" by (auto simp: sched_remove_def sched_queue_def removeAll_id)
  with False assms armed_iff [OF assms(1), of e] show ?thesis by (simp add: disarm_def)
next
  case True
  then obtain ys zs where q: "sched_queue q = ys @ e # zs" by (meson split_list)
  note R = assms(1) [unfolded loop_rel_def]
  have lin: "linked l HeadSlot (ys @ e # zs)" "distinct (ys @ e # zs)"
    "slot_content l (slot_after HeadSlot (ys @ e # zs)) = None" using R q by auto
  note u = unlinked_linked [OF lin]
  have q': "sched_queue (sched_remove e q) = ys @ zs"
  proof -
    have "sched_queue (sched_remove e q) = removeAll e (sched_queue q)"
      by (simp add: sched_queue_def sched_remove_def)
    with q lin(2) show ?thesis by (auto simp: removeAll_id)
  qed
  have tail: "slot_after HeadSlot (ys @ zs) = (if tail l = NextSlot e then slot_after HeadSlot ys else tail l)"
    using slot_after_remove [OF lin(2)] R q by simp
  have "nexts q @ laters q @ lasts q = ys @ e # zs" "distinct (nexts q @ laters q @ lasts q)"
    using q R unfolding sched_queue_def by simp_all
  note nx = slot_after_removeAll [OF this]
  have "(nexts q @ laters q) @ lasts q = ys @ e # zs" "distinct ((nexts q @ laters q) @ lasts q)"
    using q R unfolding sched_queue_def by simp_all
  note lt = slot_after_removeAll [OF this]
  let ?l = "unlinked e (slot_after HeadSlot ys) (ev_next l e) l"
  let ?q = "sched_remove e q"
  have nx': "slot_after HeadSlot (nexts ?q) =
      (if next_insert_point l = NextSlot e then slot_after HeadSlot ys else next_insert_point l)"
    using nx R by (simp add: sched_remove_def)
  have lt': "slot_after HeadSlot (nexts ?q @ laters ?q) = later_insert_point l"
    using lt R assms(2) by (simp add: sched_remove_def)
  have out: "ev_prev ?l x = None \<and> ev_next ?l x = None" if "x \<notin> set (ys @ zs)" for x
    using that u(3-5) R q by (cases "x = e") (simp_all add: relinked_def)
  have dist: "distinct (ys @ zs)" using lin(2) by simp
  show ?thesis
    using disarm_run [OF lin] u(1-3) q' tail nx' lt' out dist
    by (simp add: loop_rel_def relinked_def)
qed

section \<open>The scheduling contract\<close>

text \<open>
  What the code that arms events may rely on: \<open>rel l q\<close> says that the loop \<open>l\<close> implements the
  abstract queue \<open>q\<close>.
\<close>

locale event_queue =
  fixes rel :: "'l \<Rightarrow> sched \<Rightarrow> bool"
    and arm_next arm_later arm_last :: "event \<Rightarrow> 'l \<Rightarrow> 'l option"
    and take_first :: "'l \<Rightarrow> (event \<times> 'l) option"
  assumes next_law: "rel l q \<Longrightarrow> \<exists>l'. arm_next e l = Some l' \<and> rel l' (sched_next e q)"
    and later_law: "rel l q \<Longrightarrow> \<exists>l'. arm_later e l = Some l' \<and> rel l' (sched_later e q)"
    and last_law: "rel l q \<Longrightarrow> \<exists>l'. arm_last e l = Some l' \<and> rel l' (sched_last e q)"
    and take_law: "rel l q \<Longrightarrow> sched_queue q = e # rest \<Longrightarrow> \<exists>l'. take_first l = Some (e, l') \<and> rel l' (sched_take q)"
    and empty_law: "rel l q \<Longrightarrow> sched_queue q = [] \<Longrightarrow> take_first l = None"

text \<open>Sequences of arming calls, as the \<open>fire\<close> of an event makes them.\<close>

datatype arm_call = ArmNext event | ArmLater event | ArmLast event

fun call_loop :: "arm_call \<Rightarrow> event_loop \<Rightarrow> event_loop option" where
  "call_loop (ArmNext e) l = armNext e l"
| "call_loop (ArmLater e) l = armLater e l"
| "call_loop (ArmLast e) l = armLast e l"

fun call_sched :: "arm_call \<Rightarrow> sched \<Rightarrow> sched" where
  "call_sched (ArmNext e) q = sched_next e q"
| "call_sched (ArmLater e) q = sched_later e q"
| "call_sched (ArmLast e) q = sched_last e q"

fun run_calls :: "('c \<Rightarrow> 'l \<Rightarrow> 'l option) \<Rightarrow> 'c list \<Rightarrow> 'l \<Rightarrow> 'l option" where
  "run_calls call [] l = Some l"
| "run_calls call (c # cs) l = do { l \<leftarrow> call c l; run_calls call cs l }"

text \<open>
  The reference scheduler: in each step the first event fires, and the calls its \<open>fire\<close> makes,
  which may depend on the events fired before, act on the queue without it.
\<close>

fun sched_run :: "nat \<Rightarrow> (event list \<Rightarrow> event \<Rightarrow> arm_call list) \<Rightarrow> sched \<times> event list \<Rightarrow> sched \<times> event list" where
  "sched_run 0 script (q, log) = (q, log)"
| "sched_run (Suc k) script (q, log) =
     (case sched_queue q of
        [] \<Rightarrow> (q, log)
      | e # _ \<Rightarrow> sched_run k script (fold call_sched (script log e) (sched_take q), log @ [e]))"

definition script_fire :: "(event list \<Rightarrow> event \<Rightarrow> arm_call list) \<Rightarrow> event list fire" where
  "script_fire script e st = do {
     l \<leftarrow> run_calls call_loop (script (snd st) e) (fst st);
     Some (l, snd st @ [e])
   }"

context event_queue
begin

definition call :: "arm_call \<Rightarrow> 'l \<Rightarrow> 'l option" where
  "call c l = (case c of ArmNext e \<Rightarrow> arm_next e l | ArmLater e \<Rightarrow> arm_later e l | ArmLast e \<Rightarrow> arm_last e l)"

lemma call_refines: "rel l q \<Longrightarrow> \<exists>l'. call c l = Some l' \<and> rel l' (call_sched c q)"
  using next_law later_law last_law by (cases c) (auto simp: call_def)

lemma calls_refine: "rel l q \<Longrightarrow> \<exists>l'. run_calls call cs l = Some l' \<and> rel l' (fold call_sched cs q)"
proof (induction cs arbitrary: l q)
  case Nil
  then show ?case by simp
next
  case (Cons c cs)
  from call_refines [OF Cons.prems, of c] Cons.IH show ?case by fastforce
qed

text \<open>One step of a loop that takes the first event and runs its script.\<close>

lemma step_refines:
  assumes "rel l q" and "sched_queue q = e # rest"
  shows "\<exists>l1 l2. take_first l = Some (e, l1) \<and> run_calls call cs l1 = Some l2
           \<and> rel l2 (fold call_sched cs (sched_take q))"
  using take_law [OF assms] calls_refine by blast

end

text \<open>The loop inside its scope, with all events of \<open>A\<close> alive and only those armed.\<close>

definition loop_in_scope :: "event_loop \<Rightarrow> sched \<Rightarrow> bool" where
  "loop_in_scope l q \<longleftrightarrow> loop_rel l q \<and> entered l \<and> (\<forall>e. ev_alive l e)"

definition loop_take :: "event_loop \<Rightarrow> (event \<times> event_loop) option" where
  "loop_take l = (case head l of None \<Rightarrow> None | Some e \<Rightarrow> do { l' \<leftarrow> take_head e l; Some (e, l') })"

interpretation evq: event_queue loop_in_scope armNext armLater armLast loop_take
proof (unfold_locales, goal_cases)
  case (1 l q e)
  then show ?case using armNext_rel [of l q e] by (auto simp: loop_in_scope_def)
next
  case (2 l q e)
  then show ?case using armLater_rel [of l q e] by (auto simp: loop_in_scope_def)
next
  case (3 l q e)
  then show ?case using armLast_rel [of l q e] by (auto simp: loop_in_scope_def)
next
  case (4 l q e rest)
  then show ?case using take_head_rel [of l q e rest] by (auto simp: loop_in_scope_def loop_take_def)
next
  case (5 l q)
  then show ?case by (auto simp: loop_in_scope_def loop_take_def loop_rel_def)
qed

lemma evq_call: "evq.call = call_loop"
  by (rule ext)+ (auto simp: evq.call_def split: arm_call.split)

lemma head_in_scope: "loop_in_scope l q \<Longrightarrow> head l = (case sched_queue q of [] \<Rightarrow> None | e # _ \<Rightarrow> Some e)"
  by (auto simp: loop_in_scope_def loop_rel_def split: list.split)

lemma turn_refines:
  assumes "loop_in_scope l q" and "sched_queue q = e # rest"
  shows "\<exists>l'. turn (script_fire script) (l, log) = Some (True, l', log @ [e])
           \<and> loop_in_scope l' (fold call_sched (script log e) (sched_take q))"
proof -
  from evq.step_refines [OF assms, of "script log e"] obtain l1 l2 where
    "loop_take l = Some (e, l1)" "run_calls call_loop (script log e) l1 = Some l2"
    "loop_in_scope l2 (fold call_sched (script log e) (sched_take q))" by (auto simp: evq_call)
  with head_in_scope [OF assms(1)] assms(2) show ?thesis
    by (auto simp: turn_def loop_take_def script_fire_def elim!: bind_eq_SomeE)
qed

lemma turnLoop_from_refines:
  assumes "loop_in_scope l q"
  shows "\<exists>l'. turnLoop_from k (script_fire script) (l, log) = Some (True, l', snd (sched_run k script (q, log)))
           \<and> loop_in_scope l' (fst (sched_run k script (q, log)))"
  using assms
proof (induction k arbitrary: l q log)
  case 0
  then show ?case by simp
next
  case (Suc k)
  show ?case
  proof (cases "sched_queue q")
    case Nil
    with Suc.prems head_in_scope [OF Suc.prems] show ?thesis by simp
  next
    case (Cons e rest)
    from turn_refines [OF Suc.prems Cons, of script log] obtain l1 where
      "turn (script_fire script) (l, log) = Some (True, l1, log @ [e])"
      "loop_in_scope l1 (fold call_sched (script log e) (sched_take q))" by blast
    with Suc.IH [of l1] head_in_scope [OF Suc.prems] Cons show ?thesis by simp
  qed
qed

section \<open>The order of events\<close>

fun defers :: "arm_call \<Rightarrow> bool" where
  "defers (ArmNext e) \<longleftrightarrow> False"
| "defers (ArmLater e) \<longleftrightarrow> True"
| "defers (ArmLast e) \<longleftrightarrow> True"

lemma deferred_calls:
  "list_all defers cs \<Longrightarrow> nexts (fold call_sched cs q) = nexts q \<and> prefix (laters q) (laters (fold call_sched cs q))"
proof (induction cs arbitrary: q)
  case Nil
  then show ?case by simp
next
  case (Cons c cs)
  have "nexts (call_sched c q) = nexts q" "prefix (laters q) (laters (call_sched c q))"
    using Cons.prems by (cases c; auto simp: sched_later_def sched_last_def)+
  with Cons.IH [of "call_sched c q"] Cons.prems show ?case
    by (auto intro: prefix_order.trans)
qed

lemma sched_run_log: "prefix log (snd (sched_run k script (q, log)))"
proof (induction k arbitrary: q log)
  case (Suc k)
  have "prefix log (snd (sched_run k script (q', log @ [e])))" for q' e
    using Suc.IH [of "log @ [e]" q'] by (rule append_prefixD)
  then show ?case by (auto split: list.split)
qed simp

lemma sched_run_pending:
  assumes "\<forall>log e. list_all defers (script log e)"
  shows "prefix xs (nexts q @ laters q) \<Longrightarrow> length xs \<le> k \<Longrightarrow> prefix (log @ xs) (snd (sched_run k script (q, log)))"
proof (induction xs arbitrary: q log k)
  case Nil
  then show ?case using sched_run_log by simp
next
  case (Cons e xs)
  then obtain k' where k: "k = Suc k'" "length xs \<le> k'" by (cases k) auto
  from Cons.prems(1) obtain ys where ys: "nexts q @ laters q = e # xs @ ys" by (auto simp: prefix_def)
  then have head: "sched_queue q = e # xs @ ys @ lasts q" unfolding sched_queue_def by (metis append_Cons append_assoc)
  have take: "nexts (sched_take q) = []" "laters (sched_take q) = xs @ ys"
    using ys by (auto simp: sched_take_def tl_append split: list.splits)
  let ?q = "fold call_sched (script log e) (sched_take q)"
  have "prefix xs (nexts ?q @ laters ?q)"
    using deferred_calls [of "script log e" "sched_take q"] assms take by (auto simp: prefix_def)
  from Cons.IH [OF this k(2), of "log @ [e]"] head k(1) show ?case by simp
qed

section \<open>Properties\<close>

text \<open>A loop whose scope has been entered, before anything is armed; every event object exists.\<close>

definition loop_started :: event_loop where
  "loop_started = EventLoop_new\<lparr>ev_alive := (\<lambda>e. True), entered := True\<rparr>"

lemma loop_started_in_scope: "loop_in_scope loop_started sched_empty"
  by (simp add: loop_in_scope_def loop_started_def EventLoop_new_def loop_rel_def sched_empty_def sched_queue_def)

text \<open>
  C5: the pointer manipulations of the event loop implement the scheduler with three lists. After
  any sequence of arming calls, and whatever arming calls the events make when they fire, a call
  of \<open>turnLoop\<close> follows no dangling pointer, returns true, fires the same events in the same order
  as the reference scheduler in at most 65536 steps, and leaves a well linked queue that holds
  what the reference scheduler has left.
\<close>

theorem event_loop_refines_scheduler:
  "\<exists>l l'. run_calls call_loop cs loop_started = Some l
     \<and> turnLoop (script_fire script) (l, [])
         = Some (True, l', snd (sched_run 65536 script (fold call_sched cs sched_empty, [])))
     \<and> loop_in_scope l' (fst (sched_run 65536 script (fold call_sched cs sched_empty, [])))"
proof -
  from evq.calls_refine [OF loop_started_in_scope, of cs] obtain l where
    "run_calls call_loop cs loop_started = Some l" "loop_in_scope l (fold call_sched cs sched_empty)"
    by (auto simp: evq_call)
  with turnLoop_from_refines [of l "fold call_sched cs sched_empty" 65536 script "[]"] show ?thesis
    by (auto simp: turnLoop_def)
qed

text \<open>
  C23: no pending event is starved by events that arm others for later or last. If the events that
  fire never call \<open>armNext\<close>, then every event queued by \<open>armNext\<close> or \<open>armLater\<close> when \<open>turnLoop\<close> is
  called fires in that call, in the order of the queue and before every event armed meanwhile, as
  long as the step limit of 65536 admits it.
\<close>

theorem event_loop_fires_pending_in_order:
  assumes "loop_in_scope l q" and "\<forall>log e. list_all defers (script log e)"
    and "length (nexts q @ laters q) \<le> 65536"
  shows "\<exists>l' fired. turnLoop (script_fire script) (l, log) = Some (True, l', log @ nexts q @ laters q @ fired)"
proof -
  from sched_run_pending [OF assms(2) prefix_order.refl assms(3), of log] obtain fired where
    "snd (sched_run 65536 script (q, log)) = log @ nexts q @ laters q @ fired" by (auto simp: prefix_def)
  with turnLoop_from_refines [OF assms(1), of 65536 script log] show ?thesis
    unfolding turnLoop_def by metis
qed

theorem event_loop_fires_pending_in_order_witness:
  "\<exists>l l' fired. run_calls call_loop [ArmLater 7, ArmNext 3, ArmLast 9, ArmLater 5] loop_started = Some l
     \<and> turnLoop (script_fire (\<lambda>log e. if e = 7 then [ArmLater 8] else [])) (l, []) = Some (True, l', [3, 7, 5] @ fired)"
proof -
  let ?cs = "[ArmLater 7, ArmNext 3, ArmLast 9, ArmLater 5]"
  obtain l where l: "run_calls call_loop ?cs loop_started = Some l" "loop_in_scope l (fold call_sched ?cs sched_empty)"
    using evq.calls_refine [OF loop_started_in_scope, of ?cs] by (auto simp: evq_call simp del: fold_simps)
  have q: "fold call_sched ?cs sched_empty = \<lparr>nexts = [3], laters = [7, 5], lasts = [9]\<rparr>"
    by (simp add: sched_empty_def sched_later_def sched_next_def sched_last_def sched_queue_def)
  have s: "\<forall>(log :: event list) (e :: event). list_all defers (if e = 7 then [ArmLater 8] else [])"
    by simp
  from event_loop_fires_pending_in_order [OF l(2) s, of "[]"] l(1) show ?thesis
    unfolding q by auto
qed

text \<open>
  C27: disarming an armed event removes exactly this event from the queue and keeps the order of the
  others, and disarming an event that is not armed does nothing, provided that the loop's
  \<open>later_insert_point\<close> is not the \<open>next\<close> member of the event.
\<close>

theorem disarm_removes_event:
  assumes "loop_rel l q" and "later_insert_point l \<noteq> NextSlot e"
  shows "\<exists>l'. disarm e l = Some l' \<and> loop_rel l' (sched_remove e q)
           \<and> sched_queue (sched_remove e q) = removeAll e (sched_queue q) \<and> \<not> isArmed e l'"
proof -
  from disarm_rel [OF assms] obtain l' where l': "disarm e l = Some l'" "loop_rel l' (sched_remove e q)" by blast
  have "sched_queue (sched_remove e q) = removeAll e (sched_queue q)"
    by (simp add: sched_queue_def sched_remove_def)
  with l' armed_iff [OF l'(2), of e] show ?thesis by (simp add: isArmed_def)
qed

theorem disarm_removes_event_witness:
  "\<exists>l l'. run_calls call_loop [ArmLater 7, ArmLater 5] loop_started = Some l
     \<and> disarm 7 l = Some l' \<and> loop_rel l' \<lparr>nexts = [], laters = [5], lasts = []\<rparr>"
proof -
  let ?cs = "[ArmLater 7, ArmLater 5]"
  obtain l where l: "run_calls call_loop ?cs loop_started = Some l" "loop_in_scope l (fold call_sched ?cs sched_empty)"
    using evq.calls_refine [OF loop_started_in_scope, of ?cs] by (auto simp: evq_call simp del: fold_simps)
  have q: "fold call_sched ?cs sched_empty = \<lparr>nexts = [], laters = [7, 5], lasts = []\<rparr>"
    by (simp add: sched_empty_def sched_later_def sched_queue_def)
  have rel: "loop_rel l \<lparr>nexts = [], laters = [7, 5], lasts = []\<rparr>"
    using l(2) unfolding q by (simp add: loop_in_scope_def)
  then have "later_insert_point l \<noteq> NextSlot 7" by (simp add: loop_rel_def)
  from disarm_removes_event [OF rel this] l(1) show ?thesis
    by (auto simp: sched_remove_def)
qed

text \<open>
  C34: \<open>disarm\<close> does not move \<open>later_insert_point\<close> away from the event it unlinks. When the event is the
  last one queued for later, the pointer keeps pointing into it: if the event object lives on, the
  next event armed for later is linked behind the unlinked event, counts as armed but is not
  in the queue and never fires; if the event object is destroyed, arming the next event for later
  accesses freed memory.
\<close>

theorem disarm_leaves_later_insert_point:
  assumes "loop_rel l q" and "entered l" and "nexts q @ laters q = xs @ [e]"
    and "f \<notin> set (sched_queue q)" and "ev_alive l f"
  shows "(\<exists>l1 l2. disarm e l = Some l1 \<and> armLater f l1 = Some l2 \<and> isArmed f l2
            \<and> linked l2 HeadSlot (xs @ lasts q) \<and> slot_content l2 (slot_after HeadSlot (xs @ lasts q)) = None)
    \<and> (\<exists>l1. Event_delete e l = Some l1 \<and> armLater f l1 = None)"
proof -
  note R = assms(1) [unfolded loop_rel_def]
  have q: "sched_queue q = xs @ e # lasts q"
    using assms(3) unfolding sched_queue_def by (metis append_assoc append_Cons append_Nil)
  have lin: "linked l HeadSlot (xs @ e # lasts q)" "distinct (xs @ e # lasts q)"
    "slot_content l (slot_after HeadSlot (xs @ e # lasts q)) = None" using R q by auto
  let ?p = "slot_after HeadSlot xs"
  let ?u = "unlinked e ?p (ev_next l e) l"
  define l1 where "l1 = ?u\<lparr>tail := (if tail l = NextSlot e then ?p else tail l),
      next_insert_point := (if next_insert_point l = NextSlot e then ?p else next_insert_point l)\<rparr>"
  note u = unlinked_linked [OF lin]
  have dis: "disarm e l = Some l1" using disarm_run [OF lin] by (simp add: l1_def)
  have l1: "linked l1 HeadSlot (xs @ lasts q)" "slot_content l1 (slot_after HeadSlot (xs @ lasts q)) = None"
    "ev_prev l1 e = None" "ev_next l1 e = None" "ev_alive l1 = ev_alive l" "entered l1"
    "later_insert_point l1 = NextSlot e"
    using u R assms(2,3) by (simp_all add: l1_def relinked_def)
  have f: "f \<noteq> e" "f \<notin> set (xs @ lasts q)" "e \<notin> set (xs @ lasts q)" "ev_prev l1 f = None"
    using assms(4) q u(3) R lin(2) by (auto simp: l1_def relinked_def)
  have alive: "ev_alive l e" using linked_alive [OF lin(1)] by simp
  define l2 where "l2 = l1\<lparr>ev_next := (ev_next l1)(f := None, e := Some f), ev_prev := (ev_prev l1)(f := Some (NextSlot e)),
      later_insert_point := NextSlot f, tail := (if tail l1 = NextSlot e then NextSlot f else tail l1), is_runnable := True\<rparr>"
  have arm: "armLater f l1 = Some l2"
    using l1 f alive assms(5)
    by (simp add: armLater_def link_event_def read_slot_def write_slot_def write_prev_def setRunnable_def l2_def Let_def)
  have "linked l2 HeadSlot (xs @ lasts q)"
    using l1(1) f by (elim linked_cong) (auto simp: l2_def slot_content_def dest: in_set_butlastD)
  moreover have "slot_content l2 (slot_after HeadSlot (xs @ lasts q)) = None"
    using l1(2) f last_in_set [of "xs @ lasts q"]
    by (cases "xs @ lasts q = []") (auto simp: l2_def slot_content_def slot_after_def)
  moreover have "isArmed f l2" by (simp add: l2_def isArmed_def)
  moreover have "\<exists>l1. Event_delete e l = Some l1 \<and> armLater f l1 = None"
    using dis l1 f by (simp add: Event_delete_def armLater_def link_event_def read_slot_def)
  ultimately show ?thesis using dis arm by blast
qed

theorem disarm_leaves_later_insert_point_witness:
  "\<exists>l l1 l2. run_calls call_loop [ArmLater 7] loop_started = Some l \<and> disarm 7 l = Some l1
     \<and> armLater 5 l1 = Some l2 \<and> isArmed 5 l2 \<and> head l2 = None"
proof -
  obtain l where l: "run_calls call_loop [ArmLater 7] loop_started = Some l"
    "loop_in_scope l (fold call_sched [ArmLater 7] sched_empty)"
    using evq.calls_refine [OF loop_started_in_scope, of "[ArmLater 7]"] by (auto simp: evq_call simp del: fold_simps)
  have q: "fold call_sched [ArmLater 7] sched_empty = \<lparr>nexts = [], laters = [7], lasts = []\<rparr>"
    by (simp add: sched_empty_def sched_later_def sched_queue_def)
  from disarm_leaves_later_insert_point [of l "\<lparr>nexts = [], laters = [7], lasts = []\<rparr>" "[]" 7 5] l
  show ?thesis unfolding q by (auto simp: loop_in_scope_def sched_queue_def)
qed

end
