(* ===== verification/Conveyor.thy ===== *)
theory Conveyor
  imports Event_Loop
begin

text \<open>
  Conveyors: the nodes of \<open>source/forstio/async.h\<close>, \<open>async.tmpl.h\<close> and \<open>async.cpp\<close> that pass results
  along a chain, driven by the event loop of \<open>Event_Loop\<close>.

  The objects live in an explicit store. An object has one address, which also names its \<open>Event\<close> and
  its \<open>ConveyorStorage\<close> part: \<open>st_parent\<close> and \<open>st_child\<close> are the members \<open>parent\<close> and \<open>child_storage\<close> of
  the latter. Using an object that has been destroyed, or a null pointer, is \<open>None\<close>, and so is a
  failed \<open>assert\<close> (\<open>SAW_ASSERT\<close> asserts before it tests). Allocation succeeds.

  The values of all types \<open>T\<close> of a chain are one type \<open>'v\<close>. The functions given to \<open>then\<close> act on the
  state \<open>'u\<close> of the program around the library; they do not call the library.
\<close>

section \<open>Objects\<close>

type_synonym addr = nat

text \<open>
  How a function given to \<open>then\<close> ends: with a result, by an exception, or not at all (a failed assertion,
  undefined behaviour, an endless loop).
\<close>

datatype 'v outcome = Returns "'v error_or" | Throws_bad_alloc | Throws_exception | Fails

type_synonym ('v, 'u) func = "'v \<Rightarrow> 'u \<Rightarrow> 'v outcome \<times> 'u"

text \<open>An error function is called outside of the \<open>try\<close> block: an exception (\<open>None\<close>) ends the program.\<close>

type_synonym ('v, 'u) error_func = "error \<Rightarrow> 'u \<Rightarrow> ('v error_or \<times> 'u) option"

text \<open>
  One constructor per class, with the members of the class in the order of the source.
  \<open>MergeConveyorNode\<close> holds the vector of the \<open>MergeConveyorNodeData\<close> it shares with no other owner.
\<close>

datatype ('v, 'u) obj =
    AdaptConveyorNode "addr option" "'v error_or list"
  | QueueBufferConveyorNode "addr option" "'v error_or list" size_t
  | AttachConveyorNode "addr option"
  | ConvertConveyorNode "addr option" "('v, 'u) func" "('v, 'u) error_func"
  | SinkConveyorNode "addr option" "addr option"
  | ImmediateConveyorNode "'v error_or" "8 word"
  | MergeConveyorNode "addr list" size_t
  | Appendage "addr option" addr "'v error_or option"
  | ConveyorSinks "addr option list" "addr list"

record ('v, 'u) world =
  obj_at :: "addr \<Rightarrow> ('v, 'u) obj option"
  st_parent :: "addr \<Rightarrow> addr option"
  st_child :: "addr \<Rightarrow> addr option"
  feeder_at :: "addr \<Rightarrow> addr option option"
  daemon_sink :: "addr option"
  next_addr :: addr
  user :: 'u

type_synonym ('v, 'u) state = "event_loop \<times> ('v, 'u) world"

definition set_obj :: "addr \<Rightarrow> ('v, 'u) obj \<Rightarrow> ('v, 'u) state \<Rightarrow> ('v, 'u) state" where
  "set_obj a n st = (fst st, (snd st)\<lparr>obj_at := (obj_at (snd st))(a := Some n)\<rparr>)"

definition set_child_storage :: "addr \<Rightarrow> addr option \<Rightarrow> ('v, 'u) state \<Rightarrow> ('v, 'u) state" where
  "set_child_storage a c st = (fst st, (snd st)\<lparr>st_child := (st_child (snd st))(a := c)\<rparr>)"

definition set_parent :: "addr \<Rightarrow> addr option \<Rightarrow> ('v, 'u) state \<Rightarrow> ('v, 'u) state" where
  "set_parent a p st = (fst st, (snd st)\<lparr>st_parent := (st_parent (snd st))(a := p)\<rparr>)"

definition set_user :: "'u \<Rightarrow> ('v, 'u) state \<Rightarrow> ('v, 'u) state" where
  "set_user u st = (fst st, (snd st)\<lparr>user := u\<rparr>)"

text \<open>A call of one of the functions of \<open>Event\<close>.\<close>

definition on_loop :: "(event_loop \<Rightarrow> event_loop option) \<Rightarrow> ('v, 'u) state \<Rightarrow> ('v, 'u) state option" where
  "on_loop f st = do { l \<leftarrow> f (fst st); Some (l, snd st) }"

lemmas set_defs = set_obj_def set_child_storage_def set_parent_def set_user_def

section \<open>Storage sizes\<close>

definition Appendage_queued :: "addr \<Rightarrow> ('v, 'u) state \<Rightarrow> size_t option" where
  "Appendage_queued a st = (case obj_at (snd st) a of
     Some (Appendage _ merger error_or_value) \<Rightarrow> Some (if error_or_value \<noteq> None then 1 else 0)
   | _ \<Rightarrow> None)"

fun MergeConveyorNode_queued :: "addr list \<Rightarrow> size_t \<Rightarrow> ('v, 'u) state \<Rightarrow> size_t option" where
  "MergeConveyorNode_queued [] queue_count st = Some queue_count"
| "MergeConveyorNode_queued (iter # iters) queue_count st = do {
     n \<leftarrow> Appendage_queued iter st;
     MergeConveyorNode_queued iters (sz_add queue_count n) st
   }"

text \<open>The functions \<open>space\<close> and \<open>queued\<close> of the classes that are a \<open>ConveyorStorage\<close>, one by one.\<close>

definition AdaptConveyorNode_space :: "'v error_or list \<Rightarrow> size_t" where [simp]:
  "AdaptConveyorNode_space storage = sz_sub (SIZE_MOD - 1) (length storage)"

definition AdaptConveyorNode_queued :: "'v error_or list \<Rightarrow> size_t" where [simp]:
  "AdaptConveyorNode_queued storage = length storage"

definition QueueBufferConveyorNode_space :: "'v error_or list \<Rightarrow> size_t \<Rightarrow> size_t" where [simp]:
  "QueueBufferConveyorNode_space storage max_store = sz_sub max_store (length storage)"

definition QueueBufferConveyorNode_queued :: "'v error_or list \<Rightarrow> size_t" where [simp]:
  "QueueBufferConveyorNode_queued storage = length storage"

definition SinkConveyorNode_space :: size_t where [simp]:
  "SinkConveyorNode_space = 1"

definition SinkConveyorNode_queued :: size_t where [simp]:
  "SinkConveyorNode_queued = 0"

definition ImmediateConveyorNode_space :: size_t where [simp]:
  "ImmediateConveyorNode_space = 0"

definition ImmediateConveyorNode_queued :: "8 word \<Rightarrow> size_t" where [simp]:
  "ImmediateConveyorNode_queued retrieved = (if retrieved > 1 then 0 else 1)"

definition MergeConveyorNode_space :: size_t where [simp]:
  "MergeConveyorNode_space = 0"

definition Appendage_space :: "'v error_or option \<Rightarrow> size_t" where [simp]:
  "Appendage_space error_or_value = (if error_or_value \<noteq> None then 0 else 1)"

text \<open>The virtual functions: the call on a storage known by its address.\<close>

definition space :: "addr \<Rightarrow> ('v, 'u) state \<Rightarrow> size_t option" where
  "space a st = do {
     n \<leftarrow> obj_at (snd st) a;
     case n of
       AdaptConveyorNode _ storage \<Rightarrow> Some (AdaptConveyorNode_space storage)
     | QueueBufferConveyorNode _ storage max_store \<Rightarrow> Some (QueueBufferConveyorNode_space storage max_store)
     | SinkConveyorNode _ _ \<Rightarrow> Some SinkConveyorNode_space
     | ImmediateConveyorNode _ _ \<Rightarrow> Some ImmediateConveyorNode_space
     | MergeConveyorNode _ _ \<Rightarrow> Some MergeConveyorNode_space
     | Appendage _ _ error_or_value \<Rightarrow> Some (Appendage_space error_or_value)
     | _ \<Rightarrow> None
   }"

definition queued :: "addr \<Rightarrow> ('v, 'u) state \<Rightarrow> size_t option" where
  "queued a st = do {
     n \<leftarrow> obj_at (snd st) a;
     case n of
       AdaptConveyorNode _ storage \<Rightarrow> Some (AdaptConveyorNode_queued storage)
     | QueueBufferConveyorNode _ storage _ \<Rightarrow> Some (QueueBufferConveyorNode_queued storage)
     | SinkConveyorNode _ _ \<Rightarrow> Some SinkConveyorNode_queued
     | ImmediateConveyorNode _ retrieved \<Rightarrow> Some (ImmediateConveyorNode_queued retrieved)
     | MergeConveyorNode appendages _ \<Rightarrow> MergeConveyorNode_queued appendages 0 st
     | Appendage _ _ _ \<Rightarrow> Appendage_queued a st
     | _ \<Rightarrow> None
   }"

section \<open>Taking a result\<close>

text \<open>\<open>PropagateError\<close>, the default error function.\<close>

definition PropagateError :: "('v, 'u) error_func" where
  "PropagateError error u = Some (IsError error, u)"

text \<open>The part of \<open>ConvertConveyorNode::getImpl\<close> after the result of the child has been fetched.\<close>

definition convert_result ::
    "('v, 'u) func \<Rightarrow> ('v, 'u) error_func \<Rightarrow> 'v error_or \<Rightarrow> 'u \<Rightarrow> ('v error_or \<times> 'u) option" where
  "convert_result func error_func dep_eov u =
     (case dep_eov of
        IsValue v \<Rightarrow> (case func v u of
            (Returns eov, u) \<Rightarrow> Some (eov, u)
          | (Throws_bad_alloc, u) \<Rightarrow> Some (IsError (criticalError ''Out of memory''), u)
          | (Throws_exception, u) \<Rightarrow> Some (IsError (criticalError
              ''Exception in chain occured. Return ErrorOr<T> if you want to handle errors which are recoverable''), u)
          | (Fails, u) \<Rightarrow> None)
      | IsError error \<Rightarrow> error_func error u)"

text \<open>A loop of \<open>MergeConveyorNode::getResult\<close>: the first index of \<open>is\<close> whose appendage holds a value.\<close>

fun merge_scan :: "nat list \<Rightarrow> addr list \<Rightarrow> ('v, 'u) state \<Rightarrow> nat option option" where
  "merge_scan [] appendages st = Some None"
| "merge_scan (i # is) appendages st = do {
     n \<leftarrow> Appendage_queued (appendages ! i) st;
     if n > 0 then Some (Some i) else merge_scan is appendages st
   }"

text \<open>The bodies of these loops: the value is moved out of the appendage.\<close>

definition merge_take :: "addr \<Rightarrow> addr list \<Rightarrow> nat \<Rightarrow> ('v, 'u) state \<Rightarrow> ('v error_or \<times> ('v, 'u) state) option" where
  "merge_take a appendages i st = (case obj_at (snd st) (appendages ! i) of
     Some (Appendage child merger (Some eov)) \<Rightarrow>
       Some (eov, set_obj a (MergeConveyorNode appendages (i + 1)) (set_obj (appendages ! i) (Appendage child merger None) st))
   | _ \<Rightarrow> None)"

definition MergeConveyorNode_getResult ::
    "addr \<Rightarrow> addr list \<Rightarrow> size_t \<Rightarrow> ('v, 'u) state \<Rightarrow> ('v error_or \<times> ('v, 'u) state) option" where
  "MergeConveyorNode_getResult a appendages next_appendage st = do {
     let next_appendage = min (length appendages) next_appendage;
     r \<leftarrow> merge_scan [next_appendage..<length appendages] appendages st;
     case r of
       Some i \<Rightarrow> merge_take a appendages i st
     | None \<Rightarrow> do {
         r \<leftarrow> merge_scan [0..<next_appendage] appendages st;
         case r of
           Some i \<Rightarrow> merge_take a appendages i st
         | None \<Rightarrow> Some (IsError (criticalError ''No value in Merge Appendages''),
                         set_obj a (MergeConveyorNode appendages next_appendage) st)
       }
   }"

text \<open>
  Two functions of an appendage that nothing in the library calls: \<open>getAppendageResult\<close> and
  \<open>childStorageHasElementQueued\<close>.
\<close>

definition Appendage_getAppendageResult :: "addr \<Rightarrow> ('v, 'u) state \<Rightarrow> ('v error_or \<times> ('v, 'u) state) option" where
  "Appendage_getAppendageResult a st = (case obj_at (snd st) a of
     Some (Appendage child merger error_or_value) \<Rightarrow> do {
       n \<leftarrow> Appendage_queued a st;
       assert_that (n > 0);
       eov \<leftarrow> error_or_value;
       Some (eov, set_obj a (Appendage child merger None) st)
     }
   | _ \<Rightarrow> None)"

definition Appendage_childStorageHasElementQueued :: "addr \<Rightarrow> ('v, 'u) state \<Rightarrow> bool option" where
  "Appendage_childStorageHasElementQueued a st = (case st_child (snd st) a of
     Some c \<Rightarrow> do { n \<leftarrow> queued c st; Some (n > 0) }
   | None \<Rightarrow> Some False)"

text \<open>
  \<open>getResult\<close>. The argument \<open>err_or_val\<close> of the code is a default constructed \<open>ErrorOr\<close> at every call;
  the model returns its value after the call. Only \<open>then\<close> and \<open>attach\<close> nodes ask their child. The
  functions of the other classes:
\<close>

definition AdaptConveyorNode_getResult ::
    "addr \<Rightarrow> addr option \<Rightarrow> 'v error_or list \<Rightarrow> ('v, 'u) state \<Rightarrow> ('v error_or \<times> ('v, 'u) state) option" where [simp]:
  "AdaptConveyorNode_getResult a feeder storage st = (case storage of
     front # rest \<Rightarrow> Some (front, set_obj a (AdaptConveyorNode feeder rest) st)
   | [] \<Rightarrow> Some (IsError (criticalError ''Signal for retrieval of storage sent even though no data is present''), st))"

text \<open>\<open>front\<close> of an empty queue is undefined.\<close>

definition QueueBufferConveyorNode_getResult ::
    "addr \<Rightarrow> addr option \<Rightarrow> 'v error_or list \<Rightarrow> size_t \<Rightarrow> ('v, 'u) state \<Rightarrow> ('v error_or \<times> ('v, 'u) state) option" where [simp]:
  "QueueBufferConveyorNode_getResult a child storage max_store st = (case storage of
     front # rest \<Rightarrow> Some (front, set_obj a (QueueBufferConveyorNode child rest max_store) st)
   | [] \<Rightarrow> None)"

definition SinkConveyorNode_getResult :: "'v error_or" where [simp]:
  "SinkConveyorNode_getResult = IsError (criticalError ''In a sink node no result can be returned'')"

definition ImmediateConveyorNode_getResult ::
    "addr \<Rightarrow> 'v error_or \<Rightarrow> 8 word \<Rightarrow> ('v, 'u) state \<Rightarrow> 'v error_or \<times> ('v, 'u) state" where [simp]:
  "ImmediateConveyorNode_getResult a val retrieved st =
     (if retrieved > 0 then IsError (makeError ''Already taken value'' Exhausted) else val,
      if ImmediateConveyorNode_queued retrieved > 0 then set_obj a (ImmediateConveyorNode val (retrieved + 1)) st else st)"

partial_function (option) getResult :: "addr \<Rightarrow> ('v, 'u) state \<Rightarrow> ('v error_or \<times> ('v, 'u) state) option" where
  "getResult a st = do {
     n \<leftarrow> obj_at (snd st) a;
     case n of
       AdaptConveyorNode feeder storage \<Rightarrow> AdaptConveyorNode_getResult a feeder storage st
     | QueueBufferConveyorNode child storage max_store \<Rightarrow> QueueBufferConveyorNode_getResult a child storage max_store st
     | AttachConveyorNode child \<Rightarrow> (case child of
           Some c \<Rightarrow> getResult c st
         | None \<Rightarrow> Some (ErrorOr_default, st))
     | ConvertConveyorNode child func error_func \<Rightarrow> (case child of
           Some c \<Rightarrow> do {
             (dep_eov, st) \<leftarrow> getResult c st;
             (eov, u) \<leftarrow> convert_result func error_func dep_eov (user (snd st));
             Some (eov, set_user u st)
           }
         | None \<Rightarrow> Some (IsError (criticalError ''Conveyor doesn't have child''), st))
     | SinkConveyorNode _ _ \<Rightarrow> Some (SinkConveyorNode_getResult, st)
     | ImmediateConveyorNode val retrieved \<Rightarrow> Some (ImmediateConveyorNode_getResult a val retrieved st)
     | MergeConveyorNode appendages next_appendage \<Rightarrow> MergeConveyorNode_getResult a appendages next_appendage st
     | _ \<Rightarrow> None
   }"

section \<open>Destruction\<close>

definition unlinkChild :: "addr \<Rightarrow> ('v, 'u) state \<Rightarrow> ('v, 'u) state option" where
  "unlinkChild p st = do { n \<leftarrow> obj_at (snd st) p; Some (set_child_storage p None st) }"

definition ConveyorStorage_delete :: "addr \<Rightarrow> ('v, 'u) state \<Rightarrow> ('v, 'u) state option" where
  "ConveyorStorage_delete a st = (case st_parent (snd st) a of None \<Rightarrow> Some st | Some p \<Rightarrow> unlinkChild p st)"

text \<open>Which class has which base.\<close>

fun is_event :: "('v, 'u) obj \<Rightarrow> bool" where
  "is_event (AttachConveyorNode _) \<longleftrightarrow> False"
| "is_event (ConvertConveyorNode _ _ _) \<longleftrightarrow> False"
| "is_event (Appendage _ _ _) \<longleftrightarrow> False"
| "is_event _ \<longleftrightarrow> True"

fun is_storage :: "('v, 'u) obj \<Rightarrow> bool" where
  "is_storage (AttachConveyorNode _) \<longleftrightarrow> False"
| "is_storage (ConvertConveyorNode _ _ _) \<longleftrightarrow> False"
| "is_storage (ConveyorSinks _ _) \<longleftrightarrow> False"
| "is_storage _ \<longleftrightarrow> True"

text \<open>The objects behind the \<open>Own\<close> members, which the destructor of the object destroys.\<close>

fun owned :: "('v, 'u) obj \<Rightarrow> addr list" where
  "owned (AdaptConveyorNode _ _) = []"
| "owned (QueueBufferConveyorNode child _ _) = (case child of None \<Rightarrow> [] | Some c \<Rightarrow> [c])"
| "owned (AttachConveyorNode child) = (case child of None \<Rightarrow> [] | Some c \<Rightarrow> [c])"
| "owned (ConvertConveyorNode child _ _) = (case child of None \<Rightarrow> [] | Some c \<Rightarrow> [c])"
| "owned (SinkConveyorNode child _) = (case child of None \<Rightarrow> [] | Some c \<Rightarrow> [c])"
| "owned (ImmediateConveyorNode _ _) = []"
| "owned (MergeConveyorNode appendages _) = appendages"
| "owned (Appendage child _ _) = (case child of None \<Rightarrow> [] | Some c \<Rightarrow> [c])"
| "owned (ConveyorSinks sink_nodes _) = List.map_filter (\<lambda>x. x) sink_nodes"

definition setFeedee :: "addr \<Rightarrow> addr option \<Rightarrow> ('v, 'u) state \<Rightarrow> ('v, 'u) state option" where
  "setFeedee f feedee st = (case feeder_at (snd st) f of
     None \<Rightarrow> None
   | Some _ \<Rightarrow> Some (fst st, (snd st)\<lparr>feeder_at := (feeder_at (snd st))(f := Some feedee)\<rparr>))"

text \<open>The body of the destructor, which only \<open>AdaptConveyorNode\<close> has.\<close>

definition destructor_body :: "addr \<Rightarrow> ('v, 'u) obj \<Rightarrow> ('v, 'u) state \<Rightarrow> ('v, 'u) state option" where
  "destructor_body a n st = (case n of
     AdaptConveyorNode (Some feeder) storage \<Rightarrow> do {
       st \<leftarrow> setFeedee feeder None st;
       Some (set_obj a (AdaptConveyorNode None storage) st)
     }
   | _ \<Rightarrow> Some st)"

text \<open>The destructors of the bases, \<open>Event\<close> before \<open>ConveyorStorage\<close>; then the memory is freed.\<close>

definition destroy_bases :: "addr \<Rightarrow> ('v, 'u) obj \<Rightarrow> ('v, 'u) state \<Rightarrow> ('v, 'u) state option" where
  "destroy_bases a n st = do {
     st \<leftarrow> (if is_event n then on_loop (Event_delete a) st else Some st);
     st \<leftarrow> (if is_storage n then ConveyorStorage_delete a st else Some st);
     Some (fst st, (snd st)\<lparr>obj_at := (obj_at (snd st))(a := None)\<rparr>)
   }"

partial_function (option) destroy_all :: "addr list \<Rightarrow> ('v, 'u) state \<Rightarrow> ('v, 'u) state option" where
  "destroy_all as st = (case as of
     [] \<Rightarrow> Some st
   | a # as \<Rightarrow> do {
       n \<leftarrow> obj_at (snd st) a;
       st \<leftarrow> destructor_body a n st;
       st \<leftarrow> destroy_all (owned n) st;
       st \<leftarrow> destroy_bases a n st;
       destroy_all as st
     })"

text \<open>\<open>Own<T>::reset\<close> of a pointer that has been replaced.\<close>

definition destroy :: "addr option \<Rightarrow> ('v, 'u) state \<Rightarrow> ('v, 'u) state option" where
  "destroy p st = (case p of None \<Rightarrow> Some st | Some a \<Rightarrow> destroy_all [a] st)"

section \<open>Notifications between storages\<close>

text \<open>
  \<open>childHasFired\<close>. The adapt, immediate and merge nodes have no child that could fire
  (\<open>assert(false)\<close>).
\<close>

definition QueueBufferConveyorNode_childHasFired ::
    "addr \<Rightarrow> addr option \<Rightarrow> 'v error_or list \<Rightarrow> size_t \<Rightarrow> ('v, 'u) state \<Rightarrow> ('v, 'u) state option" where
  "QueueBufferConveyorNode_childHasFired a child storage max_store st =
     (case child of
        Some c \<Rightarrow>
          if length storage < max_store then do {
            (eov, st) \<leftarrow> getResult c st;
            let st = (case eov of
                IsError error \<Rightarrow> if isCritical error then set_child_storage a None st else st
              | IsValue _ \<Rightarrow> st);
            let st = set_obj a (QueueBufferConveyorNode child (storage @ [eov]) max_store) st;
            if \<not> isArmed a (fst st) then on_loop (armLater a) st else Some st
          } else Some st
      | None \<Rightarrow> Some st)"

text \<open>\<open>ConveyorSinks::fail\<close> has an empty body.\<close>

definition ConveyorSinks_fail :: "addr \<Rightarrow> error \<Rightarrow> ('v, 'u) state \<Rightarrow> ('v, 'u) state option" where
  "ConveyorSinks_fail s error st = (case obj_at (snd st) s of Some (ConveyorSinks _ _) \<Rightarrow> Some st | _ \<Rightarrow> None)"

definition SinkConveyorNode_childHasFired ::
    "addr \<Rightarrow> addr option \<Rightarrow> addr option \<Rightarrow> ('v, 'u) state \<Rightarrow> ('v, 'u) state option" where
  "SinkConveyorNode_childHasFired a child conveyor_sink st =
     (case child of
        Some c \<Rightarrow> do {
          (dep_eov, st) \<leftarrow> getResult c st;
          case dep_eov of
            IsError error \<Rightarrow> do {
              st \<leftarrow> (if isCritical error \<and> \<not> isArmed a (fst st) then on_loop (armLast a) st else Some st);
              case conveyor_sink of Some s \<Rightarrow> ConveyorSinks_fail s error st | None \<Rightarrow> Some st
            }
          | IsValue _ \<Rightarrow> Some st
        }
      | None \<Rightarrow> Some st)"

definition Appendage_childHasFired ::
    "addr \<Rightarrow> addr option \<Rightarrow> addr \<Rightarrow> 'v error_or option \<Rightarrow> ('v, 'u) state \<Rightarrow> ('v, 'u) state option" where
  "Appendage_childHasFired a child merger error_or_value st = do {
     assert_that (error_or_value = None);
     c \<leftarrow> child;
     (eov, st) \<leftarrow> getResult c st;
     let st = set_obj a (Appendage child merger (Some eov)) st;
     m \<leftarrow> obj_at (snd st) merger;
     if \<not> isArmed merger (fst st) then on_loop (armLater merger) st else Some st
   }"

definition childHasFired :: "addr \<Rightarrow> ('v, 'u) state \<Rightarrow> ('v, 'u) state option" where
  "childHasFired a st = do {
     n \<leftarrow> obj_at (snd st) a;
     case n of
       QueueBufferConveyorNode child storage max_store \<Rightarrow>
         QueueBufferConveyorNode_childHasFired a child storage max_store st
     | SinkConveyorNode child conveyor_sink \<Rightarrow> SinkConveyorNode_childHasFired a child conveyor_sink st
     | Appendage child merger error_or_value \<Rightarrow> Appendage_childHasFired a child merger error_or_value st
     | _ \<Rightarrow> None
   }"

text \<open>\<open>parentHasFired\<close>. An appendage passes the call on to the storage below it.\<close>

definition AdaptConveyorNode_parentHasFired :: "addr \<Rightarrow> ('v, 'u) state \<Rightarrow> ('v, 'u) state option" where [simp]:
  "AdaptConveyorNode_parentHasFired a st = do {
     p \<leftarrow> st_parent (snd st) a;
     s \<leftarrow> space p st;
     Some st
   }"

definition QueueBufferConveyorNode_parentHasFired ::
    "addr \<Rightarrow> 'v error_or list \<Rightarrow> ('v, 'u) state \<Rightarrow> ('v, 'u) state option" where [simp]:
  "QueueBufferConveyorNode_parentHasFired a storage st = do {
     p \<leftarrow> st_parent (snd st) a;
     s \<leftarrow> space p st;
     if s = 0 then Some st
     else if QueueBufferConveyorNode_queued storage > 0 then on_loop (armLater a) st else Some st
   }"

definition ImmediateConveyorNode_parentHasFired :: "addr \<Rightarrow> 8 word \<Rightarrow> ('v, 'u) state \<Rightarrow> ('v, 'u) state option" where [simp]:
  "ImmediateConveyorNode_parentHasFired a retrieved st = do {
     p \<leftarrow> st_parent (snd st) a;
     s \<leftarrow> space p st;
     assert_that (s > 0);
     if ImmediateConveyorNode_queued retrieved > 0 then on_loop (armNext a) st else Some st
   }"

definition MergeConveyorNode_parentHasFired :: "addr \<Rightarrow> addr list \<Rightarrow> ('v, 'u) state \<Rightarrow> ('v, 'u) state option" where [simp]:
  "MergeConveyorNode_parentHasFired a appendages st = do {
     p \<leftarrow> st_parent (snd st) a;
     n \<leftarrow> MergeConveyorNode_queued appendages 0 st;
     if n > 0 then do {
       s \<leftarrow> space p st;
       if s > 0 then on_loop (armLater a) st else Some st
     } else Some st
   }"

partial_function (option) parentHasFired :: "addr \<Rightarrow> ('v, 'u) state \<Rightarrow> ('v, 'u) state option" where
  "parentHasFired a st = do {
     n \<leftarrow> obj_at (snd st) a;
     case n of
       AdaptConveyorNode _ _ \<Rightarrow> AdaptConveyorNode_parentHasFired a st
     | QueueBufferConveyorNode _ storage _ \<Rightarrow> QueueBufferConveyorNode_parentHasFired a storage st
     | SinkConveyorNode _ _ \<Rightarrow> Some st
     | ImmediateConveyorNode _ retrieved \<Rightarrow> ImmediateConveyorNode_parentHasFired a retrieved st
     | MergeConveyorNode appendages _ \<Rightarrow> MergeConveyorNode_parentHasFired a appendages st
     | Appendage _ _ _ \<Rightarrow> (case st_child (snd st) a of Some c \<Rightarrow> parentHasFired c st | None \<Rightarrow> Some st)
     | _ \<Rightarrow> None
   }"

declare getResult.simps [code] destroy_all.simps [code] parentHasFired.simps [code]

section \<open>Firing\<close>

definition AdaptConveyorNode_fire :: "addr \<Rightarrow> ('v, 'u) state \<Rightarrow> ('v, 'u) state option" where
  "AdaptConveyorNode_fire a st = (case st_parent (snd st) a of
     None \<Rightarrow> Some st
   | Some p \<Rightarrow> do {
       st \<leftarrow> childHasFired p st;
       n \<leftarrow> queued a st;
       if n > 0 then on_loop (armLater a) st else Some st
     })"

text \<open>The first statement of \<open>QueueBufferConveyorNode::fire\<close>: a critical error in front ends the chain below.\<close>

definition QueueBufferConveyorNode_drop_child ::
    "addr \<Rightarrow> addr option \<Rightarrow> 'v error_or list \<Rightarrow> size_t \<Rightarrow> ('v, 'u) state \<Rightarrow> ('v, 'u) state option" where
  "QueueBufferConveyorNode_drop_child a child storage max_store st =
     (case (child, storage) of
        (Some c, IsError error # _) \<Rightarrow>
          if isCritical error then do {
            st \<leftarrow> destroy (Some c) (set_obj a (QueueBufferConveyorNode None storage max_store) st);
            Some (set_child_storage a None st)
          } else Some st
      | _ \<Rightarrow> Some st)"

definition QueueBufferConveyorNode_fire ::
    "addr \<Rightarrow> addr option \<Rightarrow> 'v error_or list \<Rightarrow> size_t \<Rightarrow> ('v, 'u) state \<Rightarrow> ('v, 'u) state option" where
  "QueueBufferConveyorNode_fire a child storage max_store st = do {
     st \<leftarrow> QueueBufferConveyorNode_drop_child a child storage max_store st;
     s \<leftarrow> space a st;
     let has_space_before_fire = s > 0;
     st \<leftarrow> (case st_parent (snd st) a of
         None \<Rightarrow> Some st
       | Some p \<Rightarrow> do {
           st \<leftarrow> childHasFired p st;
           n \<leftarrow> queued a st;
           if n > 0 then do {
             s \<leftarrow> space p st;
             if s > 0 then on_loop (armLater a) st else Some st
           } else Some st
         });
     case st_child (snd st) a of
       Some c \<Rightarrow> if \<not> has_space_before_fire then parentHasFired c st else Some st
     | None \<Rightarrow> Some st
   }"

definition ImmediateConveyorNode_fire :: "addr \<Rightarrow> ('v, 'u) state \<Rightarrow> ('v, 'u) state option" where
  "ImmediateConveyorNode_fire a st = (case st_parent (snd st) a of
     None \<Rightarrow> Some st
   | Some p \<Rightarrow> do {
       st \<leftarrow> childHasFired p st;
       n \<leftarrow> queued a st;
       if n > 0 then do {
         s \<leftarrow> space p st;
         if s > 0 then on_loop (armLast a) st else Some st
       } else Some st
     })"

definition MergeConveyorNode_fire :: "addr \<Rightarrow> ('v, 'u) state \<Rightarrow> ('v, 'u) state option" where
  "MergeConveyorNode_fire a st = do {
     n \<leftarrow> queued a st;
     assert_that (n > 0);
     case st_parent (snd st) a of
       None \<Rightarrow> Some st
     | Some p \<Rightarrow> do {
         st \<leftarrow> childHasFired p st;
         n \<leftarrow> queued a st;
         if n > 0 then do {
           s \<leftarrow> space p st;
           if s > 0 then on_loop (armLater a) st else Some st
         } else Some st
       }
   }"

definition destroySinkConveyorNode :: "addr \<Rightarrow> addr \<Rightarrow> ('v, 'u) state \<Rightarrow> ('v, 'u) state option" where
  "destroySinkConveyorNode s node st = (case obj_at (snd st) s of
     Some (ConveyorSinks sink_nodes delete_nodes) \<Rightarrow> do {
       st \<leftarrow> (if \<not> isArmed s (fst st) then on_loop (armLast s) st else Some st);
       Some (set_obj s (ConveyorSinks sink_nodes (delete_nodes @ [node])) st)
     }
   | _ \<Rightarrow> None)"

definition SinkConveyorNode_fire ::
    "addr \<Rightarrow> addr option \<Rightarrow> addr option \<Rightarrow> ('v, 'u) state \<Rightarrow> ('v, 'u) state option" where
  "SinkConveyorNode_fire a child conveyor_sink st = do {
     st \<leftarrow> destroy child (set_obj a (SinkConveyorNode None conveyor_sink) st);
     case conveyor_sink of
       Some s \<Rightarrow> do {
         st \<leftarrow> destroySinkConveyorNode s a st;
         Some (set_obj a (SinkConveyorNode None None) st)
       }
     | None \<Rightarrow> Some st
   }"

text \<open>
  \<open>std::remove_if\<close> on the list of owned sink nodes, without the erasure of the range it returns. From
  the first match on, every element that is kept is moved to the position \<open>first\<close>; the move assignment
  of \<open>std::unique_ptr\<close> destroys what that position owned and leaves a null pointer behind.
\<close>

fun sinks_shift :: "addr \<Rightarrow> addr \<Rightarrow> nat \<Rightarrow> nat list \<Rightarrow> ('v, 'u) state \<Rightarrow> ('v, 'u) state option" where
  "sinks_shift s node first [] st = Some st"
| "sinks_shift s node first (i # is) st = (case obj_at (snd st) s of
     Some (ConveyorSinks sink_nodes delete_nodes) \<Rightarrow>
       if sink_nodes ! i = Some node then sinks_shift s node first is st
       else do {
         let st = set_obj s (ConveyorSinks (sink_nodes[first := sink_nodes ! i, i := None]) delete_nodes) st;
         st \<leftarrow> destroy (sink_nodes ! first) st;
         sinks_shift s node (first + 1) is st
       }
   | _ \<Rightarrow> None)"

fun find_sink :: "addr \<Rightarrow> addr option list \<Rightarrow> nat" where
  "find_sink node [] = 0"
| "find_sink node (x # xs) = (if x = Some node then 0 else Suc (find_sink node xs))"

definition remove_if_sink :: "addr \<Rightarrow> addr \<Rightarrow> addr option list \<Rightarrow> ('v, 'u) state \<Rightarrow> ('v, 'u) state option" where
  "remove_if_sink s node sink_nodes st =
     (let first = find_sink node sink_nodes in sinks_shift s node first [first + 1..<length sink_nodes] st)"

text \<open>The loop of \<open>ConveyorSinks::fire\<close>, once per queued node; destroying a node queues no further ones.\<close>

fun ConveyorSinks_fire :: "addr \<Rightarrow> addr list \<Rightarrow> ('v, 'u) state \<Rightarrow> ('v, 'u) state option" where
  "ConveyorSinks_fire s [] st = Some st"
| "ConveyorSinks_fire s (node # nodes) st = (case obj_at (snd st) s of
     Some (ConveyorSinks sink_nodes _) \<Rightarrow> do {
       st \<leftarrow> remove_if_sink s node sink_nodes st;
       case obj_at (snd st) s of
         Some (ConveyorSinks sink_nodes _) \<Rightarrow> ConveyorSinks_fire s nodes (set_obj s (ConveyorSinks sink_nodes nodes) st)
       | _ \<Rightarrow> None
     }
   | _ \<Rightarrow> None)"

text \<open>The virtual function \<open>fire\<close>, as the event loop calls it.\<close>

definition fire :: "addr \<Rightarrow> ('v, 'u) state \<Rightarrow> ('v, 'u) state option" where
  "fire a st = do {
     n \<leftarrow> obj_at (snd st) a;
     case n of
       AdaptConveyorNode _ _ \<Rightarrow> AdaptConveyorNode_fire a st
     | QueueBufferConveyorNode child storage max_store \<Rightarrow> QueueBufferConveyorNode_fire a child storage max_store st
     | SinkConveyorNode child conveyor_sink \<Rightarrow> SinkConveyorNode_fire a child conveyor_sink st
     | ImmediateConveyorNode _ _ \<Rightarrow> ImmediateConveyorNode_fire a st
     | MergeConveyorNode _ _ \<Rightarrow> MergeConveyorNode_fire a st
     | ConveyorSinks _ delete_nodes \<Rightarrow> ConveyorSinks_fire a delete_nodes st
     | _ \<Rightarrow> None
   }"

section \<open>Building chains\<close>

text \<open>\<open>new\<close>: the constructor of \<open>Event\<close> needs the current event loop.\<close>

definition new_obj :: "('v, 'u) obj \<Rightarrow> ('v, 'u) state \<Rightarrow> (addr \<times> ('v, 'u) state) option" where
  "new_obj n st = do {
     let a = next_addr (snd st);
     assert_that (is_event n \<longrightarrow> entered (fst st));
     let l = (if is_event n then Event_new a (fst st) else fst st);
     Some (a, l, (snd st)\<lparr>obj_at := (obj_at (snd st))(a := Some n), st_parent := (st_parent (snd st))(a := None),
                          st_child := (st_child (snd st))(a := None), next_addr := Suc a\<rparr>)
   }"

text \<open>The constructor of a storage takes the storage below it.\<close>

definition new_storage :: "('v, 'u) obj \<Rightarrow> addr option \<Rightarrow> ('v, 'u) state \<Rightarrow> (addr \<times> ('v, 'u) state) option" where
  "new_storage n child_store st = do {
     (a, st) \<leftarrow> new_obj n st;
     Some (a, set_child_storage a child_store st)
   }"

text \<open>\<open>ConveyorEventStorage::setParent\<close>, and \<open>setParent\<close> of an appendage.\<close>

definition setParent :: "addr \<Rightarrow> addr \<Rightarrow> ('v, 'u) state \<Rightarrow> ('v, 'u) state option" where
  "setParent a p st = do {
     n \<leftarrow> obj_at (snd st) a;
     case n of
       Appendage child merger _ \<Rightarrow> do {
         assert_that (child \<noteq> None);
         Some (set_parent a (Some p) st)
       }
     | _ \<Rightarrow> do {
         st \<leftarrow> (if \<not> isArmed a (fst st) then do {
             k \<leftarrow> queued a st;
             if k > 0 then do {
               assert_that (st_parent (snd st) a = None);
               s \<leftarrow> space p st;
               if s > 0 then on_loop (armLater a) st else Some st
             } else Some st
           } else Some st);
         Some (set_parent a (Some p) st)
       }
   }"

text \<open>Class \<open>Conveyor<T>\<close>, with the members of \<open>ConveyorBase\<close>.\<close>

record conveyor =
  cv_node :: "addr option"
  cv_storage :: "addr option"

definition Conveyor_value :: "'v \<Rightarrow> ('v, 'u) state \<Rightarrow> (conveyor \<times> ('v, 'u) state) option" where
  "Conveyor_value v st = do {
     (a, st) \<leftarrow> new_storage (ImmediateConveyorNode (IsValue v) 0) None st;
     Some (\<lparr>cv_node = Some a, cv_storage = Some a\<rparr>, st)
   }"

definition Conveyor_error :: "error \<Rightarrow> ('v, 'u) state \<Rightarrow> (conveyor \<times> ('v, 'u) state) option" where
  "Conveyor_error error st = do {
     (a, st) \<leftarrow> new_storage (ImmediateConveyorNode (IsError error) 0) None st;
     Some (\<lparr>cv_node = Some a, cv_storage = Some a\<rparr>, st)
   }"

definition conveyor_then ::
    "('v, 'u) func \<Rightarrow> ('v, 'u) error_func \<Rightarrow> conveyor \<Rightarrow> ('v, 'u) state \<Rightarrow> (conveyor \<times> ('v, 'u) state) option" where
  "conveyor_then func error_func c st = do {
     (a, st) \<leftarrow> new_obj (ConvertConveyorNode (cv_node c) func error_func) st;
     Some (\<lparr>cv_node = Some a, cv_storage = cv_storage c\<rparr>, st)
   }"

definition conveyor_attach :: "conveyor \<Rightarrow> ('v, 'u) state \<Rightarrow> (conveyor \<times> ('v, 'u) state) option" where
  "conveyor_attach c st = do {
     (a, st) \<leftarrow> new_obj (AttachConveyorNode (cv_node c)) st;
     Some (\<lparr>cv_node = Some a, cv_storage = cv_storage c\<rparr>, st)
   }"

definition conveyor_buffer :: "size_t \<Rightarrow> conveyor \<Rightarrow> ('v, 'u) state \<Rightarrow> (conveyor \<times> ('v, 'u) state) option" where
  "conveyor_buffer sz c st = do {
     (a, st) \<leftarrow> new_storage (QueueBufferConveyorNode (cv_node c) [] sz) (cv_storage c) st;
     s \<leftarrow> cv_storage c;
     st \<leftarrow> setParent s a st;
     Some (\<lparr>cv_node = Some a, cv_storage = Some a\<rparr>, st)
   }"

text \<open>\<open>Conveyor<void>::sink\<close>; the result is the node owned by the \<open>SinkConveyor\<close>.\<close>

definition conveyor_sink :: "conveyor \<Rightarrow> ('v, 'u) state \<Rightarrow> (addr \<times> ('v, 'u) state) option" where
  "conveyor_sink c st = do {
     (a, st) \<leftarrow> new_storage (SinkConveyorNode (cv_node c) None) (cv_storage c) st;
     s \<leftarrow> cv_storage c;
     st \<leftarrow> setParent s a st;
     Some (a, st)
   }"

text \<open>\<open>MergeConveyorNodeData::attach\<close> for the data of merge node \<open>m\<close>.\<close>

definition merge_attach :: "addr \<Rightarrow> conveyor \<Rightarrow> ('v, 'u) state \<Rightarrow> ('v, 'u) state option" where
  "merge_attach m c st = do {
     (a, st) \<leftarrow> new_storage (Appendage (cv_node c) m None) (cv_storage c) st;
     st \<leftarrow> (case cv_storage c of Some s \<Rightarrow> setParent s a st | None \<Rightarrow> Some st);
     case obj_at (snd st) m of
       Some (MergeConveyorNode appendages next_appendage) \<Rightarrow>
         Some (set_obj m (MergeConveyorNode (appendages @ [a]) next_appendage) st)
     | _ \<Rightarrow> None
   }"

text \<open>\<open>merge\<close> returns the merged conveyor; its node also stands for the weak reference in \<open>MergeConveyor\<close>.\<close>

definition conveyor_merge :: "conveyor \<Rightarrow> ('v, 'u) state \<Rightarrow> (conveyor \<times> ('v, 'u) state) option" where
  "conveyor_merge c st = do {
     (m, st) \<leftarrow> new_storage (MergeConveyorNode [] 0) None st;
     st \<leftarrow> merge_attach m c st;
     Some (\<lparr>cv_node = Some m, cv_storage = Some m\<rparr>, st)
   }"

text \<open>\<open>MergeConveyor::attach\<close>: the weak reference is asserted to be valid.\<close>

definition MergeConveyor_attach :: "addr \<Rightarrow> conveyor \<Rightarrow> ('v, 'u) state \<Rightarrow> ('v, 'u) state option" where
  "MergeConveyor_attach m c st = do {
     assert_that (obj_at (snd st) m \<noteq> None);
     merge_attach m c st
   }"

definition conveyor_take :: "conveyor \<Rightarrow> ('v, 'u) state \<Rightarrow> ('v error_or \<times> ('v, 'u) state) option" where
  "conveyor_take c st = (case cv_storage c of
     Some s \<Rightarrow> do {
       n \<leftarrow> queued s st;
       if n > 0 then do { a \<leftarrow> cv_node c; getResult a st }
       else Some (IsError (recoverableError ''Conveyor buffer has no elements''), st)
     }
   | None \<Rightarrow> Some (IsError (criticalError ''Conveyor in invalid state''), st))"

text \<open>\<open>execLater\<close>; \<open>void\<close> is the value of type \<open>Void\<close>.\<close>

definition execLater :: "'v \<Rightarrow> ('v, 'u) func \<Rightarrow> ('v, 'u) state \<Rightarrow> (conveyor \<times> ('v, 'u) state) option" where
  "execLater void func st = do {
     (c, st) \<leftarrow> Conveyor_value void st;
     conveyor_then func PropagateError c st
   }"

section \<open>Detached chains\<close>

definition daemon :: "('v, 'u) state \<Rightarrow> (addr \<times> ('v, 'u) state) option" where
  "daemon st = (case daemon_sink (snd st) of
     Some s \<Rightarrow> Some (s, st)
   | None \<Rightarrow> do {
       (s, st) \<leftarrow> new_obj (ConveyorSinks [] []) st;
       Some (s, fst st, (snd st)\<lparr>daemon_sink := Some s\<rparr>)
     })"

definition ConveyorSinks_add :: "addr \<Rightarrow> conveyor \<Rightarrow> ('v, 'u) state \<Rightarrow> ('v, 'u) state option" where
  "ConveyorSinks_add s c st = do {
     (a, st) \<leftarrow> new_storage (SinkConveyorNode (cv_node c) (Some s)) (cv_storage c) st;
     st \<leftarrow> (case cv_storage c of Some x \<Rightarrow> setParent x a st | None \<Rightarrow> Some st);
     case obj_at (snd st) s of
       Some (ConveyorSinks sink_nodes delete_nodes) \<Rightarrow>
         Some (set_obj s (ConveyorSinks (sink_nodes @ [Some a]) delete_nodes) st)
     | _ \<Rightarrow> None
   }"

definition detachConveyor :: "conveyor \<Rightarrow> ('v, 'u) state \<Rightarrow> ('v, 'u) state option" where
  "detachConveyor c st = do {
     assert_that (entered (fst st));
     (s, st) \<leftarrow> daemon st;
     ConveyorSinks_add s c st
   }"

definition conveyor_detach :: "'v \<Rightarrow> ('v, 'u) error_func \<Rightarrow> conveyor \<Rightarrow> ('v, 'u) state \<Rightarrow> ('v, 'u) state option" where
  "conveyor_detach void error_func c st = do {
     (c, st) \<leftarrow> conveyor_then (\<lambda>v u. (Returns (IsValue void), u)) error_func c st;
     detachConveyor c st
   }"

section \<open>Feeders\<close>

definition setFeeder :: "addr \<Rightarrow> addr option \<Rightarrow> ('v, 'u) state \<Rightarrow> ('v, 'u) state option" where
  "setFeeder a feeder st = (case obj_at (snd st) a of
     Some (AdaptConveyorNode _ storage) \<Rightarrow> Some (set_obj a (AdaptConveyorNode feeder storage) st)
   | _ \<Rightarrow> None)"

definition newConveyorAndFeeder :: "('v, 'u) state \<Rightarrow> (addr \<times> conveyor \<times> ('v, 'u) state) option" where
  "newConveyorAndFeeder st = do {
     let feeder = next_addr (snd st);
     let st = (fst st, (snd st)\<lparr>feeder_at := (feeder_at (snd st))(feeder := Some None), next_addr := Suc feeder\<rparr>);
     (a, st) \<leftarrow> new_storage (AdaptConveyorNode None []) None st;
     st \<leftarrow> setFeedee feeder (Some a) st;
     st \<leftarrow> setFeeder a (Some feeder) st;
     Some (feeder, \<lparr>cv_node = Some a, cv_storage = Some a\<rparr>, st)
   }"

text \<open>\<open>AdaptConveyorNode::feed\<close> and \<open>fail\<close> push a value and an error.\<close>

definition AdaptConveyorNode_feed :: "addr \<Rightarrow> 'v error_or \<Rightarrow> ('v, 'u) state \<Rightarrow> ('v, 'u) state option" where
  "AdaptConveyorNode_feed a eov st = (case obj_at (snd st) a of
     Some (AdaptConveyorNode feeder storage) \<Rightarrow>
       on_loop (armNext a) (set_obj a (AdaptConveyorNode feeder (storage @ [eov])) st)
   | _ \<Rightarrow> None)"

definition with_feedee :: "addr \<Rightarrow> ('v, 'u) state \<Rightarrow> (addr \<Rightarrow> 'r option) \<Rightarrow> 'r \<Rightarrow> 'r option" where
  "with_feedee f st act none = do {
     feedee \<leftarrow> feeder_at (snd st) f;
     case feedee of Some a \<Rightarrow> act a | None \<Rightarrow> Some none
   }"

definition feeder_feed :: "addr \<Rightarrow> 'v \<Rightarrow> ('v, 'u) state \<Rightarrow> ('v, 'u) state option" where
  "feeder_feed f v st = with_feedee f st (\<lambda>a. AdaptConveyorNode_feed a (IsValue v) st) st"

definition feeder_fail :: "addr \<Rightarrow> error \<Rightarrow> ('v, 'u) state \<Rightarrow> ('v, 'u) state option" where
  "feeder_fail f error st = with_feedee f st (\<lambda>a. AdaptConveyorNode_feed a (IsError error) st) st"

definition feeder_queued :: "addr \<Rightarrow> ('v, 'u) state \<Rightarrow> size_t option" where
  "feeder_queued f st = with_feedee f st (\<lambda>a. queued a st) 0"

definition feeder_space :: "addr \<Rightarrow> ('v, 'u) state \<Rightarrow> size_t option" where
  "feeder_space f st = with_feedee f st (\<lambda>a. space a st) 0"

definition feeder_delete :: "addr \<Rightarrow> ('v, 'u) state \<Rightarrow> ('v, 'u) state option" where
  "feeder_delete f st = do {
     st \<leftarrow> with_feedee f st (\<lambda>a. setFeeder a None st) st;
     Some (fst st, (snd st)\<lparr>feeder_at := (feeder_at (snd st))(f := None)\<rparr>)
   }"

section \<open>A program that uses the library\<close>

text \<open>The state after the construction of an event loop and of a wait scope on it.\<close>

definition start :: "'u \<Rightarrow> ('v, 'u) state" where
  "start u = (EventLoop_new\<lparr>entered := True\<rparr>,
     \<lparr>obj_at = (\<lambda>a. None), st_parent = (\<lambda>a. None), st_child = (\<lambda>a. None), feeder_at = (\<lambda>f. None),
      daemon_sink = None, next_addr = 0, user = u\<rparr>)"

text \<open>\<open>WaitScope::poll\<close> without an event port.\<close>

definition poll :: "('v, 'u) state \<Rightarrow> ('v, 'u) state option" where
  "poll st = do { (b, st) \<leftarrow> EventLoop_poll Some fire st; Some st }"

end
