(* ===== verification/Pipe_Spec.thy ===== *)
theory Pipe_Spec
  imports Prelude
begin

text \<open>
  What a chain of conveyor storages promises: a specification without objects, pointers and event
  loop. Storage \<open>0\<close> is the source, the storages \<open>1 \<dots> n\<close> are buffers of limited capacity, and storage
  \<open>n\<close> empties into a sink. \<open>Q i\<close> is the content of storage \<open>i\<close>, \<open>xs\<close> the storages waiting to fire, first
  one first. An element that moves from storage \<open>i\<close> to storage \<open>i + 1\<close> is transformed by \<open>F i\<close>; an
  element that leaves storage \<open>n\<close> changes the state of the user by \<open>deliver\<close>.

  The lemmas show that such a chain delivers every element, in order, and how many steps it needs;
  the locale \<open>pipe_system\<close> is the interface between these lemmas and an implementation.
\<close>

section \<open>Steps\<close>

type_synonym 'a contents = "nat \<Rightarrow> 'a list"

definition enqueue :: "nat \<Rightarrow> nat list \<Rightarrow> nat list" where
  "enqueue i xs = (if i \<in> set xs then xs else xs @ [i])"

text \<open>The storage or sink above storage \<open>i\<close> takes one more element.\<close>

definition room :: "nat \<Rightarrow> (nat \<Rightarrow> nat) \<Rightarrow> 'a contents \<Rightarrow> nat \<Rightarrow> bool" where
  "room n cap Q i \<longleftrightarrow> i = n \<or> length (Q (Suc i)) < cap (Suc i)"

definition effective :: "nat \<Rightarrow> (nat \<Rightarrow> nat) \<Rightarrow> 'a contents \<Rightarrow> nat \<Rightarrow> bool" where
  "effective n cap Q i \<longleftrightarrow> Q i \<noteq> [] \<and> room n cap Q i"

definition move :: "nat \<Rightarrow> (nat \<Rightarrow> 'a \<Rightarrow> 'a) \<Rightarrow> nat \<Rightarrow> 'a contents \<Rightarrow> 'a contents" where
  "move n F i Q =
     (let Q' = Q(i := tl (Q i)) in if i < n then Q'(Suc i := Q (Suc i) @ [F i (hd (Q i))]) else Q')"

text \<open>What is in the storages after storage \<open>i\<close> has fired.\<close>

definition fired :: "nat \<Rightarrow> (nat \<Rightarrow> nat) \<Rightarrow> (nat \<Rightarrow> 'a \<Rightarrow> 'a) \<Rightarrow> nat \<Rightarrow> 'a contents \<Rightarrow> 'a contents" where
  "fired n cap F i Q = (if room n cap Q i then move n F i Q else Q)"

text \<open>
  Which storages wait afterwards: the receiver of the element, the storage itself as long as it
  can go on (the source even when it can not), and the storage below if the storage was full.
\<close>

definition requeue :: "nat \<Rightarrow> (nat \<Rightarrow> nat) \<Rightarrow> (nat \<Rightarrow> 'a \<Rightarrow> 'a) \<Rightarrow> nat \<Rightarrow> 'a contents \<Rightarrow> nat list \<Rightarrow> nat list" where
  "requeue n cap F i Q xs =
     (let Q' = fired n cap F i Q;
          xs = (if room n cap Q i \<and> i < n then enqueue (Suc i) xs else xs);
          xs = (if Q' i \<noteq> [] \<and> (i = 0 \<or> room n cap Q' i) then enqueue i xs else xs)
      in if 1 < i \<and> \<not> length (Q i) < cap i \<and> length (Q' i) < cap i \<and> Q' (i - 1) \<noteq> [] then enqueue (i - 1) xs else xs)"

definition delivered :: "nat \<Rightarrow> ('a \<Rightarrow> 'u \<Rightarrow> 'u) \<Rightarrow> nat \<Rightarrow> 'a contents \<Rightarrow> 'u \<Rightarrow> 'u" where
  "delivered n deliver i Q u = (if i = n then deliver (hd (Q n)) u else u)"

section \<open>The invariant\<close>

definition pipe_inv :: "nat \<Rightarrow> (nat \<Rightarrow> nat) \<Rightarrow> 'a contents \<Rightarrow> nat list \<Rightarrow> bool" where
  "pipe_inv n cap Q xs \<longleftrightarrow>
     distinct xs \<and> set xs \<subseteq> {..n} \<and> (\<forall>i \<in> set xs. Q i \<noteq> [])
     \<and> (Q 0 \<noteq> [] \<longrightarrow> 0 \<in> set xs) \<and> (\<forall>i \<le> n. effective n cap Q i \<longrightarrow> i \<in> set xs)
     \<and> (\<forall>i. 0 < i \<and> i \<le> n \<longrightarrow> 0 < cap i \<and> length (Q i) \<le> cap i)"

text \<open>The elements on their way, in the order and the form in which they reach storage \<open>i\<close>.\<close>

fun pending :: "(nat \<Rightarrow> 'a \<Rightarrow> 'a) \<Rightarrow> 'a contents \<Rightarrow> nat \<Rightarrow> 'a list" where
  "pending F Q 0 = Q 0"
| "pending F Q (Suc i) = Q (Suc i) @ map (F i) (pending F Q i)"

text \<open>How often elements still have to move.\<close>

definition moves :: "nat \<Rightarrow> 'a contents \<Rightarrow> nat" where
  "moves n Q = (\<Sum>i\<le>n. length (Q i) * (n + 1 - i))"

definition waiting :: "nat \<Rightarrow> (nat \<Rightarrow> nat) \<Rightarrow> 'a contents \<Rightarrow> nat list \<Rightarrow> nat" where
  "waiting n cap Q xs = length (takeWhile (\<lambda>i. \<not> effective n cap Q i) xs)"

text \<open>A bound of the number of steps until the chain is empty.\<close>

definition rank :: "nat \<Rightarrow> (nat \<Rightarrow> nat) \<Rightarrow> 'a contents \<Rightarrow> nat list \<Rightarrow> nat" where
  "rank n cap Q xs = (if moves n Q = 0 then 0 else (moves n Q - 1) * (n + 1) + waiting n cap Q xs + 1)"

section \<open>Steps keep the invariant\<close>

lemma set_enqueue [simp]: "set (enqueue i xs) = insert i (set xs)"
  by (auto simp: enqueue_def)

lemma distinct_enqueue [simp]: "distinct (enqueue i xs) = distinct xs"
  by (auto simp: enqueue_def)

lemma prefix_enqueue: "prefix ys xs \<Longrightarrow> prefix ys (enqueue i xs)"
  by (auto simp: enqueue_def)

lemma fired_same: "fired n cap F i Q i = (if room n cap Q i then tl (Q i) else Q i)"
  by (simp add: fired_def move_def Let_def)

lemma fired_above: "i < n \<Longrightarrow> fired n cap F i Q (Suc i) = (if room n cap Q i then Q (Suc i) @ [F i (hd (Q i))] else Q (Suc i))"
  by (simp add: fired_def move_def Let_def)

lemma fired_other: "j \<noteq> i \<Longrightarrow> j \<noteq> Suc i \<Longrightarrow> fired n cap F i Q j = Q j"
  by (simp add: fired_def move_def Let_def)

lemma fired_beyond: "n < j \<Longrightarrow> i \<le> n \<Longrightarrow> fired n cap F i Q j = Q j"
  by (simp add: fired_def move_def Let_def)

lemmas fired_simps = fired_same fired_above fired_other

lemma pipe_inv_fired:
  assumes inv: "pipe_inv n cap Q (i # xs)"
  shows "pipe_inv n cap (fired n cap F i Q) (requeue n cap F i Q xs)"
proof -
  let ?Q = "fired n cap F i Q" and ?xs = "requeue n cap F i Q xs"
  have i: "i \<le> n" "Q i \<noteq> []" and ix: "i \<notin> set xs" "distinct xs" "set xs \<subseteq> {..n}"
    and ne: "\<And>j. j \<in> set xs \<Longrightarrow> Q j \<noteq> []" and src: "Q 0 \<noteq> [] \<Longrightarrow> 0 = i \<or> 0 \<in> set xs"
    and eff: "\<And>j. j \<le> n \<Longrightarrow> effective n cap Q j \<Longrightarrow> j = i \<or> j \<in> set xs"
    and cap: "\<And>j. 0 < j \<Longrightarrow> j \<le> n \<Longrightarrow> 0 < cap j \<and> length (Q j) \<le> cap j"
    using inv by (auto simp: pipe_inv_def)
  have mem: "set ?xs = set xs
      \<union> (if room n cap Q i \<and> i < n then {Suc i} else {})
      \<union> (if ?Q i \<noteq> [] \<and> (i = 0 \<or> room n cap ?Q i) then {i} else {})
      \<union> (if 1 < i \<and> \<not> length (Q i) < cap i \<and> length (?Q i) < cap i \<and> ?Q (i - 1) \<noteq> [] then {i - 1} else {})"
    by (auto simp: requeue_def Let_def)
  have other: "?Q j = Q j" if "j \<noteq> i" "j \<noteq> Suc i \<or> n \<le> i" for j
    using that i by (cases "j = Suc i") (auto simp: fired_other fired_beyond)
  have "distinct ?xs" using ix by (simp add: requeue_def Let_def)
  moreover have "set ?xs \<subseteq> {..n}" using ix i by (auto simp: mem split: if_splits)
  moreover have "\<forall>j \<in> set ?xs. ?Q j \<noteq> []"
  proof
    fix j assume j: "j \<in> set ?xs"
    show "?Q j \<noteq> []"
    proof (cases "j = i \<or> (j = Suc i \<and> i < n)")
      case True
      with j ix ne show ?thesis by (auto simp: mem fired_above split: if_splits)
    next
      case False
      with j have "j \<in> set xs \<or> ?Q j \<noteq> []" by (auto simp: mem split: if_splits)
      moreover have "?Q j = Q j" using False by (intro other) auto
      ultimately show ?thesis using ne by metis
    qed
  qed
  moreover have "?Q 0 \<noteq> [] \<longrightarrow> 0 \<in> set ?xs"
    using mem src other [of 0] by (cases "i = 0") auto
  moreover have "\<forall>j \<le> n. effective n cap ?Q j \<longrightarrow> j \<in> set ?xs"
  proof (intro allI impI)
    fix j assume j: "j \<le> n" "effective n cap ?Q j"
    consider "j = i" | "j = Suc i" "i < n" | "Suc j = i" | "j \<noteq> i" "j \<noteq> Suc i" "Suc j \<noteq> i" using j by linarith
    then show "j \<in> set ?xs"
    proof cases
      case 1
      with j show ?thesis by (auto simp: mem effective_def)
    next
      case 2
      show ?thesis
      proof (cases "room n cap Q i")
        case False
        then have "?Q = Q" by (simp add: fired_def)
        with 2 j eff [of j] show ?thesis by (auto simp: mem)
      qed (use 2 in \<open>simp add: mem\<close>)
    next
      case 3
      then have Qj: "?Q j = Q j" by (intro other) auto
      have room: "length (?Q i) < cap i" using j 3 i by (auto simp: effective_def room_def)
      show ?thesis
      proof (cases "length (Q i) < cap i")
        case True
        with 3 j Qj have "effective n cap Q j" by (auto simp: effective_def room_def)
        with eff [of j] j 3 show ?thesis by (auto simp: mem)
      next
        case False
        have "?Q j \<noteq> []" using j by (simp add: effective_def)
        with False room 3 src Qj show ?thesis by (cases "j = 0") (auto simp: mem)
      qed
    next
      case 4
      then have "?Q j = Q j" "?Q (Suc j) = Q (Suc j) \<or> j = n"
        using other [of j] other [of "Suc j"] fired_other [of "Suc j" i n cap F Q] j by auto
      with j have "effective n cap Q j" by (auto simp: effective_def room_def)
      with eff [of j] j 4 show ?thesis by (auto simp: mem)
    qed
  qed
  moreover have "\<forall>j. 0 < j \<and> j \<le> n \<longrightarrow> 0 < cap j \<and> length (?Q j) \<le> cap j"
  proof (intro allI impI)
    fix j assume j: "0 < j \<and> j \<le> n"
    then have c: "0 < cap j" "length (Q j) \<le> cap j" using cap by auto
    consider "j = i" | "j = Suc i" "i < n" | "j \<noteq> i" "j \<noteq> Suc i" using j by linarith
    then show "0 < cap j \<and> length (?Q j) \<le> cap j"
      using c by cases (auto simp: fired_simps room_def)
  qed
  ultimately show ?thesis unfolding pipe_inv_def by blast
qed

section \<open>Conservation and progress\<close>

lemma pending_cong: "(\<And>j. j \<le> k \<Longrightarrow> Q' j = Q j) \<Longrightarrow> pending F Q' k = pending F Q k"
  by (induction k) auto

lemma pending_move_below:
  assumes "i < n" and "Q i \<noteq> []" and "i < k" and "k \<le> n"
  shows "pending F (move n F i Q) k = pending F Q k"
  using assms(3,4)
proof (induction k)
  case (Suc k)
  have k: "move n F i Q j = Q j" if "j < i \<or> Suc i < j" for j
    using that by (auto simp: move_def Let_def)
  show ?case
  proof (cases "i = k")
    case True
    then have "pending F (move n F i Q) k = tl (pending F Q k) \<and> pending F Q k \<noteq> [] \<and> hd (pending F Q k) = hd (Q i)"
      using assms k pending_cong [of "k - 1" "move n F i Q" Q F]
      by (cases k) (auto simp: move_def Let_def)
    moreover have "move n F i Q (Suc k) = Q (Suc k) @ [F k (hd (Q i))]"
      using True assms(1) by (simp add: move_def Let_def)
    ultimately show ?thesis by (cases "pending F Q k") auto
  next
    case False
    with Suc k [of "Suc k"] show ?thesis by simp
  qed
qed simp

lemma pending_move_last:
  assumes "Q n \<noteq> []"
  shows "pending F Q n = hd (Q n) # pending F (move n F n Q) n"
  using assms pending_cong [of "n - 1" "move n F n Q" Q F] by (cases n) (auto simp: move_def Let_def)

text \<open>A step changes neither what the user's state will finally be nor the order of delivery.\<close>

lemma delivery_conserved:
  assumes "pipe_inv n cap Q (i # xs)"
  shows "fold deliver (pending F (fired n cap F i Q) n) (delivered n deliver i Q u) = fold deliver (pending F Q n) u"
proof -
  have i: "i \<le> n" "Q i \<noteq> []" using assms by (auto simp: pipe_inv_def)
  show ?thesis
  proof (cases "i = n")
    case True
    with i pending_move_last [of Q n F] show ?thesis by (simp add: fired_def room_def delivered_def)
  next
    case False
    with i pending_move_below [of i n Q n F] show ?thesis by (simp add: fired_def delivered_def)
  qed
qed

lemma moves_move:
  assumes "i \<le> n" and "Q i \<noteq> []"
  shows "Suc (moves n (move n F i Q)) = moves n Q"
proof -
  have len: "length (Q i) = Suc (length (tl (Q i)))" using assms(2) by simp
  show ?thesis
  proof (cases "i = n")
    case True
    have "(\<Sum>j<n. length (move n F n Q j) * (n + 1 - j)) = (\<Sum>j<n. length (Q j) * (n + 1 - j))"
      by (rule sum.cong) (auto simp: move_def Let_def)
    with True len show ?thesis by (simp add: moves_def lessThan_Suc_atMost [symmetric]) (simp add: move_def Let_def)
  next
    case False
    let ?f = "\<lambda>Q :: 'a contents. \<lambda>j. length (Q j) * (n + 1 - j)"
    have split: "moves n P = sum (?f P) ({..n} - {i, Suc i}) + (?f P i + ?f P (Suc i))" for P :: "'a contents"
      using sum.subset_diff [of "{i, Suc i}" "{..n}" "?f P"] assms(1) False by (simp add: moves_def)
    have "sum (?f (move n F i Q)) ({..n} - {i, Suc i}) = sum (?f Q) ({..n} - {i, Suc i})"
      by (rule sum.cong) (auto simp: move_def Let_def)
    moreover have "Suc (?f (move n F i Q) i + ?f (move n F i Q) (Suc i)) = ?f Q i + ?f Q (Suc i)"
    proof -
      have "i < n" using assms(1) False by simp
      then obtain d where d: "n = Suc (i + d)" using less_imp_Suc_add by blast
      obtain y ys where "Q i = y # ys" using assms(2) by (cases "Q i") auto
      then show ?thesis by (simp add: move_def Let_def d algebra_simps)
    qed
    ultimately show ?thesis by (simp add: split)
  qed
qed

lemma moves_zero: "moves n Q = 0 \<longleftrightarrow> (\<forall>i \<le> n. Q i = [])"
  by (auto simp: moves_def)

lemma pending_empty: "(\<And>i. i \<le> n \<Longrightarrow> Q i = []) \<Longrightarrow> pending F Q n = []"
  by (induction n) auto

text \<open>Some storage can fire with effect as long as there are elements on their way.\<close>

lemma some_effective:
  assumes "pipe_inv n cap Q xs" and "moves n Q \<noteq> 0"
  shows "\<exists>i \<in> set xs. effective n cap Q i"
proof -
  from assms(2) have ex: "\<exists>i. i \<le> n \<and> Q i \<noteq> []" by (auto simp: moves_zero)
  define i where "i = (GREATEST i. i \<le> n \<and> Q i \<noteq> [])"
  have i: "i \<le> n \<and> Q i \<noteq> []" unfolding i_def
    by (rule GreatestI_ex_nat [where b = n]) (use ex in auto)
  have "\<not> (Suc i \<le> n \<and> Q (Suc i) \<noteq> [])"
  proof
    assume "Suc i \<le> n \<and> Q (Suc i) \<noteq> []"
    then have "Suc i \<le> i" unfolding i_def by (intro Greatest_le_nat [where b = n]) auto
    then show False by simp
  qed
  moreover have "0 < cap (Suc i)" if "Suc i \<le> n" using assms(1) that by (simp add: pipe_inv_def)
  ultimately have "effective n cap Q i" using i by (cases "i = n") (auto simp: effective_def room_def)
  with i assms(1) show ?thesis unfolding pipe_inv_def by blast
qed

lemma takeWhile_shorter: "x \<in> set xs \<Longrightarrow> \<not> P x \<Longrightarrow> length (takeWhile P xs) < length xs"
  by (induction xs) auto

lemma waiting_le:
  assumes "pipe_inv n cap Q xs" and "moves n Q \<noteq> 0"
  shows "waiting n cap Q xs \<le> n"
proof -
  have "length xs \<le> Suc n"
    using assms(1) card_mono [of "{..n}" "set xs"] distinct_card [of xs] by (auto simp: pipe_inv_def)
  moreover have "waiting n cap Q xs < length xs"
    using some_effective [OF assms] by (auto simp: waiting_def intro: takeWhile_shorter)
  ultimately show ?thesis by simp
qed

lemma rank_fired:
  assumes inv: "pipe_inv n cap Q (i # xs)"
  shows "rank n cap (fired n cap F i Q) (requeue n cap F i Q xs) < rank n cap Q (i # xs)"
proof -
  have i: "i \<le> n" "Q i \<noteq> []" using inv by (auto simp: pipe_inv_def)
  then have pos: "moves n Q \<noteq> 0" by (auto simp: moves_zero)
  show ?thesis
  proof (cases "room n cap Q i")
    case True
    let ?Q = "fired n cap F i Q"
    have m: "moves n Q = Suc (moves n ?Q)" using moves_move [of i n Q F] i True by (simp add: fired_def)
    have "waiting n cap ?Q (requeue n cap F i Q xs) \<le> n" if "moves n ?Q \<noteq> 0"
      using waiting_le [OF pipe_inv_fired [OF inv] that] .
    then show ?thesis using m by (cases "moves n ?Q") (auto simp: rank_def)
  next
    case False
    have Q: "fired n cap F i Q = Q" using False by (simp add: fired_def)
    obtain j where j: "j \<in> set xs" "effective n cap Q j"
      using some_effective [OF inv pos] False by (auto simp: effective_def)
    have "prefix xs (requeue n cap F i Q xs)"
      by (simp add: requeue_def Let_def prefix_enqueue)
    then obtain zs where "requeue n cap F i Q xs = xs @ zs" by (auto simp: prefix_def)
    with j have "waiting n cap Q (requeue n cap F i Q xs) = waiting n cap Q xs"
      by (auto simp: waiting_def takeWhile_append1)
    then show ?thesis using False pos by (simp add: rank_def Q) (simp add: waiting_def effective_def)
  qed
qed

section \<open>The interface to an implementation\<close>

text \<open>
  \<open>rep st Q xs u\<close>: the program state \<open>st\<close> holds a chain with contents \<open>Q\<close>, whose storages \<open>xs\<close> wait to
  fire, and the user's state is \<open>u\<close>. One step of the program is to fire the first one as specified.
\<close>

locale pipe_system =
  fixes n :: nat and cap :: "nat \<Rightarrow> nat" and F :: "nat \<Rightarrow> 'a \<Rightarrow> 'a" and deliver :: "'a \<Rightarrow> 'u \<Rightarrow> 'u"
    and rep :: "'st \<Rightarrow> 'a contents \<Rightarrow> nat list \<Rightarrow> 'u \<Rightarrow> bool"
    and idle :: "'st \<Rightarrow> bool" and step :: "'st \<Rightarrow> 'st option"
  assumes idle_iff: "rep st Q xs u \<Longrightarrow> idle st \<longleftrightarrow> xs = []"
    and step_fires: "rep st Q (i # xs) u \<Longrightarrow> pipe_inv n cap Q (i # xs) \<Longrightarrow>
      \<exists>st'. step st = Some st'
        \<and> rep st' (fired n cap F i Q) (requeue n cap F i Q xs) (delivered n deliver i Q u)"
begin

fun steps :: "nat \<Rightarrow> 'st \<Rightarrow> 'st option" where
  "steps 0 st = Some st"
| "steps (Suc k) st = (if idle st then Some st else do { st \<leftarrow> step st; steps k st })"

text \<open>Any number of steps keeps the invariant and conserves what is delivered.\<close>

lemma steps_conserve:
  assumes "rep st Q xs u" and "pipe_inv n cap Q xs"
  shows "\<exists>st' Q' xs' u'. steps k st = Some st' \<and> rep st' Q' xs' u' \<and> pipe_inv n cap Q' xs'
           \<and> fold deliver (pending F Q' n) u' = fold deliver (pending F Q n) u"
  using assms
proof (induction k arbitrary: st Q xs u)
  case 0
  then show ?case by auto
next
  case (Suc k)
  show ?case
  proof (cases xs)
    case Nil
    with Suc.prems idle_iff [OF Suc.prems(1)] show ?thesis by auto
  next
    case (Cons i ys)
    note inv = Suc.prems(2) [unfolded Cons]
    obtain st' where st': "step st = Some st'"
      "rep st' (fired n cap F i Q) (requeue n cap F i Q ys) (delivered n deliver i Q u)"
      using step_fires [OF Suc.prems(1) [unfolded Cons] inv] by blast
    from Suc.IH [OF st'(2) pipe_inv_fired [OF inv]] delivery_conserved [OF inv, of deliver F u] st'(1)
      idle_iff [OF Suc.prems(1)] Cons
    show ?thesis by simp
  qed
qed

text \<open>Enough steps empty the chain, and every element has been delivered in order.\<close>

lemma steps_deliver:
  assumes "rep st Q xs u" and "pipe_inv n cap Q xs" and "rank n cap Q xs \<le> k"
  shows "\<exists>st' Q'. steps k st = Some st' \<and> idle st' \<and> (\<forall>i \<le> n. Q' i = [])
           \<and> rep st' Q' [] (fold deliver (pending F Q n) u)"
  using assms
proof (induction k arbitrary: st Q xs u)
  case 0
  then have Q: "\<forall>i \<le> n. Q i = []" by (auto simp: rank_def moves_zero split: if_splits)
  moreover from this have "xs = []" using 0 by (cases xs) (auto simp: pipe_inv_def)
  ultimately show ?case using 0 idle_iff pending_empty [of n Q F] by auto
next
  case (Suc k)
  show ?case
  proof (cases xs)
    case Nil
    then have "moves n Q = 0" using some_effective [OF Suc.prems(2)] by auto
    then have "\<forall>i \<le> n. Q i = []" by (simp add: moves_zero)
    with Nil Suc.prems(1) idle_iff [OF Suc.prems(1)] pending_empty [of n Q F] show ?thesis by auto
  next
    case (Cons i ys)
    note inv = Suc.prems(2) [unfolded Cons]
    obtain st' where st': "step st = Some st'"
      "rep st' (fired n cap F i Q) (requeue n cap F i Q ys) (delivered n deliver i Q u)"
      using step_fires [OF Suc.prems(1) [unfolded Cons] inv] by blast
    have "rank n cap (fired n cap F i Q) (requeue n cap F i Q ys) \<le> k"
      using rank_fired [OF inv, of F] Suc.prems(3) Cons by simp
    from Suc.IH [OF st'(2) pipe_inv_fired [OF inv] this] delivery_conserved [OF inv, of deliver F u] st'(1)
      idle_iff [OF Suc.prems(1)] Cons
    show ?thesis by auto
  qed
qed

end

text \<open>\<open>N\<close> elements in the source of a chain of \<open>n\<close> buffers need at most \<open>N * (n + 1)\<^sup>2\<close> steps.\<close>

definition loaded :: "'a list \<Rightarrow> 'a contents" where
  "loaded ys = (\<lambda>i. if i = 0 then ys else [])"

lemma pipe_inv_loaded:
  assumes "\<And>i. 0 < i \<Longrightarrow> i \<le> n \<Longrightarrow> 0 < cap i"
  shows "pipe_inv n cap (loaded ys) (if ys = [] then [] else [0])"
  using assms by (auto simp: pipe_inv_def loaded_def effective_def)

lemma rank_loaded:
  assumes "\<And>i. 0 < i \<Longrightarrow> i \<le> n \<Longrightarrow> 0 < cap i"
  shows "rank n cap (loaded ys) (if ys = [] then [] else [0]) \<le> length ys * (n + 1) * (n + 1)"
proof -
  have "moves n (loaded ys) = (\<Sum>i\<in>{0}. length (loaded ys i) * (n + 1 - i))"
    unfolding moves_def by (rule sum.mono_neutral_right) (auto simp: loaded_def)
  then have m: "moves n (loaded ys) = length ys * (n + 1)" by (simp add: loaded_def)
  have bound: "(k - 1) * (n + 1) + w + 1 \<le> k * (n + 1)" if "k \<noteq> 0" "w \<le> n" for k w :: nat
    using that by (cases k) auto
  let ?xs = "if ys = [] then [] else [0]"
  have "waiting n cap (loaded ys) ?xs \<le> n" if "moves n (loaded ys) \<noteq> 0"
    using waiting_le [OF pipe_inv_loaded [OF assms] that] .
  then have "rank n cap (loaded ys) ?xs \<le> moves n (loaded ys) * (n + 1)"
    using bound [of "moves n (loaded ys)"] unfolding rank_def by presburger
  then show ?thesis by (simp add: m)
qed

lemma pending_loaded: "pending F (loaded ys) n = map (\<lambda>y. fold F [0..<n] y) ys"
  by (induction n) (auto simp: loaded_def)

end
