(* ===== verification/Conveyor_Chain.thy ===== *)
theory Conveyor_Chain
  imports Conveyor Pipe_Spec
begin

text \<open>
  Chains of conveyors: a feeder, \<open>then\<close> and \<open>attach\<close> nodes, buffers of any size and a sink. The objects of
  such a chain on the event loop implement the specification of \<open>Pipe_Spec\<close>: the relation
  \<open>pipe_rep\<close> connects the store and the linked event queue with the contents of the storages and the
  storages waiting to fire, and the interpretation \<open>chain\<close> carries the delivery lemma over.
\<close>

section \<open>Stages\<close>

text \<open>The nodes between two storages, the one next to the upper storage first.\<close>

datatype ('v, 'u) stage = Then "('v, 'u) func" "('v, 'u) error_func" | Attach

fun path :: "('v, 'u) world \<Rightarrow> addr \<Rightarrow> ('v, 'u) stage list \<Rightarrow> addr \<Rightarrow> bool" where
  "path w a [] s \<longleftrightarrow> a = s"
| "path w a (Then func error_func # ss) s \<longleftrightarrow>
     (\<exists>c. obj_at w a = Some (ConvertConveyorNode (Some c) func error_func) \<and> path w c ss s)"
| "path w a (Attach # ss) s \<longleftrightarrow> (\<exists>c. obj_at w a = Some (AttachConveyorNode (Some c)) \<and> path w c ss s)"

fun run_stages :: "('v, 'u) stage list \<Rightarrow> 'v error_or \<Rightarrow> 'u \<Rightarrow> ('v error_or \<times> 'u) option" where
  "run_stages [] x u = Some (x, u)"
| "run_stages (Then func error_func # ss) x u = do {
     (y, u) \<leftarrow> run_stages ss x u;
     convert_result func error_func y u
   }"
| "run_stages (Attach # ss) x u = run_stages ss x u"

text \<open>Asking the top of a path is asking the storage below and running the stages on the answer.\<close>

lemma set_user_user [simp]: "set_user (user (snd st)) st = st"
  by (simp add: set_user_def)

lemma user_set_user [simp]: "user (snd (set_user u st)) = u" "set_user u (set_user u' st) = set_user u st"
  by (simp_all add: set_user_def)

lemma getResult_path:
  assumes "path (snd st) a ss s" and "getResult s st = Some (x, st')"
  shows "getResult a st = do {
    (y, u) \<leftarrow> run_stages ss x (user (snd st'));
    Some (y, set_user u st')
  }"
  using assms
proof (induction ss arbitrary: a)
  case Nil
  then show ?case by simp
next
  case (Cons g ss)
  show ?case
  proof (cases g)
    case (Then func error_func)
    with Cons.prems obtain c where c: "obj_at (snd st) a = Some (ConvertConveyorNode (Some c) func error_func)"
      "path (snd st) c ss s" by auto
    show ?thesis
      unfolding Then by (subst getResult.simps)
        (auto simp: c(1) Cons.IH [OF c(2) Cons.prems(2)] Option.bind_assoc split: option.split prod.split
          intro!: Option.bind_cong)
  next
    case Attach
    with Cons.prems obtain c where c: "obj_at (snd st) a = Some (AttachConveyorNode (Some c))"
      "path (snd st) c ss s" by auto
    show ?thesis
      unfolding Attach by (subst getResult.simps) (simp add: c(1) Cons.IH [OF c(2) Cons.prems(2)])
  qed
qed

fun is_stage :: "('v, 'u) obj \<Rightarrow> bool" where
  "is_stage (AttachConveyorNode _) \<longleftrightarrow> True"
| "is_stage (ConvertConveyorNode _ _ _) \<longleftrightarrow> True"
| "is_stage _ \<longleftrightarrow> False"

lemma path_cong: "path w a ss s \<Longrightarrow> (\<And>b n. obj_at w b = Some n \<Longrightarrow> is_stage n \<Longrightarrow> obj_at w' b = Some n) \<Longrightarrow> path w' a ss s"
  by (induction w a ss s rule: path.induct) fastforce+

section \<open>The layout of a chain\<close>

text \<open>
  \<open>lay_at i\<close> is storage \<open>i\<close>, the sink for \<open>i = n + 1\<close>; \<open>lay_top i\<close> is the node that the owner of storage
  \<open>i\<close> holds as its child, from which \<open>lay_stages i\<close> lead down to the storage. \<open>lay_own\<close> says who owns
  whom among all objects.
\<close>

record ('v, 'u) layout =
  lay_n :: nat
  lay_at :: "nat \<Rightarrow> addr"
  lay_top :: "nat \<Rightarrow> addr"
  lay_stages :: "nat \<Rightarrow> ('v, 'u) stage list"
  lay_cap :: "nat \<Rightarrow> nat"
  lay_feeder :: "addr option"
  lay_sinks :: "addr option"
  lay_own :: "addr \<Rightarrow> addr list option"

fun storage_node :: "('v, 'u) layout \<Rightarrow> nat \<Rightarrow> 'v error_or list \<Rightarrow> ('v, 'u) obj" where
  "storage_node L 0 ys = AdaptConveyorNode (lay_feeder L) ys"
| "storage_node L (Suc i) ys = QueueBufferConveyorNode (Some (lay_top L i)) ys (lay_cap L (Suc i))"

definition chain_objs :: "('v, 'u) layout \<Rightarrow> 'v error_or contents \<Rightarrow> ('v, 'u) world \<Rightarrow> bool" where
  "chain_objs L Q w \<longleftrightarrow>
     (\<forall>i \<le> lay_n L. obj_at w (lay_at L i) = Some (storage_node L i (Q i)))
     \<and> (\<forall>i \<le> lay_n L. path w (lay_top L i) (lay_stages L i) (lay_at L i))
     \<and> (\<forall>i < lay_n L. st_child w (lay_at L (Suc i)) = Some (lay_at L i) \<and> st_parent w (lay_at L i) = Some (lay_at L (Suc i)))
     \<and> inj_on (lay_at L) {..lay_n L}
     \<and> (\<forall>i. 0 < i \<and> i \<le> lay_n L \<longrightarrow> lay_cap L i < SIZE_MOD)
     \<and> (\<forall>b n. obj_at w b = Some n \<and> is_stage n \<longrightarrow> st_parent w b = None)
     \<and> (\<forall>f. lay_feeder L = Some f \<longrightarrow> feeder_at w f = Some (Some (lay_at L 0)))"

definition chain_sink :: "('v, 'u) layout \<Rightarrow> ('v, 'u) world \<Rightarrow> bool" where
  "chain_sink L w \<longleftrightarrow>
     obj_at w (lay_at L (Suc (lay_n L))) = Some (SinkConveyorNode (Some (lay_top L (lay_n L))) (lay_sinks L))
     \<and> st_parent w (lay_at L (lay_n L)) = Some (lay_at L (Suc (lay_n L)))
     \<and> st_parent w (lay_at L (Suc (lay_n L))) = None
     \<and> (\<forall>s. lay_sinks L = Some s \<longrightarrow> (\<exists>xs ys. obj_at w s = Some (ConveyorSinks xs ys)))
     \<and> (\<lambda>b. map_option owned (obj_at w b)) = lay_own L"

text \<open>The queue of the event loop holds the storages \<open>xs\<close> and nothing else.\<close>

definition chain_loop :: "('v, 'u) layout \<Rightarrow> nat list \<Rightarrow> event_loop \<Rightarrow> bool" where
  "chain_loop L xs l \<longleftrightarrow> entered l \<and> (\<forall>i \<le> lay_n L. ev_alive l (lay_at L i)) \<and> set xs \<subseteq> {..lay_n L}
     \<and> (\<exists>q. loop_rel l q \<and> lasts q = [] \<and> sched_queue q = map (lay_at L) xs)"

text \<open>A result that does not end the chain.\<close>

fun calm :: "'v error_or \<Rightarrow> bool" where
  "calm (IsError error) \<longleftrightarrow> \<not> isCritical error"
| "calm (IsValue _) \<longleftrightarrow> True"

text \<open>
  The stages below a buffer compute \<open>F i\<close> without changing the user's state; the stages below the sink
  change it by \<open>deliver\<close>. No stage answers with a critical error.
\<close>

definition chain_stages ::
    "('v, 'u) layout \<Rightarrow> (nat \<Rightarrow> 'v error_or \<Rightarrow> 'v error_or) \<Rightarrow> ('v error_or \<Rightarrow> 'u \<Rightarrow> 'u) \<Rightarrow> bool" where
  "chain_stages L F deliver \<longleftrightarrow>
     (\<forall>i < lay_n L. \<forall>x u. calm x \<longrightarrow> run_stages (lay_stages L i) x u = Some (F i x, u) \<and> calm (F i x))
     \<and> (\<forall>x u. calm x \<longrightarrow> (\<exists>y. run_stages (lay_stages L (lay_n L)) x u = Some (y, deliver x u) \<and> calm y))"

definition pipe_rep ::
    "('v, 'u) layout \<Rightarrow> (nat \<Rightarrow> 'v error_or \<Rightarrow> 'v error_or) \<Rightarrow> ('v error_or \<Rightarrow> 'u \<Rightarrow> 'u) \<Rightarrow>
     ('v, 'u) state \<Rightarrow> 'v error_or contents \<Rightarrow> nat list \<Rightarrow> 'u \<Rightarrow> bool" where
  "pipe_rep L F deliver st Q xs u \<longleftrightarrow>
     chain_stages L F deliver \<and> chain_objs L Q (snd st) \<and> chain_sink L (snd st) \<and> chain_loop L xs (fst st)
     \<and> (\<forall>i \<le> lay_n L. list_all calm (Q i)) \<and> user (snd st) = u"

section \<open>Single operations on a chain\<close>

lemma chain_at_eq:
  "chain_objs L Q w \<Longrightarrow> i \<le> lay_n L \<Longrightarrow> j \<le> lay_n L \<Longrightarrow> lay_at L i = lay_at L j \<longleftrightarrow> i = j"
  by (auto simp: chain_objs_def inj_on_def)

lemma storage_not_stage [simp]: "\<not> is_stage (storage_node L i ys)"
  by (cases i) auto

lemma chain_objs_store:
  assumes objs: "chain_objs L Q w" and i: "i \<le> lay_n L"
  shows "chain_objs L (Q(i := ys)) (w\<lparr>obj_at := (obj_at w)(lay_at L i := Some (storage_node L i ys)), user := u\<rparr>)"
proof -
  have at: "obj_at w (lay_at L i) = Some (storage_node L i (Q i))" using objs i by (simp add: chain_objs_def)
  have "path (w\<lparr>obj_at := (obj_at w)(lay_at L i := Some (storage_node L i ys)), user := u\<rparr>) (lay_top L j)
      (lay_stages L j) (lay_at L j)" if "j \<le> lay_n L" for j
  proof (rule path_cong)
    show "path w (lay_top L j) (lay_stages L j) (lay_at L j)" using objs that by (simp add: chain_objs_def)
  qed (use at in auto)
  moreover have "lay_at L j = lay_at L i \<longleftrightarrow> j = i" if "j \<le> lay_n L" for j
    using chain_at_eq [OF objs, of j i] that i by simp
  moreover have "st_parent w b = None" if "((obj_at w)(lay_at L i := Some (storage_node L i ys))) b = Some n" "is_stage n" for b n
    using objs that by (cases "b = lay_at L i") (auto simp: chain_objs_def)
  ultimately show ?thesis using objs unfolding chain_objs_def by (simp del: fun_upd_apply) simp
qed

lemma chain_sink_store:
  assumes "chain_objs L Q w" and "chain_sink L w" and "i \<le> lay_n L"
  shows "chain_sink L (w\<lparr>obj_at := (obj_at w)(lay_at L i := Some (storage_node L i ys)), user := u\<rparr>)"
proof -
  have at: "obj_at w (lay_at L i) = Some (storage_node L i (Q i))" using assms by (simp add: chain_objs_def)
  have "owned (storage_node L i ys) = owned (storage_node L i (Q i))" by (cases i) auto
  with at have "map_option owned (((obj_at w)(lay_at L i := Some (storage_node L i ys))) b) = map_option owned (obj_at w b)" for b
    by simp
  moreover from at have "lay_sinks L \<noteq> Some (lay_at L i)" "lay_at L i \<noteq> lay_at L (Suc (lay_n L))"
    using assms(2) by (cases i; auto simp: chain_sink_def)+
  ultimately show ?thesis using assms by (auto simp: chain_sink_def)
qed

lemma getResult_storage:
  assumes "obj_at (snd st) a = Some (storage_node L i (y # ys))"
  shows "getResult a st = Some (y, set_obj a (storage_node L i ys) st)"
  using assms by (subst getResult.simps) (cases i; simp)

text \<open>Pulling one element out of storage \<open>i\<close> through the stages above it.\<close>

lemma chain_pull:
  assumes objs: "chain_objs L Q w" and i: "i \<le> lay_n L" and Qi: "Q i = y # ys"
    and run: "run_stages (lay_stages L i) y (user w) = Some (z, u)"
  shows "getResult (lay_top L i) (l, w)
    = Some (z, l, w\<lparr>obj_at := (obj_at w)(lay_at L i := Some (storage_node L i ys)), user := u\<rparr>)"
proof -
  have "obj_at w (lay_at L i) = Some (storage_node L i (y # ys))" "path w (lay_top L i) (lay_stages L i) (lay_at L i)"
    using objs i Qi by (auto simp: chain_objs_def)
  then show ?thesis
    using getResult_path [of "(l, w)" "lay_top L i" "lay_stages L i" "lay_at L i"] run
    by (simp add: getResult_storage set_defs)
qed

lemma chain_armed:
  assumes "chain_objs L Q w" and "chain_loop L xs l" and "i \<le> lay_n L"
  shows "isArmed (lay_at L i) l \<longleftrightarrow> i \<in> set xs"
proof -
  from assms(2) obtain q where q: "loop_rel l q" "sched_queue q = map (lay_at L) xs" and xs: "set xs \<subseteq> {..lay_n L}"
    by (auto simp: chain_loop_def)
  have "lay_at L i \<in> lay_at L ` set xs \<longleftrightarrow> i \<in> set xs"
    using inj_on_image_mem_iff [of "lay_at L" "{..lay_n L}" i "set xs"] assms(1,3) xs
    by (fastforce simp: chain_objs_def)
  with armed_iff [OF q(1), of "lay_at L i"] q(2) show ?thesis by (simp add: isArmed_def)
qed

lemma chain_armLater:
  assumes "chain_objs L Q w" and "chain_loop L xs l" and "i \<le> lay_n L"
  shows "\<exists>l'. armLater (lay_at L i) l = Some l' \<and> chain_loop L (enqueue i xs) l'"
proof -
  from assms(2) obtain q where q: "loop_rel l q" "lasts q = []" "sched_queue q = map (lay_at L) xs"
    and l: "entered l" "\<forall>i \<le> lay_n L. ev_alive l (lay_at L i)" "set xs \<subseteq> {..lay_n L}"
    by (auto simp: chain_loop_def)
  have mem: "lay_at L i \<in> set (sched_queue q) \<longleftrightarrow> i \<in> set xs"
    using chain_armed [OF assms] armed_iff [OF q(1), of "lay_at L i"] by (auto simp: isArmed_def)
  have "sched_queue (sched_later (lay_at L i) q) = map (lay_at L) (enqueue i xs)" "lasts (sched_later (lay_at L i) q) = []"
    using q mem by (auto simp: sched_later_def enqueue_def) (simp add: sched_queue_def)
  with armLater_rel [OF q(1) l(1), of "lay_at L i"] l assms(3) show ?thesis
    unfolding chain_loop_def by auto
qed

lemma chain_space_below:
  assumes "chain_objs L Q w" and "i < lay_n L" and "length (Q (Suc i)) \<le> lay_cap L (Suc i)"
  shows "space (lay_at L (Suc i)) (l, w) = Some (lay_cap L (Suc i) - length (Q (Suc i)))"
proof -
  have "obj_at w (lay_at L (Suc i)) = Some (storage_node L (Suc i) (Q (Suc i)))" "lay_cap L (Suc i) < SIZE_MOD"
    using assms(1,2) by (auto simp: chain_objs_def)
  with assms(3) show ?thesis by (simp add: space_def sz_sub_exact)
qed

lemma chain_space:
  assumes "chain_objs L Q w" and "chain_sink L w" and "i \<le> lay_n L"
    and "i < lay_n L \<Longrightarrow> length (Q (Suc i)) \<le> lay_cap L (Suc i)"
  shows "\<exists>s. space (lay_at L (Suc i)) (l, w) = Some s \<and> (0 < s \<longleftrightarrow> room (lay_n L) (lay_cap L) Q i)"
proof (cases "i = lay_n L")
  case True
  with assms(2) show ?thesis by (simp add: chain_sink_def space_def room_def)
next
  case False
  with chain_space_below [OF assms(1), of i l] assms(3,4) show ?thesis by (auto simp: room_def)
qed

lemma chain_queued:
  assumes "chain_objs L Q w" and "i \<le> lay_n L"
  shows "queued (lay_at L i) (l, w) = Some (length (Q i))"
proof -
  have "obj_at w (lay_at L i) = Some (storage_node L i (Q i))" using assms by (simp add: chain_objs_def)
  then show ?thesis by (cases i) (simp_all add: queued_def)
qed

section \<open>Firing a storage of a chain\<close>

text \<open>The buffer above a storage takes one element out of it, if it has room.\<close>

lemma chain_receive_below:
  assumes objs: "chain_objs L Q w" and loop: "chain_loop L xs l" and n: "i < lay_n L" and ne: "Q i \<noteq> []"
    and cl: "\<forall>j \<le> lay_n L. list_all calm (Q j)"
    and quiet: "\<forall>x u. calm x \<longrightarrow> run_stages (lay_stages L i) x u = Some (F i x, u) \<and> calm (F i x)"
  defines "Q' \<equiv> fired (lay_n L) (lay_cap L) F i Q"
  shows "\<exists>l' w'. childHasFired (lay_at L (Suc i)) (l, w) = Some (l', w') \<and> chain_objs L Q' w'
    \<and> chain_loop L (if room (lay_n L) (lay_cap L) Q i then enqueue (Suc i) xs else xs) l'
    \<and> (\<forall>j \<le> lay_n L. list_all calm (Q' j))
    \<and> w' = (if room (lay_n L) (lay_cap L) Q i
        then w\<lparr>obj_at := (obj_at w)(lay_at L i := Some (storage_node L i (Q' i)), lay_at L (Suc i) := Some (storage_node L (Suc i) (Q' (Suc i))))\<rparr>
        else w)"
proof -
  obtain y ys where Qi: "Q i = y # ys" using ne by (cases "Q i") auto
  have i: "i \<le> lay_n L" "Suc i \<le> lay_n L" using n by auto
  have y: "calm y" "list_all calm ys" using cl i(1) Qi by auto
  have run: "run_stages (lay_stages L i) y (user w) = Some (F i y, user w)" "calm (F i y)" using quiet y by auto
  have above: "obj_at w (lay_at L (Suc i)) = Some (QueueBufferConveyorNode (Some (lay_top L i)) (Q (Suc i)) (lay_cap L (Suc i)))"
    using objs n by (simp add: chain_objs_def)
  show ?thesis
  proof (cases "room (lay_n L) (lay_cap L) Q i")
    case False
    then have "childHasFired (lay_at L (Suc i)) (l, w) = Some (l, w)" using n
      by (simp add: childHasFired_def above QueueBufferConveyorNode_childHasFired_def room_def)
    with False objs loop cl show ?thesis by (simp add: Q'_def fired_def)
  next
    case True
    then have room: "length (Q (Suc i)) < lay_cap L (Suc i)" using n by (simp add: room_def)
    let ?w1 = "w\<lparr>obj_at := (obj_at w)(lay_at L i := Some (storage_node L i ys)), user := user w\<rparr>"
    let ?qs = "Q (Suc i) @ [F i y]"
    let ?w2 = "?w1\<lparr>obj_at := (obj_at ?w1)(lay_at L (Suc i) := Some (storage_node L (Suc i) ?qs)), user := user w\<rparr>"
    have f: "Q' = (Q(i := ys))(Suc i := ?qs)"
      using True Qi n by (simp add: Q'_def fired_def move_def Let_def)
    note objs1 = chain_objs_store [OF objs i(1), of ys "user w"]
    note objs2 = chain_objs_store [OF objs1 i(2), of ?qs "user w"]
    have armed: "isArmed (lay_at L (Suc i)) l \<longleftrightarrow> Suc i \<in> set xs" by (rule chain_armed [OF objs loop i(2)])
    obtain l' where l': "armLater (lay_at L (Suc i)) l = Some l'" "chain_loop L (enqueue (Suc i) xs) l'"
      using chain_armLater [OF objs loop i(2)] by blast
    have calm2: "\<forall>j \<le> lay_n L. list_all calm (Q' j)" using cl y run(2) n by (simp add: f)
    have eq: "(l, ?w2) = set_obj (lay_at L (Suc i)) (QueueBufferConveyorNode (Some (lay_top L i)) ?qs (lay_cap L (Suc i))) (l, ?w1)"
      by (simp add: set_obj_def)
    have "childHasFired (lay_at L (Suc i)) (l, w)
        = (if Suc i \<in> set xs then Some (l, ?w2) else on_loop (armLater (lay_at L (Suc i))) (l, ?w2))"
      unfolding eq using chain_pull [OF objs i(1) Qi, of "F i y" "user w" l] run room armed
      by (cases "F i y") (simp_all add: childHasFired_def above QueueBufferConveyorNode_childHasFired_def Let_def,
          simp_all add: set_obj_def)
    moreover have "?w2 = w\<lparr>obj_at := (obj_at w)(lay_at L i := Some (storage_node L i (Q' i)), lay_at L (Suc i) := Some (storage_node L (Suc i) (Q' (Suc i))))\<rparr>"
      by (simp add: f)
    ultimately show ?thesis using l' loop objs2 calm2 n True by (auto simp: f on_loop_def enqueue_def)
  qed
qed

text \<open>The buffer or sink above a storage takes one element out of it, if it has room.\<close>

lemma chain_receive:
  assumes rep: "pipe_rep L F deliver (l, w) Q xs u" and i: "i \<le> lay_n L" and ne: "Q i \<noteq> []"
  shows "\<exists>l' w'. childHasFired (lay_at L (Suc i)) (l, w) = Some (l', w')
    \<and> pipe_rep L F deliver (l', w') (fired (lay_n L) (lay_cap L) F i Q)
        (if room (lay_n L) (lay_cap L) Q i \<and> i < lay_n L then enqueue (Suc i) xs else xs)
        (delivered (lay_n L) deliver i Q u)"
proof -
  note R = rep [unfolded pipe_rep_def fst_conv snd_conv]
  have objs: "chain_objs L Q w" and sink: "chain_sink L w" and loop: "chain_loop L xs l" and u: "user w = u"
    and stages: "chain_stages L F deliver" and cl: "\<forall>i \<le> lay_n L. list_all calm (Q i)" using R by auto
  show ?thesis
  proof (cases "i = lay_n L")
    case True
    obtain y ys where Qi: "Q i = y # ys" using ne by (cases "Q i") auto
    have y: "calm y" "list_all calm ys" using cl i Qi by auto
    from stages y obtain z where z: "run_stages (lay_stages L i) y u = Some (z, deliver y u)" "calm z"
      unfolding chain_stages_def True by blast
    let ?w = "w\<lparr>obj_at := (obj_at w)(lay_at L i := Some (storage_node L i ys)), user := deliver y u\<rparr>"
    have "childHasFired (lay_at L (Suc i)) (l, w) = Some (l, ?w)"
      using sink chain_sink_store [OF objs sink i, where ys = ys and u = "deliver y u"]
        z chain_pull [OF objs i Qi, of z "deliver y u" l] u True
      by (cases z) (auto simp: childHasFired_def chain_sink_def SinkConveyorNode_childHasFired_def
          ConveyorSinks_fail_def split: option.split)
    moreover have "fired (lay_n L) (lay_cap L) F i Q = Q(i := ys)"
      using Qi True by (simp add: fired_def room_def move_def Let_def)
    ultimately show ?thesis
      using chain_objs_store [OF objs i, of ys] chain_sink_store [OF objs sink i] stages loop cl y True Qi
      by (simp add: pipe_rep_def delivered_def)
  next
    case False
    then have n: "i < lay_n L" "Suc i \<le> lay_n L" using i by auto
    have "\<forall>x u. calm x \<longrightarrow> run_stages (lay_stages L i) x u = Some (F i x, u) \<and> calm (F i x)"
      using stages n(1) by (simp add: chain_stages_def)
    from chain_receive_below [where F = F and Q = Q and i = i, OF objs loop n(1) ne cl this] obtain l' w' where
      one: "childHasFired (lay_at L (Suc i)) (l, w) = Some (l', w')" "chain_objs L (fired (lay_n L) (lay_cap L) F i Q) w'"
        "chain_loop L (if room (lay_n L) (lay_cap L) Q i then enqueue (Suc i) xs else xs) l'"
        "\<forall>j \<le> lay_n L. list_all calm (fired (lay_n L) (lay_cap L) F i Q j)"
        "w' = (if room (lay_n L) (lay_cap L) Q i then w\<lparr>obj_at := (obj_at w)
            (lay_at L i := Some (storage_node L i (fired (lay_n L) (lay_cap L) F i Q i)),
             lay_at L (Suc i) := Some (storage_node L (Suc i) (fired (lay_n L) (lay_cap L) F i Q (Suc i))))\<rparr> else w)" by blast
    have "chain_sink L w'" "user w' = u"
      using chain_sink_store [OF chain_objs_store [OF objs i] chain_sink_store [OF objs sink i] n(2), where u = "user w"]
        sink u one(5) by auto
    with one(1-4) n(1) stages show ?thesis by (auto simp: pipe_rep_def delivered_def)
  qed
qed

lemma chain_again:
  assumes "pipe_rep L F deliver (l, w) Q xs u" and "i \<le> lay_n L"
  shows "\<exists>l'. on_loop (armLater (lay_at L i)) (l, w) = Some (l', w) \<and> pipe_rep L F deliver (l', w) Q (enqueue i xs) u"
  using assms chain_armLater [of L Q w xs l i] by (auto simp: pipe_rep_def on_loop_def)

lemma chain_parent:
  assumes "pipe_rep L F deliver (l, w) Q xs u" and "i \<le> lay_n L"
  shows "st_parent w (lay_at L i) = Some (lay_at L (Suc i))"
    and "obj_at w (lay_at L i) = Some (storage_node L i (Q i))"
    and "queued (lay_at L i) (l, w) = Some (length (Q i))"
  using assms chain_queued [of L Q w i l] by (cases "i = lay_n L"; simp add: pipe_rep_def chain_objs_def chain_sink_def)+

lemma chain_parentHasFired_below:
  assumes objs: "chain_objs L Q w" and loop: "chain_loop L xs l" and i: "i < lay_n L"
    and len: "length (Q (Suc i)) \<le> lay_cap L (Suc i)"
  shows "\<exists>l'. parentHasFired (lay_at L i) (l, w) = Some (l', w) \<and> chain_loop L
        (if 0 < i \<and> length (Q (Suc i)) < lay_cap L (Suc i) \<and> Q i \<noteq> [] then enqueue i xs else xs) l'"
proof -
  have at: "obj_at w (lay_at L i) = Some (storage_node L i (Q i))" "st_parent w (lay_at L i) = Some (lay_at L (Suc i))"
    using objs i by (simp_all add: chain_objs_def)
  note sp = chain_space_below [OF objs i len, of l]
  show ?thesis
  proof (cases i)
    case 0
    then show ?thesis using at sp loop by (subst parentHasFired.simps) simp
  next
    case (Suc k)
    obtain l' where "armLater (lay_at L i) l = Some l'" "chain_loop L (enqueue i xs) l'"
      using chain_armLater [OF objs loop, of i] i by auto
    then show ?thesis using at sp loop Suc by (subst parentHasFired.simps) (auto simp: on_loop_def)
  qed
qed

lemma chain_parentHasFired:
  assumes rep: "pipe_rep L F deliver (l, w) Q xs u" and i: "Suc i \<le> lay_n L"
    and len: "length (Q (Suc i)) \<le> lay_cap L (Suc i)"
  shows "\<exists>l'. parentHasFired (lay_at L i) (l, w) = Some (l', w)
    \<and> pipe_rep L F deliver (l', w) Q
        (if 0 < i \<and> length (Q (Suc i)) < lay_cap L (Suc i) \<and> Q i \<noteq> [] then enqueue i xs else xs) u"
  using chain_parentHasFired_below [of L Q w xs l i] rep i len by (auto simp: pipe_rep_def)

lemma pipe_inv_len: "pipe_inv n cap Q xs \<Longrightarrow> 0 < i \<Longrightarrow> i \<le> n \<Longrightarrow> length (Q i) \<le> cap i"
  by (simp add: pipe_inv_def)

text \<open>The common part of \<open>fire\<close>: the storage above takes an element and the storage is armed again.\<close>

lemma chain_pass_on:
  assumes rep: "pipe_rep L F deliver (l, w) Q xs u" and inv: "pipe_inv (lay_n L) (lay_cap L) Q (i # xs)"
  defines "Q' \<equiv> fired (lay_n L) (lay_cap L) F i Q"
  defines "xs' \<equiv> (if room (lay_n L) (lay_cap L) Q i \<and> i < lay_n L then enqueue (Suc i) xs else xs)"
  shows "\<exists>l1 w1 l2. childHasFired (lay_at L (Suc i)) (l, w) = Some (l1, w1)
    \<and> queued (lay_at L i) (l1, w1) = Some (length (Q' i))
    \<and> (\<exists>s. space (lay_at L (Suc i)) (l1, w1) = Some s \<and> (0 < s \<longleftrightarrow> room (lay_n L) (lay_cap L) Q' i))
    \<and> pipe_rep L F deliver (l1, w1) Q' xs' (delivered (lay_n L) deliver i Q u)
    \<and> on_loop (armLater (lay_at L i)) (l1, w1) = Some (l2, w1)
    \<and> pipe_rep L F deliver (l2, w1) Q' (enqueue i xs') (delivered (lay_n L) deliver i Q u)"
proof -
  have i: "i \<le> lay_n L" "Q i \<noteq> []" using inv by (auto simp: pipe_inv_def)
  from chain_receive [OF rep i] obtain l1 w1 where one: "childHasFired (lay_at L (Suc i)) (l, w) = Some (l1, w1)"
    "pipe_rep L F deliver (l1, w1) Q' xs' (delivered (lay_n L) deliver i Q u)" by (auto simp: Q'_def xs'_def)
  have "length (Q' (Suc i)) \<le> lay_cap L (Suc i)" if "i < lay_n L"
    using pipe_inv_len [OF pipe_inv_fired [OF inv, of F], of "Suc i"] that by (simp add: Q'_def)
  then have "\<exists>s. space (lay_at L (Suc i)) (l1, w1) = Some s \<and> (0 < s \<longleftrightarrow> room (lay_n L) (lay_cap L) Q' i)"
    using chain_space [of L Q' w1 i l1] one(2) i by (auto simp: pipe_rep_def)
  with one chain_parent(3) [OF one(2) i(1)] chain_again [OF one(2) i(1)] show ?thesis by blast
qed

text \<open>Firing a storage of the chain is the step of the specification.\<close>

lemma chain_fire:
  assumes rep: "pipe_rep L F deliver (l, w) Q xs u" and inv: "pipe_inv (lay_n L) (lay_cap L) Q (i # xs)"
  shows "\<exists>st'. fire (lay_at L i) (l, w) = Some st'
    \<and> pipe_rep L F deliver st' (fired (lay_n L) (lay_cap L) F i Q) (requeue (lay_n L) (lay_cap L) F i Q xs)
        (delivered (lay_n L) deliver i Q u)"
proof -
  let ?Q = "fired (lay_n L) (lay_cap L) F i Q"
  let ?u = "delivered (lay_n L) deliver i Q u"
  let ?xs = "if room (lay_n L) (lay_cap L) Q i \<and> i < lay_n L then enqueue (Suc i) xs else xs"
  have i: "i \<le> lay_n L" "Q i \<noteq> []" using inv by (auto simp: pipe_inv_def)
  note par = chain_parent [OF rep i(1)]
  from chain_pass_on [OF rep inv] obtain l1 w1 l2 s where pass:
    "childHasFired (lay_at L (Suc i)) (l, w) = Some (l1, w1)" "queued (lay_at L i) (l1, w1) = Some (length (?Q i))"
    "space (lay_at L (Suc i)) (l1, w1) = Some s" "0 < s \<longleftrightarrow> room (lay_n L) (lay_cap L) ?Q i"
    "pipe_rep L F deliver (l1, w1) ?Q ?xs ?u" "on_loop (armLater (lay_at L i)) (l1, w1) = Some (l2, w1)"
    "pipe_rep L F deliver (l2, w1) ?Q (enqueue i ?xs) ?u" by blast
  show ?thesis
  proof (cases i)
    case 0
    then show ?thesis using par(1,2) pass
      by (auto simp: fire_def AdaptConveyorNode_fire_def requeue_def Let_def)
  next
    case (Suc j)
    define xs2 where "xs2 = (if ?Q i \<noteq> [] \<and> room (lay_n L) (lay_cap L) ?Q i then enqueue i ?xs else ?xs)"
    obtain l3 where l3: "(if length (?Q i) > 0 then if s > 0 then on_loop (armLater (lay_at L i)) (l1, w1) else Some (l1, w1)
        else Some (l1, w1)) = Some (l3, w1)" "pipe_rep L F deliver (l3, w1) ?Q xs2 ?u"
      using pass(4-7) that [of l1] that [of l2] unfolding xs2_def
      by (cases "?Q i = []"; cases "s > 0") simp_all
    have cap: "lay_cap L i < SIZE_MOD" "length (Q i) \<le> lay_cap L i"
      using rep i pipe_inv_len [OF inv, of i] Suc by (auto simp: pipe_rep_def chain_objs_def)
    have drop: "QueueBufferConveyorNode_drop_child (lay_at L i) (Some (lay_top L j)) (Q i) (lay_cap L i) (l, w) = Some (l, w)"
      using rep i by (cases "Q i"; cases "hd (Q i)")
        (auto simp: QueueBufferConveyorNode_drop_child_def pipe_rep_def dest!: spec [where x = i])
    have child: "st_child w1 (lay_at L i) = Some (lay_at L j)"
      using pass(5) i Suc by (auto simp: pipe_rep_def chain_objs_def)
    have before: "space (lay_at L i) (l, w) = Some (lay_cap L i - length (Q i))"
      using par(2) Suc cap by (simp add: space_def sz_sub_exact)
    have len: "length (?Q (Suc j)) \<le> lay_cap L (Suc j)"
      using pipe_inv_len [OF pipe_inv_fired [OF inv, of F], of "Suc j"] i Suc by simp
    obtain l4 where l4: "parentHasFired (lay_at L j) (l3, w1) = Some (l4, w1)"
      "pipe_rep L F deliver (l4, w1) ?Q
         (if 0 < j \<and> length (?Q (Suc j)) < lay_cap L (Suc j) \<and> ?Q j \<noteq> [] then enqueue j xs2 else xs2) ?u"
      using chain_parentHasFired [OF l3(2) _ len] i Suc by auto
    have "fire (lay_at L i) (l, w) = (if \<not> length (Q i) < lay_cap L i then parentHasFired (lay_at L j) (l3, w1) else Some (l3, w1))"
      using par(1,2) Suc drop before pass(1-3) l3(1) child cap
      by (cases "?Q i = []"; cases "s > 0") (simp_all add: fire_def QueueBufferConveyorNode_fire_def Let_def)
    moreover have "requeue (lay_n L) (lay_cap L) F i Q xs = (if \<not> length (Q i) < lay_cap L i \<and> 0 < j
        \<and> length (?Q (Suc j)) < lay_cap L (Suc j) \<and> ?Q j \<noteq> [] then enqueue j xs2 else xs2)"
      using Suc by (simp add: requeue_def Let_def xs2_def)
    ultimately show ?thesis using l3(2) l4 by auto
  qed
qed

section \<open>The event loop runs the chain\<close>

lemma chain_turn:
  assumes rep: "pipe_rep L F deliver st Q (i # xs) u" and inv: "pipe_inv (lay_n L) (lay_cap L) Q (i # xs)"
  shows "\<exists>st'. turn fire st = Some (True, st')
    \<and> pipe_rep L F deliver st' (fired (lay_n L) (lay_cap L) F i Q) (requeue (lay_n L) (lay_cap L) F i Q xs)
        (delivered (lay_n L) deliver i Q u)"
proof -
  obtain l w where st: "st = (l, w)" by (cases st)
  from rep obtain q where q: "loop_rel l q" "lasts q = []" "sched_queue q = lay_at L i # map (lay_at L) xs"
    by (auto simp: st pipe_rep_def chain_loop_def)
  from take_head_rel [OF q(1,3)] obtain l' where l': "head l = Some (lay_at L i)" "take_head (lay_at L i) l = Some l'"
    "loop_rel l' (sched_take q)" "entered l' = entered l" "ev_alive l' = ev_alive l" by blast
  have "lasts (sched_take q) = []" "sched_queue (sched_take q) = map (lay_at L) xs"
    using q(2,3) by (auto simp: sched_take_def sched_queue_def)
  with l'(3-5) rep have "pipe_rep L F deliver (l', w) Q xs u"
    by (auto simp: st pipe_rep_def chain_loop_def)
  from chain_fire [OF this inv] l'(1,2) show ?thesis by (auto simp: turn_def st)
qed

definition loop_idle :: "('v, 'u) state \<Rightarrow> bool" where
  "loop_idle st \<longleftrightarrow> head (fst st) = None"

definition loop_step :: "('v, 'u) state \<Rightarrow> ('v, 'u) state option" where
  "loop_step st = do { (b, st) \<leftarrow> turn fire st; Some st }"

interpretation chain: pipe_system "lay_n L" "lay_cap L" F deliver "pipe_rep L F deliver" loop_idle loop_step
  for L F deliver
proof (unfold_locales, goal_cases)
  case (1 st Q xs u)
  then obtain q where "loop_rel (fst st) q" "sched_queue q = map (lay_at L) xs" by (auto simp: pipe_rep_def chain_loop_def)
  then show ?case by (cases xs) (auto simp: loop_idle_def loop_rel_def)
next
  case (2 st Q i xs u)
  then show ?case using chain_turn [of L F deliver st Q i xs u] by (auto simp: loop_step_def)
qed

lemma turn_True: "head (fst st) \<noteq> None \<Longrightarrow> turn fire st = do { st \<leftarrow> loop_step st; Some (True, st) }"
  by (auto simp: turn_def loop_step_def Option.bind_assoc split: option.split intro!: Option.bind_cong)

lemma turnLoop_steps:
  "chain.steps k st = Some st' \<Longrightarrow> turnLoop_from k fire st = Some (True, st')"
  by (induction k arbitrary: st)
     (auto simp: turn_True loop_idle_def split: if_splits elim!: bind_eq_SomeE)

section \<open>Chains of ownership\<close>

text \<open>\<open>below w a k\<close>: the object at \<open>a\<close> owns one object, which owns one, and so on, \<open>k\<close> times.\<close>

fun below :: "('v, 'u) world \<Rightarrow> addr \<Rightarrow> nat \<Rightarrow> bool" where
  "below w a 0 \<longleftrightarrow> (\<exists>n. obj_at w a = Some n \<and> owned n = [])"
| "below w a (Suc k) \<longleftrightarrow> (\<exists>n b. obj_at w a = Some n \<and> owned n = [b] \<and> below w b k)"

lemma below_unique: "below w a k \<Longrightarrow> below w a k' \<Longrightarrow> k = k'"
proof (induction k arbitrary: a k')
  case 0
  then show ?case by (cases k') auto
next
  case (Suc k)
  then show ?case by (cases k') auto
qed

text \<open>The objects of such a chain, from the top.\<close>

fun line :: "('v, 'u) world \<Rightarrow> addr list \<Rightarrow> bool" where
  "line w [] \<longleftrightarrow> False"
| "line w [a] \<longleftrightarrow> (\<exists>n. obj_at w a = Some n \<and> owned n = [])"
| "line w (a # b # as) \<longleftrightarrow> (\<exists>n. obj_at w a = Some n \<and> owned n = [b]) \<and> line w (b # as)"

lemma line_below: "line w (a # as) \<Longrightarrow> below w a (length as)"
  by (induction as arbitrary: a) auto

lemma line_append: "line w (as @ b # bs) \<Longrightarrow> line w (b # bs)"
  by (induction as rule: induct_list012) auto

lemma line_distinct:
  assumes "line w (a # as)"
  shows "a \<notin> set as"
proof
  assume "a \<in> set as"
  then obtain xs ys where as: "as = xs @ a # ys" by (meson split_list)
  then have "line w (a # ys)" using assms line_append [of w "a # xs" a ys] by simp
  then have "length as = length ys" using line_below assms below_unique by blast
  with as show False by simp
qed

lemma line_cong: "line w as \<Longrightarrow> (\<And>a. a \<in> set as \<Longrightarrow> map_option owned (obj_at w' a) = map_option owned (obj_at w a)) \<Longrightarrow> line w' as"
  by (induction w as rule: line.induct) (fastforce split: option.splits)+

lemma line_unique: "line w (a # as) \<Longrightarrow> line w (a # bs) \<Longrightarrow> as = bs"
proof (induction as arbitrary: a bs)
  case Nil
  then show ?case by (cases bs) auto
next
  case (Cons x xs)
  then show ?case by (cases bs) auto
qed

text \<open>All objects there are form one line from \<open>a\<close>.\<close>

definition owns_all :: "('v, 'u) world \<Rightarrow> addr \<Rightarrow> bool" where
  "owns_all w a \<longleftrightarrow> (\<exists>as. line w (a # as) \<and> dom (obj_at w) = set (a # as))"

lemma owns_all_cong:
  assumes "owns_all w a" and "(\<lambda>b. map_option owned (obj_at w' b)) = (\<lambda>b. map_option owned (obj_at w b))"
  shows "owns_all w' a"
proof -
  have own: "map_option owned (obj_at w' b) = map_option owned (obj_at w b)" for b using fun_cong [OF assms(2)] .
  then have "obj_at w' b = None \<longleftrightarrow> obj_at w b = None" for b by (metis option.map_disc_iff)
  then have "dom (obj_at w') = dom (obj_at w)" by (auto simp: dom_def)
  with assms(1) line_cong [of w _ w'] own show ?thesis unfolding owns_all_def by metis
qed

lemma owns_all_new:
  assumes "owns_all w b" and "obj_at w a = None" and "obj_at w' = (obj_at w)(a := Some n)" and "owned n = [b]"
  shows "owns_all w' a"
proof -
  from assms(1) obtain as where as: "line w (b # as)" "dom (obj_at w) = set (b # as)" by (auto simp: owns_all_def)
  then have "a \<notin> set (b # as)" using assms(2) by blast
  then have "line w' (b # as)" using as(1) by (rule_tac line_cong) (auto simp: assms(3))
  then have "line w' (a # b # as)" "dom (obj_at w') = set (a # b # as)" using assms(3,4) as(2) by auto
  then show ?thesis unfolding owns_all_def by blast
qed

section \<open>Building a chain with the library\<close>

text \<open>Calls of \<open>then\<close> and \<open>attach\<close>, in their order in the program.\<close>

fun add_stages :: "('v, 'u) stage list \<Rightarrow> conveyor \<Rightarrow> ('v, 'u) state \<Rightarrow> (conveyor \<times> ('v, 'u) state) option" where
  "add_stages [] c st = Some (c, st)"
| "add_stages (Then func error_func # ss) c st = do {
     (c, st) \<leftarrow> conveyor_then func error_func c st;
     add_stages ss c st
   }"
| "add_stages (Attach # ss) c st = do {
     (c, st) \<leftarrow> conveyor_attach c st;
     add_stages ss c st
   }"

text \<open>Segments of such calls, each followed by a call of \<open>buffer\<close>.\<close>

fun add_segments ::
    "(('v, 'u) stage list \<times> size_t) list \<Rightarrow> conveyor \<Rightarrow> ('v, 'u) state \<Rightarrow> (conveyor \<times> ('v, 'u) state) option" where
  "add_segments [] c st = Some (c, st)"
| "add_segments ((ss, sz) # segs) c st = do {
     (c, st) \<leftarrow> add_stages ss c st;
     (c, st) \<leftarrow> conveyor_buffer sz c st;
     add_segments segs c st
   }"

definition build_chain ::
    "(('v, 'u) stage list \<times> size_t) list \<Rightarrow> ('v, 'u) stage list \<Rightarrow> ('v, 'u) state \<Rightarrow> (addr \<times> addr \<times> ('v, 'u) state) option" where
  "build_chain segs ss st = do {
     (f, c, st) \<leftarrow> newConveyorAndFeeder st;
     (c, st) \<leftarrow> add_segments segs c st;
     (c, st) \<leftarrow> add_stages ss c st;
     (s, st) \<leftarrow> conveyor_sink c st;
     Some (f, s, st)
   }"

fun feed_all :: "addr \<Rightarrow> 'v error_or list \<Rightarrow> ('v, 'u) state \<Rightarrow> ('v, 'u) state option" where
  "feed_all f [] st = Some st"
| "feed_all f (IsValue v # xs) st = do { st \<leftarrow> feeder_feed f v st; feed_all f xs st }"
| "feed_all f (IsError e # xs) st = do { st \<leftarrow> feeder_fail f e st; feed_all f xs st }"

lemma add_segments_append:
  "add_segments (segs @ segs') c st = do { (c, st) \<leftarrow> add_segments segs c st; add_segments segs' c st }"
  by (induction segs c st rule: add_segments.induct)
     (auto simp: Option.bind_assoc split_def intro!: Option.bind_cong)

text \<open>A chain under construction: the topmost storage has no parent yet and nothing is queued.\<close>

definition open_chain :: "addr \<Rightarrow> ('v, 'u) layout \<Rightarrow> conveyor \<Rightarrow> 'u \<Rightarrow> ('v, 'u) state \<Rightarrow> bool" where
  "open_chain f L c u st \<longleftrightarrow>
     chain_objs L (\<lambda>i. []) (snd st) \<and> chain_loop L [] (fst st)
     \<and> st_parent (snd st) (lay_at L (lay_n L)) = None
     \<and> c = \<lparr>cv_node = Some (lay_top L (lay_n L)), cv_storage = Some (lay_at L (lay_n L))\<rparr>
     \<and> (\<forall>a. next_addr (snd st) \<le> a \<longrightarrow> obj_at (snd st) a = None)
     \<and> owns_all (snd st) (lay_top L (lay_n L)) \<and> lay_feeder L = Some f \<and> lay_sinks L = None \<and> user (snd st) = u"

lemma Event_new_rel:
  "loop_rel l q \<Longrightarrow> sched_queue q = [] \<Longrightarrow> loop_rel (Event_new a l) q"
  by (auto simp: loop_rel_def Event_new_def)

lemma chain_loop_new: "chain_loop L [] l \<Longrightarrow> chain_loop L [] (Event_new a l)"
  using Event_new_rel by (fastforce simp: chain_loop_def Event_new_def)

lemma chain_objs_new:
  assumes "chain_objs L Q w" and "obj_at w a = None" and "\<And>b. b \<noteq> a \<Longrightarrow> obj_at w' b = obj_at w b"
    and "\<And>b. b \<noteq> a \<Longrightarrow> st_parent w' b = st_parent w b" and "\<And>b. b \<noteq> a \<Longrightarrow> st_child w' b = st_child w b"
    and "\<And>n. obj_at w' a = Some n \<Longrightarrow> is_stage n \<Longrightarrow> st_parent w' a = None" and "feeder_at w' = feeder_at w"
  shows "chain_objs L Q w'"
proof -
  have at: "lay_at L i \<noteq> a" if "i \<le> lay_n L" for i
    using assms(1,2) that by (auto simp: chain_objs_def)
  have "path w' (lay_top L i) (lay_stages L i) (lay_at L i)" if "i \<le> lay_n L" for i
  proof (rule path_cong)
    show "path w (lay_top L i) (lay_stages L i) (lay_at L i)" using assms(1) that by (simp add: chain_objs_def)
  qed (use assms(2,3) in \<open>metis option.distinct(1)\<close>)
  moreover have "st_parent w' b = None" if "obj_at w' b = Some n" "is_stage n" for b n
    using assms(1,3,4,6) that by (cases "b = a") (auto simp: chain_objs_def)
  ultimately show ?thesis using assms(1,3-5,7) at by (simp add: chain_objs_def)
qed

definition lay_stage :: "addr \<Rightarrow> ('v, 'u) stage \<Rightarrow> ('v, 'u) layout \<Rightarrow> ('v, 'u) layout" where
  "lay_stage a g L = L\<lparr>lay_top := (lay_top L)(lay_n L := a),
     lay_stages := (lay_stages L)(lay_n L := g # lay_stages L (lay_n L))\<rparr>"

lemma lay_stage_simps [simp]:
  "lay_n (lay_stage a g L) = lay_n L" "lay_at (lay_stage a g L) = lay_at L" "lay_cap (lay_stage a g L) = lay_cap L"
  "lay_sinks (lay_stage a g L) = lay_sinks L" "lay_top (lay_stage a g L) = (lay_top L)(lay_n L := a)"
  "lay_stages (lay_stage a g L) = (lay_stages L)(lay_n L := g # lay_stages L (lay_n L))"
  "lay_feeder (lay_stage a g L) = lay_feeder L"
  by (simp_all add: lay_stage_def)

lemma storage_node_lay_stage: "i \<le> lay_n L \<Longrightarrow> storage_node (lay_stage a g L) i ys = storage_node L i ys"
  by (cases i) auto

lemma chain_objs_stage:
  assumes "chain_objs L Q w"
    and "case g of Then func error_func \<Rightarrow> obj_at w a = Some (ConvertConveyorNode (Some (lay_top L (lay_n L))) func error_func)
      | Attach \<Rightarrow> obj_at w a = Some (AttachConveyorNode (Some (lay_top L (lay_n L))))"
  shows "chain_objs (lay_stage a g L) Q w"
  using assms by (cases g) (auto simp: chain_objs_def storage_node_lay_stage)

lemma open_chain_stage:
  assumes open_c: "open_chain f L c u st"
  shows "\<exists>c' st'. add_stages [g] c st = Some (c', st') \<and> open_chain f (lay_stage (next_addr (snd st)) g L) c' u st'"
proof -
  obtain l w where st: "st = (l, w)" by (cases st)
  let ?a = "next_addr w" and ?L = "lay_stage (next_addr w) g L"
  note O = open_c [unfolded open_chain_def st fst_conv snd_conv]
  define n where "n = (case g of Then func error_func \<Rightarrow> ConvertConveyorNode (cv_node c) func error_func
    | Attach \<Rightarrow> AttachConveyorNode (cv_node c))"
  let ?w = "w\<lparr>obj_at := (obj_at w)(?a := Some n), st_parent := (st_parent w)(?a := None),
    st_child := (st_child w)(?a := None), next_addr := Suc ?a\<rparr>"
  have run: "add_stages [g] c st = Some (\<lparr>cv_node = Some ?a, cv_storage = cv_storage c\<rparr>, l, ?w)"
    by (cases g) (simp_all add: st n_def conveyor_then_def conveyor_attach_def new_obj_def Let_def)
  have fresh: "obj_at w ?a = None" using O by simp
  have "chain_objs L (\<lambda>i. []) ?w" by (rule chain_objs_new [of L _ w ?a]) (use O in auto)
  then have objs: "chain_objs ?L (\<lambda>i. []) ?w"
    by (rule chain_objs_stage) (use O in \<open>cases g; simp add: n_def\<close>)
  have "owned n = [lay_top L (lay_n L)]" using O by (cases g) (simp_all add: n_def)
  then have "owns_all ?w ?a" using owns_all_new [of w "lay_top L (lay_n L)" ?a ?w n] O fresh by simp
  moreover have "lay_at L (lay_n L) \<noteq> ?a" using O fresh by (auto simp: chain_objs_def)
  ultimately have "open_chain f ?L \<lparr>cv_node = Some ?a, cv_storage = cv_storage c\<rparr> u (l, ?w)"
    using objs O by (simp add: open_chain_def chain_loop_def)
  with run st show ?thesis by auto
qed

text \<open>Layouts that differ in the nodes above the topmost storage only.\<close>

definition same_below :: "('v, 'u) layout \<Rightarrow> ('v, 'u) layout \<Rightarrow> bool" where
  "same_below L L' \<longleftrightarrow> lay_n L' = lay_n L \<and> lay_cap L' = lay_cap L \<and> (\<forall>i < lay_n L. lay_stages L' i = lay_stages L i)"

lemma add_stages_Cons: "add_stages (g # ss) c st = do { (c, st) \<leftarrow> add_stages [g] c st; add_stages ss c st }"
  by (cases g) (simp_all add: split_def)

lemma open_chain_stages:
  assumes "open_chain f L c u st"
  shows "\<exists>c' st' L'. add_stages ss c st = Some (c', st') \<and> open_chain f L' c' u st' \<and> same_below L L'
    \<and> lay_stages L' (lay_n L) = rev ss @ lay_stages L (lay_n L)"
  using assms
proof (induction ss arbitrary: L c st)
  case Nil
  then show ?case by (auto simp: same_below_def)
next
  case (Cons g ss)
  from open_chain_stage [OF Cons.prems, of g] obtain c1 st1 where
    one: "add_stages [g] c st = Some (c1, st1)" "open_chain f (lay_stage (next_addr (snd st)) g L) c1 u st1" by blast
  from Cons.IH [OF one(2)] obtain c' st' L' where "add_stages ss c1 st1 = Some (c', st')" "open_chain f L' c' u st'"
    "same_below (lay_stage (next_addr (snd st)) g L) L'" "lay_stages L' (lay_n L) = rev ss @ g # lay_stages L (lay_n L)"
    by auto
  with one(1) show ?case by (subst add_stages_Cons) (auto simp: same_below_def)
qed

definition lay_buffer :: "addr \<Rightarrow> size_t \<Rightarrow> ('v, 'u) layout \<Rightarrow> ('v, 'u) layout" where
  "lay_buffer a sz L = (let n = Suc (lay_n L) in L\<lparr>lay_n := n, lay_at := (lay_at L)(n := a), lay_top := (lay_top L)(n := a),
     lay_stages := (lay_stages L)(n := []), lay_cap := (lay_cap L)(n := sz)\<rparr>)"

lemma lay_buffer_simps [simp]:
  "lay_n (lay_buffer a sz L) = Suc (lay_n L)" "lay_at (lay_buffer a sz L) = (lay_at L)(Suc (lay_n L) := a)"
  "lay_cap (lay_buffer a sz L) = (lay_cap L)(Suc (lay_n L) := sz)" "lay_sinks (lay_buffer a sz L) = lay_sinks L"
  "lay_top (lay_buffer a sz L) = (lay_top L)(Suc (lay_n L) := a)" "lay_feeder (lay_buffer a sz L) = lay_feeder L"
  "lay_stages (lay_buffer a sz L) = (lay_stages L)(Suc (lay_n L) := [])"
  by (simp_all add: lay_buffer_def Let_def)

lemma storage_node_lay_buffer: "i \<le> lay_n L \<Longrightarrow> storage_node (lay_buffer a sz L) i ys = storage_node L i ys"
  by (cases i) auto

text \<open>A new buffer or sink on top of an open chain: \<open>setParent\<close> arms nothing since nothing is queued.\<close>

lemma open_chain_setParent:
  assumes "open_chain f L c u (l, w)" and "p \<noteq> lay_at L (lay_n L)"
    and "obj_at w' (lay_at L (lay_n L)) = obj_at w (lay_at L (lay_n L))" and "ev_prev l' (lay_at L (lay_n L)) = None"
  shows "setParent (lay_at L (lay_n L)) p (l', w') = Some (set_parent (lay_at L (lay_n L)) (Some p) (l', w'))"
proof -
  have "obj_at w (lay_at L (lay_n L)) = Some (storage_node L (lay_n L) [])"
    using assms(1) by (auto simp: open_chain_def chain_objs_def)
  with assms(3,4) show ?thesis by (cases "lay_n L") (simp_all add: setParent_def queued_def isArmed_def)
qed

lemma event_not_stage: "is_event n \<Longrightarrow> \<not> is_stage n"
  by (cases n) auto

text \<open>The objects after the construction of a node \<open>n\<close> at \<open>a\<close> that becomes the parent of the chain.\<close>

definition topped :: "('v, 'u) layout \<Rightarrow> ('v, 'u) obj \<Rightarrow> ('v, 'u) world \<Rightarrow> ('v, 'u) world" where
  "topped L n w = w\<lparr>obj_at := (obj_at w)(next_addr w := Some n),
     st_parent := (st_parent w)(next_addr w := None, lay_at L (lay_n L) := Some (next_addr w)),
     st_child := (st_child w)(next_addr w := Some (lay_at L (lay_n L))), next_addr := Suc (next_addr w)\<rparr>"

lemma topped_run:
  assumes open_c: "open_chain f L c u (l, w)" and n: "is_event n"
  shows "do { (a, st) \<leftarrow> new_storage n (cv_storage c) (l, w); s \<leftarrow> cv_storage c; st \<leftarrow> setParent s a st; Some (a, st) }
    = Some (next_addr w, Event_new (next_addr w) l, topped L n w)"
    and "chain_objs L (\<lambda>i. []) (topped L n w\<lparr>st_parent := st_parent w\<rparr>)"
    and "lay_at L (lay_n L) \<noteq> next_addr w" and "chain_loop L [] (Event_new (next_addr w) l)"
proof -
  note O = open_c [unfolded open_chain_def fst_conv snd_conv]
  have fresh: "obj_at w (next_addr w) = None" using O by simp
  show neq: "lay_at L (lay_n L) \<noteq> next_addr w" using O fresh by (auto simp: chain_objs_def)
  show "chain_loop L [] (Event_new (next_addr w) l)" using O chain_loop_new by blast
  from O obtain q where "loop_rel l q" "sched_queue q = []" by (auto simp: chain_loop_def)
  then have "ev_prev l (lay_at L (lay_n L)) = None" by (auto simp: loop_rel_def)
  then have prev: "ev_prev (Event_new (next_addr w) l) (lay_at L (lay_n L)) = None" by (simp add: Event_new_def)
  have "entered l" using O by (simp add: chain_loop_def)
  with open_chain_setParent [OF open_c neq [symmetric] _ prev] neq O n
  show "do { (a, st) \<leftarrow> new_storage n (cv_storage c) (l, w); s \<leftarrow> cv_storage c; st \<leftarrow> setParent s a st; Some (a, st) }
    = Some (next_addr w, Event_new (next_addr w) l, topped L n w)"
    by (auto simp: new_storage_def new_obj_def Let_def set_defs topped_def)
  show "chain_objs L (\<lambda>i. []) (topped L n w\<lparr>st_parent := st_parent w\<rparr>)"
    by (rule chain_objs_new [of L _ w "next_addr w"]) (use O event_not_stage [OF n] in \<open>auto simp: topped_def\<close>)
qed

lemma path_parent [simp]: "path (w\<lparr>st_parent := p\<rparr>) a ss s = path w a ss s"
  by (induction w a ss s rule: path.induct) auto

text \<open>The objects of the chain are still in place, and the topmost storage knows its new parent.\<close>

lemma topped_objs:
  assumes "open_chain f L c u (l, w)" and "is_event n"
  shows "i \<le> lay_n L \<Longrightarrow> obj_at (topped L n w) (lay_at L i) = Some (storage_node L i [])"
    and "i \<le> lay_n L \<Longrightarrow> path (topped L n w) (lay_top L i) (lay_stages L i) (lay_at L i)"
    and "i < lay_n L \<Longrightarrow> st_child (topped L n w) (lay_at L (Suc i)) = Some (lay_at L i)"
    and "i < lay_n L \<Longrightarrow> st_parent (topped L n w) (lay_at L i) = Some (lay_at L (Suc i))"
    and "i \<le> lay_n L \<Longrightarrow> lay_at L i \<noteq> next_addr w"
    and "obj_at (topped L n w) b = Some m \<Longrightarrow> is_stage m \<Longrightarrow> st_parent (topped L n w) b = None"
proof -
  note T = topped_run(2) [OF assms, unfolded chain_objs_def]
  note O = assms(1) [unfolded open_chain_def fst_conv snd_conv]
  show neq: "i \<le> lay_n L \<Longrightarrow> lay_at L i \<noteq> next_addr w" for i using O by (auto simp: chain_objs_def)
  show "i \<le> lay_n L \<Longrightarrow> obj_at (topped L n w) (lay_at L i) = Some (storage_node L i [])" using T by simp
  show "i \<le> lay_n L \<Longrightarrow> path (topped L n w) (lay_top L i) (lay_stages L i) (lay_at L i)" using T by simp
  show "i < lay_n L \<Longrightarrow> st_child (topped L n w) (lay_at L (Suc i)) = Some (lay_at L i)" using T by simp
  show "i < lay_n L \<Longrightarrow> st_parent (topped L n w) (lay_at L i) = Some (lay_at L (Suc i))"
    using T neq [of i] O chain_at_eq [of L "\<lambda>i. []" w i "lay_n L"] by (auto simp: topped_def)
  show "obj_at (topped L n w) b = Some m \<Longrightarrow> is_stage m \<Longrightarrow> st_parent (topped L n w) b = None"
    using T O event_not_stage [OF assms(2)] by (auto simp: topped_def chain_objs_def split: if_splits)
qed

lemma open_chain_buffer:
  fixes w :: "('v, 'u) world"
  assumes open_c: "open_chain f L c u (l, w)" and sz: "sz < SIZE_MOD"
  shows "\<exists>c' st'. conveyor_buffer sz c (l, w) = Some (c', st') \<and> open_chain f (lay_buffer (next_addr w) sz L) c' u st'"
proof -
  let ?a = "next_addr w" and ?L = "lay_buffer (next_addr w) sz L"
  define n :: "('v, 'u) obj" where "n = QueueBufferConveyorNode (cv_node c) [] sz"
  note O = open_c [unfolded open_chain_def fst_conv snd_conv]
  have ev: "is_event n" by (simp add: n_def)
  note T = topped_objs [OF open_c ev]
  note run = topped_run [OF open_c ev]
  let ?w = "topped L n w"
  have "conveyor_buffer sz c (l, w) = Some (\<lparr>cv_node = Some ?a, cv_storage = Some ?a\<rparr>, Event_new ?a l, ?w)"
    using run(1) by (auto simp: conveyor_buffer_def n_def [symmetric] elim!: bind_eq_SomeE)
  moreover have "chain_objs ?L (\<lambda>i. []) ?w"
    unfolding chain_objs_def
  proof (intro conjI allI impI)
    fix i assume i: "i \<le> lay_n ?L"
    show "obj_at ?w (lay_at ?L i) = Some (storage_node ?L i [])"
    proof (cases "i = Suc (lay_n L)")
      case True
      then show ?thesis using O by (simp add: topped_def n_def)
    next
      case False
      then show ?thesis using T(1) [of i] i by (simp add: storage_node_lay_buffer)
    qed
    show "path ?w (lay_top ?L i) (lay_stages ?L i) (lay_at ?L i)"
      using T(2) i by (cases "i = Suc (lay_n L)") auto
  next
    fix i assume i: "i < lay_n ?L"
    show "st_child ?w (lay_at ?L (Suc i)) = Some (lay_at ?L i)"
      using T(3) i by (cases "i = lay_n L") (auto simp: topped_def)
    show "st_parent ?w (lay_at ?L i) = Some (lay_at ?L (Suc i))"
      using T(4) i by (cases "i = lay_n L") (auto simp: topped_def)
  next
    have "inj_on (lay_at L) {..lay_n L}" using O by (simp add: chain_objs_def)
    then show "inj_on (lay_at ?L) {..lay_n ?L}"
      using T(5) by (force simp: le_Suc_eq inj_on_def)
  next
    fix i assume "0 < i \<and> i \<le> lay_n ?L"
    then show "lay_cap ?L i < SIZE_MOD" using O sz by (cases "i = Suc (lay_n L)") (auto simp: chain_objs_def)
  next
    fix b m assume "obj_at ?w b = Some m \<and> is_stage m"
    then show "st_parent ?w b = None" using T(6) by blast
  next
    fix f assume "lay_feeder ?L = Some f"
    then show "feeder_at ?w f = Some (Some (lay_at ?L 0))" using O by (simp add: chain_objs_def topped_def)
  qed
  moreover have "chain_loop ?L [] (Event_new ?a l)"
    using run(4) T(5) by (auto simp: chain_loop_def Event_new_def)
  moreover have "st_parent ?w ?a = None" using run(3) by (simp add: topped_def)
  moreover have "owns_all ?w ?a"
    using owns_all_new [of w "lay_top L (lay_n L)" ?a ?w n] O by (simp add: topped_def n_def)
  moreover have "next_addr ?w = Suc ?a" "user ?w = user w"
    "\<forall>b. Suc ?a \<le> b \<longrightarrow> obj_at ?w b = obj_at w b" by (simp_all add: topped_def)
  ultimately show ?thesis using O by (simp add: open_chain_def)
qed

lemma open_chain_segments:
  assumes "open_chain f L c u st" and "lay_n L = 0" and "lay_stages L 0 = []"
    and "\<forall>i < length segs. snd (segs ! i) < SIZE_MOD"
  shows "\<exists>c' st' L'. add_segments segs c st = Some (c', st') \<and> open_chain f L' c' u st' \<and> lay_n L' = length segs
    \<and> (\<forall>i < length segs. lay_stages L' i = rev (fst (segs ! i)) \<and> lay_cap L' (Suc i) = snd (segs ! i))
    \<and> lay_stages L' (length segs) = []"
  using assms(4)
proof (induction segs rule: rev_induct)
  case Nil
  then show ?case using assms by auto
next
  case (snoc seg segs)
  obtain ss sz where seg: "seg = (ss, sz)" by (cases seg)
  have sz: "sz < SIZE_MOD" using snoc.prems seg by (auto dest: spec [where x = "length segs"])
  have "\<forall>i < length segs. snd (segs ! i) < SIZE_MOD"
    using snoc.prems by (metis length_append_singleton less_Suc_eq nth_append)
  from snoc.IH [OF this] obtain c1 st1 L1 where one: "add_segments segs c st = Some (c1, st1)" "open_chain f L1 c1 u st1"
    "lay_n L1 = length segs" "lay_stages L1 (length segs) = []"
    "\<forall>i < length segs. lay_stages L1 i = rev (fst (segs ! i)) \<and> lay_cap L1 (Suc i) = snd (segs ! i)" by blast
  from open_chain_stages [OF one(2), of ss] one(3) obtain c2 st2 L2 where two: "add_stages ss c1 st1 = Some (c2, st2)"
    "open_chain f L2 c2 u st2" "same_below L1 L2" "lay_stages L2 (length segs) = rev ss" using one(4) by auto
  from open_chain_buffer [of f L2 c2 u "fst st2" "snd st2", OF _ sz] two(2) obtain c3 st3 where
    three: "conveyor_buffer sz c2 st2 = Some (c3, st3)" "open_chain f (lay_buffer (next_addr (snd st2)) sz L2) c3 u st3" by auto
  have "add_segments (segs @ [seg]) c st = Some (c3, st3)"
    by (simp add: add_segments_append one(1) seg two(1) three(1))
  moreover have n2: "lay_n L2 = length segs" using one(3) two(3) by (simp add: same_below_def)
  moreover have "lay_stages (lay_buffer (next_addr (snd st2)) sz L2) i = rev (fst ((segs @ [seg]) ! i))
      \<and> lay_cap (lay_buffer (next_addr (snd st2)) sz L2) (Suc i) = snd ((segs @ [seg]) ! i)" if "i < Suc (length segs)" for i
    using that one(3,5) two(3,4) n2 seg by (cases "i = length segs") (auto simp: same_below_def nth_append)
  ultimately show ?case using three(2)
    by (intro exI [of _ c3] exI [of _ st3] exI [of _ "lay_buffer (next_addr (snd st2)) sz L2"]) simp
qed

lemma open_chain_start:
  "\<exists>f c st L. newConveyorAndFeeder (start u) = Some (f, c, st) \<and> open_chain f L c u st \<and> lay_n L = 0 \<and> lay_stages L 0 = []"
proof -
  let ?L = "\<lparr>lay_n = 0, lay_at = (\<lambda>i. 1), lay_top = (\<lambda>i. 1), lay_stages = (\<lambda>i. []), lay_cap = (\<lambda>i. 0),
    lay_feeder = Some 0, lay_sinks = None, lay_own = (\<lambda>a. None)\<rparr> :: ('a, 'b) layout"
  define w where "w = (\<lparr>obj_at = [1 \<mapsto> AdaptConveyorNode (Some 0) []], st_parent = (\<lambda>a. None)(1 := None),
    st_child = (\<lambda>a. None)(1 := None), feeder_at = [0 \<mapsto> Some 1], daemon_sink = None, next_addr = 2, user = u\<rparr> :: ('a, 'b) world)"
  define l where "l = Event_new 1 (EventLoop_new\<lparr>entered := True\<rparr>)"
  have run: "newConveyorAndFeeder (start u) = Some (0, \<lparr>cv_node = Some 1, cv_storage = Some 1\<rparr>, l, w)"
    by (simp add: newConveyorAndFeeder_def start_def new_storage_def new_obj_def setFeedee_def setFeeder_def Let_def
        set_defs l_def w_def)
  have "loop_rel l sched_empty"
    by (simp add: l_def loop_rel_def sched_queue_def sched_empty_def EventLoop_new_def Event_new_def)
  then have "chain_loop ?L [] l"
    by (auto simp: chain_loop_def l_def Event_new_def EventLoop_new_def sched_empty_def sched_queue_def
        intro!: exI [of _ sched_empty])
  then have "open_chain 0 ?L \<lparr>cv_node = Some 1, cv_storage = Some 1\<rparr> u (l, w)"
    by (auto simp: open_chain_def chain_objs_def w_def owns_all_def intro!: exI [of _ "[]"])
  with run show ?thesis by (intro exI conjI) auto
qed

lemma open_chain_sink:
  fixes w :: "('v, 'u) world"
  assumes open_c: "open_chain f L c u (l, w)" and stages: "chain_stages L F deliver"
  shows "\<exists>s st' L'. conveyor_sink c (l, w) = Some (s, st') \<and> pipe_rep L' F deliver st' (loaded []) [] u
    \<and> lay_n L' = lay_n L \<and> lay_cap L' = lay_cap L \<and> lay_feeder L' = Some f \<and> s = lay_at L' (Suc (lay_n L'))
    \<and> owns_all (snd st') s"
proof -
  let ?a = "next_addr w"
  define n :: "('v, 'u) obj" where "n = SinkConveyorNode (cv_node c) None"
  define L' where "L' = L\<lparr>lay_at := (lay_at L)(Suc (lay_n L) := ?a),
    lay_own := (\<lambda>b. map_option owned (obj_at (topped L n w) b))\<rparr>"
  have L': "lay_n L' = lay_n L" "lay_top L' = lay_top L" "lay_stages L' = lay_stages L" "lay_cap L' = lay_cap L"
    "lay_feeder L' = lay_feeder L" "lay_sinks L' = lay_sinks L" "lay_at L' = (lay_at L)(Suc (lay_n L) := ?a)"
    "lay_own L' = (\<lambda>b. map_option owned (obj_at (topped L n w) b))" by (simp_all add: L'_def)
  note O = open_c [unfolded open_chain_def fst_conv snd_conv]
  have ev: "is_event n" by (simp add: n_def)
  note T = topped_objs [OF open_c ev]
  note run = topped_run [OF open_c ev]
  let ?w = "topped L n w"
  have sn: "storage_node L' i ys = storage_node L i ys" for i ys by (cases i) (simp_all add: L')
  have "conveyor_sink c (l, w) = Some (?a, Event_new ?a l, ?w)"
    using run(1) by (auto simp: conveyor_sink_def n_def [symmetric] elim!: bind_eq_SomeE)
  moreover have "feeder_at ?w = feeder_at w" by (simp add: topped_def)
  then have "chain_objs L' (loaded []) ?w"
    using T(1-4) O by (auto simp: chain_objs_def sn L' loaded_def inj_on_def dest: T(6))
  moreover have "chain_sink L' ?w"
    using O run(3) unfolding chain_sink_def L' by (simp add: topped_def n_def)
  moreover have "chain_loop L' [] (Event_new ?a l)" using run(4) by (simp add: chain_loop_def L')
  moreover have "chain_stages L' F deliver" using stages by (simp add: chain_stages_def L')
  moreover have "owns_all ?w ?a"
    using owns_all_new [of w "lay_top L (lay_n L)" ?a ?w n] O by (simp add: topped_def n_def)
  moreover have "lay_feeder L' = Some f" "user ?w = u" using O by (simp_all add: topped_def L')
  ultimately show ?thesis
    by (intro exI [of _ ?a] exI [of _ "(Event_new ?a l, ?w)"] exI [of _ L']) (simp add: pipe_rep_def loaded_def L')
qed

section \<open>Feeding\<close>

lemma chain_armNext:
  assumes "chain_objs L Q w" and "chain_loop L (if ys = [] then [] else [0]) l"
  shows "\<exists>l'. armNext (lay_at L 0) l = Some l' \<and> chain_loop L [0] l'"
proof -
  from assms(2) obtain q where q: "loop_rel l q" "lasts q = []" "sched_queue q = (if ys = [] then [] else [lay_at L 0])"
    and l: "entered l" "\<forall>i \<le> lay_n L. ev_alive l (lay_at L i)" by (auto simp: chain_loop_def split: if_splits)
  have "sched_queue (sched_next (lay_at L 0) q) = [lay_at L 0]" "lasts (sched_next (lay_at L 0) q) = []"
    using q(2,3) by (auto simp: sched_next_def sched_queue_def split: if_splits)
  with armNext_rel [OF q(1) l(1), of "lay_at L 0"] l(2) show ?thesis by (auto simp: chain_loop_def)
qed

lemma chain_feed:
  assumes rep: "pipe_rep L F deliver st (loaded ys) (if ys = [] then [] else [0]) u" and x: "calm x"
    and lf: "lay_feeder L = Some f"
  shows "\<exists>st'. feed_all f [x] st = Some st' \<and> pipe_rep L F deliver st' (loaded (ys @ [x])) [0] u"
proof -
  obtain l w where st: "st = (l, w)" by (cases st)
  note R = rep [unfolded st pipe_rep_def fst_conv snd_conv]
  have f: "feeder_at w f = Some (Some (lay_at L 0))" using R lf by (simp add: chain_objs_def)
  have a: "obj_at w (lay_at L 0) = Some (AdaptConveyorNode (lay_feeder L) ys)"
    using R by (simp add: chain_objs_def loaded_def)
  obtain l' where l': "armNext (lay_at L 0) l = Some l'" "chain_loop L [0] l'"
    using chain_armNext [of L "loaded ys" w ys l] R by blast
  let ?w = "w\<lparr>obj_at := (obj_at w)(lay_at L 0 := Some (storage_node L 0 (ys @ [x]))), user := u\<rparr>"
  have "feed_all f [x] st = Some (l', ?w)"
    using a f l'(1) R by (cases x)
      (simp_all add: feeder_feed_def feeder_fail_def with_feedee_def AdaptConveyorNode_feed_def on_loop_def st set_obj_def)
  moreover have "(loaded ys)(0 := ys @ [x]) = loaded (ys @ [x])" by (auto simp: loaded_def)
  moreover have "list_all calm ys" using R by (auto simp: loaded_def dest: spec [where x = 0])
  ultimately show ?thesis
    using R l'(2) x f chain_objs_store [of L "loaded ys" w 0 "ys @ [x]" u]
      chain_sink_store [of L "loaded ys" w 0] by (simp add: pipe_rep_def loaded_def st)
qed

lemma feed_all_Cons: "feed_all f (x # xs) st = do { st \<leftarrow> feed_all f [x] st; feed_all f xs st }"
  by (cases x) simp_all

lemma chain_feed_all:
  assumes "pipe_rep L F deliver st (loaded ys) (if ys = [] then [] else [0]) u" and "list_all calm xs"
    and "lay_feeder L = Some f"
  shows "\<exists>st'. feed_all f xs st = Some st'
    \<and> pipe_rep L F deliver st' (loaded (ys @ xs)) (if ys @ xs = [] then [] else [0]) u"
  using assms
proof (induction xs arbitrary: ys st)
  case Nil
  then show ?case by simp
next
  case (Cons x xs)
  from chain_feed [OF Cons.prems(1), of x f] Cons.prems(2,3) obtain st1 where
    "feed_all f [x] st = Some st1" "pipe_rep L F deliver st1 (loaded (ys @ [x])) [0] u" by auto
  with Cons.IH [of st1 "ys @ [x]"] Cons.prems(2,3) show ?case by (subst feed_all_Cons) auto
qed

section \<open>Properties\<close>

text \<open>The conditions on the segments of a chain: capacities, and stages that compute \<open>F\<close> quietly.\<close>

definition segments_ok ::
    "(('v, 'u) stage list \<times> size_t) list \<Rightarrow> (nat \<Rightarrow> 'v error_or \<Rightarrow> 'v error_or) \<Rightarrow> bool" where
  "segments_ok segs F \<longleftrightarrow> (\<forall>i < length segs. 0 < snd (segs ! i) \<and> snd (segs ! i) < SIZE_MOD
     \<and> (\<forall>x u. calm x \<longrightarrow> run_stages (rev (fst (segs ! i))) x u = Some (F i x, u) \<and> calm (F i x)))"

definition sink_ok :: "('v, 'u) stage list \<Rightarrow> ('v error_or \<Rightarrow> 'u \<Rightarrow> 'u) \<Rightarrow> bool" where
  "sink_ok ss deliver \<longleftrightarrow> (\<forall>x u. calm x \<longrightarrow> (\<exists>y. run_stages (rev ss) x u = Some (y, deliver x u) \<and> calm y))"

lemma build_chain_rep:
  fixes segs :: "(('v, 'u) stage list \<times> size_t) list"
  assumes "segments_ok segs F" and "sink_ok ss deliver" and "list_all calm xs"
  shows "\<exists>f s st st' L. build_chain segs ss (start u) = Some (f, s, st) \<and> feed_all f xs st = Some st'
    \<and> pipe_rep L F deliver st' (loaded xs) (if xs = [] then [] else [0]) u
    \<and> lay_n L = length segs \<and> (\<forall>i. 0 < i \<and> i \<le> length segs \<longrightarrow> lay_cap L i = snd (segs ! (i - 1)))
    \<and> lay_feeder L = Some f \<and> s = lay_at L (Suc (length segs)) \<and> owns_all (snd st') s"
proof -
  obtain f c st and L :: "('v, 'u) layout" where
    one: "newConveyorAndFeeder (start u) = Some (f, c, st)" "open_chain f L c u st"
    "lay_n L = 0" "lay_stages L 0 = []" using open_chain_start [of u] by blast
  have caps: "\<forall>i < length segs. snd (segs ! i) < SIZE_MOD" using assms(1) by (simp add: segments_ok_def)
  from open_chain_segments [OF one(2-4) caps] obtain c2 st2 L2 where two: "add_segments segs c st = Some (c2, st2)"
    "open_chain f L2 c2 u st2" "lay_n L2 = length segs" "lay_stages L2 (length segs) = []"
    "\<forall>i < length segs. lay_stages L2 i = rev (fst (segs ! i)) \<and> lay_cap L2 (Suc i) = snd (segs ! i)" by blast
  from open_chain_stages [OF two(2), of ss] two(3,4) obtain c3 st3 L3 where three: "add_stages ss c2 st2 = Some (c3, st3)"
    "open_chain f L3 c3 u st3" "same_below L2 L3" "lay_stages L3 (length segs) = rev ss" by auto
  have n: "lay_n L3 = length segs" "lay_cap L3 = lay_cap L2" using two(3) three(3) by (auto simp: same_below_def)
  have "chain_stages L3 F deliver" using assms(1,2) two(3,5) three(3,4) n
    by (auto simp: chain_stages_def segments_ok_def sink_ok_def same_below_def)
  with open_chain_sink [of f L3 c3 u "fst st3" "snd st3" F deliver] three(2) obtain s st4 L4 where four:
    "conveyor_sink c3 st3 = Some (s, st4)" "pipe_rep L4 F deliver st4 (loaded []) [] u" "lay_n L4 = lay_n L3"
    "lay_cap L4 = lay_cap L3" "lay_feeder L4 = Some f" "s = lay_at L4 (Suc (lay_n L4))" "owns_all (snd st4) s" by auto
  have build: "build_chain segs ss (start u) = Some (f, s, st4)"
    using one(1) two(1) three(1) four(1) by (simp add: build_chain_def)
  from chain_feed_all [of L4 F deliver st4 "[]" u xs f] four(2,5) assms(3) obtain st5 where
    five: "feed_all f xs st4 = Some st5" "pipe_rep L4 F deliver st5 (loaded xs) (if xs = [] then [] else [0]) u" by auto
  have "owns_all (snd st5) s"
    by (rule owns_all_cong [OF four(7)]) (use four(2) five(2) in \<open>simp add: pipe_rep_def chain_sink_def\<close>)
  moreover have "lay_cap L4 i = snd (segs ! (i - 1))" if "0 < i" "i \<le> length segs" for i
    using two(5) n(2) four(4) that by (cases i) auto
  ultimately show ?thesis using build five four(3,5,6) n(1)
    by (intro exI [of _ f] exI [of _ s] exI [of _ st4] exI [of _ st5] exI [of _ L4]) simp
qed

lemma segments_caps:
  assumes "segments_ok segs F" and "\<forall>i. 0 < i \<and> i \<le> length segs \<longrightarrow> lay_cap L i = snd (segs ! (i - 1))"
    and "0 < i" and "i \<le> length segs"
  shows "0 < lay_cap L i"
  using assms by (cases i) (auto simp: segments_ok_def)

lemma chain_run:
  assumes "segments_ok segs F" and "sink_ok ss deliver" and "list_all calm xs"
    and "length xs * (length segs + 1) * (length segs + 1) \<le> 65536"
  shows "\<exists>f s st st1 st2 L Q. build_chain segs ss (start u) = Some (f, s, st) \<and> feed_all f xs st = Some st1
    \<and> poll st1 = Some st2 \<and> head (fst st2) = None
    \<and> user (snd st2) = fold deliver (map (\<lambda>x. fold F [0..<length segs] x) xs) u
    \<and> pipe_rep L F deliver st2 Q [] (user (snd st2)) \<and> owns_all (snd st2) s \<and> s = lay_at L (Suc (lay_n L))
    \<and> lay_feeder L = Some f"
proof -
  from build_chain_rep [OF assms(1-3), of u] obtain f s st st1 L where
    b: "build_chain segs ss (start u) = Some (f, s, st)" "feed_all f xs st = Some st1"
      "pipe_rep L F deliver st1 (loaded xs) (if xs = [] then [] else [0]) u" "lay_n L = length segs"
      "\<forall>i. 0 < i \<and> i \<le> length segs \<longrightarrow> lay_cap L i = snd (segs ! (i - 1))"
      "lay_feeder L = Some f" "s = lay_at L (Suc (length segs))" "owns_all (snd st1) s" by blast
  have cap: "0 < lay_cap L i" if "0 < i" "i \<le> lay_n L" for i
    using segments_caps [OF assms(1) b(5)] that b(4) by simp
  have "rank (lay_n L) (lay_cap L) (loaded xs) (if xs = [] then [] else [0]) \<le> 65536"
    using rank_loaded [of "lay_n L" "lay_cap L" xs, OF cap] assms(4) b(4) by simp
  from chain.steps_deliver [OF b(3) pipe_inv_loaded [OF cap] this] obtain st2 Q where
    d: "chain.steps 65536 st1 = Some st2" "loop_idle st2"
      "pipe_rep L F deliver st2 Q [] (fold deliver (pending F (loaded xs) (lay_n L)) u)" by blast
  have "poll st1 = Some st2"
    using turnLoop_steps [OF d(1)] by (simp add: poll_def EventLoop_poll_def turnLoop_def)
  moreover have "user (snd st2) = fold deliver (map (\<lambda>x. fold F [0..<length segs] x) xs) u" "head (fst st2) = None"
    using d(2,3) b(4) by (simp_all add: pipe_rep_def pending_loaded loop_idle_def)
  moreover have "owns_all (snd st2) s"
    by (rule owns_all_cong [OF b(8)]) (use b(3) d(3) in \<open>simp add: pipe_rep_def chain_sink_def\<close>)
  moreover have "pipe_rep L F deliver st2 Q [] (user (snd st2))" using d(3) by (simp add: pipe_rep_def)
  ultimately show ?thesis using b(1,2,4,6,7)
    by (intro exI [of _ f] exI [of _ s] exI [of _ st] exI [of _ st1] exI [of _ st2] exI [of _ L] exI [of _ Q]) simp
qed

text \<open>
  C2: a chain of conveyors delivers everything that is fed to it, in order, and exactly once. A
  program builds a chain with a feeder, any number of segments of \<open>then\<close> and \<open>attach\<close> calls that end in a
  buffer of any positive size, further \<open>then\<close> and \<open>attach\<close> calls and a sink; it feeds results (values
  or errors that are not critical) and polls the event loop. Then nothing fails on the way, the functions
  below the sink have been run on every result, transformed by the segments, in the order of feeding, and
  the event loop has nothing left to do. The limit of 65536 turns is enough for \<open>N\<close> results and \<open>n\<close>
  buffers if \<open>N * (n + 1) * (n + 1)\<close> does not exceed it.
\<close>

theorem chain_delivers_in_order:
  assumes "segments_ok segs F" and "sink_ok ss deliver" and "list_all calm xs"
    and "length xs * (length segs + 1) * (length segs + 1) \<le> 65536"
  shows "\<exists>f s st st1 st2. build_chain segs ss (start u) = Some (f, s, st) \<and> feed_all f xs st = Some st1
    \<and> poll st1 = Some st2 \<and> head (fst st2) = None
    \<and> user (snd st2) = fold deliver (map (\<lambda>x. fold F [0..<length segs] x) xs) u"
  using chain_run [OF assms, of u] by blast

theorem chain_delivers_in_order_witness:
  "\<exists>f s st st1 st2. build_chain [([Then (\<lambda>v u. (Returns (IsValue (v + 1)), u)) PropagateError], 2)]
        [Then (\<lambda>v u. (Returns (IsValue 0), u @ [v])) PropagateError, Attach] (start []) = Some (f, s, st)
     \<and> feed_all f [IsValue 5, IsValue 7, IsValue (9 :: nat)] st = Some st1 \<and> poll st1 = Some st2
     \<and> head (fst st2) = None \<and> user (snd st2) = [6, 8, 10]"
proof -
  let ?F = "\<lambda>i :: nat. \<lambda>x :: nat error_or. case x of IsValue v \<Rightarrow> IsValue (v + 1) | IsError e \<Rightarrow> IsError e"
  let ?d = "\<lambda>x :: nat error_or. \<lambda>u :: nat list. case x of IsValue v \<Rightarrow> u @ [v] | IsError e \<Rightarrow> u"
  have 1: "segments_ok [([Then (\<lambda>v (u :: nat list). (Returns (IsValue (v + 1)), u)) PropagateError], 2)] ?F"
    by (auto simp: segments_ok_def convert_result_def PropagateError_def SIZE_MOD_def split: error_or.split)
  have 2: "sink_ok [Then (\<lambda>v u. (Returns (IsValue 0), u @ [v])) PropagateError, Attach] ?d"
    by (auto simp: sink_ok_def convert_result_def PropagateError_def split: error_or.split)
  have 3: "list_all calm [IsValue 5, IsValue 7, IsValue (9 :: nat)]" by simp
  show ?thesis using chain_delivers_in_order [OF 1 2 3, of "[]"] by simp
qed

text \<open>
  The chain keeps its books at every moment. However few or many turns the event loop has made, none has
  failed, and running the functions below the sink on the results still in the storages, topmost storage
  first, would lead to the same final state of the program.
\<close>

lemma chain_books_balance:
  assumes "segments_ok segs F" and "sink_ok ss deliver" and "list_all calm xs"
  shows "\<exists>f s st st1 st2 L Q ys. build_chain segs ss (start u) = Some (f, s, st) \<and> feed_all f xs st = Some st1
    \<and> turnLoop_from k fire st1 = Some (True, st2) \<and> pipe_rep L F deliver st2 Q ys (user (snd st2))
    \<and> pipe_inv (lay_n L) (lay_cap L) Q ys \<and> lay_n L = length segs
    \<and> fold deliver (pending F Q (length segs)) (user (snd st2))
        = fold deliver (map (\<lambda>x. fold F [0..<length segs] x) xs) u"
proof -
  from build_chain_rep [OF assms, of u] obtain f s st st1 L where
    b: "build_chain segs ss (start u) = Some (f, s, st)" "feed_all f xs st = Some st1"
      "pipe_rep L F deliver st1 (loaded xs) (if xs = [] then [] else [0]) u" "lay_n L = length segs"
      "\<forall>i. 0 < i \<and> i \<le> length segs \<longrightarrow> lay_cap L i = snd (segs ! (i - 1))" by blast
  have cap: "0 < lay_cap L i" if "0 < i" "i \<le> lay_n L" for i
    using segments_caps [OF assms(1) b(5)] that b(4) by simp
  from chain.steps_conserve [OF b(3) pipe_inv_loaded [OF cap], of k] obtain st2 Q ys v where
    d: "chain.steps k st1 = Some st2" "pipe_rep L F deliver st2 Q ys v" "pipe_inv (lay_n L) (lay_cap L) Q ys"
      "fold deliver (pending F Q (lay_n L)) v = fold deliver (pending F (loaded xs) (lay_n L)) u" by blast
  have "v = user (snd st2)" using d(2) by (simp add: pipe_rep_def)
  then show ?thesis using b(1,2,4) d(2-4) turnLoop_steps [OF d(1)]
    by (intro exI [of _ f] exI [of _ s] exI [of _ st] exI [of _ st1] exI [of _ st2] exI [of _ L] exI [of _ Q] exI [of _ ys])
      (simp add: pending_loaded)
qed

end
