(* ===== verification/Conveyor_Nodes.thy ===== *)
theory Conveyor_Nodes
  imports Conveyor_Chain
begin

text \<open>
  Single conveyor nodes: taking results by hand, immediate conveyors and detached chains. Two defects
  of the merge node and one of destruction are stated as they are.
\<close>

section \<open>Evaluation of the model\<close>

named_theorems node_eval \<open>definitions and rules that run a program on the model\<close>

lemma getResult_Adapt [node_eval]:
  "obj_at (snd st) a = Some (AdaptConveyorNode f (x # xs)) \<Longrightarrow>
   getResult a st = Some (x, set_obj a (AdaptConveyorNode f xs) st)"
  by (subst getResult.simps) simp

lemma getResult_QueueBuffer [node_eval]:
  "obj_at (snd st) a = Some (QueueBufferConveyorNode c (x # xs) m) \<Longrightarrow>
   getResult a st = Some (x, set_obj a (QueueBufferConveyorNode c xs m) st)"
  by (subst getResult.simps) simp

lemma getResult_Immediate [node_eval]:
  "obj_at (snd st) a = Some (ImmediateConveyorNode val retrieved) \<Longrightarrow> getResult a st = Some
     (if retrieved > 0 then IsError (makeError ''Already taken value'' Exhausted) else val,
      if retrieved > 1 then st else set_obj a (ImmediateConveyorNode val (retrieved + 1)) st)"
  by (subst getResult.simps) simp

lemma getResult_Convert [node_eval]:
  "obj_at (snd st) a = Some (ConvertConveyorNode (Some c) func error_func) \<Longrightarrow> getResult a st = do {
     (dep_eov, st) \<leftarrow> getResult c st;
     (eov, u) \<leftarrow> convert_result func error_func dep_eov (user (snd st));
     Some (eov, set_user u st)
   }"
  by (subst getResult.simps) simp

lemma getResult_Merge [node_eval]:
  "obj_at (snd st) a = Some (MergeConveyorNode appendages k) \<Longrightarrow>
   getResult a st = MergeConveyorNode_getResult a appendages k st"
  by (subst getResult.simps) simp

lemma destroy_all_simps [node_eval]:
  "destroy_all [] st = Some st"
  "destroy_all (a # as) st = do {
     n \<leftarrow> obj_at (snd st) a;
     st \<leftarrow> destructor_body a n st;
     st \<leftarrow> destroy_all (owned n) st;
     st \<leftarrow> destroy_bases a n st;
     destroy_all as st
   }"
  by (subst destroy_all.simps, simp)+

lemma turnLoop_from_numeral [node_eval]:
  "turnLoop_from (numeral k) fire st = (if head (fst st) \<noteq> None then do {
     (ok, st) \<leftarrow> turn fire st;
     if \<not> ok then Some (False, st) else turnLoop_from (pred_numeral k) fire st
   } else Some (True, st))"
  by (simp add: numeral_eq_Suc)

lemmas event_eval = start_def EventLoop_new_def Event_new_def Event_delete_def isArmed_def on_loop_def armNext_def
  armLater_def armLast_def disarm_def link_event_def read_slot_def write_slot_def write_prev_def setRunnable_def
  slot_valid_def slot_content_def take_head_def turn_def poll_def EventLoop_poll_def turnLoop_def

lemmas node_defs = set_defs new_obj_def new_storage_def setParent_def queued_def space_def Appendage_queued_def Let_def
  fire_def childHasFired_def AdaptConveyorNode_fire_def QueueBufferConveyorNode_fire_def
  QueueBufferConveyorNode_drop_child_def QueueBufferConveyorNode_childHasFired_def ImmediateConveyorNode_fire_def
  MergeConveyorNode_fire_def Appendage_childHasFired_def SinkConveyorNode_childHasFired_def SinkConveyorNode_fire_def
  ConveyorSinks_fail_def destroySinkConveyorNode_def remove_if_sink_def
  destroy_def destructor_body_def destroy_bases_def ConveyorStorage_delete_def unlinkChild_def

lemmas api_defs = newConveyorAndFeeder_def setFeedee_def setFeeder_def feeder_feed_def feeder_fail_def with_feedee_def
  AdaptConveyorNode_feed_def Conveyor_value_def Conveyor_error_def conveyor_then_def conveyor_attach_def
  conveyor_buffer_def conveyor_sink_def conveyor_merge_def merge_attach_def MergeConveyor_attach_def conveyor_take_def
  conveyor_detach_def detachConveyor_def daemon_def ConveyorSinks_add_def

declare event_eval [node_eval] node_defs [node_eval] api_defs [node_eval]

section \<open>Taking results by hand\<close>

text \<open>What the stages of a chain make of a list of results, one after the other.\<close>

fun run_all :: "('v, 'u) stage list \<Rightarrow> 'v error_or list \<Rightarrow> 'u \<Rightarrow> ('v error_or list \<times> 'u) option" where
  "run_all ss [] u = Some ([], u)"
| "run_all ss (x # xs) u = do {
     (y, u) \<leftarrow> run_stages ss x u;
     (ys, u) \<leftarrow> run_all ss xs u;
     Some (y # ys, u)
   }"

fun take_all :: "nat \<Rightarrow> conveyor \<Rightarrow> ('v, 'u) state \<Rightarrow> ('v error_or list \<times> ('v, 'u) state) option" where
  "take_all 0 c st = Some ([], st)"
| "take_all (Suc k) c st = do {
     (y, st) \<leftarrow> conveyor_take c st;
     (ys, st) \<leftarrow> take_all k c st;
     Some (y # ys, st)
   }"

text \<open>A conveyor over an adapt node with stages \<open>ss\<close> above it, next one first.\<close>

definition adapt_conveyor :: "addr \<Rightarrow> conveyor \<Rightarrow> ('v, 'u) stage list \<Rightarrow> 'v error_or list \<Rightarrow> ('v, 'u) state \<Rightarrow> bool" where
  "adapt_conveyor f c ss xs st \<longleftrightarrow> (\<exists>a t g. c = \<lparr>cv_node = Some t, cv_storage = Some a\<rparr> \<and> path (snd st) t ss a
     \<and> obj_at (snd st) a = Some (AdaptConveyorNode g xs) \<and> feeder_at (snd st) f = Some (Some a)
     \<and> (\<exists>q. loop_rel (fst st) q) \<and> entered (fst st) \<and> ev_alive (fst st) a)"

lemma adapt_conveyor_feed:
  assumes "adapt_conveyor f c ss xs st"
  shows "\<exists>st'. feed_all f [x] st = Some st' \<and> adapt_conveyor f c ss (xs @ [x]) st' \<and> user (snd st') = user (snd st)"
proof -
  obtain l w where st: "st = (l, w)" by (cases st)
  from assms obtain a t q g where A: "c = \<lparr>cv_node = Some t, cv_storage = Some a\<rparr>" "path w t ss a"
    "obj_at w a = Some (AdaptConveyorNode g xs)" "feeder_at w f = Some (Some a)"
    "loop_rel l q" "entered l" "ev_alive l a" by (auto simp: adapt_conveyor_def st)
  from armNext_rel [OF A(5-7)] obtain l' where l': "armNext a l = Some l'" "loop_rel l' (sched_next a q)" "entered l'"
    "ev_alive l' = ev_alive l" by blast
  let ?w = "w\<lparr>obj_at := (obj_at w)(a := Some (AdaptConveyorNode g (xs @ [x])))\<rparr>"
  have "feed_all f [x] st = Some (l', ?w)"
    using A l'(1) by (cases x)
      (simp_all add: feeder_feed_def feeder_fail_def with_feedee_def AdaptConveyorNode_feed_def on_loop_def st set_obj_def)
  moreover have "path ?w t ss a" by (rule path_cong [OF A(2)]) (use A(3) in auto)
  ultimately show ?thesis using A l' by (auto simp: adapt_conveyor_def st)
qed

lemma adapt_conveyor_feed_all:
  assumes "adapt_conveyor f c ss ys st"
  shows "\<exists>st'. feed_all f xs st = Some st' \<and> adapt_conveyor f c ss (ys @ xs) st' \<and> user (snd st') = user (snd st)"
  using assms
proof (induction xs arbitrary: ys st)
  case (Cons x xs)
  from adapt_conveyor_feed [OF Cons.prems, of x] obtain st1 where one: "feed_all f [x] st = Some st1"
    "adapt_conveyor f c ss (ys @ [x]) st1" "user (snd st1) = user (snd st)" by blast
  from Cons.IH [OF one(2)] one(1,3) show ?case by (subst feed_all_Cons) auto
qed simp

lemma adapt_conveyor_take:
  assumes "adapt_conveyor f c ss (x # xs) st" and "run_stages ss x (user (snd st)) = Some (y, u)"
  shows "\<exists>st'. conveyor_take c st = Some (y, st') \<and> adapt_conveyor f c ss xs st' \<and> user (snd st') = u"
proof -
  obtain l w where st: "st = (l, w)" by (cases st)
  from assms(1) obtain a t q g where A: "c = \<lparr>cv_node = Some t, cv_storage = Some a\<rparr>" "path w t ss a"
    "obj_at w a = Some (AdaptConveyorNode g (x # xs))" "feeder_at w f = Some (Some a)"
    "loop_rel l q" "entered l" "ev_alive l a" by (auto simp: adapt_conveyor_def st)
  let ?w = "w\<lparr>obj_at := (obj_at w)(a := Some (AdaptConveyorNode g xs)), user := u\<rparr>"
  have "conveyor_take c st = Some (y, l, ?w)"
    using getResult_path [of "(l, w)" t ss a] A assms(2)
    by (simp add: st conveyor_take_def queued_def getResult_Adapt set_defs)
  moreover have "path ?w t ss a" by (rule path_cong [OF A(2)]) (use A(3) in auto)
  ultimately show ?thesis using A by (auto simp: adapt_conveyor_def)
qed

lemma adapt_conveyor_take_all:
  assumes "adapt_conveyor f c ss xs st" and "run_all ss xs (user (snd st)) = Some (ys, u)"
  shows "\<exists>st'. take_all (length xs) c st = Some (ys, st') \<and> adapt_conveyor f c ss [] st' \<and> user (snd st') = u"
  using assms
proof (induction xs arbitrary: st ys)
  case (Cons x xs)
  from Cons.prems(2) obtain y u1 zs where z: "run_stages ss x (user (snd st)) = Some (y, u1)"
    "run_all ss xs u1 = Some (zs, u)" "ys = y # zs" by (auto elim!: bind_eq_SomeE)
  from adapt_conveyor_take [OF Cons.prems(1) z(1)] Cons.IH z(2,3) show ?case by fastforce
qed auto

lemma adapt_conveyor_empty:
  "adapt_conveyor f c ss [] st \<Longrightarrow>
   conveyor_take c st = Some (IsError (recoverableError ''Conveyor buffer has no elements''), st)"
  by (auto simp: adapt_conveyor_def conveyor_take_def queued_def)

lemma adapt_conveyor_built:
  "\<exists>f c st c' st'. newConveyorAndFeeder (start u) = Some (f, c, st) \<and> add_stages ss c st = Some (c', st')
     \<and> adapt_conveyor f c' (rev ss) [] st' \<and> user (snd st') = u"
proof -
  obtain f c and st :: "('a, 'b) state" and L where one: "newConveyorAndFeeder (start u) = Some (f, c, st)" "open_chain f L c u st"
    "lay_n L = 0" "lay_stages L 0 = []" using open_chain_start [of u] by blast
  from open_chain_stages [OF one(2), of ss] one(3,4) obtain c' st' L' where two: "add_stages ss c st = Some (c', st')"
    "open_chain f L' c' u st'" "lay_n L' = 0" "lay_stages L' 0 = rev ss" by (auto simp: same_below_def)
  have "adapt_conveyor f c' (rev ss) [] st'"
    using two(2-4) by (auto simp: adapt_conveyor_def open_chain_def chain_objs_def chain_loop_def)
  moreover have "user (snd st') = u" using two(2) by (simp add: open_chain_def)
  ultimately show ?thesis using one(1) two(1) by blast
qed

section \<open>Properties of taking\<close>

text \<open>
  C28: results taken by hand come out in the order in which they were fed. For any calls of \<open>then\<close> and
  \<open>attach\<close> on the conveyor of a feeder and any results fed, values and errors, critical ones included, each
  call of \<open>take\<close> returns what the functions of the chain make of the next result, run in order on the state
  of the program; once all have been taken, \<open>take\<close> reports a recoverable error and changes nothing.
\<close>

theorem take_returns_in_order:
  assumes "run_all (rev ss) xs u = Some (ys, u')"
  shows "\<exists>f c st c' st1 st2 st3. newConveyorAndFeeder (start u) = Some (f, c, st) \<and> add_stages ss c st = Some (c', st1)
    \<and> feed_all f xs st1 = Some st2 \<and> take_all (length xs) c' st2 = Some (ys, st3) \<and> user (snd st3) = u'
    \<and> conveyor_take c' st3 = Some (IsError (recoverableError ''Conveyor buffer has no elements''), st3)"
proof -
  from adapt_conveyor_built [of u ss] obtain f c st c' st1 where b: "newConveyorAndFeeder (start u) = Some (f, c, st)"
    "add_stages ss c st = Some (c', st1)" "adapt_conveyor f c' (rev ss) [] st1" "user (snd st1) = u" by blast
  from adapt_conveyor_feed_all [OF b(3), of xs] b(4) obtain st2 where
    fed: "feed_all f xs st1 = Some st2" "adapt_conveyor f c' (rev ss) xs st2" "user (snd st2) = u" by auto
  from adapt_conveyor_take_all [OF fed(2)] assms fed(3) obtain st3 where
    "take_all (length xs) c' st2 = Some (ys, st3)" "adapt_conveyor f c' (rev ss) [] st3" "user (snd st3) = u'" by auto
  with b(1,2) fed(1) adapt_conveyor_empty show ?thesis by blast
qed

theorem take_returns_in_order_witness:
  "\<exists>f c st c' st1 st2 st3. newConveyorAndFeeder (start 100) = Some (f, c, st)
     \<and> add_stages [Then (\<lambda>v u. (Returns (IsValue (v + u)), u + 1)) PropagateError, Attach] c st = Some (c', st1)
     \<and> feed_all f [IsValue 5, IsError (criticalError ''x''), IsValue (7 :: nat)] st1 = Some st2
     \<and> take_all 3 c' st2 = Some ([IsValue 105, IsError (criticalError ''x''), IsValue 108], st3)
     \<and> user (snd st3) = (102 :: nat)"
proof -
  let ?ss = "[Then (\<lambda>v u. (Returns (IsValue (v + u)), u + 1)) PropagateError, Attach] :: (nat, nat) stage list"
  have "run_all (rev ?ss) [IsValue 5, IsError (criticalError ''x''), IsValue 7] 100
      = Some ([IsValue 105, IsError (criticalError ''x''), IsValue 108], 102)"
    by (simp add: convert_result_def PropagateError_def)
  from take_returns_in_order [OF this] show ?thesis by (auto simp: numeral_3_eq_3)
qed

section \<open>Immediate conveyors\<close>

lemma Exhausted_critical [simp]: "isCritical (makeError m Exhausted)"
  by (simp add: isCritical_def makeError_def Error_view_def Exhausted_def)

text \<open>
  An immediate conveyor hands its value out once, then announces with a critical error of code
  \<open>Exhausted\<close> that it has ended, and from then on holds no elements.
\<close>

theorem immediate_value_once:
  "\<exists>c st st1 st2. Conveyor_value v (start u) = Some (c, st) \<and> conveyor_take c st = Some (IsValue v, st1)
    \<and> conveyor_take c st1 = Some (IsError (makeError ''Already taken value'' Exhausted), st2)
    \<and> conveyor_take c st2 = Some (IsError (recoverableError ''Conveyor buffer has no elements''), st2)"
  by (simp add: node_eval)

text \<open>
  C30: a function given to a detached immediate conveyor runs exactly once. After
  \<open>Conveyor<T>{v}.then(func).detach()\<close> and a call of \<open>poll\<close>, \<open>func\<close> has been run on \<open>v\<close> and on nothing
  else, its result is dropped, the event loop is idle and the nodes of the chain are destroyed. The sink
  node itself stays in the list of the daemon, since \<open>ConveyorSinks::fire\<close> does not erase what
  \<open>std::remove_if\<close> has moved to the end of the list.
\<close>

theorem detached_immediate_runs_once:
  assumes "func v u = (Returns (IsValue w), u')"
  shows "\<exists>c st c1 st1 st2 st3 d s. Conveyor_value v (start u) = Some (c, st)
    \<and> conveyor_then func PropagateError c st = Some (c1, st1)
    \<and> conveyor_detach void PropagateError c1 st1 = Some st2 \<and> poll st2 = Some st3
    \<and> user (snd st3) = u' \<and> head (fst st3) = None
    \<and> cv_node c = Some d \<and> obj_at (snd st3) d = None \<and> cv_node c1 = Some s \<and> obj_at (snd st3) s = None
    \<and> (\<exists>x y. daemon_sink (snd st3) = Some x \<and> obj_at (snd st3) x = Some (ConveyorSinks [Some y] [])
         \<and> obj_at (snd st3) y = Some (SinkConveyorNode None None))"
  using assms by (simp add: node_eval convert_result_def PropagateError_def)

theorem detached_immediate_runs_once_witness:
  "\<exists>c st c1 st1 st2 st3. Conveyor_value 10 (start []) = Some (c, st)
    \<and> conveyor_then (\<lambda>v u. (Returns (IsValue 0), u @ [v])) PropagateError c st = Some (c1, st1)
    \<and> conveyor_detach (0 :: nat) PropagateError c1 st1 = Some st2 \<and> poll st2 = Some st3 \<and> user (snd st3) = [10]"
proof -
  let ?f = "\<lambda>v :: nat. \<lambda>u :: nat list. (Returns (IsValue (0 :: nat)), u @ [v])"
  have "?f 10 [] = (Returns (IsValue 0), [10])" by simp
  from detached_immediate_runs_once [of ?f, OF this, of 0] show ?thesis by blast
qed

section \<open>Defects\<close>

text \<open>
  Feeding a merged conveyor faster than its results are taken ends the program. The adapt node arms
  itself again while it holds elements, without asking for space; when it fires while its appendage is
  still occupied, \<open>Appendage::childHasFired\<close> fails its assertion. Two results fed before a poll suffice,
  when the merged conveyor has no buffer or sink that takes the first one.
\<close>

theorem merged_feeder_fed_twice_fails:
  "\<exists>f c st m st1 st2 st3. newConveyorAndFeeder (start u) = Some (f, c, st) \<and> conveyor_merge c st = Some (m, st1)
    \<and> feeder_feed f x st1 = Some st2 \<and> feeder_feed f y st2 = Some st3 \<and> poll st3 = None"
  by (simp add: node_eval)

text \<open>
  Dropping a conveyor that has been fed breaks the event loop. After \<open>feed\<close> and the destruction of the
  conveyor, before the loop has run, \<open>later_insert_point\<close> points into the freed node; the next poll that
  moves a result into a buffer writes through that pointer.
\<close>

theorem dropped_fed_conveyor_breaks_loop:
  "\<exists>f c st st1 st2 g d st3 e st4 st5. newConveyorAndFeeder (start u) = Some (f, c, st)
    \<and> feeder_feed f x st = Some st1 \<and> destroy (cv_node c) st1 = Some st2
    \<and> newConveyorAndFeeder st2 = Some (g, d, st3) \<and> conveyor_buffer 8 d st3 = Some (e, st4)
    \<and> feeder_feed g y st4 = Some st5 \<and> poll st5 = None"
  by (simp add: node_eval sz_sub_exact SIZE_MOD_def)

text \<open>
  A merge node can leave results behind. When an appendage is emptied, \<open>MergeConveyorNode\<close> does not
  notify the storage below it, and a buffer that stopped because the appendage was occupied is never
  armed again: of two results collected in a buffer before it is merged, the sink gets the first one,
  the second one stays in the buffer, and the event loop is idle.
\<close>

theorem merged_buffer_stalls:
  "\<exists>f c st b st1 st2 st3 st4 m st5 n st6 s st7 st8 a.
      newConveyorAndFeeder (start []) = Some (f, c, st) \<and> conveyor_buffer 8 c st = Some (b, st1)
    \<and> feeder_feed f x st1 = Some st2 \<and> feeder_feed f y st2 = Some st3 \<and> poll st3 = Some st4
    \<and> conveyor_merge b st4 = Some (m, st5)
    \<and> conveyor_then (\<lambda>v u. (Returns (IsValue v), u @ [v])) PropagateError m st5 = Some (n, st6)
    \<and> conveyor_sink n st6 = Some (s, st7) \<and> poll st7 = Some st8
    \<and> user (snd st8) = [x] \<and> head (fst st8) = None
    \<and> cv_node b = Some a \<and> queued a st8 = Some 1"
  by (simp add: node_eval sz_sub_exact SIZE_MOD_def convert_result_def PropagateError_def
      MergeConveyorNode_getResult_def merge_take_def sz_add_def)

end
