(* ===== verification/Conveyor_Teardown.thy ===== *)
theory Conveyor_Teardown
  imports Conveyor_Nodes
begin

text \<open>
  The destruction of a chain: the objects below an owner are destroyed one after the other down the
  chain of ownership, every parent pointer they use is still valid, nothing is left behind, and the
  feeder at the end loses its target.
\<close>

section \<open>Destroying a line\<close>

text \<open>
  What destruction needs of the objects of a line: the parent of a storage is alive and not further
  down the line, and the feeder of an adapt node exists.
\<close>

fun sound_line :: "('v, 'u) world \<Rightarrow> addr list \<Rightarrow> bool" where
  "sound_line w [] \<longleftrightarrow> True"
| "sound_line w (a # as) \<longleftrightarrow> sound_line w as
     \<and> (\<forall>p. st_parent w a = Some p \<longrightarrow> obj_at w p \<noteq> None \<and> p \<notin> set (a # as))
     \<and> (\<forall>f xs. obj_at w a = Some (AdaptConveyorNode (Some f) xs) \<longrightarrow> feeder_at w f \<noteq> None)"

text \<open>What destroying the objects \<open>as\<close> leaves.\<close>

definition cleared :: "addr list \<Rightarrow> ('v, 'u) state \<Rightarrow> ('v, 'u) state \<Rightarrow> bool" where
  "cleared as st st' \<longleftrightarrow>
     obj_at (snd st') = (\<lambda>a. if a \<in> set as then None else obj_at (snd st) a)
     \<and> st_parent (snd st') = st_parent (snd st) \<and> user (snd st') = user (snd st)
     \<and> feeder_at (snd st') = (\<lambda>f. if \<exists>a \<in> set as. \<exists>xs. obj_at (snd st) a = Some (AdaptConveyorNode (Some f) xs)
          then Some None else feeder_at (snd st) f)
     \<and> (\<exists>q. loop_rel (fst st') q \<and> sched_queue q = []) \<and> entered (fst st') = entered (fst st)"

lemma Event_delete_idle:
  assumes "loop_rel l q" and "sched_queue q = []"
  shows "\<exists>l'. Event_delete a l = Some l' \<and> loop_rel l' q \<and> entered l' = entered l"
proof -
  have "ev_prev l a = None" using assms by (auto simp: loop_rel_def)
  then show ?thesis using assms by (auto simp: Event_delete_def disarm_def loop_rel_def)
qed

lemma destroy_bases_idle:
  assumes "loop_rel (fst st) q" and "sched_queue q = []"
    and "\<And>p. st_parent (snd st) a = Some p \<Longrightarrow> obj_at (snd st) p \<noteq> None"
  shows "\<exists>st'. destroy_bases a n st = Some st' \<and> obj_at (snd st') = (obj_at (snd st))(a := None)
    \<and> st_parent (snd st') = st_parent (snd st) \<and> user (snd st') = user (snd st)
    \<and> feeder_at (snd st') = feeder_at (snd st) \<and> loop_rel (fst st') q \<and> entered (fst st') = entered (fst st)"
proof -
  obtain l w where st: "st = (l, w)" by (cases st)
  from Event_delete_idle [of l q a] assms st obtain l' where
    l': "Event_delete a l = Some l'" "loop_rel l' q" "entered l' = entered l" by auto
  show ?thesis using assms l' st
    by (cases "st_parent w a"; cases "is_event n"; cases "is_storage n")
       (auto simp: destroy_bases_def on_loop_def ConveyorStorage_delete_def unlinkChild_def set_child_storage_def)
qed

text \<open>The last object of a line.\<close>

lemma destroy_end:
  assumes n: "obj_at (snd st) a = Some n" "owned n = []" and sound: "sound_line (snd st) [a]"
    and q: "loop_rel (fst st) q" "sched_queue q = []"
  shows "\<exists>st'. destroy_all [a] st = Some st' \<and> cleared [a] st st'"
proof -
  obtain l w where st: "st = (l, w)" by (cases st)
  define st1 where "st1 = (case n of AdaptConveyorNode (Some f) xs \<Rightarrow>
      (l, w\<lparr>feeder_at := (feeder_at w)(f := Some None), obj_at := (obj_at w)(a := Some (AdaptConveyorNode None xs))\<rparr>)
    | _ \<Rightarrow> st)"
  have body: "destructor_body a n st = Some st1"
    using sound n by (auto simp: destructor_body_def st1_def st setFeedee_def set_obj_def split: obj.splits option.splits)
  have st1: "fst st1 = l" "st_parent (snd st1) = st_parent w" "user (snd st1) = user w"
    "\<And>b. b \<noteq> a \<Longrightarrow> obj_at (snd st1) b = obj_at w b" "obj_at (snd st1) a \<noteq> None"
    using n by (auto simp: st1_def st split: obj.splits option.splits)
  have fd: "feeder_at (snd st1) = (\<lambda>f. if \<exists>xs. n = AdaptConveyorNode (Some f) xs then Some None else feeder_at w f)"
    by (auto simp: st1_def st split: obj.splits option.splits)
  have "obj_at (snd st1) p \<noteq> None" if "st_parent (snd st1) a = Some p" for p
    using sound that st1(2,4) by (auto simp: st)
  from destroy_bases_idle [of st1 q a n, OF _ q(2) this] q(1) st1(1) st obtain st2 where
    two: "destroy_bases a n st1 = Some st2" "obj_at (snd st2) = (obj_at (snd st1))(a := None)"
      "st_parent (snd st2) = st_parent (snd st1)" "user (snd st2) = user (snd st1)"
      "feeder_at (snd st2) = feeder_at (snd st1)" "loop_rel (fst st2) q" "entered (fst st2) = entered (fst st1)" by auto
  have "destroy_all [a] st = Some st2"
    using n body two(1) by (simp add: destroy_all_simps)
  moreover have "cleared [a] st st2"
    using two st1 fd n q(2) by (auto simp: cleared_def st fun_eq_iff)
  ultimately show ?thesis by blast
qed

lemma destroy_line:
  assumes "line (snd st) (a # as)" and "sound_line (snd st) (a # as)"
    and "loop_rel (fst st) q" and "sched_queue q = []"
  shows "\<exists>st'. destroy_all [a] st = Some st' \<and> cleared (a # as) st st'"
  using assms(1,2)
proof (induction as arbitrary: a)
  case Nil
  then show ?case using destroy_end [of st a] assms(3,4) by auto
next
  case (Cons b as)
  then obtain n where n: "obj_at (snd st) a = Some n" "owned n = [b]" by auto
  have "line (snd st) (b # as)" "sound_line (snd st) (b # as)" using Cons.prems by simp_all
  from Cons.IH [OF this] obtain st1 where one: "destroy_all [b] st = Some st1" "cleared (b # as) st st1" by blast
  from one(2) obtain q1 where q1: "loop_rel (fst st1) q1" "sched_queue q1 = []" by (auto simp: cleared_def)
  have parent: "obj_at (snd st1) p \<noteq> None" if "st_parent (snd st1) a = Some p" for p
    using Cons.prems(2) that one(2) by (auto simp: cleared_def)
  from destroy_bases_idle [OF q1, of a n] parent obtain st2 where
    two: "destroy_bases a n st1 = Some st2" "obj_at (snd st2) = (obj_at (snd st1))(a := None)"
      "st_parent (snd st2) = st_parent (snd st1)" "user (snd st2) = user (snd st1)"
      "feeder_at (snd st2) = feeder_at (snd st1)" "loop_rel (fst st2) q1" "entered (fst st2) = entered (fst st1)" by blast
  have "destructor_body a n st = Some st" using n(2) by (auto simp: destructor_body_def split: obj.splits option.splits)
  then have "destroy_all [a] st = Some st2"
    using n one(1) two(1) by (subst destroy_all_simps(2)) (simp add: destroy_all_simps(1))
  moreover have "n \<noteq> AdaptConveyorNode g xs" for g xs using n(2) by auto
  then have "cleared (a # b # as) st st2"
    using one(2) two q1(2) n(1) by (auto simp: cleared_def fun_eq_iff)
  ultimately show ?case by blast
qed

section \<open>The line of a chain\<close>

lemma path_line:
  assumes "path w a ss s" and "line w (s # as)"
  shows "\<exists>cs bs. a # bs = cs @ s # as \<and> line w (a # bs) \<and> (\<forall>c \<in> set cs. \<exists>n. obj_at w c = Some n \<and> is_stage n)"
  using assms(1)
proof (induction ss arbitrary: a)
  case Nil
  then show ?case using assms(2) by (intro exI [of _ "[]"] exI [of _ as]) simp
next
  case (Cons g ss)
  then obtain c n where c: "obj_at w a = Some n" "owned n = [c]" "is_stage n" "path w c ss s" by (cases g) auto
  from Cons.IH [OF c(4)] obtain cs bs where b: "c # bs = cs @ s # as" "line w (c # bs)"
    "\<forall>c \<in> set cs. \<exists>n. obj_at w c = Some n \<and> is_stage n" by blast
  have "line w (a # c # bs)" using b(2) c(1,2) by auto
  then show ?case using b c(1,3) by (intro exI [of _ "a # cs"] exI [of _ "c # bs"]) auto
qed

lemma sound_line_stages:
  assumes "sound_line w as" and "\<forall>c \<in> set cs. \<exists>n. obj_at w c = Some n \<and> is_stage n"
    and "\<And>b n. obj_at w b = Some n \<Longrightarrow> is_stage n \<Longrightarrow> st_parent w b = None"
  shows "sound_line w (cs @ as)"
  using assms(2)
proof (induction cs)
  case (Cons c cs)
  then obtain n where "obj_at w c = Some n" "is_stage n" "st_parent w c = None" using assms(3) by auto
  with Cons show ?case by auto
qed (simp add: assms(1))

text \<open>The storages of a chain up to \<open>i\<close> and the stages above storage \<open>i\<close>.\<close>

lemma chain_line:
  assumes objs: "chain_objs L Q w" and i: "i \<le> lay_n L"
    and par: "\<And>b n. obj_at w b = Some n \<Longrightarrow> is_stage n \<Longrightarrow> st_parent w b = None"
    and owner: "\<And>j. j \<le> lay_n L \<Longrightarrow> st_parent w (lay_at L j) = Some (lay_at L (Suc j))
      \<and> (\<exists>n. obj_at w (lay_at L (Suc j)) = Some n \<and> owned n = [lay_top L j])"
    and feeder: "\<And>f. lay_feeder L = Some f \<Longrightarrow> feeder_at w f \<noteq> None"
  shows "\<exists>as. line w (lay_at L (Suc i) # lay_top L i # as) \<and> sound_line w (lay_top L i # as)
    \<and> (\<forall>j \<le> i. lay_at L j \<in> set (lay_top L i # as))"
proof -
  have path: "path w (lay_top L j) (lay_stages L j) (lay_at L j)" if "j \<le> lay_n L" for j
    using objs that by (simp add: chain_objs_def)
  show ?thesis using i
  proof (induction i)
    case 0
    have a: "obj_at w (lay_at L 0) = Some (AdaptConveyorNode (lay_feeder L) (Q 0))" using objs by (simp add: chain_objs_def)
    then have "line w [lay_at L 0]" by simp
    from path_line [OF path [of 0] this] obtain cs bs where b: "lay_top L 0 # bs = cs @ [lay_at L 0]" "line w (lay_top L 0 # bs)"
      "\<forall>c \<in> set cs. \<exists>n. obj_at w c = Some n \<and> is_stage n" by auto
    have l: "line w (lay_at L (Suc 0) # lay_top L 0 # bs)" using owner [of 0] b(2) by auto
    then have "lay_at L (Suc 0) \<noteq> lay_at L 0" using line_distinct [OF l] b(1) by auto
    then have "sound_line w [lay_at L 0]" using a owner [of 0] feeder by auto
    from sound_line_stages [OF this b(3) par] have "sound_line w (lay_top L 0 # bs)" using b(1) by simp
    moreover have "lay_at L 0 \<in> set (lay_top L 0 # bs)" using b(1) by simp
    ultimately show ?case using l by blast
  next
    case (Suc i)
    let ?s = "lay_at L (Suc i)"
    from Suc obtain as where as: "line w (?s # lay_top L i # as)" "sound_line w (lay_top L i # as)"
      "\<forall>j \<le> i. lay_at L j \<in> set (lay_top L i # as)" by auto
    from path_line [OF path [OF Suc.prems] as(1)] obtain cs bs where
      b: "lay_top L (Suc i) # bs = cs @ ?s # lay_top L i # as" "line w (lay_top L (Suc i) # bs)"
        "\<forall>c \<in> set cs. \<exists>n. obj_at w c = Some n \<and> is_stage n" by blast
    have l: "line w (lay_at L (Suc (Suc i)) # lay_top L (Suc i) # bs)" using owner [of "Suc i"] Suc.prems b(2) by auto
    have "lay_at L (Suc (Suc i)) \<notin> set (?s # lay_top L i # as)" using line_distinct [OF l] b(1) by auto
    moreover have "obj_at w ?s = Some (storage_node L (Suc i) (Q (Suc i)))" using objs Suc.prems by (simp add: chain_objs_def)
    ultimately have "sound_line w (?s # lay_top L i # as)" using as(2) owner [of "Suc i"] Suc.prems by auto
    from sound_line_stages [OF this b(3) par] have "sound_line w (lay_top L (Suc i) # bs)" using b(1) by simp
    moreover have "lay_at L j \<in> set (lay_top L (Suc i) # bs)" if "j \<le> Suc i" for j
      using as(3) that b(1) by (auto simp: le_Suc_eq)
    ultimately show ?case using l by blast
  qed
qed

lemma chain_destroyed:
  assumes rep: "pipe_rep L F deliver st Q [] u" and all: "owns_all (snd st) (lay_at L (Suc (lay_n L)))"
    and f: "lay_feeder L = Some f"
  shows "\<exists>st'. destroy (Some (lay_at L (Suc (lay_n L)))) st = Some st' \<and> (\<forall>a. obj_at (snd st') a = None)
    \<and> feeder_at (snd st') f = Some None \<and> user (snd st') = u"
proof -
  let ?w = "snd st" and ?s = "lay_at L (Suc (lay_n L))"
  have objs: "chain_objs L Q ?w" and sink: "chain_sink L ?w" and u: "user ?w = u" using rep by (auto simp: pipe_rep_def)
  have owner: "st_parent ?w (lay_at L j) = Some (lay_at L (Suc j))
      \<and> (\<exists>n. obj_at ?w (lay_at L (Suc j)) = Some n \<and> owned n = [lay_top L j])" if "j \<le> lay_n L" for j
    using that objs sink by (cases "j = lay_n L") (auto simp: chain_objs_def chain_sink_def)
  have par: "st_parent ?w b = None" if "obj_at ?w b = Some n" "is_stage n" for b n
    using objs that by (auto simp: chain_objs_def)
  have feeder: "feeder_at ?w g \<noteq> None" if "lay_feeder L = Some g" for g
    using objs that by (simp add: chain_objs_def)
  have "\<exists>as. line ?w (?s # lay_top L (lay_n L) # as) \<and> sound_line ?w (lay_top L (lay_n L) # as)
      \<and> (\<forall>j \<le> lay_n L. lay_at L j \<in> set (lay_top L (lay_n L) # as))"
    by (rule chain_line [OF objs le_refl]) (fact par owner feeder)+
  then obtain as where
    as: "line ?w (?s # lay_top L (lay_n L) # as)" "sound_line ?w (lay_top L (lay_n L) # as)"
      "\<forall>j \<le> lay_n L. lay_at L j \<in> set (lay_top L (lay_n L) # as)" by blast
  let ?as = "?s # lay_top L (lay_n L) # as"
  have dom: "dom (obj_at ?w) = set ?as" using all as(1) line_unique unfolding owns_all_def by blast
  have "sound_line ?w ?as" using as(2) sink by (auto simp: chain_sink_def)
  moreover obtain q where q: "loop_rel (fst st) q" "sched_queue q = []" using rep by (auto simp: pipe_rep_def chain_loop_def)
  ultimately obtain st' where st': "destroy_all [?s] st = Some st'" "cleared ?as st st'"
    using destroy_line [OF as(1)] by blast
  have "obj_at (snd st') a = None" for a using st'(2) dom by (auto simp: cleared_def)
  moreover have "obj_at ?w (lay_at L 0) = Some (AdaptConveyorNode (Some f) (Q 0))" "lay_at L 0 \<in> set ?as"
    using objs f as(3) by (auto simp: chain_objs_def)
  then have "feeder_at (snd st') f = Some None" using st'(2) unfolding cleared_def by auto
  ultimately show ?thesis using st' u by (auto simp: destroy_def cleared_def)
qed

section \<open>Properties\<close>

text \<open>
  C7: dropping the sink of a chain releases everything. A chain as in \<open>chain_delivers_in_order\<close> is built,
  fed and run until the event loop is idle; destroying the sink node then destroys every object of the
  chain, following no dangling pointer, and leaves no object behind. The feeder outlives the chain: it has
  lost its target and feeding it does nothing.
\<close>

theorem chain_teardown:
  assumes "segments_ok segs F" and "sink_ok ss deliver" and "list_all calm xs"
    and "length xs * (length segs + 1) * (length segs + 1) \<le> 65536"
  shows "\<exists>f s st st1 st2 st3. build_chain segs ss (start u) = Some (f, s, st) \<and> feed_all f xs st = Some st1
    \<and> poll st1 = Some st2 \<and> destroy (Some s) st2 = Some st3 \<and> (\<forall>a. obj_at (snd st3) a = None)
    \<and> user (snd st3) = user (snd st2) \<and> feeder_feed f v st3 = Some st3 \<and> feeder_fail f e st3 = Some st3"
proof -
  from chain_run [OF assms, of u] obtain f s st st1 st2 L Q where
    r: "build_chain segs ss (start u) = Some (f, s, st)" "feed_all f xs st = Some st1" "poll st1 = Some st2"
      "pipe_rep L F deliver st2 Q [] (user (snd st2))" "owns_all (snd st2) s" "s = lay_at L (Suc (lay_n L))"
      "lay_feeder L = Some f" by blast
  from chain_destroyed [OF r(4) r(5) [unfolded r(6)] r(7)] obtain st3 where
    "destroy (Some s) st2 = Some st3" "\<forall>a. obj_at (snd st3) a = None" "feeder_at (snd st3) f = Some None"
    "user (snd st3) = user (snd st2)" using r(6) by auto
  moreover from this have "feeder_feed f v st3 = Some st3" "feeder_fail f e st3 = Some st3"
    by (simp_all add: feeder_feed_def feeder_fail_def with_feedee_def)
  ultimately show ?thesis using r(1-3) by blast
qed

theorem chain_teardown_witness:
  "\<exists>f s st st1 st2 st3. build_chain [([Attach], 3)] [] (start ()) = Some (f, s, st)
     \<and> feed_all f [IsValue 5, IsValue (7 :: nat)] st = Some st1 \<and> poll st1 = Some st2
     \<and> destroy (Some s) st2 = Some st3 \<and> (\<forall>a. obj_at (snd st3) a = None) \<and> feeder_feed f 9 st3 = Some st3"
proof -
  have 1: "segments_ok [([Attach] :: (nat, unit) stage list, 3)] (\<lambda>i x. x)"
    by (simp add: segments_ok_def SIZE_MOD_def)
  have 2: "sink_ok ([] :: (nat, unit) stage list) (\<lambda>x u. u)" by (auto simp: sink_ok_def)
  have 3: "list_all calm [IsValue 5, IsValue (7 :: nat)]" by simp
  have 4: "length [IsValue 5, IsValue (7 :: nat)] * (length [([Attach] :: (nat, unit) stage list, 3 :: nat)] + 1)
      * (length [([Attach] :: (nat, unit) stage list, 3 :: nat)] + 1) \<le> 65536" by simp
  show ?thesis using chain_teardown [OF 1 2 3 4, of "()" 9] by blast
qed

end
