(* ===== verification/Conveyor_Take.thy ===== *)
theory Conveyor_Take
  imports Conveyor_Nodes
begin

text \<open>
  Chains of conveyors without a sink: the program feeds, runs the event loop turn by turn, and takes results
  from the last conveyor by hand, in any order. The top storage has nowhere to deliver to, so that the
  buffers fill up.
\<close>

section \<open>What the storages hold\<close>

text \<open>The contents of storage \<open>a\<close> and of the \<open>n\<close> storages below it.\<close>

fun contents_below :: "nat \<Rightarrow> ('v, 'u) world \<Rightarrow> addr \<Rightarrow> 'v error_or list list" where
  "contents_below 0 w a = (case obj_at w a of Some (AdaptConveyorNode feeder storage) \<Rightarrow> [storage] | _ \<Rightarrow> [])"
| "contents_below (Suc n) w a = (case obj_at w a of
     Some (QueueBufferConveyorNode child storage max_store) \<Rightarrow>
       storage # (case st_child w a of Some c \<Rightarrow> contents_below n w c | None \<Rightarrow> [])
   | _ \<Rightarrow> [])"

text \<open>The results on their way, in the order and the form in which they reach the top storage.\<close>

fun arriving :: "(nat \<Rightarrow> 'a \<Rightarrow> 'a) \<Rightarrow> 'a list list \<Rightarrow> 'a list" where
  "arriving F [] = []"
| "arriving F (ys # yss) = ys @ map (F (length yss - 1)) (arriving F yss)"

lemma contents_below_chain:
  assumes "chain_objs L Q w" and "n \<le> lay_n L"
  shows "contents_below n w (lay_at L n) = map Q (rev [0..<Suc n])"
  using assms(2)
proof (induction n)
  case 0
  have "obj_at w (lay_at L 0) = Some (storage_node L 0 (Q 0))" using assms(1) by (simp add: chain_objs_def)
  then show ?case by simp
next
  case (Suc n)
  then have "obj_at w (lay_at L (Suc n)) = Some (storage_node L (Suc n) (Q (Suc n)))"
    "st_child w (lay_at L (Suc n)) = Some (lay_at L n)" using assms(1) by (auto simp: chain_objs_def)
  with Suc show ?case by simp
qed

lemma arriving_pending: "arriving F (map Q (rev [0..<Suc n])) = pending F Q n"
  by (induction n) simp_all

section \<open>Open chains at work\<close>

text \<open>
  The chain of layout \<open>L\<close>, with nothing above the top storage. A storage below a buffer is only armed while
  it holds something.
\<close>

definition open_rep ::
    "('v, 'u) layout \<Rightarrow> (nat \<Rightarrow> 'v error_or \<Rightarrow> 'v error_or) \<Rightarrow> ('v, 'u) state \<Rightarrow> 'v error_or contents \<Rightarrow> nat list \<Rightarrow> bool" where
  "open_rep L F st Q xs \<longleftrightarrow> chain_objs L Q (snd st) \<and> chain_loop L xs (fst st) \<and> (\<forall>i \<le> lay_n L. list_all calm (Q i))
     \<and> (\<forall>i < lay_n L. \<forall>x u. calm x \<longrightarrow> run_stages (lay_stages L i) x u = Some (F i x, u) \<and> calm (F i x))
     \<and> st_parent (snd st) (lay_at L (lay_n L)) = None
     \<and> (\<forall>i. 0 < i \<and> i \<le> lay_n L \<longrightarrow> length (Q i) \<le> lay_cap L i)
     \<and> (\<forall>i \<in> set xs. i < lay_n L \<longrightarrow> Q i \<noteq> [])"

lemma fired_length:
  assumes "\<forall>j. 0 < j \<and> j \<le> n \<longrightarrow> length (Q j) \<le> cap j" and "i < n" and "0 < j" and "j \<le> n"
  shows "length (fired n cap F i Q j) \<le> cap j"
proof -
  have "length (Q j) \<le> cap j" using assms by blast
  note len = this
  consider "j = i" | "j = Suc i" | "j \<noteq> i" "j \<noteq> Suc i" by blast
  then show ?thesis using assms(2) len by cases (auto simp: fired_simps room_def)
qed

lemma requeue_nonempty:
  assumes "\<forall>j \<in> set xs. j < n \<longrightarrow> Q j \<noteq> []" and "i < n" and "distinct (i # xs)" and "j \<in> set (requeue n cap F i Q xs)" and "j < n"
  shows "fired n cap F i Q j \<noteq> []"
proof -
  let ?Q = "fired n cap F i Q"
  have mem: "j \<in> set xs \<or> (room n cap Q i \<and> j = Suc i) \<or> (?Q i \<noteq> [] \<and> j = i) \<or> (1 < i \<and> ?Q (i - 1) \<noteq> [] \<and> j = i - 1)"
    using assms(4) by (auto simp: requeue_def Let_def split: if_splits)
  consider "j = i" | "j = Suc i" | "j \<noteq> i" "j \<noteq> Suc i" by blast
  then show ?thesis
  proof cases
    case 1
    with mem assms(3) show ?thesis by auto
  next
    case 2
    have "Q j \<noteq> []" if "j \<in> set xs" using assms(1,5) that by blast
    with mem 2 assms(2) show ?thesis by (auto simp: fired_above)
  next
    case 3
    then have "?Q j = Q j" by (rule fired_other)
    with mem 3 assms(1,5) show ?thesis by auto
  qed
qed

text \<open>Firing a storage below a buffer is the step of the specification.\<close>

lemma open_fire_below:
  assumes rep: "open_rep L F (l, w) Q xs" and i: "i < lay_n L" and ne: "Q i \<noteq> []" and d: "distinct (i # xs)"
  shows "\<exists>st'. fire (lay_at L i) (l, w) = Some st'
    \<and> open_rep L F st' (fired (lay_n L) (lay_cap L) F i Q) (requeue (lay_n L) (lay_cap L) F i Q xs)
    \<and> user (snd st') = user w"
proof -
  let ?Q = "fired (lay_n L) (lay_cap L) F i Q"
  let ?xs = "if room (lay_n L) (lay_cap L) Q i then enqueue (Suc i) xs else xs"
  have objs: "chain_objs L Q w" and loop: "chain_loop L xs l" and cl: "\<forall>i \<le> lay_n L. list_all calm (Q i)"
    and quiet: "\<forall>i < lay_n L. \<forall>x u. calm x \<longrightarrow> run_stages (lay_stages L i) x u = Some (F i x, u) \<and> calm (F i x)"
    and len: "\<forall>i. 0 < i \<and> i \<le> lay_n L \<longrightarrow> length (Q i) \<le> lay_cap L i"
    using rep by (auto simp: open_rep_def)
  have len': "length (?Q j) \<le> lay_cap L j" if "0 < j" "j \<le> lay_n L" for j
    using fired_length [of "lay_n L" Q "lay_cap L" i j F] len i that by blast
  have q: "\<forall>x u. calm x \<longrightarrow> run_stages (lay_stages L i) x u = Some (F i x, u) \<and> calm (F i x)" using quiet i by blast
  from chain_receive_below [where F = F and Q = Q and i = i, OF objs loop i ne cl q] obtain l1 w1 where
    one: "childHasFired (lay_at L (Suc i)) (l, w) = Some (l1, w1)" "chain_objs L ?Q w1" "chain_loop L ?xs l1"
      "\<forall>j \<le> lay_n L. list_all calm (?Q j)"
    and w1: "st_parent w1 = st_parent w" "st_child w1 = st_child w" "user w1 = user w" by (auto split: if_splits)
  have queued: "queued (lay_at L i) (l1, w1) = Some (length (?Q i))" using chain_queued [OF one(2)] i by simp
  have space: "space (lay_at L (Suc i)) (l1, w1) = Some (lay_cap L (Suc i) - length (?Q (Suc i)))"
    using chain_space_below [OF one(2) i] len' i by simp
  have room: "room (lay_n L) (lay_cap L) ?Q i \<longleftrightarrow> 0 < lay_cap L (Suc i) - length (?Q (Suc i))" using i by (simp add: room_def)
  have at: "obj_at w (lay_at L i) = Some (storage_node L i (Q i))" "st_parent w (lay_at L i) = Some (lay_at L (Suc i))"
    using objs i by (simp_all add: chain_objs_def)
  obtain l2 where l2: "armLater (lay_at L i) l1 = Some l2" "chain_loop L (enqueue i ?xs) l2"
    using chain_armLater [OF one(2,3), of i] i by auto
  have "\<exists>l'. fire (lay_at L i) (l, w) = Some (l', w1) \<and> chain_loop L (requeue (lay_n L) (lay_cap L) F i Q xs) l'"
  proof (cases i)
    case 0
    then show ?thesis using at one(1,3) queued l2 i
      by (auto simp: fire_def AdaptConveyorNode_fire_def requeue_def Let_def on_loop_def)
  next
    case (Suc j)
    define ys where "ys = (if ?Q i \<noteq> [] \<and> room (lay_n L) (lay_cap L) ?Q i then enqueue i ?xs else ?xs)"
    obtain l3 where l3: "(if length (?Q i) > 0 then if lay_cap L (Suc i) - length (?Q (Suc i)) > 0
        then on_loop (armLater (lay_at L i)) (l1, w1) else Some (l1, w1) else Some (l1, w1)) = Some (l3, w1)" "chain_loop L ys l3"
      using l2 one(3) room unfolding ys_def by (cases "?Q i = []"; cases "room (lay_n L) (lay_cap L) ?Q i") (auto simp: on_loop_def)
    have cap: "lay_cap L i < SIZE_MOD" "length (Q i) \<le> lay_cap L i" using objs len i Suc by (auto simp: chain_objs_def)
    have drop: "QueueBufferConveyorNode_drop_child (lay_at L i) (Some (lay_top L j)) (Q i) (lay_cap L i) (l, w) = Some (l, w)"
      using cl i by (cases "Q i"; cases "hd (Q i)") (auto simp: QueueBufferConveyorNode_drop_child_def dest!: spec [where x = i])
    have child: "st_child w1 (lay_at L i) = Some (lay_at L j)" using objs w1 i Suc by (simp add: chain_objs_def)
    have before: "space (lay_at L i) (l, w) = Some (lay_cap L i - length (Q i))"
      using at Suc cap by (simp add: space_def sz_sub_exact)
    have below: "length (?Q (Suc j)) \<le> lay_cap L (Suc j)" "j < lay_n L" using len' [of i] Suc i by auto
    obtain l4 where l4: "parentHasFired (lay_at L j) (l3, w1) = Some (l4, w1)" "chain_loop L
         (if 0 < j \<and> length (?Q (Suc j)) < lay_cap L (Suc j) \<and> ?Q j \<noteq> [] then enqueue j ys else ys) l4"
      using chain_parentHasFired_below [OF one(2) l3(2) below(2,1)] by blast
    have "fire (lay_at L i) (l, w) = (if \<not> length (Q i) < lay_cap L i then parentHasFired (lay_at L j) (l3, w1) else Some (l3, w1))"
      using at Suc drop before one(1) queued space l3(1) child cap
      by (cases "?Q i = []"; cases "lay_cap L (Suc i) - length (?Q (Suc i)) > 0")
        (simp_all add: fire_def QueueBufferConveyorNode_fire_def Let_def)
    moreover have "requeue (lay_n L) (lay_cap L) F i Q xs = (if \<not> length (Q i) < lay_cap L i \<and> 0 < j
        \<and> length (?Q (Suc j)) < lay_cap L (Suc j) \<and> ?Q j \<noteq> [] then enqueue j ys else ys)"
      using Suc i by (simp add: requeue_def Let_def ys_def)
    ultimately show ?thesis using l3(2) l4 by auto
  qed
  then obtain l' where l': "fire (lay_at L i) (l, w) = Some (l', w1)" "chain_loop L (requeue (lay_n L) (lay_cap L) F i Q xs) l'"
    by blast
  have "\<forall>j \<in> set (requeue (lay_n L) (lay_cap L) F i Q xs). j < lay_n L \<longrightarrow> ?Q j \<noteq> []"
    using requeue_nonempty [of xs "lay_n L" Q i _ "lay_cap L" F] rep i d by (auto simp: open_rep_def)
  with l' one(2,4) quiet w1 len' rep show ?thesis by (auto simp: open_rep_def)
qed

text \<open>The top storage has nobody to notify when it fires.\<close>

lemma open_fire_top:
  assumes rep: "open_rep L F (l, w) Q xs"
  shows "fire (lay_at L (lay_n L)) (l, w) = Some (l, w)"
proof -
  let ?n = "lay_n L"
  have objs: "chain_objs L Q w" and cl: "list_all calm (Q ?n)" and par: "st_parent w (lay_at L ?n) = None"
    and len: "0 < ?n \<Longrightarrow> length (Q ?n) \<le> lay_cap L ?n" using rep by (auto simp: open_rep_def)
  have at: "obj_at w (lay_at L ?n) = Some (storage_node L ?n (Q ?n))" using objs by (simp add: chain_objs_def)
  show ?thesis
  proof (cases ?n)
    case 0
    then show ?thesis using at par by (simp add: fire_def AdaptConveyorNode_fire_def)
  next
    case (Suc j)
    have cap: "lay_cap L (Suc j) < SIZE_MOD" "length (Q (Suc j)) \<le> lay_cap L (Suc j)"
      using objs len Suc by (auto simp: chain_objs_def)
    have child: "st_child w (lay_at L (Suc j)) = Some (lay_at L j)" using objs Suc by (simp add: chain_objs_def)
    have drop: "QueueBufferConveyorNode_drop_child a (Some c) (Q (Suc j)) m (l, w) = Some (l, w)" for a c m
      using cl Suc by (cases "Q (Suc j)"; cases "hd (Q (Suc j))") (auto simp: QueueBufferConveyorNode_drop_child_def)
    have before: "space (lay_at L (Suc j)) (l, w) = Some (lay_cap L (Suc j) - length (Q (Suc j)))"
      using at Suc cap by (simp add: space_def sz_sub_exact)
    have "parentHasFired (lay_at L j) (l, w) = Some (l, w)" if "\<not> length (Q (Suc j)) < lay_cap L (Suc j)"
    proof -
      have "obj_at w (lay_at L j) = Some (storage_node L j (Q j))" "st_parent w (lay_at L j) = Some (lay_at L (Suc j))"
        using objs Suc by (simp_all add: chain_objs_def)
      then show ?thesis using before that by (subst parentHasFired.simps) (cases j; simp)
    qed
    then show ?thesis using at par child drop before cap Suc
      by (simp add: fire_def QueueBufferConveyorNode_fire_def Let_def)
  qed
qed

text \<open>A turn of the event loop. Nothing is lost on the way.\<close>

lemma open_turn:
  assumes rep: "open_rep L F st Q xs"
  shows "\<exists>b st' Q' xs'. turn fire st = Some (b, st') \<and> open_rep L F st' Q' xs' \<and> user (snd st') = user (snd st)
    \<and> pending F Q' (lay_n L) = pending F Q (lay_n L)"
proof -
  obtain l w where st: "st = (l, w)" by (cases st)
  from rep obtain q where q: "loop_rel l q" "lasts q = []" "sched_queue q = map (lay_at L) xs" "set xs \<subseteq> {..lay_n L}"
    by (auto simp: open_rep_def chain_loop_def st)
  show ?thesis
  proof (cases xs)
    case Nil
    with q have "head l = None" by (auto simp: loop_rel_def)
    with rep show ?thesis by (auto simp: turn_def st)
  next
    case (Cons i ys)
    have i: "i \<le> lay_n L" using q(4) Cons by simp
    have sq: "sched_queue q = lay_at L i # map (lay_at L) ys" using q(3) Cons by simp
    have "distinct (map (lay_at L) xs)" using q(1) unfolding q(3) [symmetric] by (simp add: loop_rel_def)
    then have d: "distinct (i # ys)" using Cons by (auto simp: distinct_map)
    from take_head_rel [OF q(1) sq] obtain l' where l': "head l = Some (lay_at L i)" "take_head (lay_at L i) l = Some l'"
      "loop_rel l' (sched_take q)" "entered l' = entered l" "ev_alive l' = ev_alive l" by blast
    have "lasts (sched_take q) = []" "sched_queue (sched_take q) = map (lay_at L) ys"
      using q(2) sq by (auto simp: sched_take_def sched_queue_def)
    with l'(3-5) rep Cons have rep': "open_rep L F (l', w) Q ys" by (auto simp: st open_rep_def chain_loop_def)
    show ?thesis
    proof (cases "i = lay_n L")
      case True
      with open_fire_top [OF rep'] l'(1,2) rep' show ?thesis by (auto simp: turn_def st)
    next
      case False
      then have i': "i < lay_n L" using i by simp
      then have ne: "Q i \<noteq> []" using rep Cons by (auto simp: open_rep_def)
      from open_fire_below [OF rep' i' ne d] obtain st' where st': "fire (lay_at L i) (l', w) = Some st'"
        "open_rep L F st' (fired (lay_n L) (lay_cap L) F i Q) (requeue (lay_n L) (lay_cap L) F i Q ys)"
        "user (snd st') = user w" by blast
      moreover have "pending F (fired (lay_n L) (lay_cap L) F i Q) (lay_n L) = pending F Q (lay_n L)"
        using pending_move_below [where n = "lay_n L" and k = "lay_n L" and i = i and Q = Q and F = F] i' ne by (simp add: fired_def)
      ultimately show ?thesis using l'(1,2) by (auto simp: turn_def st)
    qed
  qed
qed

text \<open>Feeding arms the adapt node, wherever it is in the queue then.\<close>

lemma open_armNext:
  assumes "chain_loop L xs l"
  shows "\<exists>l' xs'. armNext (lay_at L 0) l = Some l' \<and> chain_loop L xs' l' \<and> set xs' \<subseteq> insert 0 (set xs)"
proof -
  from assms obtain q where q: "loop_rel l q" "lasts q = []" "sched_queue q = map (lay_at L) xs"
    and l: "entered l" "\<forall>i \<le> lay_n L. ev_alive l (lay_at L i)" "set xs \<subseteq> {..lay_n L}" by (auto simp: chain_loop_def)
  have split: "map (lay_at L) xs = nexts q @ laters q" using q(2,3) by (simp add: sched_queue_def)
  then obtain ys zs where yz: "xs = ys @ zs" "nexts q = map (lay_at L) ys" "laters q = map (lay_at L) zs"
    by (auto simp: map_eq_append_conv)
  have "\<exists>xs'. sched_queue (sched_next (lay_at L 0) q) = map (lay_at L) xs' \<and> set xs' \<subseteq> insert 0 (set xs)"
  proof (cases "lay_at L 0 \<in> set (sched_queue q)")
    case True
    with q(3) show ?thesis by (auto simp: sched_next_def)
  next
    case False
    then have "sched_queue (sched_next (lay_at L 0) q) = map (lay_at L) (ys @ 0 # zs)"
      using q(2) yz by (simp add: sched_next_def sched_queue_def)
    then show ?thesis by (intro exI [of _ "ys @ 0 # zs"]) (auto simp: yz(1))
  qed
  then obtain xs' where xs': "sched_queue (sched_next (lay_at L 0) q) = map (lay_at L) xs'" "set xs' \<subseteq> insert 0 (set xs)" by blast
  moreover have "lasts (sched_next (lay_at L 0) q) = []" using q(2) by (simp add: sched_next_def)
  moreover have "set xs' \<subseteq> {..lay_n L}" using xs'(2) l(3) by auto
  ultimately show ?thesis using armNext_rel [OF q(1) l(1), of "lay_at L 0"] l(2) unfolding chain_loop_def by fastforce
qed

lemma pending_fed: "pending F (Q(0 := Q 0 @ [x])) n = pending F Q n @ [fold F [0..<n] x]"
  by (induction n) simp_all

lemma open_feed:
  assumes rep: "open_rep L F st Q xs" and f: "lay_feeder L = Some f" and x: "calm x"
  shows "\<exists>st' xs'. feed_all f [x] st = Some st' \<and> open_rep L F st' (Q(0 := Q 0 @ [x])) xs' \<and> user (snd st') = user (snd st)"
proof -
  obtain l w where st: "st = (l, w)" by (cases st)
  have objs: "chain_objs L Q w" and loop: "chain_loop L xs l" using rep by (auto simp: open_rep_def st)
  have at: "obj_at w (lay_at L 0) = Some (AdaptConveyorNode (lay_feeder L) (Q 0))"
    "feeder_at w f = Some (Some (lay_at L 0))" using objs f by (simp_all add: chain_objs_def)
  from open_armNext [OF loop] obtain l' xs' where l': "armNext (lay_at L 0) l = Some l'" "chain_loop L xs' l'"
    "set xs' \<subseteq> insert 0 (set xs)" by blast
  let ?w = "w\<lparr>obj_at := (obj_at w)(lay_at L 0 := Some (storage_node L 0 (Q 0 @ [x]))), user := user w\<rparr>"
  have "feed_all f [x] st = Some (l', ?w)"
    using at l'(1) by (cases x)
      (simp_all add: feeder_feed_def feeder_fail_def with_feedee_def AdaptConveyorNode_feed_def on_loop_def st set_obj_def)
  moreover have "open_rep L F (l', ?w) (Q(0 := Q 0 @ [x])) xs'"
    using rep chain_objs_store [OF objs, of 0 "Q 0 @ [x]" "user w"] l'(2,3) x by (auto simp: open_rep_def st)
  ultimately show ?thesis by (auto simp: st)
qed

text \<open>Taking pulls the first element of the top storage through the stages above it.\<close>

definition top_of :: "('v, 'u) layout \<Rightarrow> conveyor" where
  "top_of L = \<lparr>cv_node = Some (lay_top L (lay_n L)), cv_storage = Some (lay_at L (lay_n L))\<rparr>"

lemma open_take_empty:
  assumes "open_rep L F st Q xs" and "Q (lay_n L) = []"
  shows "queued (lay_at L (lay_n L)) st = Some 0"
    and "conveyor_take (top_of L) st = Some (IsError (recoverableError ''Conveyor buffer has no elements''), st)"
proof -
  show "queued (lay_at L (lay_n L)) st = Some 0"
    using chain_queued [of L Q "snd st" "lay_n L" "fst st"] assms by (simp add: open_rep_def)
  then show "conveyor_take (top_of L) st = Some (IsError (recoverableError ''Conveyor buffer has no elements''), st)"
    by (simp add: conveyor_take_def top_of_def)
qed

lemma open_take:
  assumes rep: "open_rep L F st Q xs" and Q: "Q (lay_n L) = y # ys"
    and run: "run_stages (lay_stages L (lay_n L)) y (user (snd st)) = Some (z, u)"
  shows "\<exists>st'. queued (lay_at L (lay_n L)) st = Some (length (y # ys)) \<and> conveyor_take (top_of L) st = Some (z, st')
    \<and> open_rep L F st' (Q(lay_n L := ys)) xs \<and> user (snd st') = u"
proof -
  obtain l w where st: "st = (l, w)" by (cases st)
  have objs: "chain_objs L Q w" using rep by (simp add: open_rep_def st)
  let ?w = "w\<lparr>obj_at := (obj_at w)(lay_at L (lay_n L) := Some (storage_node L (lay_n L) ys)), user := u\<rparr>"
  have q: "queued (lay_at L (lay_n L)) st = Some (length (y # ys))" using chain_queued [OF objs, of "lay_n L" l] Q st by simp
  have "conveyor_take (top_of L) st = Some (z, l, ?w)"
    using q chain_pull [OF objs order_refl Q, of z u l] run by (simp add: conveyor_take_def top_of_def st)
  moreover have "open_rep L F (l, ?w) (Q(lay_n L := ys)) xs"
  proof -
    note R = rep [unfolded open_rep_def st fst_conv snd_conv]
    have "length ((Q(lay_n L := ys)) i) \<le> lay_cap L i" if "0 < i \<and> i \<le> lay_n L" for i
    proof -
      have "length (Q i) \<le> lay_cap L i" using R that by blast
      then show ?thesis using Q by (cases "i = lay_n L") simp_all
    qed
    moreover have "list_all calm ((Q(lay_n L := ys)) i)" if "i \<le> lay_n L" for i
      using R that Q by (cases "i = lay_n L") auto
    ultimately show ?thesis using R chain_objs_store [OF objs order_refl, of ys u] by (simp add: open_rep_def)
  qed
  ultimately show ?thesis using q by auto
qed

section \<open>A program on a chain\<close>

datatype 'v action = Feed "'v error_or" | Turn | Take

text \<open>
  What the program sees: for every call of \<open>take\<close>, how many results the last conveyor had queued, and what
  the call returned.
\<close>

fun run_actions :: "addr \<Rightarrow> conveyor \<Rightarrow> 'v action list \<Rightarrow> ('v, 'u) state \<Rightarrow> ((size_t \<times> 'v error_or) list \<times> ('v, 'u) state) option" where
  "run_actions f c [] st = Some ([], st)"
| "run_actions f c (Feed x # as) st = do { st \<leftarrow> feed_all f [x] st; run_actions f c as st }"
| "run_actions f c (Turn # as) st = do { (b, st) \<leftarrow> turn fire st; run_actions f c as st }"
| "run_actions f c (Take # as) st = do {
     s \<leftarrow> cv_storage c;
     n \<leftarrow> queued s st;
     (y, st) \<leftarrow> conveyor_take c st;
     (rs, st) \<leftarrow> run_actions f c as st;
     Some ((n, y) # rs, st)
   }"

fun fed :: "'v action list \<Rightarrow> 'v error_or list" where
  "fed [] = []"
| "fed (Feed x # as) = x # fed as"
| "fed (_ # as) = fed as"

definition taken :: "(size_t \<times> 'v error_or) list \<Rightarrow> 'v error_or list" where
  "taken rs = map snd (filter (\<lambda>(n, y). 0 < n) rs)"

lemma open_run:
  assumes "open_rep L F st Q xs" and "lay_feeder L = Some f" and "list_all calm (fed as)"
    and "\<forall>x u. calm x \<longrightarrow> run_stages (lay_stages L (lay_n L)) x u \<noteq> None"
  shows "\<exists>rs st' Q' xs' raw. run_actions f (top_of L) as st = Some (rs, st') \<and> open_rep L F st' Q' xs'
    \<and> run_all (lay_stages L (lay_n L)) raw (user (snd st)) = Some (taken rs, user (snd st'))
    \<and> raw @ pending F Q' (lay_n L) = pending F Q (lay_n L) @ map (fold F [0..<lay_n L]) (fed as)
    \<and> (\<forall>r \<in> set rs. fst r = 0 \<longrightarrow> snd r = IsError (recoverableError ''Conveyor buffer has no elements''))"
  using assms(1,3)
proof (induction as arbitrary: st Q xs)
  case Nil
  then show ?case
    by (intro exI [of _ "[]"] exI [of _ st] exI [of _ Q] exI [of _ xs]) (simp add: taken_def)
next
  case (Cons a as)
  show ?case
  proof (cases a)
    case (Feed x)
    with Cons.prems(2) have x: "calm x" "list_all calm (fed as)" by simp_all
    from open_feed [OF Cons.prems(1) assms(2) x(1)] obtain st1 xs1 where one: "feed_all f [x] st = Some st1"
      "open_rep L F st1 (Q(0 := Q 0 @ [x])) xs1" "user (snd st1) = user (snd st)" by blast
    from Cons.IH [OF one(2) x(2)] one(1,3) show ?thesis
      by (simp add: Feed pending_fed del: feed_all.simps fun_upd_apply)
  next
    case Turn
    from open_turn [OF Cons.prems(1)] obtain b st1 Q1 xs1 where one: "turn fire st = Some (b, st1)" "open_rep L F st1 Q1 xs1"
      "user (snd st1) = user (snd st)" "pending F Q1 (lay_n L) = pending F Q (lay_n L)" by blast
    from Cons.IH [OF one(2)] Cons.prems(2) one(1,3,4) show ?thesis by (simp add: Turn)
  next
    case Take
    have as: "list_all calm (fed as)" using Cons.prems(2) Take by simp
    show ?thesis
    proof (cases "Q (lay_n L)")
      case Nil
      note empty = open_take_empty [OF Cons.prems(1) Nil]
      from Cons.IH [OF Cons.prems(1) as] obtain rs st' Q' xs' raw where
        IH: "run_actions f (top_of L) as st = Some (rs, st')" "open_rep L F st' Q' xs'"
        "run_all (lay_stages L (lay_n L)) raw (user (snd st)) = Some (taken rs, user (snd st'))"
        "raw @ pending F Q' (lay_n L) = pending F Q (lay_n L) @ map (fold F [0..<lay_n L]) (fed as)"
        "\<forall>r \<in> set rs. fst r = 0 \<longrightarrow> snd r = IsError (recoverableError ''Conveyor buffer has no elements'')" by blast
      have "run_actions f (top_of L) (a # as) st = Some ((0, IsError (recoverableError ''Conveyor buffer has no elements'')) # rs, st')"
        using empty IH(1) by (simp add: Take) (simp add: top_of_def)
      with IH(2-5) show ?thesis
        by (intro exI [of _ "(0, IsError (recoverableError ''Conveyor buffer has no elements'')) # rs"] exI [of _ st'] exI [of _ Q']
          exI [of _ xs'] exI [of _ raw]) (simp add: taken_def Take)
    next
      case (Cons y ys)
      have y: "calm y" using Cons.prems(1) Cons by (auto simp: open_rep_def)
      with assms(4) obtain z u where z: "run_stages (lay_stages L (lay_n L)) y (user (snd st)) = Some (z, u)" by fastforce
      from open_take [OF Cons.prems(1) Cons z] obtain st1 where one: "queued (lay_at L (lay_n L)) st = Some (length (y # ys))"
        "conveyor_take (top_of L) st = Some (z, st1)" "open_rep L F st1 (Q(lay_n L := ys)) xs" "user (snd st1) = u" by blast
      from Cons.IH [OF one(3) as] obtain rs st' Q' xs' raw where
        IH: "run_actions f (top_of L) as st1 = Some (rs, st')" "open_rep L F st' Q' xs'"
        "run_all (lay_stages L (lay_n L)) raw u = Some (taken rs, user (snd st'))"
        "raw @ pending F Q' (lay_n L) = pending F (Q(lay_n L := ys)) (lay_n L) @ map (fold F [0..<lay_n L]) (fed as)"
        "\<forall>r \<in> set rs. fst r = 0 \<longrightarrow> snd r = IsError (recoverableError ''Conveyor buffer has no elements'')"
        unfolding one(4) by blast
      have "run_actions f (top_of L) (a # as) st = Some ((length (y # ys), z) # rs, st')"
        using one(1,2) IH(1) by (simp add: Take) (simp add: top_of_def)
      moreover have "pending F Q (lay_n L) = y # pending F (Q(lay_n L := ys)) (lay_n L)"
        using pending_move_last [of Q "lay_n L" F] Cons by (simp add: move_def Let_def)
      ultimately show ?thesis using IH(2-5) z
        by (intro exI [of _ "(length (y # ys), z) # rs"] exI [of _ st'] exI [of _ Q'] exI [of _ xs'] exI [of _ "y # raw"])
          (simp add: taken_def Take)
    qed
  qed
qed

text \<open>
  C6: a chain keeps its books at every moment. A program builds a chain with a feeder, any number of
  segments of \<open>then\<close> and \<open>attach\<close> calls that end in a buffer, and further \<open>then\<close> and \<open>attach\<close> calls; then
  it feeds results, lets the event loop make turns, and takes results from the last conveyor, in any order
  and as often as it likes, so that the buffers may be empty, partly filled or full at any time. Nothing
  fails. The results taken, followed by what the storages of the chain still hold, topmost storage first,
  are what has been fed, in order and transformed by the segments: nothing has been lost, doubled or
  overtaken. Every buffer holds at most as many results as its limit, and \<open>take\<close> reports the recoverable
  error exactly when the last storage is empty.
\<close>

theorem chain_conserves_results:
  assumes "segments_ok segs F" and "\<forall>x u. calm x \<longrightarrow> run_stages (rev ss) x u \<noteq> None" and "list_all calm (fed as)"
  shows "\<exists>f c0 st0 c1 st1 c st s rs st' raw yss. newConveyorAndFeeder (start u) = Some (f, c0, st0)
    \<and> add_segments segs c0 st0 = Some (c1, st1) \<and> add_stages ss c1 st1 = Some (c, st) \<and> cv_storage c = Some s
    \<and> run_actions f c as st = Some (rs, st') \<and> yss = contents_below (length segs) (snd st') s
    \<and> run_all (rev ss) raw u = Some (taken rs, user (snd st'))
    \<and> raw @ arriving F yss = map (fold F [0..<length segs]) (fed as)
    \<and> length yss = length segs + 1 \<and> (\<forall>i < length segs. length (yss ! i) \<le> snd (rev segs ! i))
    \<and> (\<forall>r \<in> set rs. fst r = 0 \<longrightarrow> snd r = IsError (recoverableError ''Conveyor buffer has no elements''))"
proof -
  let ?n = "length segs"
  obtain f c0 st0 and L :: "('a, 'b) layout" where
    one: "newConveyorAndFeeder (start u) = Some (f, c0, st0)" "open_chain f L c0 u st0"
    "lay_n L = 0" "lay_stages L 0 = []" using open_chain_start [of u] by blast
  have caps: "\<forall>i < ?n. snd (segs ! i) < SIZE_MOD" using assms(1) by (simp add: segments_ok_def)
  from open_chain_segments [OF one(2-4) caps] obtain c1 st1 L1 where two: "add_segments segs c0 st0 = Some (c1, st1)"
    "open_chain f L1 c1 u st1" "lay_n L1 = ?n" "lay_stages L1 ?n = []"
    "\<forall>i < ?n. lay_stages L1 i = rev (fst (segs ! i)) \<and> lay_cap L1 (Suc i) = snd (segs ! i)" by blast
  from open_chain_stages [OF two(2), of ss] two(3,4) obtain c st L' where three: "add_stages ss c1 st1 = Some (c, st)"
    "open_chain f L' c u st" "same_below L1 L'" "lay_stages L' ?n = rev ss" by auto
  have n: "lay_n L' = ?n" "lay_cap L' = lay_cap L1" using two(3) three(3) by (auto simp: same_below_def)
  have "open_rep L' F st (\<lambda>i. []) []"
    using three(2,3) two(3,5) n assms(1) by (auto simp: open_rep_def open_chain_def segments_ok_def same_below_def)
  from open_run [OF this, of f as] three(2,4) n assms(2,3) obtain rs st' Q xs raw where
    run: "run_actions f (top_of L') as st = Some (rs, st')" "open_rep L' F st' Q xs"
      "run_all (rev ss) raw (user (snd st)) = Some (taken rs, user (snd st'))"
      "raw @ pending F Q ?n = pending F (\<lambda>i. []) ?n @ map (fold F [0..<?n]) (fed as)"
      "\<forall>r \<in> set rs. fst r = 0 \<longrightarrow> snd r = IsError (recoverableError ''Conveyor buffer has no elements'')"
    by (auto simp: open_chain_def)
  have c: "c = top_of L'" "user (snd st) = u" using three(2) by (simp_all add: open_chain_def top_of_def)
  have yss: "contents_below ?n (snd st') (lay_at L' ?n) = map Q (rev [0..<Suc ?n])"
    using contents_below_chain [of L' Q "snd st'" ?n] run(2) n by (simp add: open_rep_def)
  have "length (map Q (rev [0..<Suc ?n]) ! i) \<le> snd (rev segs ! i)" if i: "i < ?n" for i
  proof -
    have "map Q (rev [0..<Suc ?n]) ! i = Q (?n - i)" using i by (simp add: rev_nth del: upt_Suc)
    moreover have "length (Q (?n - i)) \<le> lay_cap L' (?n - i)" using run(2) n i by (simp add: open_rep_def)
    moreover have "lay_cap L' (?n - i) = snd (rev segs ! i)"
      using two(5) n i by (auto simp: rev_nth Suc_diff_Suc dest: spec [where x = "?n - Suc i"])
    ultimately show ?thesis by simp
  qed
  moreover have "arriving F (map Q (rev [0..<Suc ?n])) = pending F Q ?n" by (rule arriving_pending)
  moreover have "pending F (\<lambda>i. []) ?n = []" by (rule pending_empty) simp
  ultimately show ?thesis using one(1) two(1) three(1) run c yss n
    by (intro exI [of _ f] exI [of _ c0] exI [of _ st0] exI [of _ c1] exI [of _ st1] exI [of _ c] exI [of _ st]
      exI [of _ "lay_at L' ?n"] exI [of _ rs] exI [of _ st'] exI [of _ raw] exI [of _ "map Q (rev [0..<Suc ?n])"])
      (simp add: top_of_def del: upt_Suc)
qed

text \<open>Two results fed into a chain with a buffer for one: three turns later one of them is taken.\<close>

theorem chain_conserves_results_witness:
  "\<exists>f c0 st0 c1 st1 c st s rs st' raw yss. newConveyorAndFeeder (start []) = Some (f, c0, st0)
     \<and> add_segments [([Then (\<lambda>v u. (Returns (IsValue (v + 1)), u)) PropagateError], 1)] c0 st0 = Some (c1, st1)
     \<and> add_stages [Then (\<lambda>v u. (Returns (IsValue (2 * v)), u @ [v])) PropagateError] c1 st1 = Some (c, st) \<and> cv_storage c = Some s
     \<and> run_actions f c [Feed (IsValue 5), Feed (IsValue (7 :: nat)), Turn, Turn, Turn, Take] st = Some (rs, st')
     \<and> yss = contents_below 1 (snd st') s
     \<and> run_all [Then (\<lambda>v u. (Returns (IsValue (2 * v)), u @ [v])) PropagateError] raw [] = Some (taken rs, user (snd st'))
     \<and> raw @ arriving (\<lambda>i x. case x of IsValue v \<Rightarrow> IsValue (v + 1) | IsError e \<Rightarrow> IsError e) yss = [IsValue 6, IsValue 8]
     \<and> length (yss ! 0) \<le> 1"
proof -
  let ?F = "\<lambda>i :: nat. \<lambda>x :: nat error_or. case x of IsValue v \<Rightarrow> IsValue (v + 1) | IsError e \<Rightarrow> IsError e"
  let ?segs = "[([Then (\<lambda>v (u :: nat list). (Returns (IsValue (v + 1)), u)) PropagateError], 1)] :: ((nat, nat list) stage list \<times> nat) list"
  let ?as = "[Feed (IsValue 5), Feed (IsValue (7 :: nat)), Turn, Turn, Turn, Take]"
  let ?ss = "[Then (\<lambda>v u. (Returns (IsValue (2 * v)), u @ [v])) PropagateError] :: (nat, nat list) stage list"
  have 1: "segments_ok ?segs ?F"
    by (auto simp: segments_ok_def convert_result_def PropagateError_def SIZE_MOD_def split: error_or.split)
  have 2: "\<forall>x u. calm x \<longrightarrow> run_stages (rev ?ss) x u \<noteq> None"
    by (auto simp: convert_result_def PropagateError_def split: error_or.split)
  have 3: "list_all calm (fed ?as)" by simp
  from chain_conserves_results [OF 1 2 3, of "[]"] obtain f c0 st0 c1 st1 c st s rs st' raw yss where
    w: "newConveyorAndFeeder (start []) = Some (f, c0, st0)" "add_segments ?segs c0 st0 = Some (c1, st1)"
      "add_stages ?ss c1 st1 = Some (c, st)" "cv_storage c = Some s" "run_actions f c ?as st = Some (rs, st')"
      "yss = contents_below (length ?segs) (snd st') s" "run_all (rev ?ss) raw [] = Some (taken rs, user (snd st'))"
      "raw @ arriving ?F yss = map (fold ?F [0..<length ?segs]) (fed ?as)"
      "\<forall>i < length ?segs. length (yss ! i) \<le> snd (rev ?segs ! i)" by blast
  have n: "length ?segs = 1" "rev ?ss = ?ss" "map (fold ?F [0..<1]) (fed ?as) = [IsValue 6, IsValue 8]" by simp_all
  have "length (yss ! 0) \<le> 1" using w(9) by simp
  with w(1-5) w(6-8) [unfolded n] show ?thesis by (intro exI conjI)
qed

end
