(* ===== verification/Conveyor_Merge.thy ===== *)
theory Conveyor_Merge
  imports Conveyor_Nodes
begin

text \<open>
  The merge node, \<open>MergeConveyorNode\<close>, over appendages that are refilled by the storages below them:
  which appendage is served when.
\<close>

section \<open>Taking from the appendages\<close>

text \<open>A merge node whose appendages hold the values \<open>vs\<close>.\<close>

definition merge_holds :: "addr \<Rightarrow> addr list \<Rightarrow> size_t \<Rightarrow> 'v error_or option list \<Rightarrow> ('v, 'u) state \<Rightarrow> bool" where
  "merge_holds m as k vs st \<longleftrightarrow> obj_at (snd st) m = Some (MergeConveyorNode as k) \<and> length vs = length as
     \<and> distinct as \<and> m \<notin> set as
     \<and> (\<forall>i < length as. \<exists>child merger. obj_at (snd st) (as ! i) = Some (Appendage child merger (vs ! i)))"

text \<open>The indices in the order in which the node visits them, and the first one with a value.\<close>

definition visit :: "nat \<Rightarrow> nat \<Rightarrow> nat list" where
  "visit n k = [min n k..<n] @ [0..<min n k]"

definition next_full :: "nat list \<Rightarrow> 'v error_or option list \<Rightarrow> nat option" where
  "next_full is vs = find (\<lambda>i. vs ! i \<noteq> None) is"

lemma find_append: "find P (xs @ ys) = (case find P xs of None \<Rightarrow> find P ys | Some x \<Rightarrow> Some x)"
  by (induction xs) auto

lemma merge_scan_holds:
  assumes "merge_holds m as k vs st" and "\<forall>i \<in> set is. i < length as"
  shows "merge_scan is as st = Some (next_full is vs)"
  using assms(2)
proof (induction "is")
  case (Cons i "is")
  then obtain child merger where "obj_at (snd st) (as ! i) = Some (Appendage child merger (vs ! i))"
    using assms(1) by (auto simp: merge_holds_def)
  with Cons show ?case by (auto simp: Appendage_queued_def next_full_def)
qed (simp add: next_full_def)

text \<open>\<open>getResult\<close> takes the value of the first appendage with one, and goes on behind it the next time.\<close>

lemma merge_getResult:
  assumes holds: "merge_holds m as k vs st" and i: "next_full (visit (length as) k) vs = Some i"
    and a: "obj_at (snd st) (as ! i) = Some (Appendage child merger (Some y))"
  shows "getResult m st = Some (y, set_obj m (MergeConveyorNode as (i + 1)) (set_obj (as ! i) (Appendage child merger None) st))"
proof -
  let ?k = "min (length as) k"
  have m: "obj_at (snd st) m = Some (MergeConveyorNode as k)" using holds by (simp add: merge_holds_def)
  have scan: "merge_scan [?k..<length as] as st = Some (next_full [?k..<length as] vs)"
    "merge_scan [0..<?k] as st = Some (next_full [0..<?k] vs)" by (rule merge_scan_holds [OF holds]; simp)+
  have first: "next_full (visit (length as) k) vs = (case next_full [?k..<length as] vs of
      None \<Rightarrow> next_full [0..<?k] vs | Some i \<Rightarrow> Some i)"
    unfolding next_full_def visit_def find_append ..
  with i show ?thesis
    by (auto simp: getResult_Merge [OF m] MergeConveyorNode_getResult_def Let_def scan merge_take_def a split: option.splits)
qed

lemma next_full_first:
  assumes "0 < n" and "vs ! (min n k mod n) \<noteq> None"
  shows "next_full (visit n k) vs = Some (min n k mod n)"
proof -
  have "\<exists>is. visit n k = (min n k mod n) # is"
    using assms(1) by (cases "k < n") (simp_all add: visit_def upt_conv_Cons)
  with assms(2) show ?thesis by (auto simp: next_full_def)
qed

section \<open>Refilling the appendages\<close>

text \<open>
  Below appendage \<open>i\<close> there is the adapt node of the feeder \<open>fs ! i\<close>; the event loop is idle, nobody is
  connected to the merge node yet, and the appendages hold \<open>vs\<close>.
\<close>

definition merge_fed :: "addr \<Rightarrow> addr list \<Rightarrow> addr list \<Rightarrow> addr list \<Rightarrow> size_t \<Rightarrow> 'v error_or option list \<Rightarrow> ('v, 'u) state \<Rightarrow> bool" where
  "merge_fed m as cs fs k vs st \<longleftrightarrow> obj_at (snd st) m = Some (MergeConveyorNode as k) \<and> distinct (m # as @ cs)
     \<and> length cs = length as \<and> length vs = length as \<and> length as < SIZE_MOD
     \<and> (\<forall>i < length as. obj_at (snd st) (as ! i) = Some (Appendage (Some (cs ! i)) m (vs ! i))
         \<and> (\<exists>g. obj_at (snd st) (cs ! i) = Some (AdaptConveyorNode g []))
         \<and> st_parent (snd st) (cs ! i) = Some (as ! i) \<and> ev_alive (fst st) (cs ! i)
         \<and> feeder_at (snd st) (fs ! i) = Some (Some (cs ! i)))
     \<and> st_parent (snd st) m = None \<and> ev_alive (fst st) m \<and> entered (fst st)
     \<and> (\<exists>q. loop_rel (fst st) q \<and> sched_queue q = [])"

lemma merge_fed_holds: "merge_fed m as cs fs k vs st \<Longrightarrow> merge_holds m as k vs st"
  by (auto simp: merge_fed_def merge_holds_def)

text \<open>
  The program feeds every source whose appendage is empty with its next result, if it has one left, and
  polls the event loop. \<open>yss ! i\<close> are the results it still has for source \<open>i\<close>.
\<close>

fun refill :: "nat list \<Rightarrow> addr list \<Rightarrow> addr list \<Rightarrow> 'v error_or list list \<Rightarrow> ('v, 'u) state \<Rightarrow>
    ('v error_or list list \<times> ('v, 'u) state) option" where
  "refill [] as fs yss st = Some (yss, st)"
| "refill (i # is) as fs yss st = do {
     n \<leftarrow> Appendage_queued (as ! i) st;
     (yss, st) \<leftarrow> (if n = 0 \<and> yss ! i \<noteq> [] then do {
         st \<leftarrow> feed_all (fs ! i) [hd (yss ! i)] st;
         st \<leftarrow> poll st;
         Some (yss[i := tl (yss ! i)], st)
       } else Some (yss, st));
     refill is as fs yss st
   }"

text \<open>What is left of the results of source \<open>i\<close>: the one in its appendage, and then those not yet fed.\<close>

definition left :: "'v error_or option list \<Rightarrow> 'v error_or list list \<Rightarrow> nat \<Rightarrow> 'v error_or list" where
  "left vs yss i = (case vs ! i of None \<Rightarrow> yss ! i | Some v \<Rightarrow> v # yss ! i)"

lemma fed_distinct:
  assumes "merge_fed m as cs fs k vs st" and "i < length as" and "j < length as"
  shows "as ! i \<noteq> m" "cs ! i \<noteq> m" "as ! i \<noteq> cs ! j" "as ! i = as ! j \<longleftrightarrow> i = j" "cs ! i = cs ! j \<longleftrightarrow> i = j"
proof -
  have d: "distinct (m # as @ cs)" "length cs = length as" using assms(1) by (simp_all add: merge_fed_def)
  then have "as ! i \<in> set as" "cs ! i \<in> set cs" "cs ! j \<in> set cs" using assms(2,3) by simp_all
  with d show "as ! i \<noteq> m" "cs ! i \<noteq> m" "as ! i \<noteq> cs ! j" by (auto simp: disjoint_iff)
  from d show "as ! i = as ! j \<longleftrightarrow> i = j" "cs ! i = cs ! j \<longleftrightarrow> i = j" using assms(2,3) by (auto simp: nth_eq_iff_index_eq)
qed

text \<open>The merge node counts the appendages with a value.\<close>

lemma merge_queued:
  assumes "\<forall>a \<in> set as. Appendage_queued a st = Some (if full a then 1 else 0)" and "n + length as < SIZE_MOD"
  shows "MergeConveyorNode_queued as n st = Some (n + length (filter full as))"
  using assms
proof (induction as arbitrary: n)
  case (Cons a as)
  then show ?case by (cases "full a") (simp_all add: sz_add_def)
qed simp

lemma fed_queued:
  assumes fed: "merge_fed m as cs fs k vs st" and i: "i < length as" and v: "vs ! i \<noteq> None"
  shows "\<exists>n. queued m st = Some n \<and> 0 < n"
proof -
  let ?full = "\<lambda>a. \<exists>child merger v. obj_at (snd st) a = Some (Appendage child merger (Some v))"
  have full: "\<forall>a \<in> set as. Appendage_queued a st = Some (if ?full a then 1 else 0)"
    using fed by (force simp: merge_fed_def Appendage_queued_def in_set_conv_nth)
  have "queued m st = Some (length (filter ?full as))"
    using fed merge_queued [OF full, of 0] by (simp add: merge_fed_def queued_def)
  moreover have "as ! i \<in> set (filter ?full as)" using fed i v by (auto simp: merge_fed_def)
  then have "0 < length (filter ?full as)" by (rule length_pos_if_in_set)
  ultimately show ?thesis by blast
qed

text \<open>Feeding a source whose appendage is empty and polling moves the result into the appendage.\<close>

lemma fed_feed:
  assumes fed: "merge_fed m as cs fs k vs st" and i: "i < length as" and v: "vs ! i = None"
  shows "\<exists>st1 st2. feed_all (fs ! i) [y] st = Some st1 \<and> poll st1 = Some st2 \<and> merge_fed m as cs fs k (vs[i := Some y]) st2"
proof -
  let ?a = "as ! i" and ?c = "cs ! i"
  obtain l w where st: "st = (l, w)" by (cases st)
  from fed i v obtain g q where at: "obj_at w ?a = Some (Appendage (Some ?c) m None)" "obj_at w ?c = Some (AdaptConveyorNode g [])"
    "st_parent w ?c = Some ?a" "feeder_at w (fs ! i) = Some (Some ?c)" "obj_at w m = Some (MergeConveyorNode as k)"
    "st_parent w m = None" and l: "ev_alive l ?c" "ev_alive l m" "entered l" "loop_rel l q" "sched_queue q = []"
    by (auto simp: merge_fed_def st)
  note ne = fed_distinct(1-3) [OF fed i i]
  have q: "nexts q = []" "laters q = []" "lasts q = []" using l(5) by (simp_all add: sched_queue_def)
  from armNext_rel [OF l(4,3,1)] obtain l1 where l1: "armNext ?c l = Some l1" "loop_rel l1 (sched_next ?c q)"
    "entered l1" "ev_alive l1 = ev_alive l" by blast
  have q1: "sched_queue (sched_next ?c q) = [?c]" "sched_queue (sched_take (sched_next ?c q)) = []"
    using q by (simp_all add: sched_next_def sched_take_def sched_queue_def)
  from take_head_rel [OF l1(2) q1(1)] obtain l2 where l2: "head l1 = Some ?c" "take_head ?c l1 = Some l2"
    "loop_rel l2 (sched_take (sched_next ?c q))" "entered l2" "ev_alive l2 = ev_alive l" using l1(3,4) by auto
  have "isArmed m l2 \<longleftrightarrow> False" using armed_iff [OF l2(3), of m] q1(2) by (simp add: isArmed_def)
  note idle = this
  let ?q = "sched_take (sched_next ?c q)"
  have alive: "ev_alive l2 m" using l2(5) l(2) by simp
  from armLater_rel [OF l2(3,4) alive] obtain l3 where l3: "armLater m l2 = Some l3" "loop_rel l3 (sched_later m ?q)"
    "entered l3" "ev_alive l3 = ev_alive l" using l2(5) by auto
  have q3: "sched_queue (sched_later m ?q) = [m]" "sched_queue (sched_take (sched_later m ?q)) = []"
    using q1(2) by (simp_all add: sched_later_def sched_take_def sched_queue_def)
  from take_head_rel [OF l3(2) q3(1)] obtain l4 where l4: "head l3 = Some m" "take_head m l3 = Some l4"
    "loop_rel l4 (sched_take (sched_later m ?q))" "entered l4" "ev_alive l4 = ev_alive l" using l3(3,4) by auto
  have "head l4 = None" using l4(3) q3(2) by (auto simp: loop_rel_def)
  note fin = this
  let ?w1 = "w\<lparr>obj_at := (obj_at w)(?c := Some (AdaptConveyorNode g [y]))\<rparr>"
  let ?w2 = "w\<lparr>obj_at := (obj_at w)(?c := Some (AdaptConveyorNode g []), ?a := Some (Appendage (Some ?c) m (Some y)))\<rparr>"
  have other: "as ! j \<noteq> ?a \<and> as ! j \<noteq> ?c \<and> cs ! j \<noteq> ?a \<and> cs ! j \<noteq> ?c" if "j < length as" "j \<noteq> i" for j
    using fed_distinct(3-5) [OF fed that(1) i] fed_distinct(3) [OF fed i that(1)] that(2) by auto
  have fed4: "merge_fed m as cs fs k (vs[i := Some y]) (l4, ?w2)"
    unfolding merge_fed_def
  proof (intro conjI allI impI)
    fix j assume j: "j < length as"
    show "obj_at (snd (l4, ?w2)) (as ! j) = Some (Appendage (Some (cs ! j)) m (vs[i := Some y] ! j))"
      "\<exists>g. obj_at (snd (l4, ?w2)) (cs ! j) = Some (AdaptConveyorNode g [])"
      using fed j other [OF j] ne by (cases "j = i"; simp add: merge_fed_def nth_list_update st)+
    show "st_parent (snd (l4, ?w2)) (cs ! j) = Some (as ! j)" "ev_alive (fst (l4, ?w2)) (cs ! j)"
      "feeder_at (snd (l4, ?w2)) (fs ! j) = Some (Some (cs ! j))" using fed j l4(5) by (simp_all add: merge_fed_def st)
  qed (use fed ne l4(3-5) l(2) q3(2) in \<open>auto simp: merge_fed_def st\<close>)
  have feed: "feed_all (fs ! i) [y] st = Some (l1, ?w1)"
    using at l1(1) by (cases y)
      (simp_all add: feeder_feed_def feeder_fail_def with_feedee_def AdaptConveyorNode_feed_def on_loop_def st set_obj_def)
  have "childHasFired ?a (l2, ?w1) = Some (l3, ?w2)"
    using at ne idle l3(1)
    by (simp add: childHasFired_def Appendage_childHasFired_def getResult_Adapt set_obj_def on_loop_def Let_def)
  then have fire1: "fire ?c (l2, ?w1) = Some (l3, ?w2)"
    using at ne by (simp add: fire_def AdaptConveyorNode_fire_def queued_def)
  have "\<exists>n. queued m (l4, ?w2) = Some n \<and> 0 < n"
    by (rule fed_queued [OF fed4 i]) (use fed i in \<open>simp add: merge_fed_def\<close>)
  then have fire2: "fire m (l4, ?w2) = Some (l4, ?w2)"
    using at ne by (auto simp: fire_def MergeConveyorNode_fire_def)
  have "poll (l1, ?w1) = Some (l4, ?w2)"
    using l2(1,2) fire1 l4(1,2) fire2 fin
    by (simp add: poll_def EventLoop_poll_def turnLoop_def turnLoop_from_numeral turn_def)
  with feed fed4 show ?thesis by blast
qed

lemma refill_fed:
  assumes "merge_fed m as cs fs k vs st" and "length yss = length as" and "\<forall>i \<in> set is. i < length as"
  shows "\<exists>vs' yss' st'. refill is as fs yss st = Some (yss', st') \<and> merge_fed m as cs fs k vs' st'
    \<and> length yss' = length as \<and> (\<forall>i < length as. left vs' yss' i = left vs yss i)
    \<and> (\<forall>i < length as. i \<in> set is \<or> vs ! i \<noteq> None \<or> yss ! i = [] \<longrightarrow> vs' ! i \<noteq> None \<or> yss' ! i = [])"
  using assms
proof (induction "is" arbitrary: vs yss st)
  case Nil
  then show ?case by auto
next
  case (Cons i "is")
  have i: "i < length as" using Cons.prems(3) by simp
  have len: "length vs = length as" using Cons.prems(1) by (simp add: merge_fed_def)
  have q: "Appendage_queued (as ! i) st = Some (if vs ! i \<noteq> None then 1 else 0)"
    using Cons.prems(1) i by (auto simp: merge_fed_def Appendage_queued_def)
  have "\<exists>vs1 yss1 st1. (if vs ! i = None \<and> yss ! i \<noteq> [] then do {
        st \<leftarrow> feed_all (fs ! i) [hd (yss ! i)] st; st \<leftarrow> poll st; Some (yss[i := tl (yss ! i)], st) }
      else Some (yss, st)) = Some (yss1, st1)
    \<and> merge_fed m as cs fs k vs1 st1 \<and> length yss1 = length as \<and> (\<forall>j < length as. left vs1 yss1 j = left vs yss j)
    \<and> (vs1 ! i \<noteq> None \<or> yss1 ! i = []) \<and> (\<forall>j < length as. j \<noteq> i \<longrightarrow> vs1 ! j = vs ! j \<and> yss1 ! j = yss ! j)"
  proof (cases "yss ! i = [] \<or> vs ! i \<noteq> None")
    case True
    with Cons.prems(1,2) show ?thesis by (intro exI [of _ vs] exI [of _ yss] exI [of _ st]) auto
  next
    case False
    then obtain y ys where ys: "yss ! i = y # ys" "vs ! i = None" by (cases "yss ! i") auto
    from fed_feed [OF Cons.prems(1) i ys(2), of y] obtain st1 st2 where
      "feed_all (fs ! i) [y] st = Some st1" "poll st1 = Some st2" "merge_fed m as cs fs k (vs[i := Some y]) st2" by blast
    with ys i len Cons.prems(2) show ?thesis
      by (intro exI [of _ "vs[i := Some y]"] exI [of _ "yss[i := ys]"] exI [of _ st2])
        (auto simp del: feed_all.simps simp: left_def nth_list_update split: option.split)
  qed
  then obtain vs1 yss1 st1 where
    one: "(if vs ! i = None \<and> yss ! i \<noteq> [] then do {
        st \<leftarrow> feed_all (fs ! i) [hd (yss ! i)] st; st \<leftarrow> poll st; Some (yss[i := tl (yss ! i)], st) }
      else Some (yss, st)) = Some (yss1, st1)"
      "merge_fed m as cs fs k vs1 st1" "length yss1 = length as" "\<forall>j < length as. left vs1 yss1 j = left vs yss j"
      "vs1 ! i \<noteq> None \<or> yss1 ! i = []" "\<forall>j < length as. j \<noteq> i \<longrightarrow> vs1 ! j = vs ! j \<and> yss1 ! j = yss ! j" by blast
  from Cons.IH [OF one(2,3)] Cons.prems(3) obtain vs2 yss2 st2 where
    two: "refill is as fs yss1 st1 = Some (yss2, st2)" "merge_fed m as cs fs k vs2 st2" "length yss2 = length as"
      "\<forall>j < length as. left vs2 yss2 j = left vs1 yss1 j"
      "\<forall>j < length as. j \<in> set is \<or> vs1 ! j \<noteq> None \<or> yss1 ! j = [] \<longrightarrow> vs2 ! j \<noteq> None \<or> yss2 ! j = []" by auto
  have "refill (i # is) as fs yss st = Some (yss2, st2)"
    using q one(1) two(1) by (cases "vs ! i") (simp_all del: feed_all.simps)
  moreover have "vs2 ! j \<noteq> None \<or> yss2 ! j = []" if "j < length as" "j \<in> set (i # is) \<or> vs ! j \<noteq> None \<or> yss ! j = []" for j
    using two(5) one(5,6) that by (cases "j = i") auto
  ultimately show ?case using two(2-4) one(4) by metis
qed

section \<open>Round robin\<close>

text \<open>Taking results from the merge node, one after the other, and feeding the sources in between.\<close>

fun serve :: "nat \<Rightarrow> addr \<Rightarrow> addr list \<Rightarrow> addr list \<Rightarrow> 'v error_or list list \<Rightarrow> ('v, 'u) state \<Rightarrow>
    ('v error_or list \<times> ('v, 'u) state) option" where
  "serve 0 m as fs yss st = Some ([], st)"
| "serve (Suc n) m as fs yss st = do {
     (y, st) \<leftarrow> getResult m st;
     (yss, st) \<leftarrow> refill [0..<length as] as fs yss st;
     (ys, st) \<leftarrow> serve n m as fs yss st;
     Some (y # ys, st)
   }"

text \<open>One round trip: the appendage whose turn it is gives its first result, and is refilled.\<close>

lemma fed_serve:
  assumes fed: "merge_fed m as cs fs k vs st" and yss: "length yss = length as"
    and full: "\<forall>i < length as. vs ! i \<noteq> None \<or> yss ! i = []"
    and i: "i < length as" "min (length as) k mod length as = i" and ne: "left vs yss i \<noteq> []"
  shows "\<exists>st1 st2 vs' yss'. getResult m st = Some (hd (left vs yss i), st1)
    \<and> refill [0..<length as] as fs yss st1 = Some (yss', st2)
    \<and> merge_fed m as cs fs (i + 1) vs' st2 \<and> length yss' = length as \<and> (\<forall>j < length as. vs' ! j \<noteq> None \<or> yss' ! j = [])
    \<and> (\<forall>j < length as. left vs' yss' j = (if j = i then tl (left vs yss j) else left vs yss j))"
proof -
  from full i(1) ne obtain y where y: "vs ! i = Some y" by (fastforce simp: left_def)
  have at: "obj_at (snd st) (as ! i) = Some (Appendage (Some (cs ! i)) m (Some y))" using fed i(1) y by (simp add: merge_fed_def)
  have "next_full (visit (length as) k) vs = Some i" using next_full_first [of "length as" vs k] i y by (cases as) auto
  note get = merge_getResult [OF merge_fed_holds [OF fed] this at]
  let ?st = "set_obj m (MergeConveyorNode as (i + 1)) (set_obj (as ! i) (Appendage (Some (cs ! i)) m None) st)"
  have len: "length cs = length as" "length vs = length as" using fed by (simp_all add: merge_fed_def)
  have ne': "as ! j \<noteq> m \<and> cs ! j \<noteq> m \<and> cs ! j \<noteq> as ! i \<and> (as ! j = as ! i \<longleftrightarrow> j = i)" if "j < length as" for j
    using fed_distinct [OF fed that i(1)] fed_distinct(3) [OF fed i(1) that] by auto
  have fed1: "merge_fed m as cs fs (i + 1) (vs[i := None]) ?st"
    unfolding merge_fed_def
  proof (intro conjI allI impI)
    fix j assume j: "j < length as"
    show "obj_at (snd ?st) (as ! j) = Some (Appendage (Some (cs ! j)) m (vs[i := None] ! j))"
      using fed j ne' [OF j] len by (auto simp: merge_fed_def set_obj_def nth_list_update)
    show "\<exists>g. obj_at (snd ?st) (cs ! j) = Some (AdaptConveyorNode g [])"
      using fed j ne' [OF j] by (auto simp: merge_fed_def set_obj_def)
  qed (use fed in \<open>auto simp: merge_fed_def set_obj_def\<close>)
  from refill_fed [OF fed1 yss, of "[0..<length as]"] obtain vs' yss' st2 where
    two: "refill [0..<length as] as fs yss ?st = Some (yss', st2)" "merge_fed m as cs fs (i + 1) vs' st2"
      "length yss' = length as" "\<forall>j < length as. left vs' yss' j = left (vs[i := None]) yss j"
      "\<forall>j < length as. vs' ! j \<noteq> None \<or> yss' ! j = []" by auto
  moreover have "left (vs[i := None]) yss j = (if j = i then tl (left vs yss j) else left vs yss j)" if "j < length as" for j
    using that y len by (simp add: left_def nth_list_update)
  moreover have "hd (left vs yss i) = y" by (simp add: left_def y)
  ultimately show ?thesis using get by (intro exI [of _ ?st] exI [of _ st2] exI [of _ vs'] exI [of _ yss']) simp
qed

text \<open>How often appendage \<open>t\<close>, counted from the first one served, has been served after \<open>j\<close> results.\<close>

definition served :: "nat \<Rightarrow> nat \<Rightarrow> nat \<Rightarrow> nat" where
  "served n j t = j div n + (if t < j mod n then 1 else 0)"

lemma served_Suc: "t < n \<Longrightarrow> served n (Suc j) t = served n j t + (if t = j mod n then 1 else 0)"
  by (auto simp: served_def div_Suc mod_Suc split: if_splits)

lemma serve_round_robin:
  assumes "merge_fed m as cs fs k vs st" and "length yss = length as" and "\<forall>i < length as. vs ! i \<noteq> None \<or> yss ! i = []"
    and "min (length as) k mod length as = (p + j) mod length as" and "as \<noteq> []"
    and "\<forall>t < length as. left vs yss ((p + t) mod length as) = drop (served (length as) j t) (xss ! ((p + t) mod length as))"
    and "\<forall>i < length as. length (xss ! i) = R" and "j + n \<le> R * length as"
  shows "\<exists>st'. serve n m as fs yss st = Some (map (\<lambda>j. xss ! ((p + j) mod length as) ! (j div length as)) [j..<j + n], st')"
  using assms
proof (induction n arbitrary: j k vs yss st)
  case 0
  then show ?case by simp
next
  case (Suc n)
  let ?N = "length as"
  let ?t = "j mod ?N"
  let ?i = "(p + j) mod ?N"
  have N: "0 < ?N" using Suc.prems(5) by simp
  then have t: "?t < ?N" "?i < ?N" "(p + ?t) mod ?N = ?i" by (simp_all add: mod_add_right_eq)
  have now: "left vs yss ?i = drop (j div ?N) (xss ! ?i)" using Suc.prems(6) t by (fastforce simp: served_def)
  have "j div ?N < R" using Suc.prems(8) N by (simp add: div_less_iff_less_mult)
  then have lt: "j div ?N < length (xss ! ?i)" using Suc.prems(7) t(2) by simp
  then have head: "left vs yss ?i \<noteq> []" "hd (left vs yss ?i) = xss ! ?i ! (j div ?N)" unfolding now by (simp_all add: hd_drop_conv_nth)
  from fed_serve [OF Suc.prems(1-3) t(2) Suc.prems(4) head(1)] obtain st1 st2 vs' yss' where
    one: "getResult m st = Some (xss ! ?i ! (j div ?N), st1)" "refill [0..<?N] as fs yss st1 = Some (yss', st2)"
      "merge_fed m as cs fs (?i + 1) vs' st2" "length yss' = ?N"
      "\<forall>j < ?N. vs' ! j \<noteq> None \<or> yss' ! j = []" "\<forall>j < ?N. left vs' yss' j = (if j = ?i then tl (left vs yss j) else left vs yss j)"
    unfolding head(2) by blast
  have k: "min ?N (?i + 1) mod ?N = (p + Suc j) mod ?N" using t(2) by (simp add: mod_Suc_eq)
  have "left vs' yss' ((p + u) mod ?N) = drop (served ?N (Suc j) u) (xss ! ((p + u) mod ?N))" if u: "u < ?N" for u
  proof -
    have "(p + u) mod ?N = ?i \<longleftrightarrow> u = ?t" using u t by (metis mod_add_cancel_iff)
    then show ?thesis using one(6) Suc.prems(6) u served_Suc [OF u, of j] N by (auto simp: drop_Suc tl_drop)
  qed
  with Suc.IH [OF one(3-5) k Suc.prems(5) _ Suc.prems(7)] Suc.prems(8) obtain st' where
    "serve n m as fs yss' st2 = Some (map (\<lambda>j. xss ! ((p + j) mod ?N) ! (j div ?N)) [Suc j..<Suc j + n], st')" by auto
  moreover have "[j..<j + Suc n] = j # [Suc j..<Suc j + n]" by (simp add: upt_rec)
  ultimately show ?case using one(1,2) by simp
qed

text \<open>
  C29: merging is fair. The sources of a merge node have \<open>R\<close> results each, the first one of each is in
  the appendage; after every result taken from the node, the program feeds the sources whose appendages
  are empty with their next results and polls the event loop. Then nothing fails, and results are taken
  from the sources in turn, in cyclic order from \<open>next_appendage\<close> on: each one has given its first result
  before any of them gives its second one, its second one before any of them gives its third one, and so
  on, although the appendage that has been served last is full again each time.
\<close>

theorem merge_takes_round_robin:
  assumes "merge_fed m as cs fs k (map (\<lambda>xs. Some (hd xs)) xss) st" and "as \<noteq> []"
    and "list_all (\<lambda>xs. length xs = R) xss" and "0 < R"
  shows "\<exists>ys st'. serve (R * length as) m as fs (map tl xss) st = Some (ys, st') \<and> length ys = R * length as
    \<and> (\<forall>j < R * length as. ys ! j = xss ! ((min (length as) k + j) mod length as) ! (j div length as))"
proof -
  let ?N = "length as"
  have len: "length xss = ?N" using assms(1) by (simp add: merge_fed_def)
  have R: "\<forall>i < ?N. length (xss ! i) = R" using assms(3) len by (simp add: list_all_length)
  have "left (map (\<lambda>xs. Some (hd xs)) xss) (map tl xss) i = xss ! i" if "i < ?N" for i
    using that len R assms(4) by (cases "xss ! i") (auto simp: left_def)
  then show ?thesis
    using serve_round_robin [OF assms(1), of "map tl xss" "min ?N k" 0 xss R "R * ?N"] assms(2) len R
    by (auto simp: served_def)
qed

text \<open>A program that merges two feeders, feeds each of them, and has a second result for each of them.\<close>

lemma merge_two_built:
  "\<exists>c st1 d st2 st3 st4. newConveyorAndFeeder (start ()) = Some (0, c, st1)
     \<and> newConveyorAndFeeder st1 = Some (2, d, st2) \<and> conveyor_merge c st2 = Some (\<lparr>cv_node = Some 4, cv_storage = Some 4\<rparr>, st3)
     \<and> MergeConveyor_attach 4 d st3 = Some st4 \<and> merge_fed 4 [5, 6] [1, 3] [0, 2] 0 [None, None] st4"
proof -
  let ?l = "Event_new 4 (Event_new 3 (Event_new 1 (EventLoop_new\<lparr>entered := True\<rparr>)))"
  have "loop_rel ?l sched_empty" "sched_queue sched_empty = []"
    by (simp_all add: loop_rel_def sched_queue_def sched_empty_def EventLoop_new_def Event_new_def slot_content_def)
  then have idle: "\<exists>q. loop_rel ?l q \<and> sched_queue q = []" by blast
  have alive: "ev_alive ?l 1" "ev_alive ?l 3" "ev_alive ?l 4" "entered ?l" by (simp_all add: Event_new_def)
  have new: "\<exists>c st1 d st2 st3 w. newConveyorAndFeeder (start ()) = Some (0, c, st1)
     \<and> newConveyorAndFeeder st1 = Some (2, d, st2) \<and> conveyor_merge c st2 = Some (\<lparr>cv_node = Some 4, cv_storage = Some 4\<rparr>, st3)
     \<and> MergeConveyor_attach 4 d st3 = Some (?l, w)
     \<and> obj_at w 4 = Some (MergeConveyorNode [5, 6] 0) \<and> st_parent w 4 = None
     \<and> obj_at w 5 = Some (Appendage (Some 1) 4 None) \<and> obj_at w 6 = Some (Appendage (Some 3) 4 None)
     \<and> obj_at w 1 = Some (AdaptConveyorNode (Some 0) []) \<and> obj_at w 3 = Some (AdaptConveyorNode (Some 2) [])
     \<and> st_parent w 1 = Some 5 \<and> st_parent w 3 = Some 6 \<and> feeder_at w 0 = Some (Some 1) \<and> feeder_at w 2 = Some (Some 3)"
    by (simp add: node_eval numeral_eq_Suc)
  then show ?thesis using idle alive by (fastforce simp: merge_fed_def less_Suc_eq SIZE_MOD_def)
qed

theorem merge_takes_round_robin_witness:
  "\<exists>f c st1 g d st2 m n st3 st4 st5 st6 st7 st8 as ys st9. newConveyorAndFeeder (start ()) = Some (f, c, st1)
     \<and> newConveyorAndFeeder st1 = Some (g, d, st2) \<and> conveyor_merge c st2 = Some (m, st3)
     \<and> cv_node m = Some n \<and> MergeConveyor_attach n d st3 = Some st4
     \<and> feed_all f [IsValue ''a''] st4 = Some st5 \<and> poll st5 = Some st6
     \<and> feed_all g [IsValue ''b''] st6 = Some st7 \<and> poll st7 = Some st8
     \<and> serve 4 n as [f, g] [[IsValue ''c''], [IsValue ''d'']] st8 = Some (ys, st9)
     \<and> ys = [IsValue ''a'', IsValue ''b'', IsValue ''c'', IsValue ''d'']"
proof -
  from merge_two_built obtain c d and st1 st2 st3 st4 :: "(char list, unit) state" where
    built: "newConveyorAndFeeder (start ()) = Some (0, c, st1)" "newConveyorAndFeeder st1 = Some (2, d, st2)"
      "conveyor_merge c st2 = Some (\<lparr>cv_node = Some 4, cv_storage = Some 4\<rparr>, st3)" "MergeConveyor_attach 4 d st3 = Some st4"
      "merge_fed 4 [5, 6] [1, 3] [0, 2] 0 [None, None] st4" by blast
  from fed_feed [OF built(5), of 0 "IsValue ''a''"] obtain st5 st6 where
    a: "feed_all 0 [IsValue ''a''] st4 = Some st5" "poll st5 = Some st6"
      "merge_fed 4 [5, 6] [1, 3] [0, 2] 0 [Some (IsValue ''a''), None] st6" by auto
  from fed_feed [OF a(3), of 1 "IsValue ''b''"] obtain st7 st8 where
    b: "feed_all 2 [IsValue ''b''] st6 = Some st7" "poll st7 = Some st8"
      "merge_fed 4 [5, 6] [1, 3] [0, 2] 0 [Some (IsValue ''a''), Some (IsValue ''b'')] st8" by auto
  let ?xss = "[[IsValue ''a'', IsValue ''c''], [IsValue ''b'', IsValue ''d'']]"
  have "merge_fed 4 [5, 6] [1, 3] [0, 2] 0 (map (\<lambda>xs. Some (hd xs)) ?xss) st8" using b(3) by simp
  note round = merge_takes_round_robin [OF this, of 2]
  have len: "length [5 :: addr, 6] = 2" "2 * 2 = (4 :: nat)" by simp_all
  from round [unfolded len] obtain ys st9 where
    run: "serve 4 4 [5, 6] [0, 2] [[IsValue ''c''], [IsValue ''d'']] st8 = Some (ys, st9)" and ys: "length ys = 4"
      "\<forall>j < 4. ys ! j = ?xss ! ((min 2 0 + j) mod 2) ! (j div 2)" by auto
  have "ys ! 0 = IsValue ''a''" "ys ! 1 = IsValue ''b''" "ys ! 2 = IsValue ''c''" "ys ! 3 = IsValue ''d''"
    using ys(2) by simp_all
  moreover obtain x1 x2 x3 x4 where "ys = [x1, x2, x3, x4]" using ys(1) by (auto simp: numeral_eq_Suc length_Suc_conv)
  ultimately have "ys = [IsValue ''a'', IsValue ''b'', IsValue ''c'', IsValue ''d'']" by simp
  with built a(1,2) b(1,2) run show ?thesis by (intro exI conjI) (assumption | simp)+
qed

end
