(* ===== verification/Wait_Scope.thy ===== *)
theory Wait_Scope
  imports Event_Loop
begin

text \<open>
  The event loops of one thread (\<open>source/forstio/async.cpp\<close>, lines 8-15, 165-181, 229-254 and 265-279): the variable \<open>local_loop\<close>, the
  life of loops, and class \<open>WaitScope\<close>, which makes a loop the current one. A loop is known by its address. The rest of the development works with
  one loop and its flag \<open>entered\<close>; \<open>scope_view\<close> is that loop, and the operations on it are those on the thread.
\<close>

section \<open>State and operations\<close>

record thread =
  local_loop :: "nat option"
  loops :: "nat \<rightharpoonup> event_loop"

definition currentEventLoop :: "thread \<Rightarrow> nat option" where
  "currentEventLoop t = do {
     let loop = local_loop t;
     assert_that (loop \<noteq> None);
     loop
   }"

definition thread_EventLoop_new :: "nat \<Rightarrow> thread \<Rightarrow> thread option" where
  "thread_EventLoop_new a t = do {
     assert_that (loops t a = None);
     Some (t\<lparr>loops := (loops t)(a \<mapsto> EventLoop_new)\<rparr>)
   }"

definition thread_EventLoop_delete :: "nat \<Rightarrow> thread \<Rightarrow> thread option" where
  "thread_EventLoop_delete a t = do {
     l \<leftarrow> loops t a;
     assert_that (local_loop t \<noteq> Some a);
     Some (t\<lparr>loops := (loops t)(a := None)\<rparr>)
   }"

definition thread_enterScope :: "nat \<Rightarrow> thread \<Rightarrow> thread option" where
  "thread_enterScope a t = do {
     l \<leftarrow> loops t a;
     assert_that (local_loop t = None);
     Some (t\<lparr>local_loop := Some a\<rparr>)
   }"

definition thread_leaveScope :: "nat \<Rightarrow> thread \<Rightarrow> thread option" where
  "thread_leaveScope a t = do {
     l \<leftarrow> loops t a;
     assert_that (local_loop t = Some a);
     Some (t\<lparr>local_loop := None\<rparr>)
   }"

text \<open>A scope is the reference to its loop; its constructor enters the loop, its destructor leaves it.\<close>

definition WaitScope_enter :: "nat \<Rightarrow> thread \<Rightarrow> (nat \<times> thread) option" where
  "WaitScope_enter loop t = do { t \<leftarrow> thread_enterScope loop t; Some (loop, t) }"

definition WaitScope_delete :: "nat \<Rightarrow> thread \<Rightarrow> thread option" where
  "WaitScope_delete scope t = thread_leaveScope scope t"

text \<open>The loop at an address as the other theories see it, and changes of that loop.\<close>

definition scope_view :: "nat \<Rightarrow> thread \<Rightarrow> event_loop option" where
  "scope_view a t = map_option (\<lambda>l. l\<lparr>entered := (local_loop t = Some a)\<rparr>) (loops t a)"

definition put_loop :: "nat \<Rightarrow> event_loop \<Rightarrow> thread \<Rightarrow> thread" where
  "put_loop a l t = t\<lparr>loops := (loops t)(a \<mapsto> l)\<rparr>"

text \<open>An event that is constructed without a loop belongs to the current one.\<close>

definition Event_default :: "event \<Rightarrow> thread \<Rightarrow> (nat \<times> thread) option" where
  "Event_default e t = do {
     a \<leftarrow> currentEventLoop t;
     l \<leftarrow> scope_view a t;
     Some (a, put_loop a (Event_new e l) t)
   }"

text \<open>
  \<open>WaitScope::wait\<close> with its two variants and \<open>WaitScope::poll\<close> call the function of the loop of the same name and drop its result. Each of those
  asks the event port, if there is one, and runs the loop; \<open>port\<close> is what the event port does then.
\<close>

definition WaitScope_wait ::
    "(event_loop \<times> 's \<Rightarrow> (event_loop \<times> 's) option) \<Rightarrow> 's fire \<Rightarrow> nat \<Rightarrow> thread \<times> 's \<Rightarrow> (thread \<times> 's) option" where
  "WaitScope_wait port fire scope ts = (case ts of (t, s) \<Rightarrow> do {
     l \<leftarrow> scope_view scope t;
     (r, l, s) \<leftarrow> EventLoop_poll port fire (l, s);
     Some (put_loop scope l t, s)
   })"

section \<open>The current loop\<close>

text \<open>The calls of a program that make and drop loops and scopes.\<close>

datatype scope_call = MakeLoop nat | DropLoop nat | OpenScope nat | CloseScope nat | MakeEvent event

fun thread_call :: "scope_call \<Rightarrow> thread \<Rightarrow> thread option" where
  "thread_call (MakeLoop a) t = thread_EventLoop_new a t"
| "thread_call (DropLoop a) t = thread_EventLoop_delete a t"
| "thread_call (OpenScope a) t = map_option snd (WaitScope_enter a t)"
| "thread_call (CloseScope a) t = WaitScope_delete a t"
| "thread_call (MakeEvent e) t = map_option snd (Event_default e t)"

inductive thread_reachable :: "thread \<Rightarrow> bool" where
  start: "thread_reachable \<lparr>local_loop = None, loops = Map.empty\<rparr>"
| step: "thread_reachable t \<Longrightarrow> thread_call c t = Some t' \<Longrightarrow> thread_reachable t'"

lemmas thread_ops_def = thread_EventLoop_new_def thread_EventLoop_delete_def thread_enterScope_def thread_leaveScope_def
  WaitScope_enter_def WaitScope_delete_def Event_default_def currentEventLoop_def put_loop_def scope_view_def

text \<open>
  The current loop is never a destroyed one, so that events can always be made in a scope: the assertion in the destructor of a loop
  protects \<open>local_loop\<close>.
\<close>

theorem current_loop_alive:
  assumes "thread_reachable t"
  shows "case local_loop t of None \<Rightarrow> Event_default e t = None | Some a \<Rightarrow> loops t a \<noteq> None \<and> Event_default e t \<noteq> None"
proof -
  have "\<forall>a. local_loop t = Some a \<longrightarrow> loops t a \<noteq> None"
    using assms
  proof induction
    case (step t c t')
    then show ?case
      by (cases c) (auto simp: thread_ops_def Let_def assert_that_def split: if_splits bind_splits)
  qed simp
  then show ?thesis by (auto simp: thread_ops_def Let_def assert_that_def split: option.splits)
qed

text \<open>
  The loops as the other theories see them: entering and leaving the scope of a loop sets and clears its flag and leaves the other loops as they are,
  and at most one loop is entered.
\<close>

theorem scope_view_refines:
  shows "thread_enterScope a t = Some t' \<Longrightarrow>
      \<exists>l l'. scope_view a t = Some l \<and> enterScope l = Some l' \<and> scope_view a t' = Some l' \<and> (\<forall>b. b \<noteq> a \<longrightarrow> scope_view b t' = scope_view b t)"
    and "thread_leaveScope a t = Some t' \<Longrightarrow>
      \<exists>l l'. scope_view a t = Some l \<and> leaveScope l = Some l' \<and> scope_view a t' = Some l' \<and> (\<forall>b. b \<noteq> a \<longrightarrow> scope_view b t' = scope_view b t)"
    and "scope_view a t = Some l \<Longrightarrow> scope_view b t = Some l2 \<Longrightarrow> entered l \<Longrightarrow> entered l2 \<Longrightarrow> a = b"
  by (auto simp: scope_view_def thread_enterScope_def thread_leaveScope_def enterScope_def leaveScope_def assert_that_def
      split: if_splits bind_splits)

text \<open>A second scope on the same thread, and the destruction of the current loop, fail an assertion.\<close>

theorem scope_misuse:
  assumes "local_loop t = Some a"
  shows "thread_enterScope b t = None" "thread_EventLoop_delete a t = None" "b \<noteq> a \<Longrightarrow> thread_leaveScope b t = None"
  using assms by (auto simp: thread_ops_def assert_that_def split: bind_splits)

end
