(* ===== verification/One_Time.thy ===== *)
theory One_Time
  imports Event_Loop
begin

text \<open>
  \<open>OneTimeConveyorFeeder\<close> and \<open>OneTimeConveyorNode\<close> (\<open>source/forstio/async.h\<close>, lines 498-548, and \<open>async.tmpl.h\<close>, lines 561-645): a feeder
  and a node that carry one result. The node can not be constructed in the program as it is, because it does not implement \<open>setParent\<close> of
  its base; the bodies of the members are modelled as they are written, on nodes that are there from the beginning.

  Feeders and nodes are objects in a store; a pointer is the address of an object, and following one to an object that is gone is \<open>None\<close>. The node is an
  event of the loop.
\<close>

section \<open>State and operations\<close>

record 'v one_time_node =
  on_feeder :: "nat option"
  on_passed :: bool
  on_storage :: "'v error_or option"
  on_parent :: "nat option"

text \<open>\<open>ot_feeders\<close> maps a feeder to its feedee; \<open>ot_fired\<close> are the calls of \<open>childHasFired\<close> of parents.\<close>

record 'v one_time =
  ot_feeders :: "nat \<rightharpoonup> nat option"
  ot_nodes :: "nat \<rightharpoonup> 'v one_time_node"
  ot_loop :: event_loop
  ot_fired :: "nat list"

definition OneTimeConveyorFeeder_setFeedee :: "nat \<Rightarrow> nat option \<Rightarrow> 'v one_time \<Rightarrow> 'v one_time option" where
  "OneTimeConveyorFeeder_setFeedee f feedee_p w = do {
     old \<leftarrow> ot_feeders w f;
     Some (w\<lparr>ot_feeders := (ot_feeders w)(f \<mapsto> feedee_p)\<rparr>)
   }"

definition OneTimeConveyorNode_setFeeder :: "nat \<Rightarrow> nat option \<Rightarrow> 'v one_time \<Rightarrow> 'v one_time option" where
  "OneTimeConveyorNode_setFeeder n feeder_p w = do {
     x \<leftarrow> ot_nodes w n;
     Some (w\<lparr>ot_nodes := (ot_nodes w)(n \<mapsto> x\<lparr>on_feeder := feeder_p\<rparr>)\<rparr>)
   }"

definition OneTimeConveyorFeeder_delete :: "nat \<Rightarrow> 'v one_time \<Rightarrow> 'v one_time option" where
  "OneTimeConveyorFeeder_delete f w = do {
     feedee \<leftarrow> ot_feeders w f;
     w \<leftarrow> (case feedee of None \<Rightarrow> Some w | Some n \<Rightarrow> OneTimeConveyorNode_setFeeder n None w);
     Some (w\<lparr>ot_feeders := (ot_feeders w)(f := None)\<rparr>)
   }"

definition OneTimeConveyorNode_delete :: "nat \<Rightarrow> 'v one_time \<Rightarrow> 'v one_time option" where
  "OneTimeConveyorNode_delete n w = do {
     x \<leftarrow> ot_nodes w n;
     w \<leftarrow> (case on_feeder x of None \<Rightarrow> Some w | Some f \<Rightarrow> OneTimeConveyorFeeder_setFeedee f None w);
     l \<leftarrow> Event_delete n (ot_loop w);
     Some (w\<lparr>ot_nodes := (ot_nodes w)(n := None), ot_loop := l\<rparr>)
   }"

text \<open>\<open>feed\<close> and \<open>fail\<close> of a node: both store the result and arm the event.\<close>

definition OneTimeConveyorNode_store :: "nat \<Rightarrow> 'v error_or \<Rightarrow> 'v one_time \<Rightarrow> 'v one_time option" where
  "OneTimeConveyorNode_store n r w = do {
     x \<leftarrow> ot_nodes w n;
     l \<leftarrow> armNext n (ot_loop w);
     Some (w\<lparr>ot_nodes := (ot_nodes w)(n \<mapsto> x\<lparr>on_storage := Some r\<rparr>), ot_loop := l\<rparr>)
   }"

definition OneTimeConveyorNode_feed :: "nat \<Rightarrow> 'v \<Rightarrow> 'v one_time \<Rightarrow> 'v one_time option" where
  "OneTimeConveyorNode_feed n v w = OneTimeConveyorNode_store n (IsValue v) w"

definition OneTimeConveyorNode_fail :: "nat \<Rightarrow> error \<Rightarrow> 'v one_time \<Rightarrow> 'v one_time option" where
  "OneTimeConveyorNode_fail n e w = OneTimeConveyorNode_store n (IsError e) w"

definition OneTimeConveyorNode_queued :: "nat \<Rightarrow> 'v one_time \<Rightarrow> size_t option" where
  "OneTimeConveyorNode_queued n w = do { x \<leftarrow> ot_nodes w n; Some (if on_storage x \<noteq> None then 1 else 0) }"

definition OneTimeConveyorNode_space :: "nat \<Rightarrow> 'v one_time \<Rightarrow> size_t option" where
  "OneTimeConveyorNode_space n w = do { x \<leftarrow> ot_nodes w n; Some (if on_passed x then 0 else 1) }"

definition OneTimeConveyorFeeder_feed :: "nat \<Rightarrow> 'v \<Rightarrow> 'v one_time \<Rightarrow> 'v one_time option" where
  "OneTimeConveyorFeeder_feed f v w = do {
     feedee \<leftarrow> ot_feeders w f;
     case feedee of None \<Rightarrow> Some w | Some n \<Rightarrow> OneTimeConveyorNode_feed n v w
   }"

definition OneTimeConveyorFeeder_fail :: "nat \<Rightarrow> error \<Rightarrow> 'v one_time \<Rightarrow> 'v one_time option" where
  "OneTimeConveyorFeeder_fail f e w = do {
     feedee \<leftarrow> ot_feeders w f;
     case feedee of None \<Rightarrow> Some w | Some n \<Rightarrow> OneTimeConveyorNode_fail n e w
   }"

definition OneTimeConveyorFeeder_queued :: "nat \<Rightarrow> 'v one_time \<Rightarrow> size_t option" where
  "OneTimeConveyorFeeder_queued f w = do {
     feedee \<leftarrow> ot_feeders w f;
     case feedee of None \<Rightarrow> Some 0 | Some n \<Rightarrow> OneTimeConveyorNode_queued n w
   }"

definition OneTimeConveyorFeeder_space :: "nat \<Rightarrow> 'v one_time \<Rightarrow> size_t option" where
  "OneTimeConveyorFeeder_space f w = do {
     feedee \<leftarrow> ot_feeders w f;
     case feedee of None \<Rightarrow> Some 0 | Some n \<Rightarrow> OneTimeConveyorNode_space n w
   }"

definition OneTimeConveyorNode_getResult :: "nat \<Rightarrow> 'v one_time \<Rightarrow> ('v error_or \<times> 'v one_time) option" where
  "OneTimeConveyorNode_getResult n w = do {
     x \<leftarrow> ot_nodes w n;
     case on_storage x of
       Some r \<Rightarrow> Some (r, w\<lparr>ot_nodes := (ot_nodes w)(n \<mapsto> x\<lparr>on_storage := None\<rparr>)\<rparr>)
     | None \<Rightarrow> Some (IsError (criticalError ''Signal for retrieval of storage sent even though no data is present''), w)
   }"

definition OneTimeConveyorNode_fire :: "nat \<Rightarrow> 'v one_time \<Rightarrow> 'v one_time option" where
  "OneTimeConveyorNode_fire n w = do {
     x \<leftarrow> ot_nodes w n;
     case on_parent x of None \<Rightarrow> Some w | Some q \<Rightarrow> Some (w\<lparr>ot_fired := ot_fired w @ [q]\<rparr>)
   }"

section \<open>Links\<close>

text \<open>Feeders and nodes point to each other or to nothing, the nodes are events that live, and the loop is well linked.\<close>

definition links :: "(nat \<rightharpoonup> nat option) \<Rightarrow> (nat \<rightharpoonup> 'v one_time_node) \<Rightarrow> bool" where
  "links fs ns \<longleftrightarrow>
     (\<forall>f n. fs f = Some (Some n) \<longrightarrow> (\<exists>x. ns n = Some x \<and> on_feeder x = Some f))
     \<and> (\<forall>n x f. ns n = Some x \<longrightarrow> on_feeder x = Some f \<longrightarrow> fs f = Some (Some n))"

definition one_time_ok :: "'v one_time \<Rightarrow> bool" where
  "one_time_ok w \<longleftrightarrow> links (ot_feeders w) (ot_nodes w) \<and> (\<forall>n \<in> dom (ot_nodes w). ev_alive (ot_loop w) n)
     \<and> entered (ot_loop w) \<and> (\<exists>q. loop_rel (ot_loop w) q)"

lemma linksD:
  assumes "links fs ns" and "fs f = Some (Some n)"
  obtains x where "ns n = Some x" and "on_feeder x = Some f"
  using assms unfolding links_def by blast

lemma links_update: "links fs ns \<Longrightarrow> ns n = Some x \<Longrightarrow> on_feeder y = on_feeder x \<Longrightarrow> links fs (ns(n \<mapsto> y))"
  by (fastforce simp: links_def split: if_splits)

lemma links_unlink:
  assumes "links fs ns" and "fs f = Some (Some n)" and "ns n = Some x"
  shows "links (fs(f := None)) (ns(n \<mapsto> x\<lparr>on_feeder := None\<rparr>))"
  unfolding links_def
proof (intro conjI allI impI)
  fix g m assume "(fs(f := None)) g = Some (Some m)"
  then have g: "g \<noteq> f" "fs g = Some (Some m)" by (auto split: if_splits)
  from assms have "m \<noteq> n" using g unfolding links_def by (metis option.inject)
  with assms(1) g(2) show "\<exists>y. (ns(n \<mapsto> x\<lparr>on_feeder := None\<rparr>)) m = Some y \<and> on_feeder y = Some g" unfolding links_def by simp
next
  fix m y g assume "(ns(n \<mapsto> x\<lparr>on_feeder := None\<rparr>)) m = Some y" "on_feeder y = Some g"
  then have m: "m \<noteq> n" "ns m = Some y" by (auto split: if_splits)
  with assms(1) \<open>on_feeder y = Some g\<close> have "fs g = Some (Some m)" unfolding links_def by blast
  with m(1) assms(2) show "(fs(f := None)) g = Some (Some m)" by auto
qed

lemma links_drop: "links fs ns \<Longrightarrow> fs f = Some None \<Longrightarrow> links (fs(f := None)) ns"
  unfolding links_def by (auto split: if_splits)

lemma store_ok:
  assumes "one_time_ok w" and "ot_nodes w n = Some x"
  shows "\<exists>w'. OneTimeConveyorNode_store n r w = Some w' \<and> one_time_ok w' \<and> ot_nodes w' = (ot_nodes w)(n \<mapsto> x\<lparr>on_storage := Some r\<rparr>)
    \<and> ot_feeders w' = ot_feeders w"
proof -
  from assms obtain q where q: "loop_rel (ot_loop w) q" "entered (ot_loop w)" "ev_alive (ot_loop w) n" by (auto simp: one_time_ok_def)
  from armNext_rel [OF q] obtain l where l: "armNext n (ot_loop w) = Some l" "loop_rel l (sched_next n q)" "entered l" "ev_alive l = ev_alive (ot_loop w)"
    by blast
  let ?w = "w\<lparr>ot_nodes := (ot_nodes w)(n \<mapsto> x\<lparr>on_storage := Some r\<rparr>), ot_loop := l\<rparr>"
  have "one_time_ok ?w"
    using assms l(2-4) links_update [of "ot_feeders w" "ot_nodes w" n x "x\<lparr>on_storage := Some r\<rparr>"] by (auto simp: one_time_ok_def)
  with assms(2) l(1) show ?thesis by (simp add: OneTimeConveyorNode_store_def)
qed

text \<open>
  Destroying a feeder or feeding through it never follows a dangling pointer, and the objects that remain are linked as before.
\<close>

theorem one_time_feeder_safe:
  assumes "one_time_ok w" and "f \<in> dom (ot_feeders w)"
  shows "\<exists>w'. OneTimeConveyorFeeder_delete f w = Some w' \<and> one_time_ok w' \<and> f \<notin> dom (ot_feeders w')"
    "\<exists>w'. OneTimeConveyorFeeder_feed f v w = Some w' \<and> one_time_ok w'"
    "\<exists>w'. OneTimeConveyorFeeder_fail f e w = Some w' \<and> one_time_ok w'"
proof -
  from assms(2) obtain d where d: "ot_feeders w f = Some d" by auto
  have live: "\<exists>x. ot_nodes w n = Some x \<and> on_feeder x = Some f" if "d = Some n" for n
    using assms(1) d that by (auto simp: one_time_ok_def elim: linksD)
  show "\<exists>w'. OneTimeConveyorFeeder_feed f v w = Some w' \<and> one_time_ok w'" "\<exists>w'. OneTimeConveyorFeeder_fail f e w = Some w' \<and> one_time_ok w'"
    using d live store_ok [OF assms(1)] assms(1)
    by (cases d; fastforce simp: OneTimeConveyorFeeder_feed_def OneTimeConveyorFeeder_fail_def OneTimeConveyorNode_feed_def OneTimeConveyorNode_fail_def)+
  show "\<exists>w'. OneTimeConveyorFeeder_delete f w = Some w' \<and> one_time_ok w' \<and> f \<notin> dom (ot_feeders w')"
  proof (cases d)
    case None
    have "one_time_ok (w\<lparr>ot_feeders := (ot_feeders w)(f := None)\<rparr>)"
      using assms(1) d None links_drop by (auto simp: one_time_ok_def)
    with d None show ?thesis by (auto simp: OneTimeConveyorFeeder_delete_def)
  next
    case (Some n)
    from live [OF Some] obtain x where x: "ot_nodes w n = Some x" "on_feeder x = Some f" by blast
    have "one_time_ok (w\<lparr>ot_nodes := (ot_nodes w)(n \<mapsto> x\<lparr>on_feeder := None\<rparr>), ot_feeders := (ot_feeders w)(f := None)\<rparr>)"
      using assms(1) d Some x links_unlink by (auto simp: one_time_ok_def)
    with d Some x show ?thesis by (auto simp: OneTimeConveyorFeeder_delete_def OneTimeConveyorNode_setFeeder_def)
  qed
qed

section \<open>One result\<close>

text \<open>
  A node reports space for another result even when one waits in it, since \<open>passed\<close> is never set, and a second result replaces the first one: of two
  results fed one after the other the consumer gets the second one only.
\<close>

theorem one_time_second_result_replaces:
  assumes "one_time_ok w" and "ot_feeders w f = Some (Some n)" and "OneTimeConveyorNode_space n w = Some 1"
  shows "\<exists>w1 w2 w3. OneTimeConveyorFeeder_feed f a w = Some w1 \<and> OneTimeConveyorFeeder_queued f w1 = Some 1
    \<and> OneTimeConveyorFeeder_space f w1 = Some 1 \<and> OneTimeConveyorFeeder_feed f b w1 = Some w2
    \<and> OneTimeConveyorNode_getResult n w2 = Some (IsValue b, w3) \<and> OneTimeConveyorNode_queued n w3 = Some 0"
proof -
  from assms(1,2) obtain x where x: "ot_nodes w n = Some x" by (auto simp: one_time_ok_def elim: linksD)
  have p: "\<not> on_passed x" using assms(3) x by (simp add: OneTimeConveyorNode_space_def split: if_splits)
  from store_ok [OF assms(1) x, of "IsValue a"] obtain w1 where
    w1: "OneTimeConveyorNode_store n (IsValue a) w = Some w1" "one_time_ok w1" "ot_nodes w1 = (ot_nodes w)(n \<mapsto> x\<lparr>on_storage := Some (IsValue a)\<rparr>)"
      "ot_feeders w1 = ot_feeders w" by blast
  from store_ok [OF w1(2), of n _ "IsValue b"] w1(3) obtain w2 where
    w2: "OneTimeConveyorNode_store n (IsValue b) w1 = Some w2" "ot_nodes w2 = (ot_nodes w1)(n \<mapsto> x\<lparr>on_storage := Some (IsValue b)\<rparr>)" by auto
  show ?thesis
    using assms(2) p w1 w2
    by (auto simp: OneTimeConveyorFeeder_feed_def OneTimeConveyorNode_feed_def OneTimeConveyorFeeder_queued_def OneTimeConveyorFeeder_space_def
        OneTimeConveyorNode_queued_def OneTimeConveyorNode_space_def OneTimeConveyorNode_getResult_def)
qed

end
