(* ===== verification/Unix_Driver.thy ===== *)
theory Unix_Driver
  imports Conveyor Io_Helpers
begin

text \<open>
  The unix driver: \<open>src/driver/io-unix.h\<close> and \<open>io-unix.cpp\<close>. The event port multiplexes descriptors with
  epoll, signals with a signalfd and wake ups with a pipe; streams, servers and datagram sockets own a
  descriptor, subscribe it at the port and feed conveyors when the port notifies them.

  The operating system is a parameter: the record \<open>os\<close> holds the calls the driver makes, functions on a
  state \<open>'k\<close> of the kernel. The results are those of the manual pages as far as the driver looks at
  them. The state of the kernel is the first part of the user state of the conveyors, so that functions
  given to \<open>then\<close> can make system calls.

  The owners of descriptors live in a store of their own. The data word of an epoll event is 0 for the
  signalfd, 1 for the pipe and the address of the owner otherwise; no object has the address 0 or 1,
  therefore addresses of owners start at 2. An access to a destroyed owner is \<open>None\<close>, as in \<open>Conveyor\<close>.
\<close>

unbundle bit_operations_syntax

section \<open>The operating system\<close>

type_synonym fd = int

definition EPOLLIN :: "32 word" where "EPOLLIN = 0x001"
definition EPOLLOUT :: "32 word" where "EPOLLOUT = 0x004"
definition EPOLLRDHUP :: "32 word" where "EPOLLRDHUP = 0x2000"
definition EPOLLET :: "32 word" where "EPOLLET = 0x80000000"

definition MAX_EPOLL_EVENTS :: nat where "MAX_EPOLL_EVENTS = 256"

record epoll_event =
  ee_events :: "32 word"
  ee_data :: nat

datatype sock_type = SOCK_STREAM | SOCK_DGRAM

datatype sock_opt = SO_REUSEADDR | IPV6_V6ONLY

text \<open>
  A socket address is its bytes. \<open>sys_read_siginfo\<close> reads one \<open>signalfd_siginfo\<close>: the number of bytes
  read and the signal number, or failure. \<open>sys_connect\<close> returns the \<open>errno\<close> of a failure.
\<close>

type_synonym sockaddr = "byte list"

record 'k os =
  sys_ignore_sigpipe :: "'k \<Rightarrow> 'k"
  sys_epoll_create :: "'k \<Rightarrow> int \<times> 'k"
  sys_signalfd :: "fd \<Rightarrow> int set \<Rightarrow> 'k \<Rightarrow> int \<times> 'k"
  sys_sigprocmask :: "int set \<Rightarrow> 'k \<Rightarrow> 'k"
  sys_pipe :: "'k \<Rightarrow> (fd \<times> fd) option \<times> 'k"
  sys_epoll_add :: "fd \<Rightarrow> fd \<Rightarrow> epoll_event \<Rightarrow> 'k \<Rightarrow> int \<times> 'k"
  sys_epoll_del :: "fd \<Rightarrow> fd \<Rightarrow> 'k \<Rightarrow> int \<times> 'k"
  sys_epoll_wait :: "fd \<Rightarrow> nat \<Rightarrow> int \<Rightarrow> 'k \<Rightarrow> epoll_event list option \<times> 'k"
  sys_close :: "fd \<Rightarrow> 'k \<Rightarrow> 'k"
  sys_read_siginfo :: "fd \<Rightarrow> 'k \<Rightarrow> (nat \<times> int) option \<times> 'k"
  sys_recv :: "fd \<Rightarrow> size_t \<Rightarrow> 'k \<Rightarrow> byte list option \<times> 'k"
  sys_send :: "fd \<Rightarrow> byte list \<Rightarrow> 'k \<Rightarrow> (errno + nat) \<times> 'k"
  sys_recvfrom :: "fd \<Rightarrow> size_t \<Rightarrow> 'k \<Rightarrow> byte list option \<times> 'k"
  sys_sendto :: "fd \<Rightarrow> byte list \<Rightarrow> sockaddr \<Rightarrow> 'k \<Rightarrow> nat option \<times> 'k"
  sys_accept :: "fd \<Rightarrow> 'k \<Rightarrow> int \<times> 'k"
  sys_socket :: "nat \<Rightarrow> sock_type \<Rightarrow> 'k \<Rightarrow> int \<times> 'k"
  sys_setsockopt :: "fd \<Rightarrow> sock_opt \<Rightarrow> int \<Rightarrow> 'k \<Rightarrow> int \<times> 'k"
  sys_bind :: "fd \<Rightarrow> sockaddr \<Rightarrow> 'k \<Rightarrow> int \<times> 'k"
  sys_listen :: "fd \<Rightarrow> 'k \<Rightarrow> int \<times> 'k"
  sys_connect :: "fd \<Rightarrow> sockaddr \<Rightarrow> 'k \<Rightarrow> errno option \<times> 'k"
  sys_getaddrinfo :: "string \<Rightarrow> string \<Rightarrow> 'k \<Rightarrow> sockaddr list option \<times> 'k"

section \<open>Addresses\<close>

definition sizeof_address :: nat where "sizeof_address = 128"

record SocketAddress =
  sa_raw :: sockaddr
  sa_wildcard :: bool

text \<open>\<open>address_length\<close> is the length of the bytes.\<close>

definition SocketAddress_new :: "sockaddr \<Rightarrow> bool \<Rightarrow> SocketAddress option" where
  "SocketAddress_new sockaddr wildcard = do {
     assert_that (length sockaddr \<le> sizeof_address);
     Some \<lparr>sa_raw = sockaddr, sa_wildcard = wildcard\<rparr>
   }"

text \<open>The member \<open>sa_family\<close>, the first two bytes in the order of the machine (little endian).\<close>

fun sa_family :: "sockaddr \<Rightarrow> nat option" where
  "sa_family (b0 # b1 # bs) = Some (unat b0 + 256 * unat b1)"
| "sa_family _ = None"

definition SocketAddress_socket :: "'k os \<Rightarrow> SocketAddress \<Rightarrow> sock_type \<Rightarrow> 'k \<Rightarrow> (int \<times> 'k) option" where
  "SocketAddress_socket os a type k = do {
     family \<leftarrow> sa_family (sa_raw a);
     Some (sys_socket os family type k)
   }"

definition SocketAddress_bind :: "'k os \<Rightarrow> SocketAddress \<Rightarrow> fd \<Rightarrow> 'k \<Rightarrow> bool \<times> 'k" where
  "SocketAddress_bind os a fd k = (
     let k = (if sa_wildcard a then snd (sys_setsockopt os fd IPV6_V6ONLY 0 k) else k);
         (error, k) = sys_bind os fd (sa_raw a) k
     in (error < 0, k))"

text \<open>\<open>std::to_string\<close>.\<close>

fun to_string :: "nat \<Rightarrow> string" where
  "to_string n = (if n < 10 then [char_of (48 + n)] else to_string (n div 10) @ [char_of (48 + n mod 10)])"

declare to_string.simps [simp del]

text \<open>The loop over the result of \<open>getaddrinfo\<close>.\<close>

fun parse_results :: "bool \<Rightarrow> sockaddr list \<Rightarrow> SocketAddress list option" where
  "parse_results wildcard [] = Some []"
| "parse_results wildcard (it # its) =
     (if length it > sizeof_address then parse_results wildcard its
      else do {
        a \<leftarrow> SocketAddress_new it wildcard;
        results \<leftarrow> parse_results wildcard its;
        Some (a # results)
      })"

definition SocketAddress_parse :: "'k os \<Rightarrow> string \<Rightarrow> 16 word \<Rightarrow> 'k \<Rightarrow> (SocketAddress list \<times> 'k) option" where
  "SocketAddress_parse os str port_hint k = (
     let port_string = to_string (unat port_hint);
         wildcard = (str = ''*'' \<or> str = ''::'');
         (r, k) = sys_getaddrinfo os str port_string k
     in case r of
          None \<Rightarrow> Some ([], k)
        | Some infos \<Rightarrow> do { results \<leftarrow> parse_results wildcard infos; Some (results, k) })"

record UnixNetworkAddress =
  una_path :: string
  una_port_hint :: "16 word"
  una_addresses :: "SocketAddress list"

definition unixAddress :: "UnixNetworkAddress \<Rightarrow> nat \<Rightarrow> SocketAddress option" where
  "unixAddress a i = do { assert_that (i < length (una_addresses a)); Some (una_addresses a ! i) }"

definition unixAddressSize :: "UnixNetworkAddress \<Rightarrow> size_t" where
  "unixAddressSize a = length (una_addresses a)"

text \<open>
  \<open>NetworkAddress\<close> with its two subclasses; the only operating system address is the unix one. The
  functions \<open>address\<close> and \<open>port\<close> return what the object was constructed with.
\<close>

datatype NetworkAddress = OsNetworkAddress UnixNetworkAddress | StringNetworkAddress string "16 word"

fun NetworkAddress_address :: "NetworkAddress \<Rightarrow> string" where
  "NetworkAddress_address (OsNetworkAddress a) = una_path a"
| "NetworkAddress_address (StringNetworkAddress address_value port_value) = address_value"

fun NetworkAddress_port :: "NetworkAddress \<Rightarrow> 16 word" where
  "NetworkAddress_port (OsNetworkAddress a) = una_port_hint a"
| "NetworkAddress_port (StringNetworkAddress address_value port_value) = port_value"

text \<open>The variant holds an address of its own (\<open>Inl\<close>) or a pointer to the given one (\<open>Inr\<close>).\<close>

definition translateNetworkAddressToUnixNetworkAddress ::
    "'k os \<Rightarrow> NetworkAddress \<Rightarrow> 'k \<Rightarrow> ((UnixNetworkAddress + UnixNetworkAddress) \<times> 'k) option" where
  "translateNetworkAddressToUnixNetworkAddress os addr k = (case addr of
     OsNetworkAddress arg \<Rightarrow> Some (Inr arg, k)
   | StringNetworkAddress _ _ \<Rightarrow> do {
       (sock_addrs, k) \<leftarrow> SocketAddress_parse os (NetworkAddress_address addr) (NetworkAddress_port addr) k;
       Some (Inl \<lparr>una_path = NetworkAddress_address addr, una_port_hint = NetworkAddress_port addr,
                 una_addresses = sock_addrs\<rparr>, k)
     })"

definition translateToUnixAddressRef :: "UnixNetworkAddress + UnixNetworkAddress \<Rightarrow> UnixNetworkAddress" where
  "translateToUnixAddressRef addr_variant = (case addr_variant of Inl arg \<Rightarrow> arg | Inr arg \<Rightarrow> arg)"

definition beginsWith :: "string \<Rightarrow> string \<Rightarrow> bool" where
  "beginsWith viewed begins \<longleftrightarrow> length viewed \<ge> length begins \<and> take (length begins) viewed = begins"

section \<open>The state of the driver\<close>

text \<open>
  The values that travel on the conveyors of the driver; a stream is the address of its owner, a TLS stream
  that of the stream below.
\<close>

datatype io_value = Void | Stream addr | Address UnixNetworkAddress | TlsStream addr

datatype Signal = Terminate | User1

record IFdOwner =
  file_descriptor :: fd
  fd_flags :: int
  event_mask :: "32 word"

text \<open>The classes with base \<open>IFdOwner\<close>, with their feeders in the order of their declaration.\<close>

datatype fd_owner =
    UnixIoStream IFdOwner "addr option" "addr option" "addr option"
  | UnixServer IFdOwner "addr option"
  | UnixDatagram IFdOwner "addr option" "addr option"

fun owner_base :: "fd_owner \<Rightarrow> IFdOwner" where
  "owner_base (UnixIoStream b _ _ _) = b"
| "owner_base (UnixServer b _) = b"
| "owner_base (UnixDatagram b _ _) = b"

text \<open>
  \<open>signal_fd_set\<close> and \<open>pipefds\<close> are indeterminate (\<open>None\<close>) until the constructor has set them.
  \<open>signal_conveyors\<close> is a list of pairs; the order of equal keys in an \<open>unordered_multimap\<close> is not
  specified, the model has the newest first.
\<close>

record UnixEventPort =
  epoll_fd :: fd
  signal_fd :: fd
  signal_fd_set :: "int set option"
  signal_conveyors :: "(Signal \<times> addr) list"
  pipefds :: "(fd \<times> fd) option"

record ('k, 'u) driver =
  event_port :: UnixEventPort
  owners :: "addr \<Rightarrow> fd_owner option"
  next_owner :: addr
  conv :: "(io_value, 'k \<times> 'u) state"

definition kern :: "('k, 'u) driver \<Rightarrow> 'k" where
  "kern d = fst (user (snd (conv d)))"

definition set_kern :: "'k \<Rightarrow> ('k, 'u) driver \<Rightarrow> ('k, 'u) driver" where
  "set_kern k d = d\<lparr>conv := set_user (k, snd (user (snd (conv d)))) (conv d)\<rparr>"

text \<open>A system call, and a call of the conveyor library.\<close>

definition syscall :: "('k \<Rightarrow> 'r \<times> 'k) \<Rightarrow> ('k, 'u) driver \<Rightarrow> 'r \<times> ('k, 'u) driver" where
  "syscall f d = (case f (kern d) of (r, k) \<Rightarrow> (r, set_kern k d))"

definition on_conv ::
    "((io_value, 'k \<times> 'u) state \<Rightarrow> (io_value, 'k \<times> 'u) state option) \<Rightarrow> ('k, 'u) driver \<Rightarrow> ('k, 'u) driver option" where
  "on_conv f d = do { st \<leftarrow> f (conv d); Some (d\<lparr>conv := st\<rparr>) }"

definition set_owner :: "addr \<Rightarrow> fd_owner option \<Rightarrow> ('k, 'u) driver \<Rightarrow> ('k, 'u) driver" where
  "set_owner a n d = d\<lparr>owners := (owners d)(a := n)\<rparr>"

section \<open>Subscriptions and owners\<close>

definition subscribe :: "'k os \<Rightarrow> addr \<Rightarrow> fd \<Rightarrow> 32 word \<Rightarrow> ('k, 'u) driver \<Rightarrow> ('k, 'u) driver" where
  "subscribe os owner fd evmask d =
     (if epoll_fd (event_port d) < 0 \<or> fd < 0 then d
      else snd (syscall (sys_epoll_add os (epoll_fd (event_port d)) fd
             \<lparr>ee_events = evmask OR EPOLLET, ee_data = owner\<rparr>) d))"

definition unsubscribe :: "'k os \<Rightarrow> fd \<Rightarrow> ('k, 'u) driver \<Rightarrow> ('k, 'u) driver" where
  "unsubscribe os fd d =
     (if epoll_fd (event_port d) < 0 \<or> fd < 0 then d
      else snd (syscall (sys_epoll_del os (epoll_fd (event_port d)) fd) d))"

text \<open>\<open>heap<T>\<close> of a class with base \<open>IFdOwner\<close>, whose constructor subscribes the object.\<close>

definition new_owner :: "'k os \<Rightarrow> fd_owner \<Rightarrow> ('k, 'u) driver \<Rightarrow> addr \<times> ('k, 'u) driver" where
  "new_owner os n d = (
     let a = next_owner d;
         b = owner_base n;
         d = (set_owner a (Some n) d)\<lparr>next_owner := Suc a\<rparr>
     in (a, subscribe os a (file_descriptor b) (event_mask b) d))"

definition UnixIoStream_new ::
    "'k os \<Rightarrow> fd \<Rightarrow> int \<Rightarrow> 32 word \<Rightarrow> ('k, 'u) driver \<Rightarrow> addr \<times> ('k, 'u) driver" where
  "UnixIoStream_new os fd flags evmask = new_owner os (UnixIoStream
     \<lparr>file_descriptor = fd, fd_flags = flags, event_mask = evmask OR EPOLLRDHUP\<rparr> None None None)"

definition UnixServer_new :: "'k os \<Rightarrow> fd \<Rightarrow> int \<Rightarrow> ('k, 'u) driver \<Rightarrow> addr \<times> ('k, 'u) driver" where
  "UnixServer_new os fd flags = new_owner os (UnixServer
     \<lparr>file_descriptor = fd, fd_flags = flags, event_mask = EPOLLIN\<rparr> None)"

definition UnixDatagram_new :: "'k os \<Rightarrow> fd \<Rightarrow> int \<Rightarrow> ('k, 'u) driver \<Rightarrow> addr \<times> ('k, 'u) driver" where
  "UnixDatagram_new os fd flags = new_owner os (UnixDatagram
     \<lparr>file_descriptor = fd, fd_flags = flags, event_mask = EPOLLIN OR EPOLLOUT\<rparr> None None)"

text \<open>The destruction of an \<open>Own<ConveyorFeeder>\<close>.\<close>

definition drop_feeder :: "addr option \<Rightarrow> ('k, 'u) driver \<Rightarrow> ('k, 'u) driver option" where
  "drop_feeder f d = (case f of None \<Rightarrow> Some d | Some f \<Rightarrow> on_conv (feeder_delete f) d)"

text \<open>The members of an owner are destroyed in the reverse order of their declaration.\<close>

fun drop_feeders :: "fd_owner \<Rightarrow> ('k, 'u) driver \<Rightarrow> ('k, 'u) driver option" where
  "drop_feeders (UnixIoStream _ read_ready on_read_disconnect write_ready) d = do {
     d \<leftarrow> drop_feeder write_ready d;
     d \<leftarrow> drop_feeder on_read_disconnect d;
     drop_feeder read_ready d
   }"
| "drop_feeders (UnixServer _ accept_feeder) d = drop_feeder accept_feeder d"
| "drop_feeders (UnixDatagram _ read_ready write_ready) d = do {
     d \<leftarrow> drop_feeder write_ready d;
     drop_feeder read_ready d
   }"

definition IFdOwner_delete :: "'k os \<Rightarrow> IFdOwner \<Rightarrow> ('k, 'u) driver \<Rightarrow> ('k, 'u) driver" where
  "IFdOwner_delete os b d =
     (if file_descriptor b \<ge> 0 then
        (let d = unsubscribe os (file_descriptor b) d
         in set_kern (sys_close os (file_descriptor b) (kern d)) d)
      else d)"

definition delete_owner :: "'k os \<Rightarrow> addr \<Rightarrow> ('k, 'u) driver \<Rightarrow> ('k, 'u) driver option" where
  "delete_owner os a d = do {
     n \<leftarrow> owners d a;
     d \<leftarrow> drop_feeders n d;
     Some (set_owner a None (IFdOwner_delete os (owner_base n) d))
   }"

section \<open>Readiness conveyors\<close>

text \<open>
  A new conveyor whose feeder is moved into a member of owner \<open>a\<close>: \<open>mk\<close> is the owner with its new
  member, \<open>old\<close> the feeder that the assignment destroys.
\<close>

definition new_ready ::
    "addr \<Rightarrow> addr option \<Rightarrow> (addr \<Rightarrow> fd_owner) \<Rightarrow> ('k, 'u) driver \<Rightarrow> (conveyor \<times> ('k, 'u) driver) option" where
  "new_ready a old mk d = do {
     (feeder, conveyor, st) \<leftarrow> newConveyorAndFeeder (conv d);
     d \<leftarrow> drop_feeder old (set_owner a (Some (mk feeder)) (d\<lparr>conv := st\<rparr>));
     Some (conveyor, d)
   }"

definition UnixIoStream_readReady :: "addr \<Rightarrow> ('k, 'u) driver \<Rightarrow> (conveyor \<times> ('k, 'u) driver) option" where
  "UnixIoStream_readReady a d = (case owners d a of
     Some (UnixIoStream b read_ready on_read_disconnect write_ready) \<Rightarrow>
       new_ready a read_ready (\<lambda>f. UnixIoStream b (Some f) on_read_disconnect write_ready) d
   | _ \<Rightarrow> None)"

definition UnixIoStream_onReadDisconnected :: "addr \<Rightarrow> ('k, 'u) driver \<Rightarrow> (conveyor \<times> ('k, 'u) driver) option" where
  "UnixIoStream_onReadDisconnected a d = (case owners d a of
     Some (UnixIoStream b read_ready on_read_disconnect write_ready) \<Rightarrow>
       new_ready a on_read_disconnect (\<lambda>f. UnixIoStream b read_ready (Some f) write_ready) d
   | _ \<Rightarrow> None)"

definition UnixIoStream_writeReady :: "addr \<Rightarrow> ('k, 'u) driver \<Rightarrow> (conveyor \<times> ('k, 'u) driver) option" where
  "UnixIoStream_writeReady a d = (case owners d a of
     Some (UnixIoStream b read_ready on_read_disconnect write_ready) \<Rightarrow>
       new_ready a write_ready (\<lambda>f. UnixIoStream b read_ready on_read_disconnect (Some f)) d
   | _ \<Rightarrow> None)"

definition UnixServer_accept :: "addr \<Rightarrow> ('k, 'u) driver \<Rightarrow> (conveyor \<times> ('k, 'u) driver) option" where
  "UnixServer_accept a d = (case owners d a of
     Some (UnixServer b accept_feeder) \<Rightarrow> new_ready a accept_feeder (\<lambda>f. UnixServer b (Some f)) d
   | _ \<Rightarrow> None)"

definition UnixDatagram_readReady :: "addr \<Rightarrow> ('k, 'u) driver \<Rightarrow> (conveyor \<times> ('k, 'u) driver) option" where
  "UnixDatagram_readReady a d = (case owners d a of
     Some (UnixDatagram b read_ready write_ready) \<Rightarrow>
       new_ready a read_ready (\<lambda>f. UnixDatagram b (Some f) write_ready) d
   | _ \<Rightarrow> None)"

definition UnixDatagram_writeReady :: "addr \<Rightarrow> ('k, 'u) driver \<Rightarrow> (conveyor \<times> ('k, 'u) driver) option" where
  "UnixDatagram_writeReady a d = (case owners d a of
     Some (UnixDatagram b read_ready write_ready) \<Rightarrow>
       new_ready a write_ready (\<lambda>f. UnixDatagram b read_ready (Some f)) d
   | _ \<Rightarrow> None)"

section \<open>Notifications\<close>

definition feed_void :: "addr option \<Rightarrow> ('k, 'u) driver \<Rightarrow> ('k, 'u) driver option" where
  "feed_void f d = (case f of None \<Rightarrow> Some d | Some f \<Rightarrow> on_conv (feeder_feed f Void) d)"

definition UnixIoStream_notify ::
    "addr option \<Rightarrow> addr option \<Rightarrow> addr option \<Rightarrow> 32 word \<Rightarrow> ('k, 'u) driver \<Rightarrow> ('k, 'u) driver option" where
  "UnixIoStream_notify read_ready on_read_disconnect write_ready evmask d = do {
     d \<leftarrow> (if evmask AND EPOLLOUT \<noteq> 0 then feed_void write_ready d else Some d);
     d \<leftarrow> (if evmask AND EPOLLIN \<noteq> 0 then feed_void read_ready d else Some d);
     if evmask AND EPOLLRDHUP \<noteq> 0 then feed_void on_read_disconnect d else Some d
   }"

text \<open>
  The accepted stream is moved into the feeder. A feeder whose conveyor is gone ignores it, and the
  caller's pointer destroys it.
\<close>

definition feed_stream :: "'k os \<Rightarrow> addr \<Rightarrow> addr \<Rightarrow> ('k, 'u) driver \<Rightarrow> ('k, 'u) driver option" where
  "feed_stream os f a d = do {
     feedee \<leftarrow> feeder_at (snd (conv d)) f;
     d \<leftarrow> on_conv (feeder_feed f (Stream a)) d;
     if feedee = None then delete_owner os a d else Some d
   }"

definition UnixServer_notify ::
    "'k os \<Rightarrow> IFdOwner \<Rightarrow> addr option \<Rightarrow> 32 word \<Rightarrow> ('k, 'u) driver \<Rightarrow> ('k, 'u) driver option" where
  "UnixServer_notify os b accept_feeder evmask d =
     (if evmask AND EPOLLIN \<noteq> 0 then
        (case accept_feeder of
           None \<Rightarrow> Some d
         | Some f \<Rightarrow>
             (let (accept_fd, d) = syscall (sys_accept os (file_descriptor b)) d
              in if accept_fd < 0 then Some d
                 else (let (a, d) = UnixIoStream_new os accept_fd 0 (EPOLLIN OR EPOLLOUT) d
                       in feed_stream os f a d)))
      else Some d)"

definition UnixDatagram_notify ::
    "addr option \<Rightarrow> addr option \<Rightarrow> 32 word \<Rightarrow> ('k, 'u) driver \<Rightarrow> ('k, 'u) driver option" where
  "UnixDatagram_notify read_ready write_ready evmask d = do {
     d \<leftarrow> (if evmask AND EPOLLOUT \<noteq> 0 then feed_void write_ready d else Some d);
     if evmask AND EPOLLIN \<noteq> 0 then feed_void read_ready d else Some d
   }"

text \<open>The virtual function.\<close>

definition notify :: "'k os \<Rightarrow> addr \<Rightarrow> 32 word \<Rightarrow> ('k, 'u) driver \<Rightarrow> ('k, 'u) driver option" where
  "notify os a evmask d = do {
     n \<leftarrow> owners d a;
     case n of
       UnixIoStream _ read_ready on_read_disconnect write_ready \<Rightarrow>
         UnixIoStream_notify read_ready on_read_disconnect write_ready evmask d
     | UnixServer b accept_feeder \<Rightarrow> UnixServer_notify os b accept_feeder evmask d
     | UnixDatagram _ read_ready write_ready \<Rightarrow> UnixDatagram_notify read_ready write_ready evmask d
   }"

section \<open>The event port\<close>

definition SIGINT :: int where "SIGINT = 2"
definition SIGQUIT :: int where "SIGQUIT = 3"
definition SIGUSR1 :: int where "SIGUSR1 = 10"
definition SIGTERM :: int where "SIGTERM = 15"

fun toUnixSignal :: "Signal \<Rightarrow> int list" where
  "toUnixSignal User1 = [SIGUSR1]"
| "toUnixSignal Terminate = [SIGTERM, SIGQUIT, SIGINT]"

definition fromUnixSignal :: "int \<Rightarrow> Signal" where
  "fromUnixSignal signal = (if signal = SIGUSR1 then User1 else Terminate)"

fun feed_listeners :: "addr list \<Rightarrow> ('k, 'u) driver \<Rightarrow> ('k, 'u) driver option" where
  "feed_listeners [] d = Some d"
| "feed_listeners (f # fs) d = do {
     n \<leftarrow> feeder_space f (conv d);
     d \<leftarrow> (if n > 0 then on_conv (feeder_feed f Void) d else Some d);
     feed_listeners fs d
   }"

definition equal_range :: "Signal \<Rightarrow> (Signal \<times> addr) list \<Rightarrow> addr list" where
  "equal_range signal m = map snd (filter (\<lambda>e. fst e = signal) m)"

definition notifySignalListener :: "int \<Rightarrow> ('k, 'u) driver \<Rightarrow> ('k, 'u) driver option" where
  "notifySignalListener sig d =
     feed_listeners (equal_range (fromUnixSignal sig) (signal_conveyors (event_port d))) d"

definition sizeof_siginfo :: nat where "sizeof_siginfo = 128"

text \<open>The loop that empties the signalfd.\<close>

partial_function (option) read_signals :: "'k os \<Rightarrow> ('k, 'u) driver \<Rightarrow> ('k, 'u) driver option" where
  "read_signals os d = (case syscall (sys_read_siginfo os (signal_fd (event_port d))) d of
     (None, d) \<Rightarrow> Some d
   | (Some (n, ssi_signo), d) \<Rightarrow> do {
       assert_that (n = sizeof_siginfo);
       d \<leftarrow> notifySignalListener ssi_signo d;
       read_signals os d
     })"

text \<open>The loop that empties the pipe; it ends when \<open>recv\<close> fails.\<close>

partial_function (option) read_pipe :: "'k os \<Rightarrow> fd \<Rightarrow> ('k, 'u) driver \<Rightarrow> ('k, 'u) driver option" where
  "read_pipe os fd d = (case syscall (sys_recv os fd 1) d of
     (None, d) \<Rightarrow> Some d
   | (Some _, d) \<Rightarrow> read_pipe os fd d)"

declare read_signals.simps [code] read_pipe.simps [code]

definition handle_event :: "'k os \<Rightarrow> epoll_event \<Rightarrow> ('k, 'u) driver \<Rightarrow> ('k, 'u) driver option" where
  "handle_event os event d =
     (if ee_data event = 0 then read_signals os d
      else if ee_data event = 1 then do {
        fds \<leftarrow> pipefds (event_port d);
        if fst fds < 0 then Some d else read_pipe os (fst fds) d
      } else notify os (ee_data event) (ee_events event) d)"

fun handle_events :: "'k os \<Rightarrow> epoll_event list \<Rightarrow> ('k, 'u) driver \<Rightarrow> ('k, 'u) driver option" where
  "handle_events os [] d = Some d"
| "handle_events os (event # events) d = do { d \<leftarrow> handle_event os event d; handle_events os events d }"

partial_function (option) pollImpl :: "'k os \<Rightarrow> int \<Rightarrow> ('k, 'u) driver \<Rightarrow> (bool \<times> ('k, 'u) driver) option" where
  "pollImpl os time d = (case syscall (sys_epoll_wait os (epoll_fd (event_port d)) MAX_EPOLL_EVENTS time) d of
     (None, d) \<Rightarrow> Some (False, d)
   | (Some events, d) \<Rightarrow> do {
       d \<leftarrow> handle_events os events d;
       if length events = MAX_EPOLL_EVENTS then pollImpl os time d else Some (True, d)
     })"

declare pollImpl.simps [code]

text \<open>The constructor: every failure ends it early and leaves the members that follow as they were.\<close>

definition UnixEventPort_new :: "'k os \<Rightarrow> 'k \<Rightarrow> UnixEventPort \<times> 'k" where
  "UnixEventPort_new os k = (
     let k = sys_ignore_sigpipe os k;
         p = \<lparr>epoll_fd = -1, signal_fd = -1, signal_fd_set = None, signal_conveyors = [], pipefds = None\<rparr>;
         (efd, k) = sys_epoll_create os k;
         p = p\<lparr>epoll_fd := efd\<rparr>
     in if efd < 0 then (p, k) else (
     let p = p\<lparr>signal_fd_set := Some {}\<rparr>;
         (sfd, k) = sys_signalfd os (-1) {} k;
         p = p\<lparr>signal_fd := sfd\<rparr>
     in if sfd < 0 then (p, k) else (
     let (_, k) = sys_epoll_add os efd sfd \<lparr>ee_events = EPOLLIN, ee_data = 0\<rparr> k;
         (fds, k) = sys_pipe os k
     in case fds of
          None \<Rightarrow> (p, k)
        | Some fds \<Rightarrow> (p\<lparr>pipefds := Some fds\<rparr>,
            snd (sys_epoll_add os efd (fst fds) \<lparr>ee_events = EPOLLIN, ee_data = 1\<rparr> k)))))"

text \<open>
  The destructor closes \<open>pipefds\<close> whether or not they have been set; then the members are destroyed,
  the feeders of the signals among them.
\<close>

fun drop_listeners :: "(Signal \<times> addr) list \<Rightarrow> ('k, 'u) driver \<Rightarrow> ('k, 'u) driver option" where
  "drop_listeners [] d = Some d"
| "drop_listeners (e # es) d = do { d \<leftarrow> drop_feeder (Some (snd e)) d; drop_listeners es d }"

definition UnixEventPort_delete :: "'k os \<Rightarrow> ('k, 'u) driver \<Rightarrow> ('k, 'u) driver option" where
  "UnixEventPort_delete os d = do {
     let p = event_port d;
     let d = set_kern (sys_close os (epoll_fd p) (kern d)) d;
     let d = set_kern (sys_close os (signal_fd p) (kern d)) d;
     fds \<leftarrow> pipefds p;
     let d = set_kern (sys_close os (fst fds) (kern d)) d;
     let d = set_kern (sys_close os (snd fds) (kern d)) d;
     drop_listeners (signal_conveyors p) d
   }"

definition onSignal :: "'k os \<Rightarrow> Signal \<Rightarrow> ('k, 'u) driver \<Rightarrow> (conveyor \<times> ('k, 'u) driver) option" where
  "onSignal os signal d = do {
     (feeder, conveyor, st) \<leftarrow> newConveyorAndFeeder (conv d);
     let d = d\<lparr>conv := st\<rparr>;
     let p = event_port d;
     fds \<leftarrow> signal_fd_set p;
     let fds = fds \<union> set (toUnixSignal signal);
     let d = d\<lparr>event_port := p\<lparr>signal_conveyors := (signal, feeder) # signal_conveyors p,
                              signal_fd_set := Some fds\<rparr>\<rparr>;
     let d = set_kern (sys_sigprocmask os fds (kern d)) d;
     let d = snd (syscall (sys_signalfd os (signal_fd p) fds) d);
     Some (conveyor, d)
   }"

definition UnixEventPort_poll :: "'k os \<Rightarrow> ('k, 'u) driver \<Rightarrow> ('k, 'u) driver option" where
  "UnixEventPort_poll os d = map_option snd (pollImpl os 0 d)"

definition UnixEventPort_wait :: "'k os \<Rightarrow> ('k, 'u) driver \<Rightarrow> ('k, 'u) driver option" where
  "UnixEventPort_wait os d = map_option snd (pollImpl os (-1) d)"

text \<open>
  The conversion of the number of milliseconds to the \<open>int\<close> parameter of \<open>pollImpl\<close> keeps the lower 32
  bits. Times are nanoseconds; a duration cast rounds towards zero.
\<close>

definition to_int :: "int \<Rightarrow> int" where
  "to_int n = sint (word_of_int n :: 32 word)"

definition duration_ms :: "int \<Rightarrow> int" where
  "duration_ms ns = (if ns \<ge> 0 then ns div 1000000 else - ((- ns) div 1000000))"

definition UnixEventPort_wait_for :: "'k os \<Rightarrow> int \<Rightarrow> ('k, 'u) driver \<Rightarrow> ('k, 'u) driver option" where
  "UnixEventPort_wait_for os duration d = map_option snd (pollImpl os (to_int (duration_ms duration)) d)"

definition UnixEventPort_wait_until :: "'k os \<Rightarrow> int \<Rightarrow> int \<Rightarrow> ('k, 'u) driver \<Rightarrow> ('k, 'u) driver option" where
  "UnixEventPort_wait_until os now time_point d =
     (if time_point \<le> now then UnixEventPort_poll os d
      else map_option snd (pollImpl os (to_int (duration_ms (time_point - now))) d))"

text \<open>Reading \<open>pipefds\<close> before they have been set is undefined.\<close>

definition wake :: "'k os \<Rightarrow> ('k, 'u) driver \<Rightarrow> ('k, 'u) driver option" where
  "wake os d = do {
     fds \<leftarrow> pipefds (event_port d);
     if snd fds < 0 then Some d else Some (snd (syscall (sys_send os (snd fds) [0]) d))
   }"

section \<open>Datagrams\<close>

definition UnixDatagram_read :: "'k os \<Rightarrow> fd \<Rightarrow> size_t \<Rightarrow> 'k \<Rightarrow> byte list error_or \<times> 'k" where
  "UnixDatagram_read os fd len k = (case sys_recvfrom os fd len k of
     (Some bytes, k) \<Rightarrow>
       if length bytes > 0 then (IsValue bytes, k) else (IsError (recoverableError ''Currently busy''), k)
   | (None, k) \<Rightarrow> (IsError (recoverableError ''Currently busy''), k))"

definition UnixDatagram_write ::
    "'k os \<Rightarrow> fd \<Rightarrow> byte list \<Rightarrow> UnixNetworkAddress \<Rightarrow> 'k \<Rightarrow> (size_t error_or \<times> 'k) option" where
  "UnixDatagram_write os fd data unix_dest k = do {
     sock_addr \<leftarrow> unixAddress unix_dest 0;
     Some (case sys_sendto os fd data (sa_raw sock_addr) k of
       (Some n, k) \<Rightarrow> if n > 0 then (IsValue n, k) else (IsError (recoverableError ''Currently busy''), k)
     | (None, k) \<Rightarrow> (IsError (recoverableError ''Currently busy''), k))
   }"

section \<open>The network\<close>

definition translate :: "'k os \<Rightarrow> NetworkAddress \<Rightarrow> ('k, 'u) driver \<Rightarrow> (UnixNetworkAddress \<times> ('k, 'u) driver) option" where
  "translate os addr d = do {
     (unix_addr_storage, k) \<leftarrow> translateNetworkAddressToUnixNetworkAddress os addr (kern d);
     Some (translateToUnixAddressRef unix_addr_storage, set_kern k d)
   }"

definition open_socket ::
    "'k os \<Rightarrow> UnixNetworkAddress \<Rightarrow> sock_type \<Rightarrow> ('k, 'u) driver \<Rightarrow> (int \<times> ('k, 'u) driver) option" where
  "open_socket os address type d = do {
     a \<leftarrow> unixAddress address 0;
     (fd, k) \<leftarrow> SocketAddress_socket os a type (kern d);
     Some (fd, set_kern k d)
   }"

definition UnixNetwork_listen ::
    "'k os \<Rightarrow> NetworkAddress \<Rightarrow> ('k, 'u) driver \<Rightarrow> (addr option \<times> ('k, 'u) driver) option" where
  "UnixNetwork_listen os addr d = do {
     (address, d) \<leftarrow> translate os addr d;
     assert_that (unixAddressSize address > 0);
     (fd, d) \<leftarrow> open_socket os address SOCK_STREAM d;
     if fd < 0 then Some (None, d) else do {
       let (rc, d) = syscall (sys_setsockopt os fd SO_REUSEADDR 1) d;
       if rc < 0 then Some (None, set_kern (sys_close os fd (kern d)) d) else do {
         a \<leftarrow> unixAddress address 0;
         let (failed, d) = syscall (SocketAddress_bind os a fd) d;
         if failed then Some (None, set_kern (sys_close os fd (kern d)) d) else do {
           let (_, d) = syscall (sys_listen os fd) d;
           let (server, d) = UnixServer_new os fd 0 d;
           Some (Some server, d)
         }
       }
     }
   }"

text \<open>The loop of \<open>connect\<close>: \<open>Some success\<close> when it is left, \<open>None\<close> for the return in its body.\<close>

fun connect_loop :: "'k os \<Rightarrow> fd \<Rightarrow> SocketAddress list \<Rightarrow> 'k \<Rightarrow> bool option \<times> 'k" where
  "connect_loop os fd [] k = (Some False, k)"
| "connect_loop os fd (addr_iter # addrs) k = (case sys_connect os fd (sa_raw addr_iter) k of
     (None, k) \<Rightarrow> (Some True, k)
   | (Some error, k) \<Rightarrow>
       if error = EINPROGRESS then (Some True, k)
       else if error \<noteq> EINTR then (None, k)
       else connect_loop os fd addrs k)"

definition conveyor_of_error :: "error \<Rightarrow> ('k, 'u) driver \<Rightarrow> (conveyor \<times> ('k, 'u) driver) option" where
  "conveyor_of_error error d = do { (c, st) \<leftarrow> Conveyor_error error (conv d); Some (c, d\<lparr>conv := st\<rparr>) }"

definition conveyor_of_value :: "io_value \<Rightarrow> ('k, 'u) driver \<Rightarrow> (conveyor \<times> ('k, 'u) driver) option" where
  "conveyor_of_value v d = do { (c, st) \<leftarrow> Conveyor_value v (conv d); Some (c, d\<lparr>conv := st\<rparr>) }"

text \<open>On a failure after the construction of the stream, its owner is destroyed after the result is built.\<close>

definition UnixNetwork_connect ::
    "'k os \<Rightarrow> NetworkAddress \<Rightarrow> ('k, 'u) driver \<Rightarrow> (conveyor \<times> ('k, 'u) driver) option" where
  "UnixNetwork_connect os addr d = do {
     (address, d) \<leftarrow> translate os addr d;
     assert_that (unixAddressSize address > 0);
     (fd, d) \<leftarrow> open_socket os address SOCK_STREAM d;
     if fd < 0 then conveyor_of_error (criticalError ''Couldn't open socket'') d else do {
       let (io_stream, d) = UnixIoStream_new os fd 0 (EPOLLIN OR EPOLLOUT) d;
       let (r, d) = syscall (connect_loop os fd (una_addresses address)) d;
       if r = Some True then conveyor_of_value (Stream io_stream) d
       else do {
         (c, d) \<leftarrow> conveyor_of_error (criticalError ''Couldn't connect'') d;
         d \<leftarrow> delete_owner os io_stream d;
         Some (c, d)
       }
     }
   }"

definition UnixNetwork_datagram ::
    "'k os \<Rightarrow> NetworkAddress \<Rightarrow> ('k, 'u) driver \<Rightarrow> (addr option \<times> ('k, 'u) driver) option" where
  "UnixNetwork_datagram os addr d = do {
     (address, d) \<leftarrow> translate os addr d;
     assert_that (unixAddressSize address > 0);
     (fd, d) \<leftarrow> open_socket os address SOCK_DGRAM d;
     let (rc, d) = syscall (sys_setsockopt os fd SO_REUSEADDR 1) d;
     if rc < 0 then Some (None, set_kern (sys_close os fd (kern d)) d) else do {
       a \<leftarrow> unixAddress address 0;
       let (failed, d) = syscall (SocketAddress_bind os a fd) d;
       if failed then Some (None, set_kern (sys_close os fd (kern d)) d) else do {
         let (datagram, d) = UnixDatagram_new os fd 0 d;
         Some (Some datagram, d)
       }
     }
   }"

definition UnixNetwork_parseAddress ::
    "'k os \<Rightarrow> string \<Rightarrow> 16 word \<Rightarrow> ('k, 'u) driver \<Rightarrow> (conveyor \<times> ('k, 'u) driver) option" where
  "UnixNetwork_parseAddress os path port_hint d = do {
     let begins_with = ''unix:'';
     let addr_view = (if beginsWith path begins_with then drop (length begins_with) path else path);
     (addresses, k) \<leftarrow> SocketAddress_parse os addr_view port_hint (kern d);
     conveyor_of_value (Address \<lparr>una_path = path, una_port_hint = port_hint, una_addresses = addresses\<rparr>) (set_kern k d)
   }"

definition wrapInputFd :: "'k os \<Rightarrow> fd \<Rightarrow> ('k, 'u) driver \<Rightarrow> addr \<times> ('k, 'u) driver" where
  "wrapInputFd os fd d = UnixIoStream_new os fd 0 EPOLLIN d"

section \<open>Setting up and running\<close>

text \<open>\<open>enough_memory\<close> says whether the allocations succeed. No wait scope has been entered yet.\<close>

definition setupAsyncIo :: "'k os \<Rightarrow> bool \<Rightarrow> 'k \<Rightarrow> 'u \<Rightarrow> ('k, 'u) driver error_or" where
  "setupAsyncIo os enough_memory k u =
     (if enough_memory then
        (let (p, k) = UnixEventPort_new os k
         in IsValue \<lparr>event_port = p, owners = (\<lambda>a. None), next_owner = 2, conv = (EventLoop_new, snd (start (k, u)))\<rparr>)
      else IsError (criticalError ''Out of memory''))"

definition WaitScope_new :: "('k, 'u) driver \<Rightarrow> ('k, 'u) driver option" where
  "WaitScope_new d = on_conv (on_loop enterScope) d"

text \<open>\<open>EventLoop::poll\<close> with this event port; \<open>wait\<close> calls the functions of the port that wait.\<close>

definition driver_poll :: "'k os \<Rightarrow> ('k, 'u) driver \<Rightarrow> (bool \<times> ('k, 'u) driver) option" where
  "driver_poll os d = do {
     d \<leftarrow> UnixEventPort_poll os d;
     (b, st) \<leftarrow> turnLoop fire (conv d);
     Some (b, d\<lparr>conv := st\<rparr>)
   }"

end
