(* ===== verification/Unix_Driver_Safety.thy ===== *)
theory Unix_Driver_Safety
  imports Unix_Driver Conveyor_Nodes
begin

text \<open>
  The invariant of the unix driver: every feeder that an owner or the event port holds is alive and held
  once, and every entry of the epoll interest list belongs to a live owner of that descriptor. It rests on
  a contract of the kernel, the locale \<open>posix_kernel\<close>. The lemmas show that creating and destroying owners,
  readiness conveyors, notifications and polling keep it, and that polling returns.
\<close>

section \<open>Feeders and their nodes\<close>

text \<open>The node of a feeder is a live adapt node that knows the feeder.\<close>

definition feeders_ok ::
    "(event \<Rightarrow> bool) \<Rightarrow> (addr \<Rightarrow> ('v, 'u) obj option) \<Rightarrow> (addr \<Rightarrow> addr option option) \<Rightarrow> bool" where
  "feeders_ok A Ob F \<longleftrightarrow> (\<forall>f a. F f = Some (Some a) \<longrightarrow> A a \<and> (\<exists>ys. Ob a = Some (AdaptConveyorNode (Some f) ys)))"

definition conv_ok :: "('v, 'u) state \<Rightarrow> bool" where
  "conv_ok st \<longleftrightarrow> (\<exists>q. loop_rel (fst st) q) \<and> entered (fst st)
     \<and> feeders_ok (ev_alive (fst st)) (obj_at (snd st)) (feeder_at (snd st))
     \<and> (\<forall>a. next_addr (snd st) \<le> a \<longrightarrow>
          \<not> ev_alive (fst st) a \<and> obj_at (snd st) a = None \<and> feeder_at (snd st) a = None)"

lemma feeders_okD:
  "feeders_ok A Ob F \<Longrightarrow> F f = Some (Some a) \<Longrightarrow> A a \<and> (\<exists>ys. Ob a = Some (AdaptConveyorNode (Some f) ys))"
  by (simp add: feeders_ok_def)

lemma feeders_okI:
  "(\<And>f a. F f = Some (Some a) \<Longrightarrow> A a \<and> (\<exists>ys. Ob a = Some (AdaptConveyorNode (Some f) ys))) \<Longrightarrow> feeders_ok A Ob F"
  by (simp add: feeders_ok_def)

lemma feeders_ok_fed:
  "feeders_ok A Ob F \<Longrightarrow> Ob a = Some (AdaptConveyorNode g ys) \<Longrightarrow>
   feeders_ok A (Ob(a := Some (AdaptConveyorNode g zs))) F"
  by (rule feeders_okI) (frule (1) feeders_okD, auto)

lemma feeders_ok_new:
  "feeders_ok A Ob F \<Longrightarrow> \<not> A a \<Longrightarrow>
   feeders_ok (A(a := True)) (Ob(a := Some (AdaptConveyorNode (Some f) []))) (F(f := Some (Some a)))"
  by (auto simp: feeders_ok_def)

lemma feeders_ok_other: "feeders_ok A Ob F \<Longrightarrow> \<not> A a \<Longrightarrow> feeders_ok (A(a := True)) (Ob(a := n)) F"
  by (auto simp: feeders_ok_def)

lemma feeders_ok_delete:
  "feeders_ok A Ob F \<Longrightarrow> F f = Some (Some a) \<Longrightarrow> feeders_ok A (Ob(a := Some (AdaptConveyorNode None ys))) (F(f := None))"
  by (rule feeders_okI) (frule (1) feeders_okD [of A Ob F f a], auto dest: feeders_okD split: if_splits)

lemma feeders_ok_forget: "feeders_ok A Ob F \<Longrightarrow> feeders_ok A Ob (F(f := None))"
  by (auto simp: feeders_ok_def)

lemma loop_rel_Event_new:
  assumes "loop_rel l q" and "\<not> ev_alive l a"
  shows "loop_rel (Event_new a l) q"
proof -
  have a: "a \<notin> set (sched_queue q)" using assms linked_alive by (auto simp: loop_rel_def)
  then have nil: "ev_prev l a = None" "ev_next l a = None" using assms(1) by (auto simp: loop_rel_def)
  have eq: "Event_new a l = l\<lparr>ev_alive := (ev_alive l)(a := True)\<rparr>"
    using nil by (simp add: Event_new_def fun_upd_idem)
  have "linked (Event_new a l) HeadSlot (sched_queue q)"
    by (rule linked_cong [of l]) (use assms(1) a in \<open>auto simp: loop_rel_def eq slot_content_def\<close>)
  then show ?thesis using assms(1) by (auto simp: loop_rel_def eq slot_content_def split: slot.splits)
qed

lemma conv_ok_feeder:
  assumes "conv_ok st" and "feeder_at (snd st) f = Some (Some a)"
  obtains ys where "ev_alive (fst st) a" and "obj_at (snd st) a = Some (AdaptConveyorNode (Some f) ys)"
  using assms unfolding conv_ok_def feeders_ok_def by blast

lemma feeder_cases:
  assumes "conv_ok st" and "feeder_at (snd st) f \<noteq> None"
  obtains (gone) "feeder_at (snd st) f = Some None"
  | (live) a ys where "feeder_at (snd st) f = Some (Some a)" and "ev_alive (fst st) a" and "a < next_addr (snd st)"
      and "obj_at (snd st) a = Some (AdaptConveyorNode (Some f) ys)"
proof (cases "feeder_at (snd st) f")
  case (Some fe)
  show ?thesis
  proof (cases fe)
    case (Some a)
    with \<open>feeder_at (snd st) f = Some fe\<close> have f: "feeder_at (snd st) f = Some (Some a)" by simp
    with assms(1) have "a < next_addr (snd st)"
      by (metis conv_ok_def conv_ok_feeder not_le)
    with f live show ?thesis using conv_ok_feeder [OF assms(1) f] by metis
  qed (use Some gone in simp)
qed (use assms in simp)

lemma newConveyorAndFeeder_ok:
  assumes "conv_ok st"
  shows "\<exists>f c st'. newConveyorAndFeeder st = Some (f, c, st') \<and> conv_ok st' \<and> f = next_addr (snd st)
    \<and> (\<exists>a. feeder_at (snd st') = (feeder_at (snd st))(f := Some (Some a))
        \<and> obj_at (snd st') = (obj_at (snd st))(a := Some (AdaptConveyorNode (Some f) [])) \<and> next_addr (snd st) < a)
    \<and> user (snd st') = user (snd st)"
proof -
  obtain l w where st: "st = (l, w)" by (cases st)
  from assms obtain q where q: "loop_rel l q" "entered l" by (auto simp: conv_ok_def st)
  let ?f = "next_addr w" and ?a = "Suc (next_addr w)"
  have a: "\<not> ev_alive l ?a" using assms by (simp add: conv_ok_def st)
  with q(1) have "loop_rel (Event_new ?a l) q" by (rule loop_rel_Event_new)
  moreover from assms have "feeders_ok (ev_alive l) (obj_at w) (feeder_at w)" by (simp add: conv_ok_def st)
  from feeders_ok_new [OF this a, of ?f] have "feeders_ok (ev_alive (Event_new ?a l))
      ((obj_at w)(?a := Some (AdaptConveyorNode (Some ?f) []))) ((feeder_at w)(?f := Some (Some ?a)))"
    by (simp add: Event_new_def)
  ultimately show ?thesis using assms q(2)
    by (auto simp: newConveyorAndFeeder_def new_storage_def new_obj_def setFeedee_def setFeeder_def set_defs Let_def
        conv_ok_def st Event_new_def)
qed

text \<open>What feeding \<open>f\<close> does to the store.\<close>

definition fed :: "addr \<Rightarrow> 'v \<Rightarrow> ('v, 'u) world \<Rightarrow> addr \<Rightarrow> ('v, 'u) obj option" where
  "fed f v w = (case feeder_at w f of
     Some (Some a) \<Rightarrow> (case obj_at w a of
         Some (AdaptConveyorNode g ys) \<Rightarrow> (obj_at w)(a := Some (AdaptConveyorNode g (ys @ [IsValue v])))
       | _ \<Rightarrow> obj_at w)
   | _ \<Rightarrow> obj_at w)"

lemma feeder_feed_ok:
  assumes "conv_ok st" and "feeder_at (snd st) f \<noteq> None"
  shows "\<exists>st'. feeder_feed f v st = Some st' \<and> conv_ok st' \<and> feeder_at (snd st') = feeder_at (snd st)
    \<and> user (snd st') = user (snd st) \<and> obj_at (snd st') = fed f v (snd st)"
  using assms
proof (cases rule: feeder_cases)
  case gone
  with assms show ?thesis by (simp add: feeder_feed_def with_feedee_def fed_def)
next
  case (live a ys)
  obtain l w where st: "st = (l, w)" by (cases st)
  from assms obtain q where q: "loop_rel l q" "entered l" by (auto simp: conv_ok_def st)
  from armNext_rel [OF q, of a] live obtain l' where l': "armNext a l = Some l'" "loop_rel l' (sched_next a q)"
    "entered l'" "ev_alive l' = ev_alive l" by (auto simp: st)
  have "feeders_ok (ev_alive l') ((obj_at w)(a := Some (AdaptConveyorNode (Some f) (ys @ [IsValue v])))) (feeder_at w)"
    using feeders_ok_fed [of "ev_alive l" "obj_at w" "feeder_at w" a] assms(1) live l'(4) by (simp add: conv_ok_def st)
  then have "conv_ok (l', w\<lparr>obj_at := (obj_at w)(a := Some (AdaptConveyorNode (Some f) (ys @ [IsValue v])))\<rparr>)"
    using assms(1) l' live by (auto simp: conv_ok_def st)
  with live l'(1) show ?thesis
    by (simp add: feeder_feed_def with_feedee_def AdaptConveyorNode_feed_def on_loop_def set_obj_def st fed_def)
qed

lemma feeder_space_ok:
  assumes "conv_ok st" and "feeder_at (snd st) f \<noteq> None"
  shows "\<exists>n. feeder_space f st = Some n"
  using assms by (cases rule: feeder_cases) (simp_all add: feeder_space_def with_feedee_def space_def)

lemma feeder_delete_ok:
  assumes "conv_ok st" and "feeder_at (snd st) f \<noteq> None"
  shows "\<exists>st'. feeder_delete f st = Some st' \<and> conv_ok st' \<and> feeder_at (snd st') = (feeder_at (snd st))(f := None)
    \<and> user (snd st') = user (snd st)"
  using assms
proof (cases rule: feeder_cases)
  case gone
  with assms feeders_ok_forget show ?thesis
    by (fastforce simp: feeder_delete_def with_feedee_def conv_ok_def)
next
  case (live a ys)
  then show ?thesis
    using assms feeders_ok_delete [of "ev_alive (fst st)" "obj_at (snd st)" "feeder_at (snd st)" f a ys]
    by (auto simp: feeder_delete_def with_feedee_def setFeeder_def set_obj_def conv_ok_def)
qed

lemma immediate_ok:
  assumes "conv_ok st"
  shows "\<exists>c st'. new_storage (ImmediateConveyorNode x 0) None st = Some (c, st') \<and> conv_ok st'
    \<and> feeder_at (snd st') = feeder_at (snd st) \<and> user (snd st') = user (snd st)
    \<and> obj_at (snd st') = (obj_at (snd st))(c := Some (ImmediateConveyorNode x 0))"
proof -
  obtain l w where st: "st = (l, w)" by (cases st)
  from assms obtain q where q: "loop_rel l q" "entered l" by (auto simp: conv_ok_def st)
  have a: "\<not> ev_alive l (next_addr w)" using assms by (simp add: conv_ok_def st)
  with q(1) have "loop_rel (Event_new (next_addr w) l) q" by (rule loop_rel_Event_new)
  moreover have "feeders_ok (ev_alive (Event_new (next_addr w) l))
      ((obj_at w)(next_addr w := Some (ImmediateConveyorNode x 0))) (feeder_at w)"
    using feeders_ok_other [of "ev_alive l" "obj_at w" "feeder_at w" "next_addr w"] a assms by (simp add: conv_ok_def st Event_new_def)
  ultimately show ?thesis using assms q(2)
    by (auto simp: new_storage_def new_obj_def set_defs Let_def conv_ok_def st Event_new_def)
qed

section \<open>The contract of the kernel\<close>

text \<open>
  What the driver relies on, as far as descriptors and pending events are concerned: the open descriptors,
  those of them that are pipes, and the interest lists of epoll instances (instance, descriptor).
\<close>

record fd_table =
  open_fds :: "fd set"
  pipe_fds :: "fd set"
  interest :: "fd \<Rightarrow> fd \<Rightarrow> epoll_event option"

text \<open>
  \<open>tab k\<close> is the table of kernel state \<open>k\<close>. \<open>backlog k\<close> bounds what is waiting to be reported: events of
  epoll, queued signals, and twice the connections waiting to be accepted, since an accepted socket can
  become ready in turn. A new descriptor is not open before; \<open>recv\<close> fails on a pipe (\<open>ENOTSOCK\<close>);
  \<open>epoll_wait\<close> reports the data of registered descriptors; closing a descriptor adds no registration.
\<close>

definition same_table :: "('k \<Rightarrow> fd_table) \<Rightarrow> ('k \<Rightarrow> nat) \<Rightarrow> 'k \<Rightarrow> 'k \<Rightarrow> bool" where
  "same_table tab backlog k k' \<longleftrightarrow> tab k' = tab k \<and> backlog k' \<le> backlog k"

definition opens :: "('k \<Rightarrow> fd_table) \<Rightarrow> 'k \<Rightarrow> fd \<Rightarrow> 'k \<Rightarrow> bool" where
  "opens tab k fd k' \<longleftrightarrow> fd \<notin> open_fds (tab k) \<and> tab k' = (tab k)\<lparr>open_fds := insert fd (open_fds (tab k))\<rparr>"

locale posix_kernel =
  fixes os :: "'k os" and tab :: "'k \<Rightarrow> fd_table" and backlog :: "'k \<Rightarrow> nat"
  assumes pipes_open: "pipe_fds (tab k) \<subseteq> open_fds (tab k)"
    and fds_nonneg: "fd \<in> open_fds (tab k) \<Longrightarrow> 0 \<le> fd"
    and no_instance: "e < 0 \<Longrightarrow> interest (tab k) e fd = None"
    and ignore_sigpipe: "same_table tab backlog k (sys_ignore_sigpipe os k)"
    and sigprocmask: "same_table tab backlog k (sys_sigprocmask os sigs k)"
    and epoll_create: "sys_epoll_create os k = (r, k') \<Longrightarrow>
      if r < 0 then tab k' = tab k
      else r \<notin> open_fds (tab k) \<and> tab k' = (tab k)\<lparr>open_fds := insert r (open_fds (tab k)),
        interest := (interest (tab k))(r := (\<lambda>_. None))\<rparr>"
    and signalfd_new: "sys_signalfd os (-1) sigs k = (r, k') \<Longrightarrow> if r < 0 then tab k' = tab k else opens tab k r k'"
    and signalfd_set: "fd \<noteq> -1 \<Longrightarrow> sys_signalfd os fd sigs k = (r, k') \<Longrightarrow> same_table tab backlog k k'"
    and pipe_none: "sys_pipe os k = (None, k') \<Longrightarrow> tab k' = tab k"
    and pipe_some: "sys_pipe os k = (Some (a, b), k') \<Longrightarrow> a \<notin> open_fds (tab k) \<and> b \<notin> open_fds (tab k) \<and> 0 \<le> a \<and> 0 \<le> b
      \<and> tab k' = (tab k)\<lparr>open_fds := {a, b} \<union> open_fds (tab k), pipe_fds := {a, b} \<union> pipe_fds (tab k)\<rparr>"
    and epoll_add: "sys_epoll_add os e fd ev k = (r, k') \<Longrightarrow> backlog k' \<le> Suc (backlog k)
      \<and> (if r < 0 then tab k' = tab k
         else e \<ge> 0 \<and> interest (tab k) e fd = None
           \<and> tab k' = (tab k)\<lparr>interest := (interest (tab k))(e := (interest (tab k) e)(fd \<mapsto> ev))\<rparr>)"
    and epoll_del: "sys_epoll_del os e fd k = (r, k') \<Longrightarrow> backlog k' \<le> backlog k
      \<and> tab k' = (tab k)\<lparr>interest := (interest (tab k))(e := (interest (tab k) e)(fd := None))\<rparr>"
    and close: "backlog (sys_close os fd k) \<le> backlog k
      \<and> open_fds (tab (sys_close os fd k)) = open_fds (tab k) - {fd}
      \<and> pipe_fds (tab (sys_close os fd k)) = pipe_fds (tab k) - {fd}
      \<and> (\<forall>e f ev. interest (tab (sys_close os fd k)) e f = Some ev \<longrightarrow> interest (tab k) e f = Some ev)"
    and epoll_wait_none: "sys_epoll_wait os e n t k = (None, k') \<Longrightarrow> same_table tab backlog k k'"
    and epoll_wait_some: "sys_epoll_wait os e n t k = (Some evs, k') \<Longrightarrow> tab k' = tab k \<and> backlog k' \<le> backlog k
      \<and> (length evs = n \<longrightarrow> 0 < n \<longrightarrow> backlog k' < backlog k)
      \<and> (\<forall>ev \<in> set evs. \<exists>fd ev'. interest (tab k) e fd = Some ev' \<and> ee_data ev' = ee_data ev)"
    and read_siginfo_none: "sys_read_siginfo os fd k = (None, k') \<Longrightarrow> same_table tab backlog k k'"
    and read_siginfo_some: "sys_read_siginfo os fd k = (Some (n, sig), k') \<Longrightarrow>
      n = sizeof_siginfo \<and> tab k' = tab k \<and> backlog k' < backlog k"
    and recv: "sys_recv os fd n k = (bytes, k') \<Longrightarrow> same_table tab backlog k k' \<and> (fd \<in> pipe_fds (tab k) \<longrightarrow> bytes = None)"
    and send: "sys_send os fd data k = (sent, k') \<Longrightarrow> same_table tab backlog k k'"
    and accept: "sys_accept os fd k = (r, k') \<Longrightarrow>
      if r < 0 then same_table tab backlog k k' else opens tab k r k' \<and> Suc (Suc (backlog k')) \<le> backlog k"
    and socket: "sys_socket os family type k = (r, k') \<Longrightarrow> if r < 0 then tab k' = tab k else opens tab k r k'"
    and setsockopt: "sys_setsockopt os fd opt v k = (r, k') \<Longrightarrow> tab k' = tab k \<and> (fd < 0 \<longrightarrow> r < 0)"
    and bind: "sys_bind os fd sa k = (r, k') \<Longrightarrow> tab k' = tab k"
    and listen: "sys_listen os fd k = (r, k') \<Longrightarrow> tab k' = tab k"
    and connect: "sys_connect os fd sa k = (error, k') \<Longrightarrow> tab k' = tab k"
    and getaddrinfo: "sys_getaddrinfo os str port k = (infos, k') \<Longrightarrow> tab k' = tab k"

section \<open>The invariant of the driver\<close>

fun somes :: "'a option list \<Rightarrow> 'a list" where
  "somes [] = []"
| "somes (None # xs) = somes xs"
| "somes (Some x # xs) = x # somes xs"

fun feeders_of :: "fd_owner \<Rightarrow> addr list" where
  "feeders_of (UnixIoStream _ read_ready on_read_disconnect write_ready) =
     somes [write_ready, on_read_disconnect, read_ready]"
| "feeders_of (UnixServer _ accept_feeder) = somes [accept_feeder]"
| "feeders_of (UnixDatagram _ read_ready write_ready) = somes [write_ready, read_ready]"

definition listeners :: "UnixEventPort \<Rightarrow> addr set" where
  "listeners p = snd ` set (signal_conveyors p)"

text \<open>Every feeder of an owner or of the port exists, and has no second holder.\<close>

definition holders_ok :: "('k, 'u) driver \<Rightarrow> bool" where
  "holders_ok d \<longleftrightarrow>
     (\<forall>a n. owners d a = Some n \<longrightarrow> distinct (feeders_of n)
        \<and> (\<forall>f \<in> set (feeders_of n). feeder_at (snd (conv d)) f \<noteq> None \<and> f \<notin> listeners (event_port d)))
     \<and> (\<forall>a b n m. owners d a = Some n \<longrightarrow> owners d b = Some m \<longrightarrow> a \<noteq> b \<longrightarrow> set (feeders_of n) \<inter> set (feeders_of m) = {})
     \<and> (\<forall>f \<in> listeners (event_port d). feeder_at (snd (conv d)) f \<noteq> None)"

text \<open>
  Every entry of the interest list is the signalfd's, the pipe's or that of a live owner of the descriptor;
  the pipe is open and nobody's.
\<close>

definition owner_fd :: "('k, 'u) driver \<Rightarrow> addr \<Rightarrow> fd option" where
  "owner_fd d a = map_option (\<lambda>n. file_descriptor (owner_base n)) (owners d a)"

definition entry_ok :: "('k, 'u) driver \<Rightarrow> fd \<Rightarrow> epoll_event \<Rightarrow> bool" where
  "entry_ok d fd e \<longleftrightarrow> (if ee_data e = 0 then fd = signal_fd (event_port d)
     else if ee_data e = 1 then map_option fst (pipefds (event_port d)) = Some fd
     else owner_fd d (ee_data e) = Some fd \<and> 0 \<le> fd)"

definition interest_ok :: "('k \<Rightarrow> fd_table) \<Rightarrow> ('k, 'u) driver \<Rightarrow> bool" where
  "interest_ok tab d \<longleftrightarrow>
     (\<forall>fd e. interest (tab (kern d)) (epoll_fd (event_port d)) fd = Some e \<longrightarrow> entry_ok d fd e)"

definition pipe_ok :: "('k \<Rightarrow> fd_table) \<Rightarrow> ('k, 'u) driver \<Rightarrow> bool" where
  "pipe_ok tab d \<longleftrightarrow> (\<forall>r w. pipefds (event_port d) = Some (r, w) \<longrightarrow>
     r \<in> pipe_fds (tab (kern d)) \<and> (\<forall>a. owner_fd d a \<noteq> Some r))"

definition driver_ok :: "('k \<Rightarrow> fd_table) \<Rightarrow> ('k, 'u) driver \<Rightarrow> bool" where
  "driver_ok tab d \<longleftrightarrow> conv_ok (conv d) \<and> holders_ok d \<and> interest_ok tab d \<and> pipe_ok tab d
     \<and> 2 \<le> next_owner d \<and> (\<forall>a \<ge> next_owner d. owners d a = None)"

text \<open>A descriptor that is not the reading end of the pipe of the port.\<close>

definition not_pipe :: "UnixEventPort \<Rightarrow> fd \<Rightarrow> bool" where
  "not_pipe p fd \<longleftrightarrow> map_option fst (pipefds p) \<noteq> Some fd"

lemma kern_simps [simp]:
  "kern (set_kern k d) = k" "event_port (set_kern k d) = event_port d" "owners (set_kern k d) = owners d"
  "next_owner (set_kern k d) = next_owner d" "feeder_at (snd (conv (set_kern k d))) = feeder_at (snd (conv d))"
  "obj_at (snd (conv (set_kern k d))) = obj_at (snd (conv d))" "fst (conv (set_kern k d)) = fst (conv d)"
  "set_kern k (set_kern k' d) = set_kern k d"
  by (simp_all add: kern_def set_kern_def set_user_def)

lemma conv_ok_set_kern [simp]: "conv_ok (conv (set_kern k d)) = conv_ok (conv d)"
  by (simp add: conv_ok_def set_kern_def set_user_def)

lemma holders_ok_set_kern [simp]: "holders_ok (set_kern k d) = holders_ok d"
  by (simp add: holders_ok_def)

lemma owner_fd_set_kern [simp]: "owner_fd (set_kern k d) = owner_fd d"
  by (simp add: owner_fd_def fun_eq_iff)

lemma entry_ok_set_kern [simp]: "entry_ok (set_kern k d) = entry_ok d"
  by (simp add: entry_ok_def fun_eq_iff)

lemma interest_ok_le:
  assumes "interest_ok tab d" and "\<And>fd e. interest (tab k) (epoll_fd (event_port d)) fd = Some e \<Longrightarrow>
    interest (tab (kern d)) (epoll_fd (event_port d)) fd = Some e"
  shows "interest_ok tab (set_kern k d)"
  using assms by (simp add: interest_ok_def)

text \<open>Calls that leave the table alone, open a descriptor or close one that is not the pipe.\<close>

lemma driver_ok_same: "driver_ok tab d \<Longrightarrow> tab k = tab (kern d) \<Longrightarrow> driver_ok tab (set_kern k d)"
  by (simp add: driver_ok_def interest_ok_def pipe_ok_def)

lemma driver_ok_opens:
  "driver_ok tab d \<Longrightarrow> opens tab (kern d) fd k \<Longrightarrow> driver_ok tab (set_kern k d)"
  by (simp add: driver_ok_def interest_ok_def pipe_ok_def opens_def)

text \<open>Calls of the conveyor library that keep every feeder alive.\<close>

lemma kern_conv [simp]: "kern (d\<lparr>conv := st\<rparr>) = fst (user (snd st))"
  by (simp add: kern_def)

lemma owner_fd_conv [simp]: "owner_fd (d\<lparr>conv := st\<rparr>) = owner_fd d"
  by (simp add: owner_fd_def fun_eq_iff)

lemma entry_ok_conv [simp]: "entry_ok (d\<lparr>conv := st\<rparr>) = entry_ok d"
  by (simp add: entry_ok_def fun_eq_iff)

lemma driver_ok_conv:
  assumes "driver_ok tab d" and "conv_ok st" and "tab (fst (user (snd st))) = tab (kern d)"
    and "\<And>f. feeder_at (snd (conv d)) f \<noteq> None \<Longrightarrow> feeder_at (snd st) f \<noteq> None"
  shows "driver_ok tab (d\<lparr>conv := st\<rparr>)"
proof -
  have "holders_ok (d\<lparr>conv := st\<rparr>)"
    using assms(1,4) unfolding driver_ok_def holders_ok_def by fastforce
  with assms show ?thesis by (simp add: driver_ok_def interest_ok_def pipe_ok_def)
qed

text \<open>Operations that change the store of the conveyors only, and no feeder.\<close>

definition conv_frame :: "('k, 'u) driver \<Rightarrow> ('k, 'u) driver \<Rightarrow> bool" where
  "conv_frame d d' \<longleftrightarrow> event_port d' = event_port d \<and> owners d' = owners d \<and> next_owner d' = next_owner d
     \<and> user (snd (conv d')) = user (snd (conv d))"

lemma conv_frame_refl [simp]: "conv_frame d d"
  by (simp add: conv_frame_def)

lemma conv_frame_trans [trans]: "conv_frame d d' \<Longrightarrow> conv_frame d' d'' \<Longrightarrow> conv_frame d d''"
  by (simp add: conv_frame_def)

lemma conv_frameD:
  assumes "conv_frame d d'"
  shows "event_port d' = event_port d" "owners d' = owners d" "next_owner d' = next_owner d" "kern d' = kern d"
    "owner_fd d' = owner_fd d" "entry_ok d' = entry_ok d"
  using assms by (simp_all add: conv_frame_def kern_def owner_fd_def entry_ok_def fun_eq_iff)

lemma feed_ok:
  assumes "driver_ok tab d" and "feeder_at (snd (conv d)) f \<noteq> None"
  shows "\<exists>d'. on_conv (feeder_feed f v) d = Some d' \<and> driver_ok tab d' \<and> conv_frame d d'
    \<and> feeder_at (snd (conv d')) = feeder_at (snd (conv d)) \<and> obj_at (snd (conv d')) = fed f v (snd (conv d))"
proof -
  from assms(1) have "conv_ok (conv d)" by (simp add: driver_ok_def)
  from feeder_feed_ok [OF this assms(2), of v] obtain st where st: "feeder_feed f v (conv d) = Some st" "conv_ok st"
    "feeder_at (snd st) = feeder_at (snd (conv d))" "user (snd st) = user (snd (conv d))"
    "obj_at (snd st) = fed f v (snd (conv d))" by blast
  have "driver_ok tab (d\<lparr>conv := st\<rparr>)"
    by (rule driver_ok_conv [OF assms(1) st(2)]) (simp_all add: st kern_def)
  with st show ?thesis by (auto simp: on_conv_def conv_frame_def)
qed

text \<open>The feeders of a list are destroyed.\<close>

fun drop_list :: "addr list \<Rightarrow> ('k, 'u) driver \<Rightarrow> ('k, 'u) driver option" where
  "drop_list [] d = Some d"
| "drop_list (f # fs) d = do { d \<leftarrow> drop_feeder (Some f) d; drop_list fs d }"

lemma drop_list_Nil [simp]: "drop_list [] = Some"
  by (rule ext) simp

lemma drop_list_members:
  "drop_list (somes (f # fs)) d = do { d \<leftarrow> drop_feeder f d; drop_list (somes fs) d }"
  by (cases f) (simp_all add: drop_feeder_def)

lemma drop_feeder_list: "drop_feeder f d = drop_list (somes [f]) d"
  by (simp add: drop_list_members)

lemma drop_feeders_list: "drop_feeders n d = drop_list (feeders_of n) d"
  by (cases n) (simp_all add: drop_list_members)

lemma drop_list_ok:
  assumes "conv_ok (conv d)" and "distinct fs" and "\<forall>f \<in> set fs. feeder_at (snd (conv d)) f \<noteq> None"
  shows "\<exists>d'. drop_list fs d = Some d' \<and> conv_ok (conv d') \<and> conv_frame d d'
    \<and> (\<forall>f. feeder_at (snd (conv d')) f = (if f \<in> set fs then None else feeder_at (snd (conv d)) f))"
  using assms
proof (induction fs arbitrary: d)
  case Nil
  then show ?case by (simp add: conv_frame_refl)
next
  case (Cons f fs)
  from feeder_delete_ok [OF Cons.prems(1), of f] Cons.prems(3) obtain st where st:
    "feeder_delete f (conv d) = Some st" "conv_ok st" "feeder_at (snd st) = (feeder_at (snd (conv d)))(f := None)"
    "user (snd st) = user (snd (conv d))" by auto
  have one: "conv_frame d (d\<lparr>conv := st\<rparr>)" using st(4) by (auto simp: conv_frame_def)
  from Cons.IH [of "d\<lparr>conv := st\<rparr>"] Cons.prems(2,3) st(2,3) obtain d' where d': "drop_list fs (d\<lparr>conv := st\<rparr>) = Some d'"
    "conv_ok (conv d')" "conv_frame (d\<lparr>conv := st\<rparr>) d'"
    "\<forall>g. feeder_at (snd (conv d')) g = (if g \<in> set fs then None else feeder_at (snd st) g)" by force
  with st(1,3) conv_frame_trans [OF one d'(3)] show ?case by (auto simp: drop_feeder_def on_conv_def)
qed

section \<open>Owners\<close>

lemma owner_fd_set_owner [simp]:
  "owner_fd (set_owner a n d) = (owner_fd d)(a := map_option (\<lambda>n. file_descriptor (owner_base n)) n)"
  by (auto simp: owner_fd_def set_owner_def)

lemma set_owner_simps [simp]:
  "event_port (set_owner a n d) = event_port d" "conv (set_owner a n d) = conv d" "kern (set_owner a n d) = kern d"
  "owners (set_owner a n d) = (owners d)(a := n)" "next_owner (set_owner a n d) = next_owner d"
  by (simp_all add: set_owner_def kern_def)

text \<open>Replacing the feeder of a member by a new one.\<close>

lemma new_ready_ok:
  assumes ok: "driver_ok tab d" and n: "owners d a = Some n"
    and base: "\<And>f. owner_base (mk f) = owner_base n"
    and old: "set_option old \<subseteq> set (feeders_of n)"
    and mk: "\<And>f. distinct (feeders_of n) \<Longrightarrow> f \<notin> set (feeders_of n) \<Longrightarrow>
      distinct (feeders_of (mk f)) \<and> set (feeders_of (mk f)) = insert f (set (feeders_of n) - set_option old)"
  shows "\<exists>c d'. new_ready a old mk d = Some (c, d') \<and> driver_ok tab d' \<and> event_port d' = event_port d \<and> kern d' = kern d"
proof -
  let ?F = "feeder_at (snd (conv d))"
  from ok have conv: "conv_ok (conv d)" and hold: "holders_ok d" by (simp_all add: driver_ok_def)
  from newConveyorAndFeeder_ok [OF conv] obtain f c st b where st: "newConveyorAndFeeder (conv d) = Some (f, c, st)"
    "conv_ok st" "f = next_addr (snd (conv d))" "feeder_at (snd st) = ?F(f := Some (Some b))"
    "user (snd st) = user (snd (conv d))" by blast
  from conv st(3) have f: "?F f = None" by (simp add: conv_ok_def)
  let ?d = "set_owner a (Some (mk f)) (d\<lparr>conv := st\<rparr>)"
  let ?l = "somes [old]"
  have l: "set ?l = set_option old" "distinct ?l" by (cases old; simp)+
  have own: "distinct (feeders_of n)" "\<forall>g \<in> set (feeders_of n). ?F g \<noteq> None" using hold n by (auto simp: holders_ok_def)
  from own(2) f have fn: "f \<notin> set (feeders_of n)" by auto
  have "\<forall>g \<in> set ?l. feeder_at (snd (conv ?d)) g \<noteq> None" using old own(2) l(1) st(4) by auto
  with drop_list_ok [of ?d ?l] st(2) l obtain d' where d': "drop_list ?l ?d = Some d'" "conv_ok (conv d')"
    "conv_frame ?d d'" "\<forall>g. feeder_at (snd (conv d')) g = (if g \<in> set_option old then None else (?F(f := Some (Some b))) g)"
    using st(4) by auto
  note fr = conv_frameD [OF d'(3)]
  have mf: "distinct (feeders_of (mk f))" "set (feeders_of (mk f)) = insert f (set (feeders_of n) - set_option old)"
    using mk [OF own(1) fn] by simp_all
  have ofd: "owner_fd d' = owner_fd d" using fr n base by (simp add: owner_fd_def fun_eq_iff)
  have "holders_ok d'" unfolding holders_ok_def
  proof (intro conjI allI impI ballI)
    fix x m g assume x: "owners d' x = Some m"
    show "distinct (feeders_of m)" using x mf(1) hold fr(2) by (auto simp: holders_ok_def split: if_splits)
    assume g: "g \<in> set (feeders_of m)"
    show "feeder_at (snd (conv d')) g \<noteq> None" "g \<notin> listeners (event_port d')"
      using x g mf(2) hold fr d'(4) f n old st(4) fn
      by (cases "x = a"; fastforce simp: holders_ok_def split: if_splits)+
  next
    fix x y m m' assume "owners d' x = Some m" "owners d' y = Some m'" "x \<noteq> y"
    then show "set (feeders_of m) \<inter> set (feeders_of m') = {}"
      using mf(2) hold fr(2) n f by (cases "x = a"; cases "y = a") (fastforce simp: holders_ok_def split: if_splits)+
  next
    fix g assume "g \<in> listeners (event_port d')"
    then show "feeder_at (snd (conv d')) g \<noteq> None"
      using hold fr(1) d'(4) n old f by (fastforce simp: holders_ok_def)
  qed
  moreover have "interest_ok tab d'" "pipe_ok tab d'"
    using ok ofd fr st(5) by (simp_all add: driver_ok_def interest_ok_def pipe_ok_def entry_ok_def kern_def)
  moreover have "\<forall>x \<ge> next_owner d'. owners d' x = None" using ok fr n by (auto simp: driver_ok_def)
  ultimately show ?thesis
    using st(1) d' fr ok st(5) by (auto simp: new_ready_def drop_feeder_list driver_ok_def kern_def)
qed

context posix_kernel
begin

lemma opens_not_pipe: "driver_ok tab d \<Longrightarrow> opens tab (kern d) fd k \<Longrightarrow> not_pipe (event_port d) fd"
  using pipes_open [of "kern d"] by (auto simp: driver_ok_def pipe_ok_def opens_def not_pipe_def)

lemma driver_ok_close:
  assumes "driver_ok tab d" and "not_pipe (event_port d) fd"
  shows "driver_ok tab (set_kern (sys_close os fd (kern d)) d)"
  using assms close [of fd "kern d"] interest_ok_le [of tab d]
  by (auto simp: driver_ok_def pipe_ok_def not_pipe_def)

lemma close_interest: "interest (tab (sys_close os fd k)) e f = Some ev \<Longrightarrow> interest (tab k) e f = Some ev"
  using close [of fd k] by blast

lemma close_rest:
  "backlog (sys_close os fd k) \<le> backlog k" "open_fds (tab (sys_close os fd k)) = open_fds (tab k) - {fd}"
  "pipe_fds (tab (sys_close os fd k)) = pipe_fds (tab k) - {fd}"
  using close [of fd k] by simp_all

lemma subscribe_cases:
  obtains (same) k where "subscribe os a fd evmask d = set_kern k d" "tab k = tab (kern d)" "backlog k \<le> Suc (backlog (kern d))"
  | (added) k where "subscribe os a fd evmask d = set_kern k d" "0 \<le> fd" "backlog k \<le> Suc (backlog (kern d))"
      "tab k = (tab (kern d))\<lparr>interest := (interest (tab (kern d)))(epoll_fd (event_port d) :=
         (interest (tab (kern d)) (epoll_fd (event_port d)))(fd \<mapsto> \<lparr>ee_events = evmask OR EPOLLET, ee_data = a\<rparr>))\<rparr>"
proof (cases "epoll_fd (event_port d) < 0 \<or> fd < 0")
  case True
  then show ?thesis using same [of "kern d"] by (auto simp: subscribe_def set_kern_def kern_def set_user_def)
next
  case False
  let ?ev = "\<lparr>ee_events = evmask OR EPOLLET, ee_data = a\<rparr>"
  obtain r k where rk: "sys_epoll_add os (epoll_fd (event_port d)) fd ?ev (kern d) = (r, k)" by fastforce
  from epoll_add [OF rk] False rk show ?thesis
    using same [of k] added [of k] by (auto simp: subscribe_def syscall_def split: if_splits)
qed

lemma new_owner_ok:
  assumes ok: "driver_ok tab d" and np: "not_pipe (event_port d) (file_descriptor (owner_base n))" and n: "feeders_of n = []"
    and new: "new_owner os n d = (a, d')"
  shows "driver_ok tab d' \<and> event_port d' = event_port d \<and> a = next_owner d \<and> owners d' = (owners d)(a := Some n)
    \<and> feeder_at (snd (conv d')) = feeder_at (snd (conv d)) \<and> backlog (kern d') \<le> Suc (backlog (kern d))
    \<and> open_fds (tab (kern d')) = open_fds (tab (kern d))"
proof -
  let ?fd = "file_descriptor (owner_base n)" and ?e = "epoll_fd (event_port d)"
  let ?d = "(set_owner (next_owner d) (Some n) d)\<lparr>next_owner := Suc (next_owner d)\<rparr>"
  have a: "a = next_owner d" "d' = subscribe os a ?fd (event_mask (owner_base n)) ?d"
    using new by (auto simp: new_owner_def Let_def)
  have free: "owners d a = None" "2 \<le> a" using ok a(1) by (auto simp: driver_ok_def)
  have simps: "kern ?d = kern d" "event_port ?d = event_port d" "conv ?d = conv d" "owners ?d = (owners d)(a := Some n)"
    "owner_fd ?d = (owner_fd d)(a := Some ?fd)"
    using a(1) by (auto simp: kern_def owner_fd_def)
  have hold: "holders_ok ?d" using ok free n a(1) unfolding driver_ok_def holders_ok_def
    by (auto split: if_splits)
  have old: "entry_ok ?d fd e" if "interest (tab (kern d)) ?e fd = Some e" for fd e
    using ok that free by (fastforce simp: driver_ok_def interest_ok_def entry_ok_def simps owner_fd_def split: if_splits)
  have pipe: "pipe_ok tab ?d" using ok np by (auto simp: driver_ok_def pipe_ok_def simps not_pipe_def)
  have rest: "2 \<le> next_owner ?d" "\<forall>x \<ge> next_owner ?d. owners ?d x = None" using ok a(1) by (auto simp: driver_ok_def)
  have conv: "conv_ok (conv d)" using ok by (simp add: driver_ok_def)
  show ?thesis
  proof (cases rule: subscribe_cases [of a ?fd "event_mask (owner_base n)" ?d])
    case (same k)
    then have "interest_ok tab d'" "pipe_ok tab d'" using old pipe a(2) by (auto simp: interest_ok_def pipe_ok_def simps)
    with same hold rest conv a show ?thesis by (simp add: driver_ok_def simps)
  next
    case (added k)
    then have "entry_ok ?d ?fd \<lparr>ee_events = event_mask (owner_base n) OR EPOLLET, ee_data = a\<rparr>"
      using free by (simp add: entry_ok_def simps)
    with added have "interest_ok tab d'" "pipe_ok tab d'" using old pipe a(2)
      by (auto simp: interest_ok_def pipe_ok_def simps)
    with added hold rest conv a show ?thesis by (simp add: driver_ok_def simps)
  qed
qed

text \<open>The system calls of the destructor of an owner remove its entry from the interest list.\<close>

lemma IFdOwner_delete_cases:
  obtains k where "IFdOwner_delete os b d = set_kern k d" "backlog k \<le> backlog (kern d)"
    "pipe_fds (tab (kern d)) - {file_descriptor b} \<subseteq> pipe_fds (tab k)"
    "open_fds (tab k) = (if 0 \<le> file_descriptor b then open_fds (tab (kern d)) - {file_descriptor b} else open_fds (tab (kern d)))"
    "\<And>fd e. interest (tab k) (epoll_fd (event_port d)) fd = Some e \<Longrightarrow>
       interest (tab (kern d)) (epoll_fd (event_port d)) fd = Some e \<and> (0 \<le> fd \<longrightarrow> fd \<noteq> file_descriptor b)"
proof (cases "0 \<le> file_descriptor b")
  case False
  then show ?thesis
    using that [of "kern d"] by (auto simp: IFdOwner_delete_def set_kern_def kern_def set_user_def)
next
  case True
  let ?e = "epoll_fd (event_port d)" and ?fd = "file_descriptor b"
  obtain r k1 where rk: "sys_epoll_del os ?e ?fd (kern d) = (r, k1)" by fastforce
  show ?thesis
  proof (cases "?e < 0")
    case neg: True
    have "IFdOwner_delete os b d = set_kern (sys_close os ?fd (kern d)) d"
      using True neg by (simp add: IFdOwner_delete_def unsubscribe_def)
    then show ?thesis
      by (rule that) (use True no_instance [OF neg] in \<open>auto simp: close_rest dest: close_interest\<close>)
  next
    case False
    have "IFdOwner_delete os b d = set_kern (sys_close os ?fd k1) d"
      using True False rk by (simp add: IFdOwner_delete_def unsubscribe_def syscall_def)
    then show ?thesis
    proof (rule that)
      show "backlog (sys_close os ?fd k1) \<le> backlog (kern d)" using epoll_del [OF rk] close_rest(1) [of ?fd k1] by linarith
      show "interest (tab (kern d)) ?e fd = Some e \<and> (0 \<le> fd \<longrightarrow> fd \<noteq> ?fd)"
        if "interest (tab (sys_close os ?fd k1)) ?e fd = Some e" for fd e
        using close_interest [OF that] epoll_del [OF rk] by (simp split: if_splits)
    qed (use True epoll_del [OF rk] in \<open>simp_all add: close_rest\<close>)
  qed
qed

lemma delete_owner_ok:
  assumes ok: "driver_ok tab d" and n: "owners d a = Some n"
  shows "\<exists>d'. delete_owner os a d = Some d' \<and> driver_ok tab d' \<and> event_port d' = event_port d
    \<and> owners d' = (owners d)(a := None) \<and> backlog (kern d') \<le> backlog (kern d)
    \<and> open_fds (tab (kern d')) = (if 0 \<le> file_descriptor (owner_base n)
         then open_fds (tab (kern d)) - {file_descriptor (owner_base n)} else open_fds (tab (kern d)))"
proof -
  let ?fd = "file_descriptor (owner_base n)"
  from ok have conv: "conv_ok (conv d)" and hold: "holders_ok d" by (simp_all add: driver_ok_def)
  then have "distinct (feeders_of n)" "\<forall>f \<in> set (feeders_of n). feeder_at (snd (conv d)) f \<noteq> None"
    using n by (auto simp: holders_ok_def)
  from drop_list_ok [OF conv this] obtain d1 where d1: "drop_feeders n d = Some d1" "conv_ok (conv d1)" "conv_frame d d1"
    "\<forall>f. feeder_at (snd (conv d1)) f = (if f \<in> set (feeders_of n) then None else feeder_at (snd (conv d)) f)"
    by (auto simp: drop_feeders_list)
  note fr = conv_frameD [OF d1(3)]
  from IFdOwner_delete_cases [of "owner_base n" d1] obtain k where k: "IFdOwner_delete os (owner_base n) d1 = set_kern k d1"
    "backlog k \<le> backlog (kern d1)" "pipe_fds (tab (kern d1)) - {?fd} \<subseteq> pipe_fds (tab k)"
    "open_fds (tab k) = (if 0 \<le> ?fd then open_fds (tab (kern d1)) - {?fd} else open_fds (tab (kern d1)))"
    "\<And>fd e. interest (tab k) (epoll_fd (event_port d1)) fd = Some e \<Longrightarrow>
       interest (tab (kern d1)) (epoll_fd (event_port d1)) fd = Some e \<and> (0 \<le> fd \<longrightarrow> fd \<noteq> ?fd)" by metis
  let ?d = "set_owner a None (set_kern k d1)"
  have ofd: "owner_fd d a = Some ?fd" using n by (simp add: owner_fd_def)
  have "holders_ok ?d"
    using hold n d1(4) fr unfolding holders_ok_def by (clarsimp split: if_splits) blast
  moreover have "interest_ok tab ?d"
    using ok k(5) fr ofd by (fastforce simp: driver_ok_def interest_ok_def entry_ok_def split: if_splits)
  moreover have "pipe_ok tab ?d" using ok k(3) fr ofd by (fastforce simp: driver_ok_def pipe_ok_def)
  ultimately have "driver_ok tab ?d" using ok fr d1(2) by (simp add: driver_ok_def)
  then show ?thesis using n d1(1) k fr by (simp add: delete_owner_def)
qed

end

section \<open>Notifications\<close>

lemma feed_void_ok:
  assumes "driver_ok tab d" and "\<And>g. f = Some g \<Longrightarrow> feeder_at (snd (conv d)) g \<noteq> None"
  shows "\<exists>d'. feed_void f d = Some d' \<and> driver_ok tab d' \<and> conv_frame d d'
    \<and> feeder_at (snd (conv d')) = feeder_at (snd (conv d))"
proof (cases f)
  case None
  with assms(1) show ?thesis by (simp add: feed_void_def)
next
  case (Some g)
  with feed_ok [OF assms(1), of g Void] assms(2) show ?thesis by (auto simp: feed_void_def)
qed

lemma feed_if_ok:
  assumes "driver_ok tab d" and "\<And>g. f = Some g \<Longrightarrow> feeder_at (snd (conv d)) g \<noteq> None"
  shows "\<exists>d'. (if P then feed_void f d else Some d) = Some d' \<and> driver_ok tab d' \<and> conv_frame d d'
    \<and> feeder_at (snd (conv d')) = feeder_at (snd (conv d))"
  using feed_void_ok [OF assms] assms(1) by simp

lemma set_somes [simp]: "x \<in> set (somes xs) \<longleftrightarrow> Some x \<in> set xs"
  by (induction xs rule: somes.induct) auto

lemma owner_feeders:
  "holders_ok d \<Longrightarrow> owners d a = Some n \<Longrightarrow> f \<in> set (feeders_of n) \<Longrightarrow> feeder_at (snd (conv d)) f \<noteq> None"
  by (simp add: holders_ok_def)

lemma UnixIoStream_notify_ok:
  assumes "driver_ok tab d"
    and "\<And>f. f \<in> set (feeders_of (UnixIoStream b r c w)) \<Longrightarrow> feeder_at (snd (conv d)) f \<noteq> None"
  shows "\<exists>d'. UnixIoStream_notify r c w evmask d = Some d' \<and> driver_ok tab d' \<and> conv_frame d d'"
proof -
  from feed_if_ok [OF assms(1), of w "evmask AND EPOLLOUT \<noteq> 0"] assms(2) obtain d1 where d1:
    "(if evmask AND EPOLLOUT \<noteq> 0 then feed_void w d else Some d) = Some d1" "driver_ok tab d1" "conv_frame d d1"
    "feeder_at (snd (conv d1)) = feeder_at (snd (conv d))" by auto
  from feed_if_ok [OF d1(2), of r "evmask AND EPOLLIN \<noteq> 0"] assms(2) d1(4) obtain d2 where d2:
    "(if evmask AND EPOLLIN \<noteq> 0 then feed_void r d1 else Some d1) = Some d2" "driver_ok tab d2" "conv_frame d1 d2"
    "feeder_at (snd (conv d2)) = feeder_at (snd (conv d))" by auto
  from feed_if_ok [OF d2(2), of c "evmask AND EPOLLRDHUP \<noteq> 0"] assms(2) d2(4) obtain d3 where d3:
    "(if evmask AND EPOLLRDHUP \<noteq> 0 then feed_void c d2 else Some d2) = Some d3" "driver_ok tab d3" "conv_frame d2 d3" by auto
  show ?thesis unfolding UnixIoStream_notify_def d1(1) using d2(1) d3 d1(3) d2(3)
    by (auto intro: conv_frame_trans simp del: if_split)
qed

lemma UnixDatagram_notify_ok:
  assumes "driver_ok tab d"
    and "\<And>f. f \<in> set (feeders_of (UnixDatagram b r w)) \<Longrightarrow> feeder_at (snd (conv d)) f \<noteq> None"
  shows "\<exists>d'. UnixDatagram_notify r w evmask d = Some d' \<and> driver_ok tab d' \<and> conv_frame d d'"
proof -
  from feed_if_ok [OF assms(1), of w "evmask AND EPOLLOUT \<noteq> 0"] assms(2) obtain d1 where d1:
    "(if evmask AND EPOLLOUT \<noteq> 0 then feed_void w d else Some d) = Some d1" "driver_ok tab d1" "conv_frame d d1"
    "feeder_at (snd (conv d1)) = feeder_at (snd (conv d))" by auto
  from feed_if_ok [OF d1(2), of r "evmask AND EPOLLIN \<noteq> 0"] assms(2) d1(4) obtain d2 where d2:
    "(if evmask AND EPOLLIN \<noteq> 0 then feed_void r d1 else Some d1) = Some d2" "driver_ok tab d2" "conv_frame d1 d2" by auto
  show ?thesis unfolding UnixDatagram_notify_def d1(1) using d2 d1(3)
    by (auto intro: conv_frame_trans simp del: if_split)
qed

text \<open>What handling an event may change: the owners there were stay, and no more events are waiting.\<close>

definition handled :: "('k \<Rightarrow> fd_table) \<Rightarrow> ('k \<Rightarrow> nat) \<Rightarrow> ('k, 'u) driver \<Rightarrow> ('k, 'u) driver \<Rightarrow> bool" where
  "handled tab backlog d d' \<longleftrightarrow> driver_ok tab d' \<and> event_port d' = event_port d
     \<and> backlog (kern d') \<le> backlog (kern d) \<and> (\<forall>a. owners d a \<noteq> None \<longrightarrow> owners d' a \<noteq> None)"

lemma handled_refl: "driver_ok tab d \<Longrightarrow> handled tab backlog d d"
  by (simp add: handled_def)

lemma handled_trans: "handled tab backlog d d' \<Longrightarrow> handled tab backlog d' d'' \<Longrightarrow> handled tab backlog d d''"
  by (auto simp: handled_def)

lemma handled_frame: "driver_ok tab d' \<Longrightarrow> conv_frame d d' \<Longrightarrow> handled tab backlog d d'"
  by (simp add: handled_def conv_frameD)

lemma handled_same:
  "driver_ok tab d \<Longrightarrow> same_table tab backlog (kern d) k \<Longrightarrow> handled tab backlog d (set_kern k d)"
  by (simp add: handled_def same_table_def driver_ok_same)

context posix_kernel
begin

lemma UnixServer_notify_ok:
  assumes ok: "driver_ok tab d" and f: "\<And>g. f = Some g \<Longrightarrow> feeder_at (snd (conv d)) g \<noteq> None"
  shows "\<exists>d'. UnixServer_notify os b f evmask d = Some d' \<and> handled tab backlog d d'"
proof -
  obtain r k where rk: "sys_accept os (file_descriptor b) (kern d) = (r, k)" by fastforce
  consider (skip) "evmask AND EPOLLIN = 0 \<or> f = None" | (fail) g where "f = Some g" "evmask AND EPOLLIN \<noteq> 0" "r < 0"
    | (new) g where "f = Some g" "evmask AND EPOLLIN \<noteq> 0" "0 \<le> r" by fastforce
  then show ?thesis
  proof cases
    case skip
    with ok show ?thesis by (auto simp: UnixServer_notify_def intro: handled_refl)
  next
    case fail
    with accept [OF rk] rk ok show ?thesis
      by (auto simp: UnixServer_notify_def syscall_def intro: handled_same)
  next
    case new
    let ?d = "set_kern k d"
    from accept [OF rk] new(3) have k: "opens tab (kern d) r k" "Suc (Suc (backlog k)) \<le> backlog (kern d)" by auto
    note ok1 = driver_ok_opens [OF ok k(1)]
    obtain a d1 where d1: "UnixIoStream_new os r 0 (EPOLLIN OR EPOLLOUT) ?d = (a, d1)" by fastforce
    have n1: "driver_ok tab d1" "event_port d1 = event_port d" "a = next_owner d" "owners d1 a \<noteq> None"
      "\<forall>x. x \<noteq> a \<longrightarrow> owners d1 x = owners d x"
      "feeder_at (snd (conv d1)) = feeder_at (snd (conv d))" "backlog (kern d1) \<le> Suc (backlog k)"
      using new_owner_ok [OF ok1 _ _ d1 [unfolded UnixIoStream_new_def]] opens_not_pipe [OF ok k(1)] by auto
    have free: "owners d a = None" using ok n1(3) by (simp add: driver_ok_def)
    from feed_ok [OF n1(1), of g "Stream a"] f new(1) n1(6) obtain d2 where d2: "on_conv (feeder_feed g (Stream a)) d1 = Some d2"
      "driver_ok tab d2" "conv_frame d1 d2" by auto
    note fr = conv_frameD [OF d2(3)]
    obtain fe where fe: "feeder_at (snd (conv d1)) g = Some fe" using f new(1) n1(6) by auto
    have "\<exists>d'. (if fe = None then delete_owner os a d2 else Some d2) = Some d' \<and> handled tab backlog d d'"
    proof (cases "fe = None")
      case True
      from n1(4) fr(2) obtain n where "owners d2 a = Some n" by auto
      from delete_owner_ok [OF d2(2) this] True n1 fr free k(2) show ?thesis by (auto simp: handled_def)
    next
      case False
      have "owners d2 x \<noteq> None" if "owners d x \<noteq> None" for x
        using that n1(4,5) fr(2) free by (cases "x = a") auto
      with False d2(2) n1 fr k(2) show ?thesis by (auto simp: handled_def)
    qed
    with new rk d1 d2(1) fe show ?thesis
      by (simp add: UnixServer_notify_def syscall_def feed_stream_def)
  qed
qed

lemma notify_ok:
  assumes ok: "driver_ok tab d" and n: "owners d a = Some n"
  shows "\<exists>d'. notify os a evmask d = Some d' \<and> handled tab backlog d d'"
proof -
  from ok have hold: "holders_ok d" by (simp add: driver_ok_def)
  note live = owner_feeders [OF hold n]
  show ?thesis
  proof (cases n)
    case (UnixIoStream b r c w)
    with UnixIoStream_notify_ok [OF ok, of b r c w evmask] live n show ?thesis
      by (auto simp: notify_def intro: handled_frame)
  next
    case (UnixServer b f)
    with UnixServer_notify_ok [OF ok, of f b evmask] n live show ?thesis by (auto simp: notify_def)
  next
    case (UnixDatagram b r w)
    with UnixDatagram_notify_ok [OF ok, of b r w evmask] live n show ?thesis
      by (auto simp: notify_def intro: handled_frame)
  qed
qed

end

section \<open>Polling\<close>

lemma feed_listeners_ok:
  assumes "driver_ok tab d" and "\<And>f. f \<in> set fs \<Longrightarrow> feeder_at (snd (conv d)) f \<noteq> None"
  shows "\<exists>d'. feed_listeners fs d = Some d' \<and> driver_ok tab d' \<and> conv_frame d d'"
  using assms
proof (induction fs arbitrary: d)
  case (Cons f fs)
  from Cons.prems have live: "conv_ok (conv d)" "feeder_at (snd (conv d)) f \<noteq> None" by (auto simp: driver_ok_def)
  from feeder_space_ok [OF this] obtain n where n: "feeder_space f (conv d) = Some n" by blast
  from feed_ok [OF Cons.prems(1) live(2), of Void] Cons.prems(1) obtain d1 where d1:
    "(if n > 0 then on_conv (feeder_feed f Void) d else Some d) = Some d1" "driver_ok tab d1" "conv_frame d d1"
    "feeder_at (snd (conv d1)) = feeder_at (snd (conv d))" by (cases "n > 0") auto
  from Cons.IH [OF d1(2)] Cons.prems(2) d1(4) obtain d2 where "feed_listeners fs d1 = Some d2" "driver_ok tab d2"
    "conv_frame d1 d2" by auto
  with n d1 show ?case by (auto intro: conv_frame_trans simp del: if_split)
qed simp

lemma notifySignalListener_ok:
  assumes "driver_ok tab d"
  shows "\<exists>d'. notifySignalListener sig d = Some d' \<and> driver_ok tab d' \<and> conv_frame d d'"
proof -
  have "feeder_at (snd (conv d)) f \<noteq> None" if "f \<in> set (equal_range s (signal_conveyors (event_port d)))" for f s
    using assms that by (auto simp: driver_ok_def holders_ok_def listeners_def equal_range_def)
  with feed_listeners_ok [OF assms] show ?thesis by (simp add: notifySignalListener_def)
qed

text \<open>The events of a batch stay meaningful while the ones before them are handled.\<close>

definition event_ok :: "('k, 'u) driver \<Rightarrow> epoll_event \<Rightarrow> bool" where
  "event_ok d ev \<longleftrightarrow> (ee_data ev = 1 \<longrightarrow> pipefds (event_port d) \<noteq> None) \<and> (2 \<le> ee_data ev \<longrightarrow> owners d (ee_data ev) \<noteq> None)"

lemma event_ok_handled: "event_ok d ev \<Longrightarrow> handled tab backlog d d' \<Longrightarrow> event_ok d' ev"
  by (auto simp: event_ok_def handled_def)

lemma event_ok_set_kern [simp]: "event_ok (set_kern k d) = event_ok d"
  by (simp add: event_ok_def fun_eq_iff)

lemma interest_event_ok:
  assumes "driver_ok tab d" and "interest (tab (kern d)) (epoll_fd (event_port d)) fd = Some ev'" and "ee_data ev' = ee_data ev"
  shows "event_ok d ev"
proof -
  from assms(1,2) have "entry_ok d fd ev'" by (simp add: driver_ok_def interest_ok_def)
  with assms(3) show ?thesis by (auto simp: entry_ok_def event_ok_def owner_fd_def split: if_splits)
qed

context posix_kernel
begin

lemma read_signals_ok:
  assumes "driver_ok tab d"
  shows "\<exists>d'. read_signals os d = Some d' \<and> handled tab backlog d d'"
  using assms
proof (induction "backlog (kern d)" arbitrary: d rule: less_induct)
  case less
  obtain r k where rk: "sys_read_siginfo os (signal_fd (event_port d)) (kern d) = (r, k)" by fastforce
  show ?case
  proof (cases r)
    case None
    with rk read_siginfo_none handled_same [OF less.prems] show ?thesis
      by (subst read_signals.simps) (auto simp: syscall_def)
  next
    case (Some ns)
    obtain n sig where ns: "ns = (n, sig)" by fastforce
    from read_siginfo_some rk Some ns have k: "n = sizeof_siginfo" "tab k = tab (kern d)" "backlog k < backlog (kern d)"
      by auto
    from notifySignalListener_ok [OF driver_ok_same [OF less.prems k(2)], of sig] obtain d1 where d1:
      "notifySignalListener sig (set_kern k d) = Some d1" "driver_ok tab d1" "conv_frame (set_kern k d) d1" by blast
    note fr = conv_frameD [OF d1(3)]
    from less.hyps [OF _ d1(2)] k(3) fr(4) obtain d' where "read_signals os d1 = Some d'" "handled tab backlog d1 d'" by auto
    with rk Some ns k d1(1) fr show ?thesis
      by (subst read_signals.simps) (auto simp: syscall_def handled_def)
  qed
qed

lemma read_pipe_ok:
  assumes "driver_ok tab d" and "fd \<in> pipe_fds (tab (kern d))"
  shows "\<exists>d'. read_pipe os fd d = Some d' \<and> handled tab backlog d d'"
proof -
  obtain r k where rk: "sys_recv os fd 1 (kern d) = (r, k)" by fastforce
  from recv [OF rk] assms rk handled_same [OF assms(1)] show ?thesis
    by (subst read_pipe.simps) (auto simp: syscall_def)
qed

lemma handle_event_ok:
  assumes ok: "driver_ok tab d" and ev: "event_ok d ev"
  shows "\<exists>d'. handle_event os ev d = Some d' \<and> handled tab backlog d d'"
proof -
  consider "ee_data ev = 0" | r w where "ee_data ev = 1" "pipefds (event_port d) = Some (r, w)"
    | n where "ee_data ev \<ge> 2" "owners d (ee_data ev) = Some n"
    using ev unfolding event_ok_def by (cases "ee_data ev"; cases "ee_data ev - 1") auto
  then show ?thesis
  proof cases
    case 1
    with read_signals_ok [OF ok] show ?thesis by (simp add: handle_event_def)
  next
    case 2
    with ok have "r \<in> pipe_fds (tab (kern d))" by (simp add: driver_ok_def pipe_ok_def)
    with read_pipe_ok [OF ok this] 2 handled_refl [OF ok] show ?thesis by (simp add: handle_event_def)
  next
    case 3
    with notify_ok [OF ok 3(2)] show ?thesis by (simp add: handle_event_def)
  qed
qed

lemma handle_events_ok:
  assumes "driver_ok tab d" and "\<And>ev. ev \<in> set evs \<Longrightarrow> event_ok d ev"
  shows "\<exists>d'. handle_events os evs d = Some d' \<and> handled tab backlog d d'"
  using assms
proof (induction evs arbitrary: d)
  case Nil
  then show ?case by (simp add: handled_refl)
next
  case (Cons ev evs)
  from handle_event_ok [OF Cons.prems(1)] Cons.prems(2) obtain d1 where d1: "handle_event os ev d = Some d1"
    "handled tab backlog d d1" by auto
  have "event_ok d1 x" if "x \<in> set evs" for x using Cons.prems(2) that event_ok_handled [OF _ d1(2)] by simp
  with Cons.IH [of d1] d1(2) obtain d2 where "handle_events os evs d1 = Some d2" "handled tab backlog d1 d2"
    by (auto simp: handled_def)
  with d1 show ?case by (auto intro: handled_trans)
qed

text \<open>Polling returns, whatever the kernel reports.\<close>

lemma pollImpl_ok:
  assumes "driver_ok tab d"
  shows "\<exists>b d'. pollImpl os time d = Some (b, d') \<and> handled tab backlog d d'"
  using assms
proof (induction "backlog (kern d)" arbitrary: d rule: less_induct)
  case less
  let ?e = "epoll_fd (event_port d)"
  obtain r k where rk: "sys_epoll_wait os ?e MAX_EPOLL_EVENTS time (kern d) = (r, k)" by fastforce
  show ?case
  proof (cases r)
    case None
    with rk epoll_wait_none handled_same [OF less.prems] show ?thesis
      by (subst pollImpl.simps) (auto simp: syscall_def)
  next
    case (Some evs)
    from epoll_wait_some rk Some have k: "tab k = tab (kern d)" "backlog k \<le> backlog (kern d)"
      "length evs = MAX_EPOLL_EVENTS \<Longrightarrow> backlog k < backlog (kern d)"
      "\<And>ev. ev \<in> set evs \<Longrightarrow> \<exists>fd ev'. interest (tab (kern d)) ?e fd = Some ev' \<and> ee_data ev' = ee_data ev"
      by (fastforce simp: MAX_EPOLL_EVENTS_def)+
    note ok1 = driver_ok_same [OF less.prems k(1)]
    have "event_ok (set_kern k d) ev" if "ev \<in> set evs" for ev
      using k(4) [OF that] interest_event_ok [OF less.prems] by auto
    from handle_events_ok [OF ok1 this] obtain d1 where d1: "handle_events os evs (set_kern k d) = Some d1"
      "handled tab backlog (set_kern k d) d1" by blast
    then have d2: "driver_ok tab d1" "handled tab backlog d d1" using k(2) by (auto simp: handled_def)
    show ?thesis
    proof (cases "length evs = MAX_EPOLL_EVENTS")
      case True
      with k(3) d1(2) have "backlog (kern d1) < backlog (kern d)" by (simp add: handled_def)
      from less.hyps [OF this d2(1)] obtain b d' where "pollImpl os time d1 = Some (b, d')" "handled tab backlog d1 d'" by auto
      with rk Some d1(1) True handled_trans [OF d2(2)] show ?thesis
        by (subst pollImpl.simps) (auto simp: syscall_def)
    next
      case False
      with rk Some d1(1) d2(2) show ?thesis by (subst pollImpl.simps) (auto simp: syscall_def)
    qed
  qed
qed

end

end
