(* ===== verification/Unix_Driver_Correct.thy ===== *)
theory Unix_Driver_Correct
  imports Unix_Driver_Safety
begin

text \<open>
  What the unix driver does right: network calls leave no descriptor behind, the interest list of epoll
  never refers to a destroyed owner in any state the driver can reach, polling returns and feeds exactly
  the conveyors of the events reported. The steps of a program that uses the driver are the inductive
  relation \<open>driver_step\<close>.
\<close>

section \<open>Opening and closing descriptors\<close>

text \<open>
  The effect of a network call on the descriptors: either nothing is left behind, or one new descriptor
  is open, which belongs to one new owner.
\<close>

definition leaves_nothing :: "('k \<Rightarrow> fd_table) \<Rightarrow> ('k, 'u) driver \<Rightarrow> ('k, 'u) driver \<Rightarrow> bool" where
  "leaves_nothing tab d d' \<longleftrightarrow> open_fds (tab (kern d')) = open_fds (tab (kern d)) \<and> owners d' = owners d"

definition adds_owner :: "('k \<Rightarrow> fd_table) \<Rightarrow> addr \<Rightarrow> ('k, 'u) driver \<Rightarrow> ('k, 'u) driver \<Rightarrow> bool" where
  "adds_owner tab a d d' \<longleftrightarrow> (\<exists>fd n. fd \<notin> open_fds (tab (kern d)) \<and> open_fds (tab (kern d')) = insert fd (open_fds (tab (kern d)))
     \<and> owners d a = None \<and> owners d' = (owners d)(a := Some n) \<and> file_descriptor (owner_base n) = fd
     \<and> feeders_of n = [])"

context posix_kernel
begin

lemma SocketAddress_parse_table: "SocketAddress_parse os str port k = Some (as, k') \<Longrightarrow> tab k' = tab k"
  by (auto simp: SocketAddress_parse_def Let_def dest!: getaddrinfo split: prod.splits option.splits bind_splits)

lemma translate_table:
  assumes "translate os addr d = Some (address, d')"
  obtains k where "d' = set_kern k d" and "tab k = tab (kern d)"
  using assms
  by (auto simp: translate_def translateNetworkAddressToUnixNetworkAddress_def
      split: NetworkAddress.splits bind_splits dest!: SocketAddress_parse_table)

lemma SocketAddress_bind_table: "SocketAddress_bind os a fd k = (r, k') \<Longrightarrow> tab k' = tab k"
  using setsockopt [of fd IPV6_V6ONLY 0 k "fst (sys_setsockopt os fd IPV6_V6ONLY 0 k)" "snd (sys_setsockopt os fd IPV6_V6ONLY 0 k)"]
  by (auto simp: SocketAddress_bind_def Let_def split: prod.splits if_splits dest: bind)

lemma open_socket_table:
  assumes "open_socket os address type d = Some (fd, d')"
  obtains k where "d' = set_kern k d" and "if fd < 0 then tab k = tab (kern d) else opens tab (kern d) fd k"
proof -
  from assms obtain a k where "SocketAddress_socket os a type (kern d) = Some (fd, k)" "d' = set_kern k d"
    by (auto simp: open_socket_def split: bind_splits)
  then show ?thesis using that socket by (auto simp: SocketAddress_socket_def split: bind_splits)
qed

lemma socket_opened:
  assumes "translate os addr d = Some (address, d1)" and "open_socket os address type d1 = Some (fd, d2)"
  obtains k where "d2 = set_kern k d" and "if fd < 0 then tab k = tab (kern d) else opens tab (kern d) fd k"
proof -
  from translate_table [OF assms(1)] obtain k1 where k1: "d1 = set_kern k1 d" "tab k1 = tab (kern d)" .
  from open_socket_table [OF assms(2)] obtain k2 where "d2 = set_kern k2 d1"
    "if fd < 0 then tab k2 = tab (kern d1) else opens tab (kern d1) fd k2" .
  with that [of k2] k1 show ?thesis by (simp add: opens_def split: if_splits)
qed

lemma connect_loop_table: "connect_loop os fd as k = (r, k') \<Longrightarrow> tab k' = tab k"
proof (induction as arbitrary: k)
  case (Cons a as)
  obtain e k1 where k1: "sys_connect os fd (sa_raw a) k = (e, k1)" by fastforce
  with connect [OF k1] Cons show ?case by (auto split: option.splits if_splits)
qed simp

text \<open>Giving up: the socket is closed again.\<close>

lemma give_up:
  assumes ok: "driver_ok tab d" and fd: "if fd < 0 then tab k = tab (kern d) else opens tab (kern d) fd k"
    and k': "tab k' = tab k"
  shows "driver_ok tab (set_kern (sys_close os fd k') d) \<and> leaves_nothing tab d (set_kern (sys_close os fd k') d)"
proof -
  have ok': "driver_ok tab (set_kern k' d)"
    using fd k' driver_ok_same [OF ok] driver_ok_opens [OF ok] by (auto simp: opens_def split: if_splits)
  have np: "not_pipe (event_port d) fd"
  proof (cases "fd < 0")
    case True
    then show ?thesis using ok pipes_open [of "kern d"] fds_nonneg [of fd "kern d"]
      by (auto simp: driver_ok_def pipe_ok_def not_pipe_def)
  next
    case False
    then show ?thesis using fd opens_not_pipe [OF ok] by simp
  qed
  have "open_fds (tab (sys_close os fd k')) = open_fds (tab (kern d))"
    using fd k' close_rest(2) [of fd k'] fds_nonneg [of fd "kern d"]
    by (auto simp: opens_def split: if_splits)
  with driver_ok_close [OF ok'] np show ?thesis by (simp add: leaves_nothing_def)
qed

text \<open>Success: the new socket gets its owner.\<close>

lemma take_over:
  assumes ok: "driver_ok tab d" and fd: "opens tab (kern d) fd k" and k': "tab k' = tab k"
    and new: "new_owner os n (set_kern k' d) = (a, d')" and n: "feeders_of n = []" "file_descriptor (owner_base n) = fd"
  shows "driver_ok tab d' \<and> adds_owner tab a d d' \<and> event_port d' = event_port d"
proof -
  have ok': "driver_ok tab (set_kern k' d)" using driver_ok_opens [OF ok, of fd k'] fd k' by (simp add: opens_def)
  have free: "owners d (next_owner d) = None" using ok by (simp add: driver_ok_def)
  have "not_pipe (event_port (set_kern k' d)) (file_descriptor (owner_base n))"
    using opens_not_pipe [OF ok fd] n(2) by simp
  from new_owner_ok [OF ok' this n(1) new] fd k' free n show ?thesis
    by (auto simp: adds_owner_def opens_def)
qed

lemma listen_ok:
  assumes "driver_ok tab d" and "UnixNetwork_listen os addr d = Some (r, d')"
  shows "driver_ok tab d' \<and> (case r of None \<Rightarrow> leaves_nothing tab d d' | Some a \<Rightarrow> adds_owner tab a d d')"
proof -
  from assms(2) obtain address d1 fd d2 where d: "translate os addr d = Some (address, d1)"
    "open_socket os address SOCK_STREAM d1 = Some (fd, d2)" "unixAddressSize address > 0"
    by (auto simp: UnixNetwork_listen_def split: bind_splits)
  from socket_opened [OF d(1,2)] obtain k2 where k2: "d2 = set_kern k2 d"
    and fd: "if fd < 0 then tab k2 = tab (kern d) else opens tab (kern d) fd k2" .
  obtain rc k3 where k3: "sys_setsockopt os fd SO_REUSEADDR 1 k2 = (rc, k3)" by fastforce
  note t3 = setsockopt [OF k3]
  obtain a where a: "unixAddress address 0 = Some a" using d(3) by (auto simp: unixAddress_def unixAddressSize_def)
  obtain failed k4 where k4: "SocketAddress_bind os a fd k3 = (failed, k4)" by fastforce
  obtain rl k5 where k5: "sys_listen os fd k4 = (rl, k5)" by fastforce
  have t: "tab k3 = tab k2" "tab k4 = tab k2" "tab k5 = tab k2"
    using t3 SocketAddress_bind_table [OF k4] listen [OF k5] by simp_all
  consider "fd < 0" | "0 \<le> fd" "rc < 0" | "0 \<le> fd" "0 \<le> rc" failed | "0 \<le> fd" "0 \<le> rc" "\<not> failed" by linarith
  then show ?thesis
  proof cases
    case 1
    then have "r = None \<and> d' = set_kern k2 d" using assms(2) d k2 by (simp add: UnixNetwork_listen_def)
    with 1 fd driver_ok_same [OF assms(1)] show ?thesis by (simp add: leaves_nothing_def)
  next
    case 2
    then have "r = None \<and> d' = set_kern (sys_close os fd k3) d"
      using assms(2) d k2 k3 by (simp add: UnixNetwork_listen_def syscall_def)
    with give_up [OF assms(1) fd t(1)] show ?thesis by simp
  next
    case 3
    then have "r = None \<and> d' = set_kern (sys_close os fd k4) d"
      using assms(2) d k2 k3 k4 a by (simp add: UnixNetwork_listen_def syscall_def)
    with give_up [OF assms(1) fd t(2)] show ?thesis by simp
  next
    case 4
    then obtain b where "UnixServer_new os fd 0 (set_kern k5 d) = (b, d')" "r = Some b"
      using assms(2) d k2 k3 k4 k5 a by (auto simp: UnixNetwork_listen_def syscall_def split: prod.splits)
    with take_over [OF assms(1) _ t(3)] fd 4 show ?thesis by (fastforce simp: UnixServer_new_def)
  qed
qed

lemma datagram_ok:
  assumes "driver_ok tab d" and "UnixNetwork_datagram os addr d = Some (r, d')"
  shows "driver_ok tab d' \<and> (case r of None \<Rightarrow> leaves_nothing tab d d' | Some a \<Rightarrow> adds_owner tab a d d')"
proof -
  from assms(2) obtain address d1 fd d2 where d: "translate os addr d = Some (address, d1)"
    "open_socket os address SOCK_DGRAM d1 = Some (fd, d2)" "unixAddressSize address > 0"
    by (auto simp: UnixNetwork_datagram_def split: bind_splits)
  from socket_opened [OF d(1,2)] obtain k2 where k2: "d2 = set_kern k2 d"
    and fd: "if fd < 0 then tab k2 = tab (kern d) else opens tab (kern d) fd k2" .
  obtain rc k3 where k3: "sys_setsockopt os fd SO_REUSEADDR 1 k2 = (rc, k3)" by fastforce
  note t3 = setsockopt [OF k3]
  obtain a where a: "unixAddress address 0 = Some a" using d(3) by (auto simp: unixAddress_def unixAddressSize_def)
  obtain failed k4 where k4: "SocketAddress_bind os a fd k3 = (failed, k4)" by fastforce
  have t: "tab k3 = tab k2" "tab k4 = tab k2"
    using t3 SocketAddress_bind_table [OF k4] by simp_all
  consider "rc < 0" | "0 \<le> fd" "0 \<le> rc" failed | "0 \<le> fd" "0 \<le> rc" "\<not> failed" using t3 by linarith
  then show ?thesis
  proof cases
    case 1
    then have "r = None \<and> d' = set_kern (sys_close os fd k3) d"
      using assms(2) d k2 k3 by (simp add: UnixNetwork_datagram_def syscall_def)
    with give_up [OF assms(1) fd t(1)] show ?thesis by simp
  next
    case 2
    then have "r = None \<and> d' = set_kern (sys_close os fd k4) d"
      using assms(2) d k2 k3 k4 a by (simp add: UnixNetwork_datagram_def syscall_def)
    with give_up [OF assms(1) fd t(2)] show ?thesis by simp
  next
    case 3
    then obtain b where "UnixDatagram_new os fd 0 (set_kern k4 d) = (b, d')" "r = Some b"
      using assms(2) d k2 k3 k4 a by (auto simp: UnixNetwork_datagram_def syscall_def split: prod.splits)
    with take_over [OF assms(1) _ t(2)] fd 3 show ?thesis by (fastforce simp: UnixDatagram_new_def)
  qed
qed

end

text \<open>The conveyors that a network call returns hold their result already.\<close>

definition holds_result :: "conveyor \<Rightarrow> io_value error_or \<Rightarrow> ('k, 'u) driver \<Rightarrow> bool" where
  "holds_result c x d \<longleftrightarrow> (\<exists>n. c = \<lparr>cv_node = Some n, cv_storage = Some n\<rparr>
     \<and> obj_at (snd (conv d)) n = Some (ImmediateConveyorNode x 0))"

lemma conveyor_of_ok:
  assumes "driver_ok tab d"
  shows "\<exists>c d'. conveyor_of_value v d = Some (c, d') \<and> driver_ok tab d' \<and> conv_frame d d' \<and> holds_result c (IsValue v) d'"
    and "\<exists>c d'. conveyor_of_error e d = Some (c, d') \<and> driver_ok tab d' \<and> conv_frame d d' \<and> holds_result c (IsError e) d'"
proof -
  have conv: "conv_ok (conv d)" using assms by (simp add: driver_ok_def)
  have "\<exists>n st. new_storage (ImmediateConveyorNode x 0) None (conv d) = Some (n, st) \<and> driver_ok tab (d\<lparr>conv := st\<rparr>)
    \<and> conv_frame d (d\<lparr>conv := st\<rparr>) \<and> holds_result \<lparr>cv_node = Some n, cv_storage = Some n\<rparr> x (d\<lparr>conv := st\<rparr>)" for x
  proof -
    from immediate_ok [OF conv, of x] obtain n st where st: "new_storage (ImmediateConveyorNode x 0) None (conv d) = Some (n, st)"
      "conv_ok st" "feeder_at (snd st) = feeder_at (snd (conv d))" "user (snd st) = user (snd (conv d))"
      "obj_at (snd st) = (obj_at (snd (conv d)))(n := Some (ImmediateConveyorNode x 0))" by blast
    have "driver_ok tab (d\<lparr>conv := st\<rparr>)"
      by (rule driver_ok_conv [OF assms st(2)]) (simp_all add: st kern_def)
    with st show ?thesis by (auto simp: conv_frame_def holds_result_def)
  qed
  from this [of "IsValue v"] this [of "IsError e"]
  show "\<exists>c d'. conveyor_of_value v d = Some (c, d') \<and> driver_ok tab d' \<and> conv_frame d d' \<and> holds_result c (IsValue v) d'"
    and "\<exists>c d'. conveyor_of_error e d = Some (c, d') \<and> driver_ok tab d' \<and> conv_frame d d' \<and> holds_result c (IsError e) d'"
    by (auto simp: conveyor_of_value_def Conveyor_value_def conveyor_of_error_def Conveyor_error_def)
qed

lemma leaves_nothing_frame: "leaves_nothing tab d d1 \<Longrightarrow> conv_frame d1 d' \<Longrightarrow> leaves_nothing tab d d'"
  by (simp add: leaves_nothing_def conv_frameD)

lemma adds_owner_frame: "adds_owner tab a d d1 \<Longrightarrow> conv_frame d1 d' \<Longrightarrow> adds_owner tab a d d'"
  by (simp add: adds_owner_def conv_frameD)

lemma adds_owner_same: "adds_owner tab a d d1 \<Longrightarrow> tab k = tab (kern d1) \<Longrightarrow> adds_owner tab a d (set_kern k d1)"
  by (simp add: adds_owner_def)

context posix_kernel
begin

lemma delete_added:
  assumes "driver_ok tab d1" and "adds_owner tab a d d1"
  shows "\<exists>d'. delete_owner os a d1 = Some d' \<and> driver_ok tab d' \<and> leaves_nothing tab d d'
    \<and> obj_at (snd (conv d')) = obj_at (snd (conv d1))"
proof -
  from assms(2) obtain fd n where n: "fd \<notin> open_fds (tab (kern d))" "open_fds (tab (kern d1)) = insert fd (open_fds (tab (kern d)))"
    "owners d a = None" "owners d1 = (owners d)(a := Some n)" "file_descriptor (owner_base n) = fd"
    "feeders_of n = []" by (auto simp: adds_owner_def)
  have "0 \<le> fd" using fds_nonneg [of fd "kern d1"] n(2) by simp
  with delete_owner_ok [OF assms(1), of a n] n obtain d' where d': "delete_owner os a d1 = Some d'" "driver_ok tab d'"
    "leaves_nothing tab d d'" by (auto simp: leaves_nothing_def fun_upd_idem)
  have "obj_at (snd (conv (IFdOwner_delete os b d1))) = obj_at (snd (conv d1))" for b
    by (rule IFdOwner_delete_cases [of b d1]) simp
  with d' n(4,6) show ?thesis by (auto simp: delete_owner_def drop_feeders_list)
qed

lemma connect_ok:
  assumes "driver_ok tab d" and "UnixNetwork_connect os addr d = Some (c, d')"
  shows "driver_ok tab d' \<and> (\<exists>a. holds_result c (IsValue (Stream a)) d' \<and> adds_owner tab a d d'
    \<or> (\<exists>e. holds_result c (IsError e) d' \<and> isCritical e \<and> leaves_nothing tab d d'))"
proof -
  from assms(2) obtain address d1 fd d2 where d: "translate os addr d = Some (address, d1)"
    "open_socket os address SOCK_STREAM d1 = Some (fd, d2)" "unixAddressSize address > 0"
    by (auto simp: UnixNetwork_connect_def split: bind_splits)
  from socket_opened [OF d(1,2)] obtain k2 where k2: "d2 = set_kern k2 d"
    and fd: "if fd < 0 then tab k2 = tab (kern d) else opens tab (kern d) fd k2" .
  show ?thesis
  proof (cases "fd < 0")
    case True
    with fd have ok2: "driver_ok tab d2" "leaves_nothing tab d d2"
      using driver_ok_same [OF assms(1)] k2 by (simp_all add: leaves_nothing_def)
    have "conveyor_of_error (criticalError ''Couldn't open socket'') d2 = Some (c, d')"
      using assms(2) d True by (simp add: UnixNetwork_connect_def)
    with conveyor_of_ok(2) [OF ok2(1), of "criticalError ''Couldn't open socket''"] leaves_nothing_frame [OF ok2(2)]
    show ?thesis by auto
  next
    case False
    obtain a d3 where d3: "UnixIoStream_new os fd 0 (EPOLLIN OR EPOLLOUT) d2 = (a, d3)" by fastforce
    have ok3: "driver_ok tab d3" "adds_owner tab a d d3"
      using take_over [OF assms(1), of fd k2 k2 _ a d3] fd False d3 k2 by (auto simp: UnixIoStream_new_def)
    obtain r k4 where k4: "connect_loop os fd (una_addresses address) (kern d3) = (r, k4)" by fastforce
    let ?d4 = "set_kern k4 d3"
    note t = connect_loop_table [OF k4]
    have ok4: "driver_ok tab ?d4" "adds_owner tab a d ?d4"
      using driver_ok_same [OF ok3(1) t] adds_owner_same [OF ok3(2) t] by simp_all
    show ?thesis
    proof (cases "r = Some True")
      case True
      then have "conveyor_of_value (Stream a) ?d4 = Some (c, d')"
        using assms(2) d False d3 k4 by (simp add: UnixNetwork_connect_def syscall_def)
      with conveyor_of_ok(1) [OF ok4(1), of "Stream a"] adds_owner_frame [OF ok4(2)] show ?thesis by auto
    next
      case no: False
      from conveyor_of_ok(2) [OF ok4(1), of "criticalError ''Couldn't connect''"] obtain c5 d5 where
        d5: "conveyor_of_error (criticalError ''Couldn't connect'') ?d4 = Some (c5, d5)" "driver_ok tab d5"
          "conv_frame ?d4 d5" "holds_result c5 (IsError (criticalError ''Couldn't connect'')) d5" by blast
      from delete_added [OF d5(2) adds_owner_frame [OF ok4(2) d5(3)]] obtain d6 where
        d6: "delete_owner os a d5 = Some d6" "driver_ok tab d6" "leaves_nothing tab d d6"
          "obj_at (snd (conv d6)) = obj_at (snd (conv d5))" by blast
      have "c = c5 \<and> d' = d6"
        using assms(2) d False d3 k4 no d5(1) d6(1) by (simp add: UnixNetwork_connect_def syscall_def)
      with d6 d5(4) show ?thesis by (auto simp: holds_result_def)
    qed
  qed
qed

end

section \<open>Steps of the driver\<close>

text \<open>
  A step is a call of a function of the driver, in any order, or anything the rest of the program does
  with its conveyors and the kernel (\<open>client\<close>), as long as the conveyors stay intact, no feeder is
  destroyed, and the descriptors and registrations stay as they are. A descriptor given to \<open>wrapInputFd\<close> is
  not the pipe of the port.
\<close>

inductive driver_step :: "'k os \<Rightarrow> ('k \<Rightarrow> fd_table) \<Rightarrow> ('k, 'u) driver \<Rightarrow> ('k, 'u) driver \<Rightarrow> bool"
  for os :: "'k os" and tab :: "'k \<Rightarrow> fd_table" where
  read_ready: "UnixIoStream_readReady a d = Some (c, d') \<Longrightarrow> driver_step os tab d d'"
| read_disconnected: "UnixIoStream_onReadDisconnected a d = Some (c, d') \<Longrightarrow> driver_step os tab d d'"
| write_ready: "UnixIoStream_writeReady a d = Some (c, d') \<Longrightarrow> driver_step os tab d d'"
| accept: "UnixServer_accept a d = Some (c, d') \<Longrightarrow> driver_step os tab d d'"
| datagram_read_ready: "UnixDatagram_readReady a d = Some (c, d') \<Longrightarrow> driver_step os tab d d'"
| datagram_write_ready: "UnixDatagram_writeReady a d = Some (c, d') \<Longrightarrow> driver_step os tab d d'"
| on_signal: "onSignal os sig d = Some (c, d') \<Longrightarrow> driver_step os tab d d'"
| poll: "pollImpl os time d = Some (b, d') \<Longrightarrow> driver_step os tab d d'"
| wake: "wake os d = Some d' \<Longrightarrow> driver_step os tab d d'"
| listen: "UnixNetwork_listen os addr d = Some (r, d') \<Longrightarrow> driver_step os tab d d'"
| connect: "UnixNetwork_connect os addr d = Some (c, d') \<Longrightarrow> driver_step os tab d d'"
| datagram: "UnixNetwork_datagram os addr d = Some (r, d') \<Longrightarrow> driver_step os tab d d'"
| parse_address: "UnixNetwork_parseAddress os str port d = Some (c, d') \<Longrightarrow> driver_step os tab d d'"
| wrap_input: "not_pipe (event_port d) fd \<Longrightarrow> wrapInputFd os fd d = (a, d') \<Longrightarrow> driver_step os tab d d'"
| destroy: "delete_owner os a d = Some d' \<Longrightarrow> driver_step os tab d d'"
| client: "conv_ok st \<Longrightarrow> tab (fst (user (snd st))) = tab (kern d) \<Longrightarrow>
    (\<And>f. feeder_at (snd (conv d)) f \<noteq> None \<Longrightarrow> feeder_at (snd st) f \<noteq> None) \<Longrightarrow> driver_step os tab d (d\<lparr>conv := st\<rparr>)"

inductive reachable :: "'k os \<Rightarrow> ('k \<Rightarrow> fd_table) \<Rightarrow> ('k, 'u) driver \<Rightarrow> bool"
  for os :: "'k os" and tab :: "'k \<Rightarrow> fd_table" where
  start: "setupAsyncIo os True k u = IsValue d \<Longrightarrow> WaitScope_new d = Some d' \<Longrightarrow> reachable os tab d'"
| step: "reachable os tab d \<Longrightarrow> driver_step os tab d d' \<Longrightarrow> reachable os tab d'"

lemmas ready_defs = UnixIoStream_readReady_def UnixIoStream_onReadDisconnected_def UnixIoStream_writeReady_def
  UnixServer_accept_def UnixDatagram_readReady_def UnixDatagram_writeReady_def

lemma somes_split: "somes (xs @ x # ys) = somes xs @ somes [x] @ somes ys"
  by (induction xs rule: somes.induct; cases x) simp_all

lemma ready_ok:
  assumes "driver_ok tab d" and "new_ready a old mk d = Some (c, d')" and "owners d a = Some n"
    and "\<And>f. owner_base (mk f) = owner_base n" and "feeders_of n = somes (xs @ old # ys)"
    and "\<And>f. feeders_of (mk f) = somes (xs @ Some f # ys)"
  shows "driver_ok tab d'"
proof -
  have "\<exists>c d'. new_ready a old mk d = Some (c, d') \<and> driver_ok tab d' \<and> event_port d' = event_port d \<and> kern d' = kern d"
    by (rule new_ready_ok [OF assms(1,3)]; cases old) (use assms(4-6) in \<open>auto simp: somes_split\<close>)
  with assms(2) show ?thesis by simp
qed

lemma ready_calls_ok:
  assumes "driver_ok tab d"
  shows "UnixIoStream_readReady a d = Some (c, d') \<Longrightarrow> driver_ok tab d'"
    and "UnixIoStream_onReadDisconnected a d = Some (c, d') \<Longrightarrow> driver_ok tab d'"
    and "UnixIoStream_writeReady a d = Some (c, d') \<Longrightarrow> driver_ok tab d'"
    and "UnixServer_accept a d = Some (c, d') \<Longrightarrow> driver_ok tab d'"
    and "UnixDatagram_readReady a d = Some (c, d') \<Longrightarrow> driver_ok tab d'"
    and "UnixDatagram_writeReady a d = Some (c, d') \<Longrightarrow> driver_ok tab d'"
  by (auto simp: ready_defs split: option.splits fd_owner.splits
      intro: ready_ok [OF assms, where xs = "[_, _]" and ys = "[]"] ready_ok [OF assms, where xs = "[_]" and ys = "[_]"]
        ready_ok [OF assms, where xs = "[]" and ys = "[_, _]"] ready_ok [OF assms, where xs = "[]" and ys = "[]"]
        ready_ok [OF assms, where xs = "[]" and ys = "[_]"] ready_ok [OF assms, where xs = "[_]" and ys = "[]"])

context posix_kernel
begin

lemma onSignal_ok:
  assumes ok: "driver_ok tab d" and on: "onSignal os sig d = Some (c, d')"
  shows "driver_ok tab d'"
proof -
  let ?F = "feeder_at (snd (conv d))" and ?p = "event_port d"
  from ok have conv: "conv_ok (conv d)" and hold: "holders_ok d" by (simp_all add: driver_ok_def)
  from newConveyorAndFeeder_ok [OF conv] obtain f c' st b where st: "newConveyorAndFeeder (conv d) = Some (f, c', st)"
    "conv_ok st" "f = next_addr (snd (conv d))" "feeder_at (snd st) = ?F(f := Some (Some b))"
    "user (snd st) = user (snd (conv d))" by blast
  from conv st(3) have f: "?F f = None" by (simp add: conv_ok_def)
  from on st(1) obtain fds where fds: "signal_fd_set ?p = Some fds" by (auto simp: onSignal_def Let_def split: bind_splits)
  let ?fds = "fds \<union> set (toUnixSignal sig)"
  let ?p' = "?p\<lparr>signal_conveyors := (sig, f) # signal_conveyors ?p, signal_fd_set := Some ?fds\<rparr>"
  let ?d = "d\<lparr>conv := st, event_port := ?p'\<rparr>"
  obtain r k where k: "sys_signalfd os (signal_fd ?p) ?fds (sys_sigprocmask os ?fds (kern d)) = (r, k)" by fastforce
  have kd: "kern (d\<lparr>conv := st, event_port := q\<rparr>) = kern d" for q using st(5) by (simp add: kern_def)
  have d': "d' = set_kern k ?d"
    using on st(1) fds k by (simp add: onSignal_def Let_def syscall_def kd)
  have "owner_fd ?d = owner_fd d" by (simp add: owner_fd_def fun_eq_iff)
  then have ent: "entry_ok ?d = entry_ok d" by (simp add: entry_ok_def fun_eq_iff)
  have lis: "listeners ?p' = insert f (listeners ?p)" by (simp add: listeners_def)
  have "holders_ok ?d" unfolding holders_ok_def
  proof (intro conjI allI impI ballI)
    fix x n g assume x: "owners ?d x = Some n"
    with hold show "distinct (feeders_of n)" by (simp add: holders_ok_def)
    assume "g \<in> set (feeders_of n)"
    with x hold have "?F g \<noteq> None" "g \<notin> listeners ?p" by (simp_all add: holders_ok_def)
    with f st(4) lis show "feeder_at (snd (conv ?d)) g \<noteq> None" "g \<notin> listeners (event_port ?d)" by auto
  next
    fix x y n m assume "owners ?d x = Some n" "owners ?d y = Some m" "x \<noteq> y"
    with hold show "set (feeders_of n) \<inter> set (feeders_of m) = {}" by (simp add: holders_ok_def)
  next
    fix g assume "g \<in> listeners (event_port ?d)"
    with hold st(4) lis show "feeder_at (snd (conv ?d)) g \<noteq> None" by (auto simp: holders_ok_def)
  qed
  then have ok': "driver_ok tab ?d"
    using ok st(2) kd ent \<open>owner_fd ?d = owner_fd d\<close> by (simp add: driver_ok_def interest_ok_def pipe_ok_def)
  have t: "tab (sys_sigprocmask os ?fds (kern d)) = tab (kern ?d)"
    using sigprocmask [of "kern d" ?fds] kd by (simp add: same_table_def)
  have "tab k = tab (kern ?d) \<or> opens tab (kern ?d) r k"
  proof (cases "signal_fd ?p = -1")
    case True
    with signalfd_new [of ?fds "sys_sigprocmask os ?fds (kern d)" r k] k t show ?thesis
      by (auto simp: opens_def split: if_splits)
  next
    case False
    with signalfd_set [OF False k] t show ?thesis by (simp add: same_table_def)
  qed
  then show ?thesis unfolding d' using driver_ok_same [OF ok'] driver_ok_opens [OF ok'] by (elim disjE) simp_all
qed

lemma wake_ok: "driver_ok tab d \<Longrightarrow> wake os d = Some d' \<Longrightarrow> driver_ok tab d'"
  by (auto simp: wake_def syscall_def same_table_def dest: send intro!: driver_ok_same split: bind_splits if_splits prod.splits)

lemma parseAddress_ok:
  assumes "driver_ok tab d" and "UnixNetwork_parseAddress os str port d = Some (c, d')"
  shows "driver_ok tab d'"
proof -
  from assms(2) obtain as k a where k: "SocketAddress_parse os a port (kern d) = Some (as, k)"
    "conveyor_of_value (Address \<lparr>una_path = str, una_port_hint = port, una_addresses = as\<rparr>) (set_kern k d) = Some (c, d')"
    by (auto simp: UnixNetwork_parseAddress_def Let_def split: bind_splits)
  from conveyor_of_ok(1) [OF driver_ok_same [OF assms(1) SocketAddress_parse_table [OF k(1)]]] k(2) show ?thesis
    by (metis option.inject prod.inject)
qed

lemma wrapInputFd_ok:
  "driver_ok tab d \<Longrightarrow> not_pipe (event_port d) fd \<Longrightarrow> wrapInputFd os fd d = (a, d') \<Longrightarrow> driver_ok tab d'"
  unfolding wrapInputFd_def UnixIoStream_new_def by (drule (1) new_owner_ok [rotated 3]) simp_all

lemma driver_step_ok:
  assumes "driver_step os tab d d'" and "driver_ok tab d"
  shows "driver_ok tab d'"
  using assms
proof (cases rule: driver_step.cases)
  case (poll time b)
  with pollImpl_ok [OF assms(2), of time] show ?thesis by (auto simp: handled_def)
next
  case (destroy a)
  then obtain n where "owners d a = Some n" by (auto simp: delete_owner_def split: bind_splits)
  with delete_owner_ok [OF assms(2)] destroy show ?thesis by fastforce
next
  case (client st)
  with driver_ok_conv [OF assms(2)] show ?thesis by blast
next
  case (read_ready a c)
  from this show ?thesis by (blast dest: ready_calls_ok(1) [OF assms(2)])
next
  case (read_disconnected a c)
  from this show ?thesis by (blast dest: ready_calls_ok(2) [OF assms(2)])
next
  case (write_ready a c)
  from this show ?thesis by (blast dest: ready_calls_ok(3) [OF assms(2)])
next
  case (accept a c)
  from this show ?thesis by (blast dest: ready_calls_ok(4) [OF assms(2)])
next
  case (datagram_read_ready a c)
  from this show ?thesis by (blast dest: ready_calls_ok(5) [OF assms(2)])
next
  case (datagram_write_ready a c)
  from this show ?thesis by (blast dest: ready_calls_ok(6) [OF assms(2)])
next
  case (on_signal sig c)
  from this show ?thesis by (blast dest: onSignal_ok [OF assms(2)])
next
  case wake
  from this show ?thesis by (blast dest: wake_ok [OF assms(2)])
next
  case (listen addr r)
  from this show ?thesis by (blast dest: listen_ok [OF assms(2)])
next
  case (connect addr c)
  from this show ?thesis by (blast dest: connect_ok [OF assms(2)])
next
  case (datagram addr r)
  from this show ?thesis by (blast dest: datagram_ok [OF assms(2)])
next
  case (parse_address str port c)
  from this show ?thesis by (blast dest: parseAddress_ok [OF assms(2)])
next
  case (wrap_input fd a)
  from this show ?thesis by (blast dest: wrapInputFd_ok [OF assms(2)])
qed

text \<open>The state after the set-up.\<close>

lemma UnixEventPort_new_ok:
  assumes "UnixEventPort_new os k = (p, k')"
  shows "(\<forall>fd e. interest (tab k') (epoll_fd p) fd = Some e \<longrightarrow>
      ee_data e = 0 \<and> fd = signal_fd p \<or> ee_data e = 1 \<and> map_option fst (pipefds p) = Some fd)
    \<and> (\<forall>r w. pipefds p = Some (r, w) \<longrightarrow> r \<in> pipe_fds (tab k')) \<and> signal_conveyors p = []"
proof -
  define k0 where "k0 = sys_ignore_sigpipe os k"
  obtain efd k1 where k1: "sys_epoll_create os k0 = (efd, k1)" by fastforce
  obtain sfd k2 where k2: "sys_signalfd os (-1) {} k1 = (sfd, k2)" by fastforce
  obtain r3 k3 where k3: "sys_epoll_add os efd sfd \<lparr>ee_events = EPOLLIN, ee_data = 0\<rparr> k2 = (r3, k3)" by fastforce
  obtain fds k4 where k4: "sys_pipe os k3 = (fds, k4)" by fastforce
  obtain r5 k5 where k5: "sys_epoll_add os efd (fst (the fds)) \<lparr>ee_events = EPOLLIN, ee_data = 1\<rparr> k4 = (r5, k5)" by fastforce
  let ?p = "\<lparr>epoll_fd = efd, signal_fd = -1, signal_fd_set = None, signal_conveyors = [], pipefds = None\<rparr>"
  note run = assms [unfolded UnixEventPort_new_def Let_def, folded k0_def, unfolded k1 prod.case k2 k3 k4]
  have i1: "\<forall>fd. interest (tab k1) efd fd = None"
    using epoll_create [OF k1] no_instance [of efd k1] by (auto split: if_splits)
  then have i2: "\<forall>fd. interest (tab k2) efd fd = None"
    using signalfd_new [OF k2] by (auto simp: opens_def split: if_splits)
  then have i3: "\<forall>fd e. interest (tab k3) efd fd = Some e \<longrightarrow> ee_data e = 0 \<and> fd = sfd"
    using epoll_add [OF k3] by (auto split: if_splits)
  consider "efd < 0" | "0 \<le> efd" "sfd < 0" | "0 \<le> efd" "0 \<le> sfd" "fds = None" | x y where "0 \<le> efd" "0 \<le> sfd" "fds = Some (x, y)"
    by (cases fds) (force+)
  then show ?thesis
  proof cases
    case 1
    with run i1 show ?thesis by auto
  next
    case 2
    with run i2 show ?thesis by auto
  next
    case 3
    with run i3 pipe_none [of k3 k4] k4 show ?thesis by auto
  next
    case 4
    then have p: "p = ?p\<lparr>signal_fd_set := Some {}, signal_fd := sfd, pipefds := Some (x, y)\<rparr>" "k' = k5" using run k5 by auto
    have t4: "tab k4 = (tab k3)\<lparr>open_fds := {x, y} \<union> open_fds (tab k3), pipe_fds := {x, y} \<union> pipe_fds (tab k3)\<rparr>"
      using pipe_some [of k3 x y k4] k4 4 by simp
    then have "x \<in> pipe_fds (tab k5)" "\<forall>fd e. interest (tab k5) efd fd = Some e \<longrightarrow>
        ee_data e = 0 \<and> fd = sfd \<or> ee_data e = 1 \<and> x = fd"
      using epoll_add [OF k5] 4(3) i3 by (auto split: if_splits)
    with p show ?thesis by auto
  qed
qed

lemma start_ok:
  fixes d d' :: "('k, 'u) driver"
  assumes "setupAsyncIo os True k u = IsValue d" and "WaitScope_new d = Some d'"
  shows "driver_ok tab d'"
proof -
  obtain p k' where p: "UnixEventPort_new os k = (p, k')" by fastforce
  have d': "d' = \<lparr>event_port = p, owners = (\<lambda>a. None), next_owner = 2, conv = start (k', u)\<rparr>"
    using assms p by (auto simp: setupAsyncIo_def WaitScope_new_def on_conv_def on_loop_def enterScope_def start_def
        EventLoop_new_def)
  have "loop_rel (fst (start (k', u) :: (io_value, 'k \<times> 'u) state)) sched_empty"
    by (simp add: start_def loop_rel_def EventLoop_new_def sched_empty_def sched_queue_def slot_content_def)
  then have "conv_ok (start (k', u) :: (io_value, 'k \<times> 'u) state)"
    by (auto simp: conv_ok_def start_def feeders_ok_def EventLoop_new_def)
  moreover have kern: "kern d' = k'" by (simp add: d' kern_def start_def)
  have "interest_ok tab d'" unfolding interest_ok_def kern
  proof (intro allI impI)
    fix fd e assume "interest (tab k') (epoll_fd (event_port d')) fd = Some e"
    with UnixEventPort_new_ok [OF p] have "ee_data e = 0 \<and> fd = signal_fd p \<or> ee_data e = 1 \<and> map_option fst (pipefds p) = Some fd"
      by (simp add: d')
    then show "entry_ok d' fd e" by (auto simp: entry_ok_def d')
  qed
  ultimately show ?thesis using UnixEventPort_new_ok [OF p] kern
    by (auto simp: d' driver_ok_def holders_ok_def listeners_def pipe_ok_def owner_fd_def)
qed

lemma reachable_ok: "reachable os tab d \<Longrightarrow> driver_ok tab d"
  by (induction rule: reachable.induct) (blast intro: start_ok driver_step_ok)+

end

section \<open>What an event feeds\<close>

text \<open>The results that wait at the node of a feeder.\<close>

definition arrived :: "('k, 'u) driver \<Rightarrow> addr \<Rightarrow> io_value error_or list option" where
  "arrived d f = (case feeder_at (snd (conv d)) f of
     Some (Some a) \<Rightarrow> (case obj_at (snd (conv d)) a of Some (AdaptConveyorNode _ ys) \<Rightarrow> Some ys | _ \<Rightarrow> None)
   | _ \<Rightarrow> None)"

text \<open>The feeders that an event of a stream or a datagram socket feeds, in order.\<close>

fun event_feeders :: "fd_owner option \<Rightarrow> 32 word \<Rightarrow> addr list" where
  "event_feeders (Some (UnixIoStream _ read_ready on_read_disconnect write_ready)) m =
     (if m AND EPOLLOUT \<noteq> 0 then somes [write_ready] else [])
     @ (if m AND EPOLLIN \<noteq> 0 then somes [read_ready] else [])
     @ (if m AND EPOLLRDHUP \<noteq> 0 then somes [on_read_disconnect] else [])"
| "event_feeders (Some (UnixDatagram _ read_ready write_ready)) m =
     (if m AND EPOLLOUT \<noteq> 0 then somes [write_ready] else [])
     @ (if m AND EPOLLIN \<noteq> 0 then somes [read_ready] else [])"
| "event_feeders _ m = []"

definition batch_feeders :: "('k, 'u) driver \<Rightarrow> epoll_event list \<Rightarrow> addr list" where
  "batch_feeders d evs = concat (map (\<lambda>ev. event_feeders (owners d (ee_data ev)) (ee_events ev)) evs)"

fun data_owner :: "fd_owner option \<Rightarrow> bool" where
  "data_owner (Some (UnixIoStream _ _ _ _)) \<longleftrightarrow> True"
| "data_owner (Some (UnixDatagram _ _ _)) \<longleftrightarrow> True"
| "data_owner _ \<longleftrightarrow> False"

fun feed_seq :: "addr list \<Rightarrow> ('k, 'u) driver \<Rightarrow> ('k, 'u) driver option" where
  "feed_seq [] d = Some d"
| "feed_seq (f # fs) d = do { d \<leftarrow> on_conv (feeder_feed f Void) d; feed_seq fs d }"

lemma feed_seq_Nil [simp]: "feed_seq [] = Some"
  by (rule ext) simp

lemma feed_seq_append: "feed_seq (xs @ ys) d = do { d \<leftarrow> feed_seq xs d; feed_seq ys d }"
proof (induction xs arbitrary: d)
  case (Cons x xs)
  then show ?case by (cases "on_conv (feeder_feed x Void) d") simp_all
qed simp

lemma feed_void_seq: "feed_void f d = feed_seq (somes [f]) d"
  by (cases f) (simp_all add: feed_void_def)

lemma feed_if_seq: "(if P then feed_void f d else Some d) = feed_seq (if P then somes [f] else []) d"
  by (simp add: feed_void_seq)

lemma notify_seq:
  assumes "data_owner (owners d a)"
  shows "notify os a evmask d = feed_seq (event_feeders (owners d a) evmask) d"
  using assms
  by (cases "owners d a" rule: data_owner.cases)
     (simp_all only: notify_def UnixIoStream_notify_def UnixDatagram_notify_def feed_if_seq event_feeders.simps
       feed_seq_append Option.bind.bind_lunit fd_owner.case data_owner.simps)

lemma arrived_fed:
  assumes "conv_ok (conv d)" and "feeder_at (snd (conv d')) = feeder_at (snd (conv d))"
    and "obj_at (snd (conv d')) = fed g v (snd (conv d))"
  shows "arrived d' f = map_option (\<lambda>ys. if f = g then ys @ [IsValue v] else ys) (arrived d f)"
proof (cases "feeder_at (snd (conv d)) g = None \<or> feeder_at (snd (conv d)) g = Some None")
  case True
  then have "obj_at (snd (conv d')) = obj_at (snd (conv d))" using assms(3) by (auto simp: fed_def)
  then have "arrived d' f = arrived d f" unfolding arrived_def assms(2) by (rule arg_cong)
  moreover have "f = g \<Longrightarrow> arrived d f = None" using True by (auto simp: arrived_def)
  ultimately show ?thesis by (cases "arrived d f") auto
next
  case False
  with assms(1) obtain a ys where a: "feeder_at (snd (conv d)) g = Some (Some a)"
    "obj_at (snd (conv d)) a = Some (AdaptConveyorNode (Some g) ys)"
    using feeder_cases [of "conv d" g] by metis
  have "f = g" if "feeder_at (snd (conv d)) f = Some (Some a)"
    using conv_ok_feeder [OF assms(1) that] a(2) by auto
  then have "f \<noteq> g \<Longrightarrow> arrived d' f = arrived d f"
    using assms(2,3) a by (auto simp: arrived_def fed_def split: option.split)
  moreover have "arrived d g = Some ys" "arrived d' g = Some (ys @ [IsValue v])"
    using assms(2,3) a by (simp_all add: arrived_def fed_def)
  ultimately show ?thesis by (cases "f = g"; cases "arrived d f") auto
qed

lemma feed_seq_ok:
  assumes "driver_ok tab d" and "\<And>f. f \<in> set fs \<Longrightarrow> feeder_at (snd (conv d)) f \<noteq> None"
  shows "\<exists>d'. feed_seq fs d = Some d' \<and> driver_ok tab d' \<and> conv_frame d d'
    \<and> feeder_at (snd (conv d')) = feeder_at (snd (conv d))
    \<and> (\<forall>f. arrived d' f = map_option (\<lambda>ys. ys @ replicate (count_list fs f) (IsValue Void)) (arrived d f))"
  using assms
proof (induction fs arbitrary: d)
  case Nil
  then show ?case by (simp add: option.map_ident)
next
  case (Cons g fs)
  from feed_ok [OF Cons.prems(1), of g Void] Cons.prems(2) obtain d1 where d1: "on_conv (feeder_feed g Void) d = Some d1"
    "driver_ok tab d1" "conv_frame d d1" "feeder_at (snd (conv d1)) = feeder_at (snd (conv d))"
    "obj_at (snd (conv d1)) = fed g Void (snd (conv d))" by auto
  have w1: "arrived d1 f = map_option (\<lambda>ys. if f = g then ys @ [IsValue Void] else ys) (arrived d f)" for f
    using arrived_fed [OF _ d1(4,5)] Cons.prems(1) by (simp add: driver_ok_def)
  from Cons.IH [OF d1(2)] Cons.prems(2) d1(4) obtain d2 where d2: "feed_seq fs d1 = Some d2" "driver_ok tab d2"
    "conv_frame d1 d2" "feeder_at (snd (conv d2)) = feeder_at (snd (conv d1))"
    "\<forall>f. arrived d2 f = map_option (\<lambda>ys. ys @ replicate (count_list fs f) (IsValue Void)) (arrived d1 f)" by auto
  have "arrived d2 f = map_option (\<lambda>ys. ys @ replicate (count_list (g # fs) f) (IsValue Void)) (arrived d f)" for f
    using d2(5) w1 by (cases "arrived d f") auto
  with d1 d2 conv_frame_trans [OF d1(3) d2(3)] show ?case by auto
qed

lemma event_feeders_owner: "f \<in> set (event_feeders (Some n) m) \<Longrightarrow> f \<in> set (feeders_of n)"
  by (cases n) (auto split: if_splits)

lemma batch_feeders_owners: "owners d' = owners d \<Longrightarrow> batch_feeders d' evs = batch_feeders d evs"
  by (simp add: batch_feeders_def)

lemma batch_feeders_live:
  assumes "holders_ok d" and "f \<in> set (batch_feeders d evs)"
  shows "feeder_at (snd (conv d)) f \<noteq> None"
proof -
  from assms(2) obtain ev :: epoll_event where ev: "f \<in> set (event_feeders (owners d (ee_data ev)) (ee_events ev))"
    by (auto simp: batch_feeders_def)
  then obtain n where "owners d (ee_data ev) = Some n" by (cases "owners d (ee_data ev)") auto
  with ev event_feeders_owner owner_feeders [OF assms(1)] show ?thesis by force
qed

lemma handle_events_seq:
  assumes "driver_ok tab d" and "\<forall>ev \<in> set evs. 2 \<le> ee_data ev \<and> data_owner (owners d (ee_data ev))"
  shows "handle_events os evs d = feed_seq (batch_feeders d evs) d"
  using assms
proof (induction evs arbitrary: d)
  case Nil
  then show ?case by (simp add: batch_feeders_def)
next
  case (Cons ev evs)
  let ?fs = "event_feeders (owners d (ee_data ev)) (ee_events ev)"
  have one: "handle_event os ev d = feed_seq ?fs d" using Cons.prems(2) notify_seq [of d "ee_data ev"] by (simp add: handle_event_def)
  have fs: "set ?fs \<subseteq> set (batch_feeders d (ev # evs))" by (auto simp: batch_feeders_def)
  from Cons.prems(1) have hold: "holders_ok d" by (simp add: driver_ok_def)
  from feed_seq_ok [OF Cons.prems(1), of ?fs] batch_feeders_live [OF hold] fs obtain d1 where d1:
    "feed_seq ?fs d = Some d1" "driver_ok tab d1" "conv_frame d d1" by blast
  note fr = conv_frameD [OF d1(3)]
  have "handle_events os evs d1 = feed_seq (batch_feeders d evs) d1"
    using Cons.IH [OF d1(2)] Cons.prems(2) batch_feeders_owners [OF fr(2)] fr(2) by simp
  with one d1(1) show ?case by (simp add: batch_feeders_def feed_seq_append)
qed

context posix_kernel
begin

lemma pollImpl_feeds:
  assumes ok: "driver_ok tab d"
    and wait: "sys_epoll_wait os (epoll_fd (event_port d)) MAX_EPOLL_EVENTS time (kern d) = (Some evs, k)"
    and len: "length evs \<noteq> MAX_EPOLL_EVENTS" and evs: "\<forall>ev \<in> set evs. 2 \<le> ee_data ev \<and> data_owner (owners d (ee_data ev))"
  shows "\<exists>d'. pollImpl os time d = Some (True, d') \<and> kern d' = k \<and> owners d' = owners d \<and> event_port d' = event_port d
    \<and> (\<forall>f. arrived d' f = map_option (\<lambda>ys. ys @ replicate (count_list (batch_feeders d evs) f) (IsValue Void)) (arrived d f))"
proof -
  let ?d = "set_kern k d"
  have ok1: "driver_ok tab ?d" using driver_ok_same [OF ok] epoll_wait_some [OF wait] by simp
  then have hold: "holders_ok ?d" by (simp add: driver_ok_def)
  have b: "batch_feeders ?d evs = batch_feeders d evs" by (rule batch_feeders_owners) simp
  have w: "arrived ?d f = arrived d f" for f unfolding arrived_def kern_simps ..
  have live: "feeder_at (snd (conv ?d)) f \<noteq> None" if "f \<in> set (batch_feeders d evs)" for f
    using batch_feeders_live [OF hold, of f evs] that b by simp
  from feed_seq_ok [OF ok1 live] obtain d' where
    d': "feed_seq (batch_feeders d evs) ?d = Some d'" "conv_frame ?d d'"
      "\<forall>f. arrived d' f = map_option (\<lambda>ys. ys @ replicate (count_list (batch_feeders d evs) f) (IsValue Void)) (arrived d f)"
    unfolding w by blast
  have "handle_events os evs ?d = Some d'" using handle_events_seq [OF ok1, of evs os] evs b d'(1) by simp
  with wait len have "pollImpl os time d = Some (True, d')" by (subst pollImpl.simps) (simp add: syscall_def)
  with d' conv_frameD [OF d'(2)] show ?thesis by auto
qed

end

section \<open>A kernel\<close>

text \<open>
  A small kernel that keeps the contract: descriptors are numbered upwards, registered descriptors that
  become ready are reported in order, signals and connections wait in queues. Sockets can be opened,
  and the first connection attempt of each succeeds; data transfer always fails.
\<close>

record mini_kernel =
  mk_next :: fd
  mk_open :: "fd set"
  mk_pipes :: "fd set"
  mk_interest :: "fd \<Rightarrow> fd \<Rightarrow> epoll_event option"
  mk_ready :: "(fd \<times> 32 word) list"
  mk_signals :: "int list"
  mk_connections :: nat

definition mini_tab :: "mini_kernel \<Rightarrow> fd_table" where
  "mini_tab k = \<lparr>open_fds = {fd \<in> mk_open k. 0 \<le> fd}, pipe_fds = {fd \<in> mk_pipes k. fd \<in> mk_open k \<and> 0 \<le> fd},
     interest = (\<lambda>e. if e < 0 then (\<lambda>_. None) else mk_interest k e)\<rparr>"

definition mini_backlog :: "mini_kernel \<Rightarrow> nat" where
  "mini_backlog k = length (mk_ready k) + length (mk_signals k) + 2 * mk_connections k"

definition mini_open :: "mini_kernel \<Rightarrow> int \<times> mini_kernel" where
  "mini_open k = (if mk_next k \<in> mk_open k \<or> mk_next k < 0 then (-1, k)
     else (mk_next k, k\<lparr>mk_next := mk_next k + 1, mk_open := insert (mk_next k) (mk_open k),
                       mk_pipes := mk_pipes k - {mk_next k}\<rparr>))"

definition mini_event :: "fd \<Rightarrow> mini_kernel \<Rightarrow> fd \<times> 32 word \<Rightarrow> epoll_event option" where
  "mini_event e k r = (if e < 0 then None else
     map_option (\<lambda>ev. \<lparr>ee_events = snd r, ee_data = ee_data ev\<rparr>) (mk_interest k e (fst r)))"

definition mini_os :: "mini_kernel os" where
  "mini_os = \<lparr>
     sys_ignore_sigpipe = (\<lambda>k. k),
     sys_epoll_create = (\<lambda>k. case mini_open k of (r, k) \<Rightarrow>
       (r, if r < 0 then k else k\<lparr>mk_interest := (mk_interest k)(r := (\<lambda>_. None))\<rparr>)),
     sys_signalfd = (\<lambda>fd sigs k. if fd = -1 then mini_open k else (fd, k)),
     sys_sigprocmask = (\<lambda>sigs k. k),
     sys_pipe = (\<lambda>k. if 0 \<le> mk_next k \<and> mk_next k \<notin> mk_open k \<and> mk_next k + 1 \<notin> mk_open k
       then (Some (mk_next k, mk_next k + 1), k\<lparr>mk_next := mk_next k + 2,
               mk_open := {mk_next k, mk_next k + 1} \<union> mk_open k, mk_pipes := {mk_next k, mk_next k + 1} \<union> mk_pipes k\<rparr>)
       else (None, k)),
     sys_epoll_add = (\<lambda>e fd ev k. if e < 0 \<or> mk_interest k e fd \<noteq> None then (-1, k)
       else (0, k\<lparr>mk_interest := (mk_interest k)(e := (mk_interest k e)(fd \<mapsto> ev))\<rparr>)),
     sys_epoll_del = (\<lambda>e fd k. (0, k\<lparr>mk_interest := (mk_interest k)(e := (mk_interest k e)(fd := None))\<rparr>)),
     sys_epoll_wait = (\<lambda>e n t k. (Some (somes (map (mini_event e k) (take n (mk_ready k)))),
       k\<lparr>mk_ready := drop n (mk_ready k)\<rparr>)),
     sys_close = (\<lambda>fd k. k\<lparr>mk_open := mk_open k - {fd}\<rparr>),
     sys_read_siginfo = (\<lambda>fd k. case mk_signals k of [] \<Rightarrow> (None, k)
       | sig # sigs \<Rightarrow> (Some (sizeof_siginfo, sig), k\<lparr>mk_signals := sigs\<rparr>)),
     sys_recv = (\<lambda>fd n k. (None, k)),
     sys_send = (\<lambda>fd data k. (Inl EAGAIN, k)),
     sys_recvfrom = (\<lambda>fd n k. (None, k)),
     sys_sendto = (\<lambda>fd data sa k. (None, k)),
     sys_accept = (\<lambda>fd k. if mk_connections k = 0 then (-1, k)
       else (case mini_open k of (r, k') \<Rightarrow> if r < 0 then (-1, k) else (r, k'\<lparr>mk_connections := mk_connections k - 1\<rparr>))),
     sys_socket = (\<lambda>family type k. mini_open k),
     sys_setsockopt = (\<lambda>fd opt v k. (if fd < 0 then -1 else 0, k)),
     sys_bind = (\<lambda>fd sa k. (0, k)),
     sys_listen = (\<lambda>fd k. (0, k)),
     sys_connect = (\<lambda>fd sa k. (Some EINPROGRESS, k)),
     sys_getaddrinfo = (\<lambda>str port k. (Some [[2, 0, 0, 80]], k))\<rparr>"

lemma somes_length: "length (somes xs) \<le> length xs"
  by (induction xs rule: somes.induct) simp_all

lemma mini_open_opens:
  "mini_open k = (r, k') \<Longrightarrow> if r < 0 then k' = k else opens mini_tab k r k' \<and> mini_backlog k' = mini_backlog k
     \<and> mk_interest k' = mk_interest k \<and> mk_connections k' = mk_connections k"
  by (auto simp: mini_open_def opens_def mini_tab_def mini_backlog_def split: if_splits)

lemma mini_tab_ready [simp]:
  "mini_tab (k\<lparr>mk_ready := rs\<rparr>) = mini_tab k" "mini_tab (k\<lparr>mk_signals := sigs\<rparr>) = mini_tab k"
  by (simp_all add: mini_tab_def fun_eq_iff)

lemma mini_event_interest:
  "mini_event e k r = Some ev \<Longrightarrow> \<exists>ev'. interest (mini_tab k) e (fst r) = Some ev' \<and> ee_data ev' = ee_data ev"
  by (auto simp: mini_event_def mini_tab_def split: if_splits)

lemmas mini_defs = mini_os_def mini_tab_def mini_backlog_def same_table_def

interpretation mini: posix_kernel mini_os mini_tab mini_backlog
proof (unfold_locales, goal_cases)
  case (6 k r k')
  then obtain k1 where "mini_open k = (r, k1)" "k' = (if r < 0 then k1 else k1\<lparr>mk_interest := (mk_interest k1)(r := (\<lambda>_. None))\<rparr>)"
    by (auto simp: mini_os_def split: prod.splits)
  with mini_open_opens [of k r k1] show ?case by (auto simp: opens_def mini_tab_def fun_eq_iff)
next
  case (7 sigs k r k')
  with mini_open_opens [of k r k'] show ?case by (auto simp: mini_os_def)
next
  case (15 e n t k evs k')
  then have evs: "evs = somes (map (mini_event e k) (take n (mk_ready k)))" "k' = k\<lparr>mk_ready := drop n (mk_ready k)\<rparr>"
    by (auto simp: mini_os_def)
  have "length evs \<le> length (take n (mk_ready k))"
    using somes_length [of "map (mini_event e k) (take n (mk_ready k))"] evs(1) by simp
  then have "length evs = n \<Longrightarrow> 0 < n \<Longrightarrow> mini_backlog k' < mini_backlog k"
    by (cases "mk_ready k") (auto simp: evs(2) mini_backlog_def)
  moreover have "\<exists>fd ev'. interest (mini_tab k) e fd = Some ev' \<and> ee_data ev' = ee_data ev" if "ev \<in> set evs" for ev
    using that by (auto simp: evs(1) dest!: mini_event_interest [OF sym])
  moreover have "mini_tab k' = mini_tab k" "mini_backlog k' \<le> mini_backlog k"
    by (simp_all add: evs(2) mini_tab_def mini_backlog_def fun_eq_iff)
  ultimately show ?case by blast
next
  case (20 fd k r k')
  show ?case
  proof (cases "mk_connections k = 0")
    case True
    with 20 show ?thesis by (auto simp: mini_defs)
  next
    case False
    obtain r1 k1 where "mini_open k = (r1, k1)" by fastforce
    with mini_open_opens [OF this] False 20 show ?thesis
      by (auto simp: mini_defs opens_def split: if_splits)
  qed
next
  case (21 family type k r k')
  with mini_open_opens [of k r k'] show ?case by (auto simp: mini_os_def)
qed (auto simp: mini_defs fun_eq_iff split: if_splits list.splits)

section \<open>Properties\<close>

text \<open>
  C13: no event can reach a destroyed object, and none is taken for that of another one. In every state a
  program can reach with the driver, in any order of calls, every entry of the interest list of the event
  port is the one of the signalfd with data 0, the one of the pipe with data 1, or carries the address of
  a live owner of the registered descriptor. A new owner whose registration the kernel accepts is in the
  list, with its own address and its own events.
\<close>

theorem interest_list_live:
  assumes "posix_kernel os tab backlog" and "reachable os tab d"
  shows "(\<forall>fd ev. interest (tab (kern d)) (epoll_fd (event_port d)) fd = Some ev \<longrightarrow>
        ee_data ev = 0 \<and> fd = signal_fd (event_port d)
        \<or> ee_data ev = 1 \<and> map_option fst (pipefds (event_port d)) = Some fd
        \<or> 2 \<le> ee_data ev \<and> (\<exists>n. owners d (ee_data ev) = Some n \<and> file_descriptor (owner_base n) = fd))
    \<and> (\<forall>n a d' fd ev. new_owner os n d = (a, d') \<and> fd = file_descriptor (owner_base n) \<and> 0 \<le> fd
        \<and> ev = \<lparr>ee_events = event_mask (owner_base n) OR EPOLLET, ee_data = a\<rparr>
        \<and> 0 \<le> fst (sys_epoll_add os (epoll_fd (event_port d)) fd ev (kern d)) \<longrightarrow>
        interest (tab (kern d')) (epoll_fd (event_port d)) fd = Some ev)"
proof (intro conjI allI impI)
  fix fd ev assume "interest (tab (kern d)) (epoll_fd (event_port d)) fd = Some ev"
  with posix_kernel.reachable_ok [OF assms] have "entry_ok d fd ev" by (simp add: driver_ok_def interest_ok_def)
  then show "ee_data ev = 0 \<and> fd = signal_fd (event_port d)
      \<or> ee_data ev = 1 \<and> map_option fst (pipefds (event_port d)) = Some fd
      \<or> 2 \<le> ee_data ev \<and> (\<exists>n. owners d (ee_data ev) = Some n \<and> file_descriptor (owner_base n) = fd)"
    by (auto simp: entry_ok_def owner_fd_def split: if_splits)
next
  fix n a d' fd ev
  let ?e = "epoll_fd (event_port d)"
  assume new: "new_owner os n d = (a, d') \<and> fd = file_descriptor (owner_base n) \<and> 0 \<le> fd
    \<and> ev = \<lparr>ee_events = event_mask (owner_base n) OR EPOLLET, ee_data = a\<rparr> \<and> 0 \<le> fst (sys_epoll_add os ?e fd ev (kern d))"
  obtain r k where k: "sys_epoll_add os ?e fd ev (kern d) = (r, k)" by fastforce
  from posix_kernel.epoll_add [OF assms(1) k] new k have "0 \<le> ?e" "interest (tab k) ?e fd = Some ev" by auto
  moreover from this new k have "kern d' = k" by (auto simp: new_owner_def subscribe_def syscall_def kern_def set_kern_def set_user_def Let_def)
  ultimately show "interest (tab (kern d')) ?e fd = Some ev" by simp
qed

text \<open>A run of the driver on the small kernel: a server listens and accepts.\<close>

definition mini_boot :: mini_kernel where
  "mini_boot = \<lparr>mk_next = 3, mk_open = {0, 1, 2}, mk_pipes = {}, mk_interest = (\<lambda>e fd. None), mk_ready = [],
     mk_signals = [], mk_connections = 1\<rparr>"

definition mini_address :: UnixNetworkAddress where
  "mini_address = \<lparr>una_path = ''localhost'', una_port_hint = 80, una_addresses = [\<lparr>sa_raw = [2, 0, 0, 80], sa_wildcard = False\<rparr>]\<rparr>"

definition mini_start :: "(mini_kernel, unit) driver option" where
  "mini_start = (case setupAsyncIo mini_os True mini_boot () of IsValue d \<Rightarrow> WaitScope_new d | IsError _ \<Rightarrow> None)"

definition mini_listen :: "(mini_kernel, unit) driver option" where
  "mini_listen = do {
     d \<leftarrow> mini_start;
     (r, d) \<leftarrow> UnixNetwork_listen mini_os (OsNetworkAddress mini_address) d;
     (c, d) \<leftarrow> UnixServer_accept 2 d;
     Some d
   }"

lemma mini_start_reachable: "mini_start = Some d \<Longrightarrow> reachable mini_os mini_tab d"
  by (auto simp: mini_start_def intro: reachable.start split: error_or.splits)

lemma mini_listen_reachable: "mini_listen = Some d \<Longrightarrow> reachable mini_os mini_tab d"
  by (auto simp: mini_listen_def split: bind_splits
      dest!: mini_start_reachable driver_step.listen [where tab = mini_tab]
        driver_step.accept [where os = mini_os and tab = mini_tab] intro: reachable.step)

lemma mini_listen_state:
  "case mini_listen of
     Some d \<Rightarrow> epoll_fd (event_port d) = 3 \<and> map_option ee_data (mk_interest (kern d) 3 7) = Some 2
   | None \<Rightarrow> False"
  by code_simp

theorem interest_list_live_witness:
  "\<exists>d n. mini_listen = Some d \<and> owners d 2 = Some n \<and> file_descriptor (owner_base n) = 7"
proof -
  from mini_listen_state obtain d ev where d: "mini_listen = Some d" "epoll_fd (event_port d) = 3"
    "mk_interest (kern d) 3 7 = Some ev" "ee_data ev = 2"
    by (auto split: option.splits)
  have "interest (mini_tab (kern d)) (epoll_fd (event_port d)) 7 = Some ev" using d by (simp add: mini_tab_def)
  with conjunct1 [OF interest_list_live [OF mini.posix_kernel_axioms mini_listen_reachable [OF d(1)]]] d show ?thesis by fastforce
qed

text \<open>
  C14: polling the event port always returns. In every reachable state a call of \<open>pollImpl\<close> touches no
  destroyed object, fails no assertion and leaves all its loops, provided that the kernel has finitely many
  events, signals and connections waiting; the state it leaves is reachable again.
\<close>

theorem event_port_poll_returns:
  assumes "posix_kernel os tab backlog" and "reachable os tab d"
  shows "\<exists>b d'. pollImpl os time d = Some (b, d') \<and> reachable os tab d'"
  using posix_kernel.pollImpl_ok [OF assms(1) posix_kernel.reachable_ok [OF assms], of time]
    reachable.step [OF assms(2) driver_step.poll] by blast

definition mini_pending :: "(mini_kernel, unit) driver \<Rightarrow> (mini_kernel, unit) driver" where
  "mini_pending d = set_kern ((kern d)\<lparr>mk_ready := [(7, EPOLLIN), (4, EPOLLIN)], mk_signals := [SIGINT]\<rparr>) d"

lemma client_kernel_step:
  assumes "posix_kernel os tab backlog" and "reachable os tab d" and "tab k = tab (kern d)"
  shows "reachable os tab (set_kern k d)"
proof -
  have "conv_ok (conv d)" using posix_kernel.reachable_ok [OF assms(1,2)] by (simp add: driver_ok_def)
  then have "driver_step os tab d (d\<lparr>conv := conv (set_kern k d)\<rparr>)"
    using assms(3) by (intro driver_step.client) (simp_all flip: kern_def)
  then show ?thesis using reachable.step [OF assms(2)] by (simp add: set_kern_def)
qed

lemma mini_pending_reachable: "mini_listen = Some d \<Longrightarrow> reachable mini_os mini_tab (mini_pending d)"
  unfolding mini_pending_def
  by (intro client_kernel_step [OF mini.posix_kernel_axioms] mini_listen_reachable) simp_all

theorem event_port_poll_returns_witness:
  "\<exists>d b d'. mini_listen = Some d \<and> pollImpl mini_os 0 (mini_pending d) = Some (b, d') \<and> reachable mini_os mini_tab d'"
proof -
  from mini_listen_state obtain d where d: "mini_listen = Some d" by (cases mini_listen) auto
  with event_port_poll_returns [OF mini.posix_kernel_axioms mini_pending_reachable [OF d], of 0] show ?thesis by blast
qed

text \<open>
  C15: a call of the network either leaves nothing behind or hands its descriptor to one new owner.
  Whatever the system calls return, a \<open>listen\<close> or \<open>datagram\<close> that gives no object and a \<open>connect\<close> that gives
  an error have closed every descriptor they opened and destroyed every object they made; otherwise exactly
  one descriptor has been opened, which belongs to the one new object. The conveyor of \<open>connect\<close> holds the
  new stream or a critical error.
\<close>

theorem network_calls_leave_nothing:
  assumes "posix_kernel os tab backlog" and "reachable os tab d"
  shows "(\<forall>r d'. UnixNetwork_listen os addr d = Some (r, d') \<longrightarrow>
        (case r of None \<Rightarrow> leaves_nothing tab d d' | Some a \<Rightarrow> adds_owner tab a d d'))
    \<and> (\<forall>r d'. UnixNetwork_datagram os addr d = Some (r, d') \<longrightarrow>
        (case r of None \<Rightarrow> leaves_nothing tab d d' | Some a \<Rightarrow> adds_owner tab a d d'))
    \<and> (\<forall>c d'. UnixNetwork_connect os addr d = Some (c, d') \<longrightarrow>
        (\<exists>a. holds_result c (IsValue (Stream a)) d' \<and> adds_owner tab a d d')
        \<or> (\<exists>e. holds_result c (IsError e) d' \<and> isCritical e \<and> leaves_nothing tab d d'))"
proof -
  note ok = posix_kernel.reachable_ok [OF assms]
  show ?thesis
    using posix_kernel.listen_ok [OF assms(1) ok] posix_kernel.datagram_ok [OF assms(1) ok]
      posix_kernel.connect_ok [OF assms(1) ok] by blast
qed

definition immediate_result :: "conveyor \<Rightarrow> ('k, 'u) driver \<Rightarrow> io_value error_or option" where
  "immediate_result c d = do {
     n \<leftarrow> cv_node c;
     case obj_at (snd (conv d)) n of Some (ImmediateConveyorNode x r) \<Rightarrow> Some x | _ \<Rightarrow> None
   }"

lemma holds_result_immediate: "holds_result c x d \<Longrightarrow> immediate_result c d = Some x"
  by (auto simp: holds_result_def immediate_result_def)

lemma mini_connects:
  "(do { d \<leftarrow> mini_start; (c, d) \<leftarrow> UnixNetwork_connect mini_os (OsNetworkAddress mini_address) d; immediate_result c d })
     = Some (IsValue (Stream 2))"
  by code_simp

theorem network_calls_leave_nothing_witness:
  "\<exists>d c d'. mini_start = Some d \<and> UnixNetwork_connect mini_os (OsNetworkAddress mini_address) d = Some (c, d')
     \<and> holds_result c (IsValue (Stream 2)) d' \<and> adds_owner mini_tab 2 d d'"
proof -
  from mini_connects obtain d c d' where d: "mini_start = Some d"
    "UnixNetwork_connect mini_os (OsNetworkAddress mini_address) d = Some (c, d')"
    "immediate_result c d' = Some (IsValue (Stream 2))"
    by (auto split: bind_splits)
  from network_calls_leave_nothing [OF mini.posix_kernel_axioms mini_start_reachable [OF d(1)]] d(2)
  have "(\<exists>a. holds_result c (IsValue (Stream a)) d' \<and> adds_owner mini_tab a d d')
      \<or> (\<exists>e. holds_result c (IsError e) d' \<and> isCritical e \<and> leaves_nothing mini_tab d d')" by blast
  with d show ?thesis using holds_result_immediate by fastforce
qed

text \<open>
  C16: polling feeds exactly the conveyors of the events that are reported. When epoll reports events of
  streams and datagram sockets, fewer than a full batch, the call returns true, changes no owner, and every
  conveyor that is connected to a feeder receives one element for each event whose mask has the bit the
  feeder stands for (\<open>EPOLLOUT\<close>, \<open>EPOLLIN\<close>, \<open>EPOLLRDHUP\<close>), behind the elements it holds, and nothing else.
\<close>

theorem poll_feeds_exactly:
  assumes "posix_kernel os tab backlog" and "reachable os tab d"
    and "sys_epoll_wait os (epoll_fd (event_port d)) MAX_EPOLL_EVENTS time (kern d) = (Some evs, k)"
    and "length evs < MAX_EPOLL_EVENTS" and "\<forall>ev \<in> set evs. 2 \<le> ee_data ev \<and> data_owner (owners d (ee_data ev))"
  shows "\<exists>d'. pollImpl os time d = Some (True, d') \<and> kern d' = k \<and> owners d' = owners d \<and> event_port d' = event_port d
    \<and> (\<forall>f. arrived d' f = map_option (\<lambda>ys. ys @ replicate (count_list (batch_feeders d evs) f) (IsValue Void)) (arrived d f))"
  using posix_kernel.pollImpl_feeds [OF assms(1) posix_kernel.reachable_ok [OF assms(1,2)] assms(3)] assms(4,5) by simp

text \<open>A stream whose readiness is awaited, and an event for it.\<close>

definition mini_stream :: "(mini_kernel, unit) driver option" where
  "mini_stream = do {
     d \<leftarrow> mini_start;
     (c, d) \<leftarrow> UnixNetwork_connect mini_os (OsNetworkAddress mini_address) d;
     (c, d) \<leftarrow> UnixIoStream_readReady 2 d;
     Some (set_kern ((kern d)\<lparr>mk_ready := [(7, EPOLLIN OR EPOLLOUT), (7, EPOLLIN)]\<rparr>) d)
   }"

lemma mini_stream_reachable: "mini_stream = Some d \<Longrightarrow> reachable mini_os mini_tab d"
  unfolding mini_stream_def
  by (auto split: bind_splits intro!: client_kernel_step [OF mini.posix_kernel_axioms]
      dest!: mini_start_reachable driver_step.connect [where tab = mini_tab]
        driver_step.read_ready [where os = mini_os and tab = mini_tab])
     (blast intro: reachable.step)

lemma mini_stream_state:
  "case mini_stream of
     Some d \<Rightarrow> epoll_fd (event_port d) = 3
       \<and> fst (sys_epoll_wait mini_os 3 256 0 (kern d))
         = Some [\<lparr>ee_events = EPOLLIN OR EPOLLOUT, ee_data = 2\<rparr>, \<lparr>ee_events = EPOLLIN, ee_data = 2\<rparr>]
       \<and> data_owner (owners d 2) \<and> event_feeders (owners d 2) (EPOLLIN OR EPOLLOUT) = [1]
       \<and> event_feeders (owners d 2) EPOLLIN = [1] \<and> arrived d 1 = Some []
   | None \<Rightarrow> False"
  by code_simp

theorem poll_feeds_exactly_witness:
  "\<exists>d d'. mini_stream = Some d \<and> pollImpl mini_os 0 d = Some (True, d') \<and> arrived d 1 = Some []
     \<and> arrived d' 1 = Some [IsValue Void, IsValue Void]"
proof -
  let ?evs = "[\<lparr>ee_events = EPOLLIN OR EPOLLOUT, ee_data = 2\<rparr>, \<lparr>ee_events = EPOLLIN, ee_data = 2\<rparr>]"
  from mini_stream_state obtain d where d: "mini_stream = Some d" "epoll_fd (event_port d) = 3"
    "fst (sys_epoll_wait mini_os 3 256 0 (kern d)) = Some ?evs" "data_owner (owners d 2)"
    "event_feeders (owners d 2) (EPOLLIN OR EPOLLOUT) = [1]" "event_feeders (owners d 2) EPOLLIN = [1]"
    "arrived d 1 = Some []" by (auto split: option.splits)
  obtain k where "sys_epoll_wait mini_os (epoll_fd (event_port d)) MAX_EPOLL_EVENTS 0 (kern d) = (Some ?evs, k)"
    using d(2,3) by (cases "sys_epoll_wait mini_os 3 256 0 (kern d)") (simp add: MAX_EPOLL_EVENTS_def)
  from poll_feeds_exactly [OF mini.posix_kernel_axioms mini_stream_reachable [OF d(1)] this] d obtain d' where
    "pollImpl mini_os 0 d = Some (True, d')"
    "\<forall>f. arrived d' f = map_option (\<lambda>ys. ys @ replicate (count_list (batch_feeders d ?evs) f) (IsValue Void)) (arrived d f)"
    by (auto simp: MAX_EPOLL_EVENTS_def)
  moreover have "count_list (batch_feeders d ?evs) 1 = 2" using d(5,6) by (simp add: batch_feeders_def)
  ultimately show ?thesis using d(1,7) by (auto simp: numeral_2_eq_2)
qed

end
