(* ===== verification/Unix_Driver_Signals.thy ===== *)
theory Unix_Driver_Signals
  imports Unix_Driver_Correct
begin

text \<open>
  Signals: what the signalfd of the event port leads to. \<open>onSignal\<close> registers a feeder for one of the library's
  signals; when epoll reports the signalfd, every signal that waits there is read and fed to the feeders registered for it.
\<close>

section \<open>Waiting signals\<close>

text \<open>The signals that the signalfd gives one after the other before it is empty.\<close>

fun signals_waiting :: "'k os \<Rightarrow> fd \<Rightarrow> 'k \<Rightarrow> int list \<Rightarrow> 'k \<Rightarrow> bool" where
  "signals_waiting os fd k [] k' \<longleftrightarrow> sys_read_siginfo os fd k = (None, k')"
| "signals_waiting os fd k (sig # sigs) k' \<longleftrightarrow>
     (\<exists>k1. sys_read_siginfo os fd k = (Some (sizeof_siginfo, sig), k1) \<and> signals_waiting os fd k1 sigs k')"

definition signal_feeders :: "UnixEventPort \<Rightarrow> int list \<Rightarrow> addr list" where
  "signal_feeders p sigs = concat (map (\<lambda>sig. equal_range (fromUnixSignal sig) (signal_conveyors p)) sigs)"

lemma arrived_live:
  "feeder_at (snd (conv d)) f = Some (Some a) \<Longrightarrow> obj_at (snd (conv d)) a = Some (AdaptConveyorNode g ys) \<Longrightarrow> arrived d f = Some ys"
  by (simp add: arrived_def)

text \<open>As long as the queues are not full, asking for space before feeding changes nothing.\<close>

lemma feed_listener:
  assumes "conv_ok (conv d)" and "feeder_at (snd (conv d)) f \<noteq> None"
    and "\<forall>ys. arrived d f = Some ys \<longrightarrow> length ys < SIZE_MOD - 1"
  shows "do { n \<leftarrow> feeder_space f (conv d); if n > 0 then on_conv (feeder_feed f Void) d else Some d } = on_conv (feeder_feed f Void) d"
  using assms(1,2)
proof (cases rule: feeder_cases)
  case gone
  then show ?thesis by (simp add: feeder_space_def with_feedee_def feeder_feed_def on_conv_def)
next
  case (live a ys)
  with assms(3) have "length ys < SIZE_MOD - 1" using arrived_live [OF live(1,4)] by blast
  then have "0 < sz_sub (SIZE_MOD - 1) (length ys)" by (simp add: sz_sub_exact)
  with live show ?thesis by (simp add: feeder_space_def with_feedee_def space_def)
qed

lemma feed_listeners_seq:
  assumes "driver_ok tab d" and "\<And>f. f \<in> set fs \<Longrightarrow> feeder_at (snd (conv d)) f \<noteq> None"
    and "\<forall>f \<in> set fs. \<forall>ys. arrived d f = Some ys \<longrightarrow> length ys + length fs < SIZE_MOD"
  shows "feed_listeners fs d = feed_seq fs d"
  using assms
proof (induction fs arbitrary: d)
  case (Cons f fs)
  have ok: "conv_ok (conv d)" using Cons.prems(1) by (simp add: driver_ok_def)
  have "\<forall>ys. arrived d f = Some ys \<longrightarrow> length ys < SIZE_MOD - 1" using Cons.prems(3) by fastforce
  note step = feed_listener [OF ok _ this]
  from feed_seq_ok [OF Cons.prems(1), of "[f]"] Cons.prems(2) obtain d1 where
    d1: "feed_seq [f] d = Some d1" "driver_ok tab d1" "feeder_at (snd (conv d1)) = feeder_at (snd (conv d))"
      "\<forall>g. arrived d1 g = map_option (\<lambda>ys. ys @ replicate (count_list [f] g) (IsValue Void)) (arrived d g)" by auto
  have "length ys + length fs < SIZE_MOD" if "g \<in> set fs" "arrived d1 g = Some ys" for g ys
  proof -
    from d1(4) that(2) obtain zs where "arrived d g = Some zs" "ys = zs @ replicate (count_list [f] g) (IsValue Void)" by auto
    moreover have "count_list [f] g \<le> 1" by simp
    ultimately show ?thesis using Cons.prems(3) that(1) by fastforce
  qed
  with Cons.IH [OF d1(2)] Cons.prems(2) d1(3) have "feed_listeners fs d1 = feed_seq fs d1" by simp
  moreover have "on_conv (feeder_feed f Void) d = Some d1" using d1(1) by (simp split: bind_splits)
  ultimately show ?case using step Cons.prems(2) by (auto split: bind_splits if_splits)
qed simp

context posix_kernel
begin

lemma read_signals_feeds:
  assumes "driver_ok tab d" and "signals_waiting os (signal_fd (event_port d)) (kern d) sigs k"
    and "\<forall>f \<in> set (signal_feeders (event_port d) sigs). \<forall>ys. arrived d f = Some ys \<longrightarrow>
      length ys + length (signal_feeders (event_port d) sigs) < SIZE_MOD"
  shows "\<exists>d'. read_signals os d = Some d' \<and> driver_ok tab d' \<and> kern d' = k \<and> event_port d' = event_port d \<and> owners d' = owners d
    \<and> (\<forall>f. arrived d' f = map_option (\<lambda>ys. ys @ replicate (count_list (signal_feeders (event_port d) sigs) f) (IsValue Void)) (arrived d f))"
  using assms
proof (induction sigs arbitrary: d)
  case Nil
  have "driver_ok tab (set_kern k d)" using Nil read_siginfo_none driver_ok_same [OF Nil.prems(1)]
    by (auto simp: same_table_def)
  moreover have "arrived (set_kern k d) f = arrived d f" for f unfolding arrived_def kern_simps ..
  ultimately show ?case using Nil.prems(2)
    by (subst read_signals.simps) (simp add: syscall_def signal_feeders_def option.map_ident)
next
  case (Cons sig sigs)
  let ?fs = "equal_range (fromUnixSignal sig) (signal_conveyors (event_port d))"
  from Cons.prems(2) obtain k1 where k1: "sys_read_siginfo os (signal_fd (event_port d)) (kern d) = (Some (sizeof_siginfo, sig), k1)"
    "signals_waiting os (signal_fd (event_port d)) k1 sigs k" by auto
  let ?d = "set_kern k1 d"
  have ok: "driver_ok tab ?d" using read_siginfo_some k1(1) driver_ok_same [OF Cons.prems(1)] by auto
  have arr: "arrived ?d f = arrived d f" for f unfolding arrived_def kern_simps ..
  have live: "feeder_at (snd (conv ?d)) f \<noteq> None" if "f \<in> set ?fs" for f
    using ok that by (auto simp: driver_ok_def holders_ok_def listeners_def equal_range_def)
  have len: "length (signal_feeders (event_port d) (sig # sigs)) = length ?fs + length (signal_feeders (event_port d) sigs)"
    "set (signal_feeders (event_port d) (sig # sigs)) = set ?fs \<union> set (signal_feeders (event_port d) sigs)"
    by (simp_all add: signal_feeders_def)
  have "\<forall>f \<in> set ?fs. \<forall>ys. arrived ?d f = Some ys \<longrightarrow> length ys + length ?fs < SIZE_MOD" using Cons.prems(3) arr len by fastforce
  note seq = feed_listeners_seq [OF ok live this]
  from feed_seq_ok [OF ok live] obtain d1 where d1: "feed_seq ?fs ?d = Some d1" "driver_ok tab d1" "conv_frame ?d d1"
    "\<forall>f. arrived d1 f = map_option (\<lambda>ys. ys @ replicate (count_list ?fs f) (IsValue Void)) (arrived d f)" unfolding arr by blast
  note fr = conv_frameD [OF d1(3)]
  have port: "event_port d1 = event_port d" "kern d1 = k1" "owners d1 = owners d" using fr by simp_all
  have "length ys + length (signal_feeders (event_port d1) sigs) < SIZE_MOD"
    if "f \<in> set (signal_feeders (event_port d1) sigs)" "arrived d1 f = Some ys" for f ys
  proof -
    from d1(4) that(2) obtain zs where zs: "arrived d f = Some zs" "ys = zs @ replicate (count_list ?fs f) (IsValue Void)" by auto
    have "count_list ?fs f \<le> length ?fs" by (rule count_le_length)
    with Cons.prems(3) zs len port(1) that(1) show ?thesis by fastforce
  qed
  with Cons.IH [OF d1(2)] k1(2) port obtain d2 where d2: "read_signals os d1 = Some d2" "driver_ok tab d2" "kern d2 = k"
    "event_port d2 = event_port d" "owners d2 = owners d"
    "\<forall>f. arrived d2 f = map_option (\<lambda>ys. ys @ replicate (count_list (signal_feeders (event_port d) sigs) f) (IsValue Void)) (arrived d1 f)"
    by auto
  have "arrived d2 f = map_option (\<lambda>ys. ys @ replicate (count_list (signal_feeders (event_port d) (sig # sigs)) f) (IsValue Void)) (arrived d f)" for f
    using d1(4) d2(6) by (cases "arrived d f") (auto simp: signal_feeders_def count_list_append replicate_add)
  moreover have "notifySignalListener sig ?d = Some d1" using seq d1(1) by (simp add: notifySignalListener_def)
  ultimately show ?case using k1(1) d2 by (subst read_signals.simps) (simp add: syscall_def)
qed

lemma pollImpl_signals:
  assumes ok: "driver_ok tab d"
    and wait: "sys_epoll_wait os (epoll_fd (event_port d)) MAX_EPOLL_EVENTS time (kern d) = (Some [\<lparr>ee_events = m, ee_data = 0\<rparr>], k)"
    and sigs: "signals_waiting os (signal_fd (event_port d)) k sigs k'"
    and room: "\<forall>f \<in> set (signal_feeders (event_port d) sigs). \<forall>ys. arrived d f = Some ys \<longrightarrow>
      length ys + length (signal_feeders (event_port d) sigs) < SIZE_MOD"
  shows "\<exists>d'. pollImpl os time d = Some (True, d') \<and> kern d' = k' \<and> owners d' = owners d \<and> event_port d' = event_port d
    \<and> (\<forall>f. arrived d' f = map_option (\<lambda>ys. ys @ replicate (count_list (signal_feeders (event_port d) sigs) f) (IsValue Void)) (arrived d f))"
proof -
  let ?d = "set_kern k d"
  have ok1: "driver_ok tab ?d" using driver_ok_same [OF ok] epoll_wait_some [OF wait] by simp
  have arr: "arrived ?d f = arrived d f" for f unfolding arrived_def kern_simps ..
  have "signals_waiting os (signal_fd (event_port ?d)) (kern ?d) sigs k'" using sigs by simp
  from read_signals_feeds [OF ok1 this] room arr obtain d' where
    d': "read_signals os ?d = Some d'" "kern d' = k'" "event_port d' = event_port d" "owners d' = owners d"
      "\<forall>f. arrived d' f = map_option (\<lambda>ys. ys @ replicate (count_list (signal_feeders (event_port d) sigs) f) (IsValue Void)) (arrived d f)"
    by auto
  then have "pollImpl os time d = Some (True, d')"
    using wait by (subst pollImpl.simps) (simp add: syscall_def handle_event_def MAX_EPOLL_EVENTS_def)
  with d' show ?thesis by auto
qed

end

section \<open>Properties\<close>

text \<open>
  C18: signals reach exactly the conveyors that wait for them. When epoll reports the signalfd in a reachable state,
  the call reads every signal that waits, returns true, and every conveyor that is connected to a feeder of \<open>onSignal\<close> receives one
  element for each of these signals that its own signal stands for, behind the elements it holds, and nothing else. The signals
  that \<open>onSignal\<close> unblocks for a conveyor are those that lead to it.
\<close>

theorem signals_reach_listeners:
  assumes "posix_kernel os tab backlog" and "reachable os tab d"
    and "sys_epoll_wait os (epoll_fd (event_port d)) MAX_EPOLL_EVENTS time (kern d) = (Some [\<lparr>ee_events = m, ee_data = 0\<rparr>], k)"
    and "signals_waiting os (signal_fd (event_port d)) k sigs k'"
    and "\<forall>f \<in> set (signal_feeders (event_port d) sigs). \<forall>ys. arrived d f = Some ys \<longrightarrow>
      length ys + length (signal_feeders (event_port d) sigs) < SIZE_MOD"
  shows "(\<exists>d'. pollImpl os time d = Some (True, d') \<and> kern d' = k' \<and> owners d' = owners d \<and> event_port d' = event_port d
    \<and> (\<forall>f. arrived d' f = map_option (\<lambda>ys. ys @ replicate (count_list (signal_feeders (event_port d) sigs) f) (IsValue Void)) (arrived d f)))
    \<and> (\<forall>sig n. n \<in> set (toUnixSignal sig) \<longrightarrow> fromUnixSignal n = sig)"
proof
  have "fromUnixSignal n = sig" if "n \<in> set (toUnixSignal sig)" for sig n
    using that by (cases sig) (auto simp: fromUnixSignal_def SIGUSR1_def SIGTERM_def SIGQUIT_def SIGINT_def)
  then show "\<forall>sig n. n \<in> set (toUnixSignal sig) \<longrightarrow> fromUnixSignal n = sig" by blast
qed (rule posix_kernel.pollImpl_signals [OF assms(1) posix_kernel.reachable_ok [OF assms(1,2)] assms(3-5)])

text \<open>Two conveyors wait for the end of the program and one for a user signal; three signals arrive.\<close>

definition mini_signals :: "(mini_kernel, unit) driver option" where
  "mini_signals = do {
     d \<leftarrow> mini_start;
     (c, d) \<leftarrow> onSignal mini_os Terminate d;
     (c, d) \<leftarrow> onSignal mini_os User1 d;
     (c, d) \<leftarrow> onSignal mini_os Terminate d;
     Some (set_kern ((kern d)\<lparr>mk_ready := [(4, EPOLLIN)], mk_signals := [SIGINT, SIGUSR1, SIGTERM]\<rparr>) d)
   }"

lemma mini_signals_reachable: "mini_signals = Some d \<Longrightarrow> reachable mini_os mini_tab d"
  unfolding mini_signals_def
  by (auto split: bind_splits intro!: client_kernel_step [OF mini.posix_kernel_axioms]
      dest!: mini_start_reachable driver_step.on_signal [where tab = mini_tab])
     (blast intro: reachable.step)

lemma mini_signals_state:
  "case mini_signals of
     Some d \<Rightarrow> epoll_fd (event_port d) = 3 \<and> signal_fd (event_port d) = 4
       \<and> fst (sys_epoll_wait mini_os 3 256 0 (kern d)) = Some [\<lparr>ee_events = EPOLLIN, ee_data = 0\<rparr>]
       \<and> mk_signals (snd (sys_epoll_wait mini_os 3 256 0 (kern d))) = [SIGINT, SIGUSR1, SIGTERM]
       \<and> signal_feeders (event_port d) [SIGINT, SIGUSR1, SIGTERM] = [4, 0, 2, 4, 0]
       \<and> arrived d 0 = Some [] \<and> arrived d 2 = Some [] \<and> arrived d 4 = Some []
   | None \<Rightarrow> False"
  by code_simp

theorem signals_reach_listeners_witness:
  "\<exists>d d'. mini_signals = Some d \<and> pollImpl mini_os 0 d = Some (True, d') \<and> arrived d' 0 = Some [IsValue Void, IsValue Void]
     \<and> arrived d' 2 = Some [IsValue Void]"
proof -
  let ?sigs = "[SIGINT, SIGUSR1, SIGTERM]"
  from mini_signals_state obtain d where d: "mini_signals = Some d" "epoll_fd (event_port d) = 3" "signal_fd (event_port d) = 4"
    "fst (sys_epoll_wait mini_os 3 256 0 (kern d)) = Some [\<lparr>ee_events = EPOLLIN, ee_data = 0\<rparr>]"
    "mk_signals (snd (sys_epoll_wait mini_os 3 256 0 (kern d))) = ?sigs"
    "signal_feeders (event_port d) ?sigs = [4, 0, 2, 4, 0]"
    "arrived d 0 = Some []" "arrived d 2 = Some []" "arrived d 4 = Some []" by (auto split: option.splits)
  obtain k where wait: "sys_epoll_wait mini_os (epoll_fd (event_port d)) MAX_EPOLL_EVENTS 0 (kern d)
      = (Some [\<lparr>ee_events = EPOLLIN, ee_data = 0\<rparr>], k)" and k: "mk_signals k = ?sigs"
    using d(2,4,5) by (cases "sys_epoll_wait mini_os 3 256 0 (kern d)") (simp add: MAX_EPOLL_EVENTS_def)
  have sigs: "signals_waiting mini_os (signal_fd (event_port d)) k ?sigs (k\<lparr>mk_signals := []\<rparr>)"
    using k by (simp add: mini_os_def)
  have room: "\<forall>f \<in> set (signal_feeders (event_port d) ?sigs). \<forall>ys. arrived d f = Some ys \<longrightarrow>
      length ys + length (signal_feeders (event_port d) ?sigs) < SIZE_MOD"
    using d(6-9) by (simp add: SIZE_MOD_def)
  from signals_reach_listeners [OF mini.posix_kernel_axioms mini_signals_reachable [OF d(1)] wait sigs room] obtain d' where
    "pollImpl mini_os 0 d = Some (True, d')"
    "\<forall>f. arrived d' f = map_option (\<lambda>ys. ys @ replicate (count_list (signal_feeders (event_port d) ?sigs) f) (IsValue Void)) (arrived d f)"
    by blast
  with d show ?thesis by (auto simp: numeral_2_eq_2)
qed

end
