(* ===== verification/Unix_Driver_Accept.thy ===== *)
theory Unix_Driver_Accept
  imports Unix_Driver_Correct
begin

text \<open>
  Servers: what an event of a listening socket leads to. \<open>UnixServer::notify\<close> accepts one connection, makes a stream of it
  and feeds the stream to the conveyor of \<open>accept\<close>.
\<close>

section \<open>Accepting\<close>

lemma arrived_same:
  assumes "feeder_at (snd (conv d')) = feeder_at (snd (conv d))" and "obj_at (snd (conv d')) = obj_at (snd (conv d))"
  shows "arrived d' = arrived d"
  by (rule ext) (unfold arrived_def assms, rule refl)

lemma arrived_set_kern [simp]: "arrived (set_kern k d) = arrived d"
  by (rule arrived_same) simp_all

lemma new_owner_store:
  "obj_at (snd (conv (snd (new_owner os n d)))) = obj_at (snd (conv d))" "feeder_at (snd (conv (snd (new_owner os n d)))) = feeder_at (snd (conv d))"
  by (simp_all add: new_owner_def subscribe_def syscall_def Let_def split: prod.splits)

context posix_kernel
begin

lemma delete_added_arrived:
  assumes "driver_ok tab d1" and "adds_owner tab a d d1"
  shows "\<exists>d'. delete_owner os a d1 = Some d' \<and> leaves_nothing tab d d' \<and> arrived d' = arrived d1"
proof -
  from delete_added [OF assms] obtain d' where d': "delete_owner os a d1 = Some d'" "leaves_nothing tab d d'"
    "obj_at (snd (conv d')) = obj_at (snd (conv d1))" by blast
  from assms(2) obtain n where n: "owners d1 a = Some n" "feeders_of n = []" by (auto simp: adds_owner_def)
  have "feeder_at (snd (conv (IFdOwner_delete os b d1))) = feeder_at (snd (conv d1))" for b
    by (rule IFdOwner_delete_cases [of b d1]) simp
  with d'(1) n have "feeder_at (snd (conv d')) = feeder_at (snd (conv d1))" by (auto simp: delete_owner_def drop_feeders_list)
  with d' arrived_same show ?thesis by blast
qed

lemma accept_connection:
  assumes ok: "driver_ok tab d" and live: "feeder_at (snd (conv d)) f \<noteq> None" and acc: "sys_accept os (file_descriptor b) (kern d) = (r, k)"
    and r: "0 \<le> r" and m: "m AND EPOLLIN \<noteq> 0"
  shows "\<exists>d'. UnixServer_notify os b (Some f) m d = Some d'
    \<and> (if feeder_at (snd (conv d)) f = Some None then leaves_nothing tab d d' \<and> arrived d' = arrived d
       else \<exists>c. adds_owner tab c d d' \<and> owner_fd d' c = Some r
         \<and> (\<forall>g. arrived d' g = map_option (\<lambda>ys. if g = f then ys @ [IsValue (Stream c)] else ys) (arrived d g)))"
proof -
  let ?n = "UnixIoStream \<lparr>file_descriptor = r, fd_flags = 0, event_mask = (EPOLLIN OR EPOLLOUT) OR EPOLLRDHUP\<rparr> None None None"
  have k: "opens tab (kern d) r k" using accept [OF acc] r by simp
  obtain c d1 where d1: "new_owner os ?n (set_kern k d) = (c, d1)" by fastforce
  from take_over [OF ok k refl d1] have t: "driver_ok tab d1" "adds_owner tab c d d1" by simp_all
  have own: "owners d1 c = Some ?n" using d1 by (auto simp: new_owner_def subscribe_def syscall_def Let_def split: prod.splits if_splits)
  have store: "feeder_at (snd (conv d1)) = feeder_at (snd (conv d))" "arrived d1 = arrived d"
    using new_owner_store [of os ?n "set_kern k d"] d1 arrived_same [of d1 "set_kern k d"] by simp_all
  from feed_ok [OF t(1), of f "Stream c"] live store(1) obtain d2 where d2: "on_conv (feeder_feed f (Stream c)) d1 = Some d2"
    "driver_ok tab d2" "conv_frame d1 d2" "feeder_at (snd (conv d2)) = feeder_at (snd (conv d1))"
    "obj_at (snd (conv d2)) = fed f (Stream c) (snd (conv d1))" by auto
  note fr = conv_frameD [OF d2(3)]
  have conv: "conv_ok (conv d1)" using t(1) by (simp add: driver_ok_def)
  note arr = arrived_fed [OF conv d2(4,5), unfolded store(2)]
  have adds: "adds_owner tab c d d2" using adds_owner_frame [OF t(2) d2(3)] .
  have run: "UnixServer_notify os b (Some f) m d = (if feeder_at (snd (conv d)) f = Some None then delete_owner os c d2 else Some d2)"
    using m r acc d1 d2(1) live store(1) by (auto simp: UnixServer_notify_def syscall_def UnixIoStream_new_def feed_stream_def)
  show ?thesis
  proof (cases "feeder_at (snd (conv d)) f = Some None")
    case True
    from delete_added_arrived [OF d2(2) adds] obtain d' where d': "delete_owner os c d2 = Some d'" "leaves_nothing tab d d'"
      "arrived d' = arrived d2" by blast
    have "arrived d f = None" using True by (simp add: arrived_def)
    have "arrived d2 g = arrived d g" for g
      using arr [of g] \<open>arrived d f = None\<close> by (cases "g = f") (simp_all add: option.map_ident)
    then have "arrived d2 = arrived d" by (rule ext)
    with d' True run show ?thesis by simp
  next
    case False
    have "owner_fd d2 c = Some r" using own fr(2) by (simp add: owner_fd_def)
    with False adds arr run show ?thesis by auto
  qed
qed

lemma pollImpl_accepts:
  assumes ok: "driver_ok tab d"
    and wait: "sys_epoll_wait os (epoll_fd (event_port d)) MAX_EPOLL_EVENTS time (kern d) = (Some [\<lparr>ee_events = m, ee_data = a\<rparr>], k)"
    and a: "2 \<le> a" "owners d a = Some (UnixServer b (Some f))" and m: "m AND EPOLLIN \<noteq> 0"
    and acc: "sys_accept os (file_descriptor b) k = (r, k1)"
  shows "\<exists>d'. pollImpl os time d = Some (True, d')
    \<and> (if r < 0 \<or> feeder_at (snd (conv d)) f = Some None then leaves_nothing tab d d' \<and> arrived d' = arrived d
       else \<exists>c. adds_owner tab c d d' \<and> owner_fd d' c = Some r
         \<and> (\<forall>g. arrived d' g = map_option (\<lambda>ys. if g = f then ys @ [IsValue (Stream c)] else ys) (arrived d g)))"
proof -
  let ?d = "set_kern k d"
  have tab: "tab k = tab (kern d)" using epoll_wait_some [OF wait] by simp
  have ok1: "driver_ok tab ?d" by (rule driver_ok_same [OF ok tab])
  have live: "feeder_at (snd (conv ?d)) f \<noteq> None" using owner_feeders [of ?d a "UnixServer b (Some f)" f] ok1 a(2) by (simp add: driver_ok_def)
  have poll: "pollImpl os time d = Some (True, d')" if "UnixServer_notify os b (Some f) m ?d = Some d'" for d'
    using wait a that by (subst pollImpl.simps) (simp add: syscall_def handle_event_def notify_def MAX_EPOLL_EVENTS_def)
  have frame: "leaves_nothing tab ?d d' = leaves_nothing tab d d'" "adds_owner tab c ?d d' = adds_owner tab c d d'" for c d'
    by (simp_all add: leaves_nothing_def adds_owner_def tab)
  show ?thesis
  proof (cases "r < 0")
    case True
    have "UnixServer_notify os b (Some f) m ?d = Some (set_kern k1 ?d)"
      using True acc m by (simp add: UnixServer_notify_def syscall_def)
    moreover have "tab k1 = tab k" using accept [OF acc] True by (simp add: same_table_def)
    ultimately show ?thesis using True poll tab by (auto simp: leaves_nothing_def)
  next
    case False
    then have "0 \<le> r" by simp
    from accept_connection [OF ok1 live _ this m, of b k1] acc obtain d' where d': "UnixServer_notify os b (Some f) m ?d = Some d'"
      "if feeder_at (snd (conv ?d)) f = Some None then leaves_nothing tab ?d d' \<and> arrived d' = arrived ?d
       else \<exists>c. adds_owner tab c ?d d' \<and> owner_fd d' c = Some r
         \<and> (\<forall>g. arrived d' g = map_option (\<lambda>ys. if g = f then ys @ [IsValue (Stream c)] else ys) (arrived ?d g))" by auto
    show ?thesis
      by (intro exI [of _ d'] conjI poll d'(1)) (use d'(2) False in \<open>simp only: frame arrived_set_kern kern_simps if_False simp_thms\<close>)
  qed
qed

end

section \<open>Properties\<close>

text \<open>
  C17: a connection reaches the conveyor of \<open>accept\<close> or is closed. When epoll reports that a listening socket is readable
  in a reachable state, the call returns true. If the kernel gives a connection and the conveyor still exists, exactly one new stream
  is made, which owns the descriptor of the connection, and the conveyor receives exactly this stream behind the elements it holds; no
  other conveyor receives anything. If the conveyor is gone or no connection is given, no descriptor stays open and no object is left.
\<close>

theorem server_accepts:
  assumes "posix_kernel os tab backlog" and "reachable os tab d"
    and "sys_epoll_wait os (epoll_fd (event_port d)) MAX_EPOLL_EVENTS time (kern d) = (Some [\<lparr>ee_events = m, ee_data = a\<rparr>], k)"
    and "2 \<le> a" and "owners d a = Some (UnixServer b (Some f))" and "m AND EPOLLIN \<noteq> 0"
    and "sys_accept os (file_descriptor b) k = (r, k1)"
  shows "\<exists>d'. pollImpl os time d = Some (True, d')
    \<and> (if r < 0 \<or> feeder_at (snd (conv d)) f = Some None then leaves_nothing tab d d' \<and> arrived d' = arrived d
       else \<exists>c. adds_owner tab c d d' \<and> owner_fd d' c = Some r
         \<and> (\<forall>g. arrived d' g = map_option (\<lambda>ys. if g = f then ys @ [IsValue (Stream c)] else ys) (arrived d g)))"
  by (rule posix_kernel.pollImpl_accepts [OF assms(1) posix_kernel.reachable_ok [OF assms(1,2)] assms(3-7)])

text \<open>A server that listens, and a connection for it.\<close>

definition mini_arrival :: "(mini_kernel, unit) driver option" where
  "mini_arrival = do {
     d \<leftarrow> mini_listen;
     Some (set_kern ((kern d)\<lparr>mk_ready := [(7, EPOLLIN)]\<rparr>) d)
   }"

lemma mini_arrival_reachable: "mini_arrival = Some d \<Longrightarrow> reachable mini_os mini_tab d"
  unfolding mini_arrival_def
  by (auto split: bind_splits intro!: client_kernel_step [OF mini.posix_kernel_axioms] dest!: mini_listen_reachable)

lemma mini_arrival_state:
  "case mini_arrival of
     Some d \<Rightarrow> epoll_fd (event_port d) = 3
       \<and> owners d 2 = Some (UnixServer \<lparr>file_descriptor = 7, fd_flags = 0, event_mask = EPOLLIN\<rparr> (Some 0))
       \<and> feeder_at (snd (conv d)) 0 = Some (Some 1) \<and> arrived d 0 = Some []
       \<and> fst (sys_epoll_wait mini_os 3 256 0 (kern d)) = Some [\<lparr>ee_events = EPOLLIN, ee_data = 2\<rparr>]
       \<and> fst (sys_accept mini_os 7 (snd (sys_epoll_wait mini_os 3 256 0 (kern d)))) = 8
   | None \<Rightarrow> False"
  by code_simp

theorem server_accepts_witness:
  "\<exists>d d' c. mini_arrival = Some d \<and> pollImpl mini_os 0 d = Some (True, d') \<and> adds_owner mini_tab c d d' \<and> owner_fd d' c = Some 8
     \<and> arrived d' 0 = Some [IsValue (Stream c)]"
proof -
  let ?b = "\<lparr>file_descriptor = 7, fd_flags = 0, event_mask = EPOLLIN\<rparr> :: IFdOwner"
  from mini_arrival_state obtain d where d: "mini_arrival = Some d" "epoll_fd (event_port d) = 3"
    "owners d 2 = Some (UnixServer ?b (Some 0))" "feeder_at (snd (conv d)) 0 = Some (Some 1)" "arrived d 0 = Some []"
    "fst (sys_epoll_wait mini_os 3 256 0 (kern d)) = Some [\<lparr>ee_events = EPOLLIN, ee_data = 2\<rparr>]"
    "fst (sys_accept mini_os 7 (snd (sys_epoll_wait mini_os 3 256 0 (kern d)))) = 8" by (auto split: option.splits)
  obtain k where wait: "sys_epoll_wait mini_os (epoll_fd (event_port d)) MAX_EPOLL_EVENTS 0 (kern d)
      = (Some [\<lparr>ee_events = EPOLLIN, ee_data = 2\<rparr>], k)" and k: "k = snd (sys_epoll_wait mini_os 3 256 0 (kern d))"
    using d(2,6) by (cases "sys_epoll_wait mini_os 3 256 0 (kern d)") (simp add: MAX_EPOLL_EVENTS_def)
  obtain k1 where acc: "sys_accept mini_os (file_descriptor ?b) k = (8, k1)"
    using d(7) k by (cases "sys_accept mini_os 7 k") simp
  have "EPOLLIN AND EPOLLIN \<noteq> 0" by (simp add: EPOLLIN_def)
  from server_accepts [OF mini.posix_kernel_axioms mini_arrival_reachable [OF d(1)] wait order_refl d(3) this acc] d(1,4,5)
  show ?thesis by fastforce
qed

end
