(* ===== verification/Async_Stream.thy ===== *)
theory Async_Stream
  imports Unix_Driver_Correct
begin

text \<open>
  Asynchronous streams on the unix driver: the constructor of \<open>AsyncIoStream\<close> (\<open>source/forstio/io.cpp\<close>)
  connects the readiness conveyors of a stream with the steppers of \<open>Io_Helpers\<close>. A call of the event loop
  polls the event port, which feeds the conveyors of the stream (\<open>Unix_Driver\<close>), and then runs the loop
  (\<open>Event_Loop\<close>), which fires the nodes (\<open>Conveyor\<close>) and thereby the steppers.

  The steppers, and the memory that they read to and write from, are the user state of the conveyors beside
  the state of the kernel. A feeder of a stepper is the list of the results fed to it, as in \<open>Io_Helpers\<close>.
\<close>

section \<open>The model\<close>

record async_user =
  au_read :: ReadTaskAndStepHelper
  au_on_read_disconnect :: "unit list option"
  au_write :: WriteTaskAndStepHelper
  au_mem :: "byte list"

record AsyncIoStream =
  as_stream :: addr
  as_read_ready :: addr
  as_write_ready :: addr
  as_read_disconnected :: addr

definition unixRead :: "'k os \<Rightarrow> fd \<Rightarrow> 'k recv_call" where
  "unixRead os fd k len = sys_recv os fd len k"

definition unixWrite :: "'k os \<Rightarrow> fd \<Rightarrow> 'k send_call" where
  "unixWrite os fd k data = sys_send os fd data k"

text \<open>The functions given to \<open>then\<close>; \<open>errno\<close> is the value an earlier call has left in \<open>errno\<close>.\<close>

definition on_read_ready :: "'k os \<Rightarrow> fd \<Rightarrow> (io_value, 'k \<times> async_user) func" where
  "on_read_ready os fd v ku = (case ku of (k, u) \<Rightarrow>
     (case readStep (UnixIoStream_read (unixRead os fd)) (au_read u) (au_mem u) k of
        Some (h, mem, k) \<Rightarrow> (Returns (IsValue Void), (k, u\<lparr>au_read := h, au_mem := mem\<rparr>))
      | None \<Rightarrow> (Fails, ku)))"

definition on_write_ready :: "'k os \<Rightarrow> errno \<Rightarrow> fd \<Rightarrow> (io_value, 'k \<times> async_user) func" where
  "on_write_ready os errno fd v ku = (case ku of (k, u) \<Rightarrow>
     (case writeStep (UnixIoStream_write errno (unixWrite os fd)) (au_mem u) (au_write u) k of
        Some (h, k) \<Rightarrow> (Returns (IsValue Void), (k, u\<lparr>au_write := h\<rparr>))
      | None \<Rightarrow> (Fails, ku)))"

definition on_disconnected :: "(io_value, 'k \<times> async_user) func" where
  "on_disconnected v ku = (case ku of (k, u) \<Rightarrow>
     (Returns (IsValue Void), (k, u\<lparr>au_on_read_disconnect := map_option (\<lambda>fed. fed @ [()]) (au_on_read_disconnect u)\<rparr>)))"

definition then_sink ::
    "(io_value, 'k \<times> 'u) func \<Rightarrow> conveyor \<Rightarrow> ('k, 'u) driver \<Rightarrow> (addr \<times> ('k, 'u) driver) option" where
  "then_sink func c d = do {
     (c, st) \<leftarrow> conveyor_then func PropagateError c (conv d);
     (s, st) \<leftarrow> conveyor_sink c st;
     Some (s, d\<lparr>conv := st\<rparr>)
   }"

text \<open>The members are constructed in the order of their declaration, the steppers last.\<close>

definition AsyncIoStream_new ::
    "'k os \<Rightarrow> errno \<Rightarrow> addr \<Rightarrow> ('k, async_user) driver \<Rightarrow> (AsyncIoStream \<times> ('k, async_user) driver) option" where
  "AsyncIoStream_new os errno stream d = do {
     n \<leftarrow> owners d stream;
     let fd = file_descriptor (owner_base n);
     (c, d) \<leftarrow> UnixIoStream_readReady stream d;
     (r, d) \<leftarrow> then_sink (on_read_ready os fd) c d;
     (c, d) \<leftarrow> UnixIoStream_writeReady stream d;
     (w, d) \<leftarrow> then_sink (on_write_ready os errno fd) c d;
     (c, d) \<leftarrow> UnixIoStream_onReadDisconnected stream d;
     (x, d) \<leftarrow> then_sink on_disconnected c d;
     let (k, u) = user (snd (conv d));
     let u = u\<lparr>au_read := \<lparr>read_task = None, read_done = None\<rparr>, au_on_read_disconnect := None,
               au_write := \<lparr>write_task = None, write_done = None\<rparr>\<rparr>;
     Some (\<lparr>as_stream = stream, as_read_ready = r, as_write_ready = w, as_read_disconnected = x\<rparr>,
           d\<lparr>conv := set_user (k, u) (conv d)\<rparr>)
   }"

text \<open>\<open>AsyncIoStream::read\<close> and \<open>readDone\<close> on a stream with descriptor \<open>fd\<close>.\<close>

definition async_read ::
    "'k os \<Rightarrow> fd \<Rightarrow> size_t \<Rightarrow> size_t \<Rightarrow> size_t \<Rightarrow> ('k, async_user) driver \<Rightarrow> ('k, async_user) driver option" where
  "async_read os fd buffer min_length max_length d = (case user (snd (conv d)) of (k, u) \<Rightarrow> do {
     (h, mem, k) \<leftarrow> AsyncIoStream_read (UnixIoStream_read (unixRead os fd)) buffer min_length max_length
       (au_read u) (au_mem u) k;
     Some (d\<lparr>conv := set_user (k, u\<lparr>au_read := h, au_mem := mem\<rparr>) (conv d)\<rparr>)
   })"

definition async_readDone :: "('k, async_user) driver \<Rightarrow> ('k, async_user) driver" where
  "async_readDone d = (case user (snd (conv d)) of (k, u) \<Rightarrow>
     d\<lparr>conv := set_user (k, u\<lparr>au_read := AsyncIoStream_readDone (au_read u)\<rparr>) (conv d)\<rparr>)"

definition async_write ::
    "'k os \<Rightarrow> errno \<Rightarrow> fd \<Rightarrow> size_t \<Rightarrow> size_t \<Rightarrow> ('k, async_user) driver \<Rightarrow> ('k, async_user) driver option" where
  "async_write os errno fd buffer len d = (case user (snd (conv d)) of (k, u) \<Rightarrow> do {
     (h, k) \<leftarrow> AsyncIoStream_write (UnixIoStream_write errno (unixWrite os fd)) buffer len (au_mem u) (au_write u) k;
     Some (d\<lparr>conv := set_user (k, u\<lparr>au_write := h\<rparr>) (conv d)\<rparr>)
   })"

definition async_writeDone :: "('k, async_user) driver \<Rightarrow> ('k, async_user) driver" where
  "async_writeDone d = (case user (snd (conv d)) of (k, u) \<Rightarrow>
     d\<lparr>conv := set_user (k, u\<lparr>au_write := AsyncIoStream_writeDone (au_write u)\<rparr>) (conv d)\<rparr>)"

definition async_onReadDisconnected :: "('k, async_user) driver \<Rightarrow> ('k, async_user) driver" where
  "async_onReadDisconnected d = (case user (snd (conv d)) of (k, u) \<Rightarrow>
     d\<lparr>conv := set_user (k, u\<lparr>au_on_read_disconnect := Some []\<rparr>) (conv d)\<rparr>)"

section \<open>Links\<close>

text \<open>A feeder, its adapt node, the \<open>then\<close> above it and the sink on top.\<close>

record 'u link =
  lk_feeder :: addr
  lk_node :: addr
  lk_stage :: addr
  lk_sink :: addr
  lk_func :: "(io_value, 'u) func"

definition link_ok :: "(io_value, 'u) state \<Rightarrow> 'u link \<Rightarrow> io_value error_or list \<Rightarrow> bool" where
  "link_ok st c xs \<longleftrightarrow> feeder_at (snd st) (lk_feeder c) = Some (Some (lk_node c))
     \<and> obj_at (snd st) (lk_node c) = Some (AdaptConveyorNode (Some (lk_feeder c)) xs)
     \<and> obj_at (snd st) (lk_stage c) = Some (ConvertConveyorNode (Some (lk_node c)) (lk_func c) PropagateError)
     \<and> obj_at (snd st) (lk_sink c) = Some (SinkConveyorNode (Some (lk_stage c)) None)
     \<and> st_parent (snd st) (lk_node c) = Some (lk_sink c) \<and> ev_alive (fst st) (lk_node c)"

text \<open>The functions of the nodes that fire, one after the other.\<close>

fun run_funcs :: "(io_value, 'u) func list \<Rightarrow> 'u \<Rightarrow> 'u option" where
  "run_funcs [] u = Some u"
| "run_funcs (f # fs) u = (case f Void u of (Returns (IsValue v), u) \<Rightarrow> run_funcs fs u | _ \<Rightarrow> None)"

lemma fire_link:
  assumes "link_ok (l, w) c [IsValue Void]" and "lk_func c Void (user w) = (Returns (IsValue v), u)"
  shows "fire (lk_node c) (l, w) =
    Some (l, w\<lparr>obj_at := (obj_at w)(lk_node c := Some (AdaptConveyorNode (Some (lk_feeder c)) [])), user := u\<rparr>)"
proof -
  have "lk_sink c \<noteq> lk_node c" "lk_stage c \<noteq> lk_node c" using assms(1) by (auto simp: link_ok_def)
  with assms show ?thesis
    by (simp add: fire_def AdaptConveyorNode_fire_def childHasFired_def SinkConveyorNode_childHasFired_def link_ok_def
        getResult_Convert getResult_Adapt convert_result_def set_defs queued_def)
qed

text \<open>Changing the contents of one link.\<close>

definition set_link :: "'u link \<Rightarrow> io_value error_or list \<Rightarrow> 'u \<Rightarrow> (io_value, 'u) world \<Rightarrow> (io_value, 'u) world" where
  "set_link c xs u w = w\<lparr>obj_at := (obj_at w)(lk_node c := Some (AdaptConveyorNode (Some (lk_feeder c)) xs)), user := u\<rparr>"

lemma set_link_simps [simp]:
  "user (set_link c xs u w) = u" "feeder_at (set_link c xs u w) = feeder_at w" "st_parent (set_link c xs u w) = st_parent w"
  by (simp_all add: set_link_def)

lemma link_ok_self:
  "link_ok (l, w) c xs \<Longrightarrow> ev_alive l' = ev_alive l \<Longrightarrow> link_ok (l', set_link c ys u w) c ys"
  by (auto simp: link_ok_def set_link_def)

lemma link_ok_other:
  "link_ok (l, w) c xs \<Longrightarrow> link_ok (l, w) c' zs \<Longrightarrow> lk_feeder c' \<noteq> lk_feeder c \<Longrightarrow> ev_alive l' = ev_alive l \<Longrightarrow>
   link_ok (l', set_link c ys u w) c' zs"
  by (auto simp: link_ok_def set_link_def)

lemma sched_take_queue: "sched_queue (sched_take q) = tl (sched_queue q)"
  by (cases "nexts q"; cases "laters q") (auto simp: sched_queue_def sched_take_def)

text \<open>The event loop runs the links whose nodes are armed, in order, and comes to rest.\<close>

lemma run_links:
  assumes "loop_rel l q" and "sched_queue q = map lk_node cs" and "\<forall>c \<in> set cs. link_ok (l, w) c [IsValue Void]"
    and "distinct (map lk_feeder cs)" and "run_funcs (map lk_func cs) (user w) = Some u" and "length cs \<le> k"
  shows "\<exists>l' w' q'. turnLoop_from k fire (l, w) = Some (True, l', w') \<and> loop_rel l' q' \<and> sched_queue q' = []
    \<and> entered l' = entered l \<and> user w' = u \<and> (\<forall>c \<in> set cs. link_ok (l', w') c [])
    \<and> (\<forall>c. lk_feeder c \<notin> lk_feeder ` set cs \<longrightarrow> link_ok (l, w) c [] \<longrightarrow> link_ok (l', w') c [])"
  using assms
proof (induction cs arbitrary: l w q k)
  case Nil
  then have "head l = None" by (auto simp: loop_rel_def)
  then have "turnLoop_from k fire (l, w) = Some (True, l, w)" by (cases k) simp_all
  with Nil show ?case by auto
next
  case (Cons c cs)
  from take_head_rel [OF Cons.prems(1)] Cons.prems(2) obtain l1 where l1: "head l = Some (lk_node c)"
    "take_head (lk_node c) l = Some l1" "loop_rel l1 (sched_take q)" "entered l1 = entered l" "ev_alive l1 = ev_alive l" by auto
  obtain k' where k: "k = Suc k'" using Cons.prems(6) by (cases k) auto
  from Cons.prems(5) obtain v u1 where u1: "lk_func c Void (user w) = (Returns (IsValue v), u1)"
    "run_funcs (map lk_func cs) u1 = Some u" by (auto split: prod.splits outcome.splits error_or.splits)
  have c: "link_ok (l, w) c [IsValue Void]" using Cons.prems(3) by simp
  then have "link_ok (l1, w) c [IsValue Void]" using l1(5) by (simp add: link_ok_def)
  from fire_link [OF this u1(1)] have turn: "turn fire (l, w) = Some (True, l1, set_link c [] u1 w)"
    using l1(1,2) by (simp add: turn_def set_link_def)
  have rest: "\<forall>c' \<in> set cs. link_ok (l1, set_link c [] u1 w) c' [IsValue Void]"
    using Cons.prems(3,4) link_ok_other [OF c _ _ l1(5)] by (metis (no_types, lifting) distinct.simps(2) image_eqI list.set_intros(2) list.simps(9) set_map)
  have queue: "sched_queue (sched_take q) = map lk_node cs" using Cons.prems(2) by (simp add: sched_take_queue)
  have pre: "distinct (map lk_feeder cs)" "run_funcs (map lk_func cs) (user (set_link c [] u1 w)) = Some u" "length cs \<le> k'"
    using Cons.prems(4,6) u1(2) k by simp_all
  from Cons.IH [OF l1(3) queue rest pre] obtain l' w' q' where
    IH: "turnLoop_from k' fire (l1, set_link c [] u1 w) = Some (True, l', w')" "loop_rel l' q'" "sched_queue q' = []"
      "entered l' = entered l1" "user w' = u" "\<forall>c \<in> set cs. link_ok (l', w') c []"
      "\<forall>c'. lk_feeder c' \<notin> lk_feeder ` set cs \<longrightarrow> link_ok (l1, set_link c [] u1 w) c' [] \<longrightarrow> link_ok (l', w') c' []" by blast
  have "link_ok (l', w') c []" using IH(7) link_ok_self [OF c l1(5)] Cons.prems(4) by simp
  moreover have "link_ok (l', w') c' []" if "lk_feeder c' \<notin> lk_feeder ` set (c # cs)" "link_ok (l, w) c' []" for c'
    using IH(7) link_ok_other [OF c that(2) _ l1(5)] that(1) by simp
  ultimately show ?case using IH turn l1(1,4) k by auto
qed

text \<open>Feeding the links arms their nodes in order.\<close>

fun feed_links :: "'u link list \<Rightarrow> (io_value, 'u) state \<Rightarrow> (io_value, 'u) state option" where
  "feed_links [] st = Some st"
| "feed_links (c # cs) st = do { st \<leftarrow> feeder_feed (lk_feeder c) Void st; feed_links cs st }"

lemma feed_links_ok:
  assumes "loop_rel l q" and "entered l" and "laters q = []" and "lasts q = []"
    and "\<forall>c \<in> set cs. link_ok (l, w) c [] \<and> lk_node c \<notin> set (nexts q)" and "distinct (map lk_feeder cs)"
  shows "\<exists>l' w' q'. feed_links cs (l, w) = Some (l', w') \<and> loop_rel l' q' \<and> entered l'
    \<and> sched_queue q' = nexts q @ map lk_node cs \<and> user w' = user w \<and> (\<forall>c \<in> set cs. link_ok (l', w') c [IsValue Void])
    \<and> (\<forall>c xs. lk_feeder c \<notin> lk_feeder ` set cs \<longrightarrow> link_ok (l, w) c xs \<longrightarrow> link_ok (l', w') c xs)"
  using assms
proof (induction cs arbitrary: l w q)
  case Nil
  then show ?case by (auto simp: sched_queue_def)
next
  case (Cons c cs)
  have c: "link_ok (l, w) c []" "lk_node c \<notin> set (nexts q)" using Cons.prems(5) by simp_all
  from armNext_rel [OF Cons.prems(1,2), of "lk_node c"] c(1) obtain l1 where l1: "armNext (lk_node c) l = Some l1"
    "loop_rel l1 (sched_next (lk_node c) q)" "entered l1" "ev_alive l1 = ev_alive l" by (auto simp: link_ok_def)
  let ?q = "q\<lparr>nexts := nexts q @ [lk_node c]\<rparr>"
  have q: "sched_next (lk_node c) q = ?q" using c(2) Cons.prems(3,4) by (simp add: sched_next_def sched_queue_def)
  let ?w = "set_link c [IsValue Void] (user w) w"
  have feed: "feeder_feed (lk_feeder c) Void (l, w) = Some (l1, ?w)"
    using c(1) l1(1) by (simp add: feeder_feed_def with_feedee_def AdaptConveyorNode_feed_def on_loop_def set_obj_def
        link_ok_def set_link_def)
  have rest: "link_ok (l1, ?w) c' [] \<and> lk_node c' \<notin> set (nexts ?q)" if "c' \<in> set cs" for c'
  proof -
    have c': "link_ok (l, w) c' []" "lk_node c' \<notin> set (nexts q)" "lk_feeder c' \<noteq> lk_feeder c"
      using Cons.prems(5,6) that by (auto simp: image_iff)
    then have "lk_node c' \<noteq> lk_node c" using c(1) by (auto simp: link_ok_def)
    with c' link_ok_other [OF c(1) c'(1,3) l1(4)] show ?thesis by simp
  qed
  then have rest': "\<forall>c' \<in> set cs. link_ok (l1, ?w) c' [] \<and> lk_node c' \<notin> set (nexts ?q)" by blast
  have pre: "laters ?q = []" "lasts ?q = []" "distinct (map lk_feeder cs)" "user ?w = user w"
    using Cons.prems(3,4,6) by simp_all
  from Cons.IH [OF l1(2) [unfolded q] l1(3) pre(1,2) rest' pre(3), unfolded pre(4)] obtain l' w' q' where
    IH: "feed_links cs (l1, ?w) = Some (l', w')" "loop_rel l' q'" "entered l'"
      "sched_queue q' = nexts ?q @ map lk_node cs" "user w' = user w" "\<forall>c \<in> set cs. link_ok (l', w') c [IsValue Void]"
      "\<forall>c' xs. lk_feeder c' \<notin> lk_feeder ` set cs \<longrightarrow> link_ok (l1, ?w) c' xs \<longrightarrow> link_ok (l', w') c' xs" by blast
  have "link_ok (l', w') c [IsValue Void]" using IH(7) link_ok_self [OF c(1) l1(4)] Cons.prems(6) by simp
  moreover have "link_ok (l', w') c' xs" if "lk_feeder c' \<notin> lk_feeder ` set (c # cs)" "link_ok (l, w) c' xs" for c' xs
    using IH(7) link_ok_other [OF c(1) that(2) _ l1(4)] that(1) by simp
  ultimately show ?case using IH feed by auto
qed

section \<open>A round of the event loop\<close>

text \<open>
  The stream at rest: its three feeders are connected through links to the three functions of the
  constructor, nothing waits in them and no event is armed.
\<close>

definition rest_ok ::
    "'k os \<Rightarrow> errno \<Rightarrow> AsyncIoStream \<Rightarrow> IFdOwner \<Rightarrow> ('k \<times> async_user) link \<Rightarrow> ('k \<times> async_user) link \<Rightarrow> ('k \<times> async_user) link \<Rightarrow>
     ('k, async_user) driver \<Rightarrow> bool" where
  "rest_ok os errno s b lr lx lw d \<longleftrightarrow>
     2 \<le> as_stream s
     \<and> owners d (as_stream s) = Some (UnixIoStream b (Some (lk_feeder lr)) (Some (lk_feeder lx)) (Some (lk_feeder lw)))
     \<and> distinct [lk_feeder lr, lk_feeder lx, lk_feeder lw]
     \<and> link_ok (conv d) lr [] \<and> link_ok (conv d) lx [] \<and> link_ok (conv d) lw []
     \<and> lk_func lr = on_read_ready os (file_descriptor b) \<and> lk_func lx = on_disconnected
     \<and> lk_func lw = on_write_ready os errno (file_descriptor b)
     \<and> lk_sink lr = as_read_ready s \<and> lk_sink lx = as_read_disconnected s \<and> lk_sink lw = as_write_ready s
     \<and> entered (fst (conv d)) \<and> (\<exists>q. loop_rel (fst (conv d)) q \<and> sched_queue q = [])"

text \<open>The links that an event mask selects, in the order in which \<open>notify\<close> feeds them.\<close>

definition selected :: "32 word \<Rightarrow> 'u link \<Rightarrow> 'u link \<Rightarrow> 'u link \<Rightarrow> 'u link list" where
  "selected m lr lx lw = (if m AND EPOLLOUT \<noteq> 0 then [lw] else []) @ (if m AND EPOLLIN \<noteq> 0 then [lr] else [])
     @ (if m AND EPOLLRDHUP \<noteq> 0 then [lx] else [])"

lemma selected_simps:
  "event_feeders (Some (UnixIoStream b (Some (lk_feeder lr)) (Some (lk_feeder lx)) (Some (lk_feeder lw)))) m
     = map lk_feeder (selected m lr lx lw)"
  "set (selected m lr lx lw) \<subseteq> {lr, lx, lw}"
  "distinct [lk_feeder lr, lk_feeder lx, lk_feeder lw] \<Longrightarrow> distinct (map lk_feeder (selected m lr lx lw))"
  "length (selected m lr lx lw) \<le> 3"
  by (auto simp: selected_def)

lemma feed_seq_links: "feed_seq (map lk_feeder cs) d = map_option (\<lambda>st. d\<lparr>conv := st\<rparr>) (feed_links cs (conv d))"
proof (induction cs arbitrary: d)
  case (Cons c cs)
  then show ?case by (cases "feeder_feed (lk_feeder c) Void (conv d)") (simp_all add: on_conv_def)
qed simp

lemma link_ok_user [simp]: "link_ok (set_user u st) c xs = link_ok st c xs"
  by (simp add: link_ok_def set_user_def)

lemma rest_ok_user [simp]: "rest_ok os errno s b lr lx lw (d\<lparr>conv := set_user u (conv d)\<rparr>) = rest_ok os errno s b lr lx lw d"
  by (simp add: rest_ok_def) (simp add: set_user_def)

lemma rest_ok_kern [simp]: "rest_ok os errno s b lr lx lw (set_kern k d) = rest_ok os errno s b lr lx lw d"
  by (simp add: set_kern_def)

lemma rest_turnLoop:
  assumes "rest_ok os errno s b lr lx lw d"
  shows "turnLoop fire (conv d) = Some (True, conv d)"
proof -
  have "head (fst (conv d)) = None" using assms by (auto simp: rest_ok_def loop_rel_def)
  then have "turnLoop_from n fire (conv d) = Some (True, conv d)" for n by (cases n) simp_all
  then show ?thesis by (simp add: turnLoop_def)
qed

text \<open>An event for the stream runs the functions its mask selects and leaves the stream at rest.\<close>

lemma notify_round:
  assumes ok: "rest_ok os errno s b lr lx lw d"
    and run: "run_funcs (map lk_func (selected m lr lx lw)) (user (snd (conv d))) = Some u"
  shows "\<exists>d1 st. notify os (as_stream s) m d = Some d1 \<and> turnLoop fire (conv d1) = Some (True, st)
    \<and> user (snd st) = u \<and> rest_ok os errno s b lr lx lw (d1\<lparr>conv := st\<rparr>) \<and> event_port d1 = event_port d"
proof -
  let ?cs = "selected m lr lx lw"
  obtain l w where lw: "conv d = (l, w)" by (cases "conv d")
  from ok obtain q where q: "loop_rel l q" "sched_queue q = []" "entered l" by (auto simp: rest_ok_def lw)
  then have nil: "nexts q = []" "laters q = []" "lasts q = []" by (simp_all add: sched_queue_def)
  have links: "link_ok (l, w) lr []" "link_ok (l, w) lx []" "link_ok (l, w) lw []"
    and dist: "distinct [lk_feeder lr, lk_feeder lx, lk_feeder lw]"
    using ok by (auto simp: rest_ok_def lw)
  from links selected_simps(2) [of m lr lx lw] nil(1)
  have cs: "\<forall>c \<in> set ?cs. link_ok (l, w) c [] \<and> lk_node c \<notin> set (nexts q)" by auto
  from feed_links_ok [OF q(1,3) nil(2,3) cs selected_simps(3) [OF dist]] nil(1) obtain l1 w1 q1 where
    1: "feed_links ?cs (l, w) = Some (l1, w1)" "loop_rel l1 q1" "entered l1" "sched_queue q1 = map lk_node ?cs"
      "user w1 = user w" "\<forall>c \<in> set ?cs. link_ok (l1, w1) c [IsValue Void]"
      "\<forall>c xs. lk_feeder c \<notin> lk_feeder ` set ?cs \<longrightarrow> link_ok (l, w) c xs \<longrightarrow> link_ok (l1, w1) c xs" by auto
  have "run_funcs (map lk_func ?cs) (user w1) = Some u" using run 1(5) lw by simp
  from run_links [OF 1(2,4,6) selected_simps(3) [OF dist] this, of 65536] selected_simps(4) [of m lr lx lw]
  obtain l2 w2 q2 where
    2: "turnLoop fire (l1, w1) = Some (True, l2, w2)" "loop_rel l2 q2" "sched_queue q2 = []" "entered l2" "user w2 = u"
      "\<forall>c \<in> set ?cs. link_ok (l2, w2) c []"
      "\<forall>c. lk_feeder c \<notin> lk_feeder ` set ?cs \<longrightarrow> link_ok (l1, w1) c [] \<longrightarrow> link_ok (l2, w2) c []"
    using 1(3) by (auto simp: turnLoop_def)
  have all: "link_ok (l2, w2) c []" if "c \<in> {lr, lx, lw}" for c
  proof (cases "lk_feeder c \<in> lk_feeder ` set ?cs")
    case True
    then obtain c' where c': "c' \<in> set ?cs" "lk_feeder c' = lk_feeder c" by auto
    then have "c' = c" using selected_simps(2) [of m lr lx lw] that dist by auto
    with c' 2(6) show ?thesis by simp
  qed (use that links 1(7) 2(7) in auto)
  have "data_owner (owners d (as_stream s))" using ok by (simp add: rest_ok_def)
  from notify_seq [OF this, of os m] ok have "notify os (as_stream s) m d = feed_seq (map lk_feeder ?cs) d"
    by (simp only: rest_ok_def selected_simps(1))
  then have "notify os (as_stream s) m d = Some (d\<lparr>conv := (l1, w1)\<rparr>)" using 1(1) by (simp add: feed_seq_links lw)
  moreover have "rest_ok os errno s b lr lx lw (d\<lparr>conv := (l2, w2)\<rparr>)" using ok 2(2-4) all by (auto simp: rest_ok_def)
  ultimately show ?thesis using 2(1,5) by auto
qed

text \<open>One call of \<open>poll\<close>, when the kernel reports nothing, and when it reports one event for the stream.\<close>

lemma driver_poll_idle:
  assumes ok: "rest_ok os errno s b lr lx lw d"
    and wait: "sys_epoll_wait os (epoll_fd (event_port d)) MAX_EPOLL_EVENTS 0 (kern d) = (r, k)" and "r \<in> {None, Some []}"
  shows "driver_poll os d = Some (True, set_kern k d)"
proof -
  have "UnixEventPort_poll os d = Some (set_kern k d)"
    using wait assms(3) by (auto simp: UnixEventPort_poll_def pollImpl.simps [of os 0 d] syscall_def MAX_EPOLL_EVENTS_def)
  moreover have "turnLoop fire (conv (set_kern k d)) = Some (True, conv (set_kern k d))"
    using ok by (intro rest_turnLoop) simp
  ultimately show ?thesis by (simp add: driver_poll_def)
qed

lemma driver_poll_event:
  assumes ok: "rest_ok os errno s b lr lx lw d"
    and wait: "sys_epoll_wait os (epoll_fd (event_port d)) MAX_EPOLL_EVENTS 0 (kern d) = (Some [\<lparr>ee_events = m, ee_data = as_stream s\<rparr>], k)"
    and run: "run_funcs (map lk_func (selected m lr lx lw)) (k, snd (user (snd (conv d)))) = Some u"
  shows "\<exists>d'. driver_poll os d = Some (True, d') \<and> user (snd (conv d')) = u \<and> rest_ok os errno s b lr lx lw d'
    \<and> event_port d' = event_port d"
proof -
  have ok': "rest_ok os errno s b lr lx lw (set_kern k d)" using ok by simp
  have "user (snd (conv (set_kern k d))) = (k, snd (user (snd (conv d))))" by (simp add: set_kern_def set_user_def)
  with notify_round [OF ok', of m u] run obtain d1 st where
    1: "notify os (as_stream s) m (set_kern k d) = Some d1" "turnLoop fire (conv d1) = Some (True, st)" "user (snd st) = u"
      "rest_ok os errno s b lr lx lw (d1\<lparr>conv := st\<rparr>)" "event_port d1 = event_port d" by auto
  have "UnixEventPort_poll os d = Some d1"
    using wait 1(1) ok by (simp add: UnixEventPort_poll_def pollImpl.simps [of os 0 d] syscall_def MAX_EPOLL_EVENTS_def
        handle_event_def rest_ok_def)
  then have "driver_poll os d = Some (True, d1\<lparr>conv := st\<rparr>)" using 1(2) by (simp add: driver_poll_def)
  with 1 show ?thesis by simp
qed

section \<open>The constructor\<close>

definition fresh_ok :: "(io_value, 'u) state \<Rightarrow> sched \<Rightarrow> bool" where
  "fresh_ok st q \<longleftrightarrow> loop_rel (fst st) q \<and> entered (fst st)
     \<and> (\<forall>a. next_addr (snd st) \<le> a \<longrightarrow>
          \<not> ev_alive (fst st) a \<and> obj_at (snd st) a = None \<and> feeder_at (snd st) a = None)"

text \<open>A readiness conveyor with its \<open>then\<close> and its sink is a link on four new addresses.\<close>

definition new_link :: "addr \<Rightarrow> (io_value, 'u) func \<Rightarrow> 'u link" where
  "new_link n func = \<lparr>lk_feeder = n, lk_node = n + 1, lk_stage = n + 2, lk_sink = n + 3, lk_func = func\<rparr>"

lemma attach_link:
  assumes "fresh_ok (conv d) q"
  shows "\<exists>c d1 d'. new_ready a None mk d = Some (c, d1)
    \<and> then_sink func c d1 = Some (next_addr (snd (conv d)) + 3, d')
    \<and> fresh_ok (conv d') q \<and> next_addr (snd (conv d')) = next_addr (snd (conv d)) + 4
    \<and> user (snd (conv d')) = user (snd (conv d)) \<and> event_port d' = event_port d
    \<and> owners d' = (owners d)(a := Some (mk (next_addr (snd (conv d)))))
    \<and> link_ok (conv d') (new_link (next_addr (snd (conv d))) func) []
    \<and> (\<forall>c xs. link_ok (conv d) c xs \<longrightarrow> link_ok (conv d') c xs)"
proof -
  obtain l w where lw: "conv d = (l, w)" by (cases "conv d")
  let ?n = "next_addr w"
  from assms have l: "loop_rel l q" "entered l" and fresh: "\<not> ev_alive l a \<and> obj_at w a = None \<and> feeder_at w a = None"
    if "?n \<le> a" for a using that by (auto simp: fresh_ok_def lw)
  let ?l = "Event_new (?n + 3) (Event_new (?n + 1) l)"
  let ?w = "w\<lparr>obj_at := (obj_at w)(?n + 1 := Some (AdaptConveyorNode (Some ?n) []),
      ?n + 2 := Some (ConvertConveyorNode (Some (?n + 1)) func PropagateError),
      ?n + 3 := Some (SinkConveyorNode (Some (?n + 2)) None)),
    st_parent := (st_parent w)(?n + 1 := Some (?n + 3), ?n + 2 := None, ?n + 3 := None),
    st_child := (st_child w)(?n + 1 := None, ?n + 2 := None, ?n + 3 := Some (?n + 1)),
    feeder_at := (feeder_at w)(?n := Some (Some (?n + 1))), next_addr := ?n + 4\<rparr>"
  have run: "\<exists>c d1. new_ready a None mk d = Some (c, d1)
      \<and> then_sink func c d1 = Some (?n + 3, (set_owner a (Some (mk ?n)) d)\<lparr>conv := (?l, ?w)\<rparr>)"
    using l(2) [of ?n]
    by (simp add: new_ready_def newConveyorAndFeeder_def new_storage_def new_obj_def setFeedee_def setFeeder_def set_defs lw
        drop_feeder_def then_sink_def conveyor_then_def conveyor_sink_def setParent_def queued_def set_owner_def Let_def
        fun_upd_twist fun_eq_iff Event_new_def)
  have "loop_rel ?l q" using l(1) [of ?n] fresh by (intro loop_rel_Event_new) (simp_all add: Event_new_def)
  then have "fresh_ok (?l, ?w) q" using l(2) [of ?n] fresh by (auto simp: fresh_ok_def Event_new_def)
  moreover have "link_ok (?l, ?w) (new_link ?n func) []" by (simp add: link_ok_def new_link_def Event_new_def)
  moreover have "link_ok (?l, ?w) c xs" if "link_ok (l, w) c xs" for c xs
  proof -
    from that have "lk_feeder c < ?n" "lk_node c < ?n" "lk_stage c < ?n" "lk_sink c < ?n"
      using fresh by (auto simp: link_ok_def) (metis not_le option.distinct(1))+
    with that show ?thesis by (simp add: link_ok_def Event_new_def)
  qed
  ultimately show ?thesis using run by (fastforce simp: lw set_owner_def)
qed

lemma AsyncIoStream_new_ok:
  assumes "fresh_ok (conv d) q" and "sched_queue q = []" and "owners d a = Some (UnixIoStream b None None None)" and "2 \<le> a"
  shows "\<exists>s d' lr lx lw. AsyncIoStream_new os errno a d = Some (s, d') \<and> as_stream s = a
    \<and> rest_ok os errno s b lr lx lw d' \<and> event_port d' = event_port d
    \<and> user (snd (conv d')) = (kern d, (snd (user (snd (conv d))))\<lparr>au_read := \<lparr>read_task = None, read_done = None\<rparr>,
        au_on_read_disconnect := None, au_write := \<lparr>write_task = None, write_done = None\<rparr>\<rparr>)"
proof -
  let ?n = "next_addr (snd (conv d))" and ?fd = "file_descriptor b"
  obtain c1 e1 d1 where
    1: "UnixIoStream_readReady a d = Some (c1, e1)" "then_sink (on_read_ready os ?fd) c1 e1 = Some (?n + 3, d1)"
      "fresh_ok (conv d1) q" "next_addr (snd (conv d1)) = ?n + 4" "user (snd (conv d1)) = user (snd (conv d))"
      "event_port d1 = event_port d" "owners d1 a = Some (UnixIoStream b (Some ?n) None None)"
      "link_ok (conv d1) (new_link ?n (on_read_ready os ?fd)) []"
    using attach_link [OF assms(1), of a "\<lambda>f. UnixIoStream b (Some f) None None" "on_read_ready os ?fd"] assms(3)
    by (auto simp: UnixIoStream_readReady_def)
  obtain c2 e2 d2 where
    2: "UnixIoStream_writeReady a d1 = Some (c2, e2)" "then_sink (on_write_ready os errno ?fd) c2 e2 = Some (?n + 4 + 3, d2)"
      "fresh_ok (conv d2) q" "next_addr (snd (conv d2)) = ?n + 4 + 4" "user (snd (conv d2)) = user (snd (conv d))"
      "event_port d2 = event_port d" "owners d2 a = Some (UnixIoStream b (Some ?n) None (Some (?n + 4)))"
      "link_ok (conv d2) (new_link (?n + 4) (on_write_ready os errno ?fd)) []"
      "link_ok (conv d2) (new_link ?n (on_read_ready os ?fd)) []"
    using attach_link [OF 1(3), of a "\<lambda>f. UnixIoStream b (Some ?n) None (Some f)" "on_write_ready os errno ?fd"] 1(4-8)
    by (auto simp: UnixIoStream_writeReady_def)
  obtain c3 e3 d3 where
    3: "UnixIoStream_onReadDisconnected a d2 = Some (c3, e3)" "then_sink on_disconnected c3 e3 = Some (?n + 4 + 4 + 3, d3)"
      "fresh_ok (conv d3) q" "user (snd (conv d3)) = user (snd (conv d))"
      "event_port d3 = event_port d" "owners d3 a = Some (UnixIoStream b (Some ?n) (Some (?n + 4 + 4)) (Some (?n + 4)))"
      "link_ok (conv d3) (new_link (?n + 4 + 4) on_disconnected) []"
      "link_ok (conv d3) (new_link (?n + 4) (on_write_ready os errno ?fd)) []"
      "link_ok (conv d3) (new_link ?n (on_read_ready os ?fd)) []"
    using attach_link [OF 2(3), of a "\<lambda>f. UnixIoStream b (Some ?n) (Some f) (Some (?n + 4))" on_disconnected] 2(4-9)
    by (auto simp: UnixIoStream_onReadDisconnected_def)
  let ?s = "\<lparr>as_stream = a, as_read_ready = ?n + 3, as_write_ready = ?n + 4 + 3, as_read_disconnected = ?n + 4 + 4 + 3\<rparr>"
  have "rest_ok os errno ?s b (new_link ?n (on_read_ready os ?fd)) (new_link (?n + 4 + 4) on_disconnected)
      (new_link (?n + 4) (on_write_ready os errno ?fd)) d3"
    using 3(3,6-9) assms(2,4) by (auto simp: rest_ok_def new_link_def fresh_ok_def)
  moreover obtain k u where ku: "user (snd (conv d)) = (k, u)" by fastforce
  let ?d = "d3\<lparr>conv := set_user (k, u\<lparr>au_read := \<lparr>read_task = None, read_done = None\<rparr>, au_on_read_disconnect := None,
    au_write := \<lparr>write_task = None, write_done = None\<rparr>\<rparr>) (conv d3)\<rparr>"
  have "AsyncIoStream_new os errno a d = Some (?s, ?d)"
    using assms(3) 1(1,2) 2(1,2) 3(1,2,4) ku by (simp add: AsyncIoStream_new_def)
  moreover have "event_port ?d = event_port d" "user (snd (conv ?d)) = (kern d, (snd (user (snd (conv d))))
      \<lparr>au_read := \<lparr>read_task = None, read_done = None\<rparr>, au_on_read_disconnect := None,
       au_write := \<lparr>write_task = None, write_done = None\<rparr>\<rparr>)"
    using 3(5) ku by (simp_all add: kern_def set_user_def)
  ultimately show ?thesis by (metis AsyncIoStream.select_convs(1) rest_ok_user)
qed

end
