(* ===== verification/Async_Stream_Correct.thy ===== *)
theory Async_Stream_Correct
  imports Async_Stream
begin

text \<open>
  What an asynchronous stream on the unix driver achieves: the bytes it transfers in both directions, for
  every sequence of events, and that edge triggered notifications suffice for it. The kernel and what
  happens outside the program are parameters; a small kernel with one connection instantiates them.
\<close>

section \<open>Transfers in both directions\<close>

lemma overwrite_elsewhere:
  assumes "b + length bs \<le> length mem" and "b + length bs \<le> p \<or> p + k \<le> b"
  shows "take k (drop p (overwrite b bs mem)) = take k (drop p mem)"
proof (cases "p + k \<le> b")
  case True
  have "take k (drop p (overwrite b bs mem)) = drop p (take (p + k) (take b (overwrite b bs mem)))"
    using True by (simp add: take_drop add.commute min_def)
  also have "take b (overwrite b bs mem) = take b mem" using assms(1) by (simp add: overwrite_def)
  finally show ?thesis using True by (simp add: take_drop add.commute min_def)
qed (use assms in \<open>simp add: overwrite_def\<close>)

text \<open>
  A read task for the memory at \<open>buffer\<close> and a write task for the memory at \<open>source\<close>, both started on the
  memory \<open>mem0\<close> when the bytes \<open>R0\<close> had been received and \<open>S0\<close> sent.
\<close>

record transfer =
  tr_buffer :: size_t
  tr_min :: size_t
  tr_max :: size_t
  tr_source :: size_t
  tr_length :: size_t
  tr_mem :: "byte list"
  tr_received :: "byte list"
  tr_sent :: "byte list"

definition transfer_ok :: "transfer \<Rightarrow> bool" where
  "transfer_ok t \<longleftrightarrow> 0 < tr_min t \<and> tr_min t \<le> tr_max t \<and> tr_max t < SIZE_MOD \<and> tr_buffer t + tr_max t \<le> length (tr_mem t)
     \<and> 0 < tr_length t \<and> tr_length t < SIZE_MOD \<and> tr_source t + tr_length t \<le> length (tr_mem t)
     \<and> (tr_buffer t + tr_max t \<le> tr_source t \<or> tr_source t + tr_length t \<le> tr_buffer t)"

definition transferred ::
    "('k \<Rightarrow> byte list) \<Rightarrow> ('k \<Rightarrow> byte list) \<Rightarrow> transfer \<Rightarrow> byte list \<Rightarrow> nat \<Rightarrow> 'k \<times> async_user \<Rightarrow> bool" where
  "transferred received sent t bs n ku \<longleftrightarrow> (case ku of (k, u) \<Rightarrow>
     read_progress (tr_buffer t) (tr_min t) (tr_max t) (tr_mem t) (Some []) bs (au_read u) (au_mem u)
     \<and> received k = tr_received t @ bs
     \<and> write_progress (tr_source t) (tr_length t) (Some []) n (au_write u)
     \<and> sent k = tr_sent t @ take n (drop (tr_source t) (tr_mem t)))"

context posix_socket
begin

lemma readStep_transfer:
  assumes "transfer_ok t" and "transferred received sent t bs n (k, u)"
  shows "\<exists>h mem k' bs'. readStep (UnixIoStream_read recv) (au_read u) (au_mem u) k = Some (h, mem, k')
    \<and> transferred received sent t bs' n (k', u\<lparr>au_read := h, au_mem := mem\<rparr>)"
proof -
  have "read_progress (tr_buffer t) (tr_min t) (tr_max t) (tr_mem t) (Some []) bs (au_read u) (au_mem u)"
    using assms(2) by (simp add: transferred_def)
  from unix_in.readStep_progress [OF this, of k] assms(1) obtain h mem k' more where
    1: "readStep (UnixIoStream_read recv) (au_read u) (au_mem u) k = Some (h, mem, k')"
      "read_progress (tr_buffer t) (tr_min t) (tr_max t) (tr_mem t) (Some []) (bs @ more) h mem"
      "received k' = received k @ more" by (auto simp: transfer_ok_def)
  from readStep_keeps [of "\<lambda>k'. sent k' = sent k", OF _ 1(1)] read_keeps_sent assms(2) 1 show ?thesis
    by (auto simp: transferred_def)
qed

lemma writeStep_transfer:
  assumes "transfer_ok t" and "transferred received sent t bs n (k, u)"
  shows "\<exists>h k' n'. writeStep (UnixIoStream_write old_errno send) (au_mem u) (au_write u) k = Some (h, k')
    \<and> transferred received sent t bs n' (k', u\<lparr>au_write := h\<rparr>)"
proof -
  have prog: "write_progress (tr_source t) (tr_length t) (Some []) n (au_write u)"
    and mem: "au_mem u = overwrite (tr_buffer t) bs (tr_mem t)" "length bs \<le> tr_max t"
    using assms(2) by (simp_all add: transferred_def read_progress_def)
  have len: "tr_source t + tr_length t \<le> length (au_mem u)" "tr_length t < SIZE_MOD"
    using assms(1) mem by (simp_all add: transfer_ok_def)
  from unix_out.writeStep_progress [OF prog len(2,1), of old_errno k] obtain h k' m where
    1: "writeStep (UnixIoStream_write old_errno send) (au_mem u) (au_write u) k = Some (h, k')"
      "write_progress (tr_source t) (tr_length t) (Some []) (n + m) h"
      "sent k' = sent k @ take m (drop (tr_source t + n) (au_mem u))" by blast
  have "n + m \<le> tr_length t" using 1(2) by (simp add: write_progress_def)
  then have "take m (drop (tr_source t + n) (au_mem u)) = take m (drop (tr_source t + n) (tr_mem t))"
    unfolding mem(1) by (intro overwrite_elsewhere) (use assms(1) mem(2) in \<open>auto simp: transfer_ok_def\<close>)
  then have "sent k' = tr_sent t @ take (n + m) (drop (tr_source t) (tr_mem t))"
    using 1(3) assms(2) take_drop_add [of n "tr_source t" "tr_mem t" m] by (simp add: transferred_def)
  with writeStep_keeps [of "\<lambda>k'. received k' = received k", OF _ 1(1)] write_keeps_received assms(2) 1(1,2) show ?thesis
    by (auto simp: transferred_def)
qed

end

section \<open>Edge triggered notifications\<close>

text \<open>
  What POSIX documents of a socket that would block: \<open>recv\<close> fails when nothing is left to read, \<open>send\<close> when
  there is no room, and neither call undoes the other's condition.
\<close>

locale blocking_socket = posix_socket recv send received sent
  for recv :: "'k recv_call" and send :: "'k send_call" and received sent :: "'k \<Rightarrow> byte list" +
  fixes drained full :: "'k \<Rightarrow> bool"
  assumes recv_drained: "recv k n = (None, k') \<Longrightarrow> drained k'"
    and recv_full: "recv k n = (r, k') \<Longrightarrow> full k \<Longrightarrow> full k'"
    and send_full: "send k data = (Inl error, k') \<Longrightarrow> error \<in> {EAGAIN, EWOULDBLOCK} \<Longrightarrow> full k'"
    and send_nothing: "send k data = (Inr 0, k') \<Longrightarrow> data \<noteq> [] \<Longrightarrow> full k'"
    and send_drained: "send k data = (r', k') \<Longrightarrow> drained k \<Longrightarrow> drained k'"
begin

text \<open>A step that leaves its task unfinished has gone on until the socket would block.\<close>

lemma readStep_drains:
  assumes "readStep (UnixIoStream_read recv) h mem k = Some (h', mem', k')" and "read_task h' \<noteq> None"
  shows "drained k'"
proof -
  have "case (h', mem', k') of (h', mem', k') \<Rightarrow> UnixIoStream_read recv = UnixIoStream_read recv \<longrightarrow> read_task h' \<noteq> None \<longrightarrow> drained k'"
    using assms(1)
  proof (rule readStep.raw_induct [where P = "\<lambda>rd h mem k r. case r of (h', mem', k') \<Rightarrow>
      rd = UnixIoStream_read recv \<longrightarrow> read_task h' \<noteq> None \<longrightarrow> drained k'", rotated], goal_cases)
    case (1 rs rd h mem k y)
    have stop: "drained k1" if "UnixIoStream_read recv k n = (IsError e, k1)" "\<not> isCritical e" for n e k1
      using that recv_drained [of k n] by (auto simp: UnixIoStream_read_def criticalError_code_def isCritical_def
          makeError_def Error_view_def Disconnected_def split: prod.splits option.splits if_splits)
    have IH: "drained k'" if "rs (UnixIoStream_read recv) h mem k = Some (h', mem', k')" "read_task h' \<noteq> None" for h mem k h' mem' k'
      using 1(1) [OF that(1)] that(2) by simp
    show ?case using 1(2) stop
      by (auto simp: finish_read_def split: option.splits prod.splits error_or.splits if_splits dest: IH stop)
  qed
  with assms(2) show ?thesis by simp
qed

lemma writeStep_fills:
  assumes "writeStep (UnixIoStream_write errno send) mem h k = Some (h', k')" and "write_task h' \<noteq> None"
    and "\<forall>task. write_task h = Some task \<longrightarrow> 0 < wt_length task \<and> wt_length task < SIZE_MOD"
  shows "full k'"
proof -
  let ?ok = "\<lambda>h. \<forall>task. write_task h = Some task \<longrightarrow> 0 < wt_length task \<and> wt_length task < SIZE_MOD"
  let ?P = "\<lambda>wr mem h k r. case r of (h', k') \<Rightarrow> wr = UnixIoStream_write errno send \<longrightarrow> ?ok h \<longrightarrow> write_task h' \<noteq> None \<longrightarrow> full k'"
  have "?P (UnixIoStream_write errno send) mem h k (h', k')"
    using assms(1)
  proof (rule writeStep.raw_induct [where P = ?P, rotated], goal_cases)
    case (1 rs wr mem h k y)
    have stop: "full k1" if "UnixIoStream_write errno send k data = (IsError e, k1)" "\<not> isCritical e" "data \<noteq> []" for data e k1
      using that send_full [of k data] send_nothing [of k data] by (auto simp: UnixIoStream_write_def criticalError_code_def
          isCritical_def makeError_def Error_view_def Disconnected_def split: prod.splits sum.splits if_splits)
    have IH: "full k'" if "rs (UnixIoStream_write errno send) mem h k = Some (h', k')" "?ok h" "write_task h' \<noteq> None" for mem h k h' k'
      using 1(1) [OF that(1)] that(2,3) by simp
    show ?case using 1(2)
      by (auto simp: finish_write_def size_simps split: option.splits prod.splits error_or.splits if_splits dest!: IH dest: stop)
  qed
  with assms(2,3) show ?thesis by simp
qed

text \<open>
  The transfer so far; where \<open>r\<close> (\<open>w\<close>) holds, a read (write) task that is left has come to the point where
  the socket would block.
\<close>

definition settled :: "transfer \<Rightarrow> bool \<Rightarrow> bool \<Rightarrow> 'k \<times> async_user \<Rightarrow> bool" where
  "settled t r w ku \<longleftrightarrow> (\<exists>bs n. transferred received sent t bs n ku)
     \<and> (r \<and> read_task (au_read (snd ku)) \<noteq> None \<longrightarrow> drained (fst ku))
     \<and> (w \<and> write_task (au_write (snd ku)) \<noteq> None \<longrightarrow> full (fst ku))"

lemma on_read_ready_settles:
  assumes "transfer_ok t" and "settled t r w (k, u)"
  shows "\<exists>h mem k'. readStep (UnixIoStream_read recv) (au_read u) (au_mem u) k = Some (h, mem, k')
    \<and> settled t True w (k', u\<lparr>au_read := h, au_mem := mem\<rparr>)"
proof -
  from assms(2) obtain bs n where "transferred received sent t bs n (k, u)" by (auto simp: settled_def)
  from readStep_transfer [OF assms(1) this] obtain h mem k' bs' where
    1: "readStep (UnixIoStream_read recv) (au_read u) (au_mem u) k = Some (h, mem, k')"
      "transferred received sent t bs' n (k', u\<lparr>au_read := h, au_mem := mem\<rparr>)" by blast
  have "full k \<Longrightarrow> full (snd (UnixIoStream_read recv k n))" for k n
    using recv_full [of k n] by (auto simp: UnixIoStream_read_def split: prod.splits option.splits)
  from readStep_keeps [of full, OF this 1(1)] readStep_drains [OF 1(1)] assms(2) 1 show ?thesis
    by (auto simp: settled_def)
qed

lemma on_write_ready_settles:
  assumes "transfer_ok t" and "settled t r w (k, u)"
  shows "\<exists>h k'. writeStep (UnixIoStream_write errno send) (au_mem u) (au_write u) k = Some (h, k')
    \<and> settled t r True (k', u\<lparr>au_write := h\<rparr>)"
proof -
  from assms(2) obtain bs n where tr: "transferred received sent t bs n (k, u)" by (auto simp: settled_def)
  from writeStep_transfer [OF assms(1) this, of errno] obtain h k' n' where
    1: "writeStep (UnixIoStream_write errno send) (au_mem u) (au_write u) k = Some (h, k')"
      "transferred received sent t bs n' (k', u\<lparr>au_write := h\<rparr>)" by blast
  have "drained k \<Longrightarrow> drained (snd (UnixIoStream_write errno send k data))" for k data
    using send_drained [of k data] by (auto simp: UnixIoStream_write_def split: prod.splits sum.splits)
  note keep = writeStep_keeps [of drained, OF this 1(1)]
  have "\<forall>task. write_task (au_write u) = Some task \<longrightarrow> 0 < wt_length task \<and> wt_length task < SIZE_MOD"
    using tr assms(1) by (auto simp: transferred_def write_progress_def transfer_ok_def)
  from keep writeStep_fills [OF 1(1) _ this] assms(2) 1 show ?thesis by (auto simp: settled_def)
qed

lemma settled_kernel:
  assumes "settled t True True (k0, u)" and "received k = received k0" and "sent k = sent k0"
    and "r \<Longrightarrow> drained k0 \<Longrightarrow> drained k" and "w \<Longrightarrow> full k0 \<Longrightarrow> full k"
  shows "settled t r w (k, u)"
  using assms by (auto simp: settled_def transferred_def)

end

lemma run_funcs_append: "run_funcs (fs @ gs) u = do { u \<leftarrow> run_funcs fs u; run_funcs gs u }"
  by (induction fs arbitrary: u) (auto split: prod.splits outcome.splits error_or.splits)

text \<open>The functions that an event selects settle the tasks of the directions that the event is for.\<close>

lemma run_selected:
  assumes "blocking_socket (unixRead os fd) (unixWrite os fd) received sent drained full" and "transfer_ok t"
    and "lk_func lr = on_read_ready os fd" and "lk_func lx = on_disconnected" and "lk_func lw = on_write_ready os errno fd"
    and "blocking_socket.settled received sent drained full t (m AND EPOLLIN = 0) (m AND EPOLLOUT = 0) ku"
  shows "\<exists>ku'. run_funcs (map lk_func (selected m lr lx lw)) ku = Some ku'
    \<and> blocking_socket.settled received sent drained full t True True ku'"
proof -
  let ?s = "blocking_socket.settled received sent drained full t"
  have w: "\<exists>ku'. run_funcs (if m AND EPOLLOUT \<noteq> 0 then [lk_func lw] else []) ku = Some ku' \<and> ?s r True ku'"
    if "?s r (m AND EPOLLOUT = 0) ku" for r ku
    using that blocking_socket.on_write_ready_settles [OF assms(1,2), of r False "fst ku" "snd ku" errno]
    by (cases ku) (auto simp: assms(5) on_write_ready_def)
  have r: "\<exists>ku'. run_funcs (if m AND EPOLLIN \<noteq> 0 then [lk_func lr] else []) ku = Some ku' \<and> ?s True True ku'"
    if "?s (m AND EPOLLIN = 0) True ku" for ku
    using that blocking_socket.on_read_ready_settles [OF assms(1,2), of False True "fst ku" "snd ku"]
    by (cases ku) (auto simp: assms(3) on_read_ready_def)
  have x: "\<exists>ku'. run_funcs (if m AND EPOLLRDHUP \<noteq> 0 then [lk_func lx] else []) ku = Some ku' \<and> ?s True True ku'"
    if "?s True True ku" for ku
    using that by (cases ku) (auto simp: assms(4) on_disconnected_def blocking_socket.settled_def [OF assms(1)] transferred_def)
  have "map lk_func (selected m lr lx lw) = (if m AND EPOLLOUT \<noteq> 0 then [lk_func lw] else [])
      @ (if m AND EPOLLIN \<noteq> 0 then [lk_func lr] else []) @ (if m AND EPOLLRDHUP \<noteq> 0 then [lk_func lx] else [])"
    by (simp add: selected_def)
  moreover from w [OF assms(6)] obtain ku1 where "run_funcs (if m AND EPOLLOUT \<noteq> 0 then [lk_func lw] else []) ku = Some ku1"
    "?s (m AND EPOLLIN = 0) True ku1" by blast
  moreover from r [OF this(2)] obtain ku2 where "run_funcs (if m AND EPOLLIN \<noteq> 0 then [lk_func lr] else []) ku1 = Some ku2"
    "?s True True ku2" by blast
  moreover note x [OF this(2)]
  ultimately show ?thesis by (simp only: run_funcs_append Option.bind.bind_lunit)
qed

section \<open>Programs\<close>

text \<open>Calls of \<open>WaitScope::poll\<close> between which the outside world acts on the kernel.\<close>

fun driver_rounds :: "'k os \<Rightarrow> ('k \<Rightarrow> 'k) list \<Rightarrow> ('k, 'u) driver \<Rightarrow> ('k, 'u) driver option" where
  "driver_rounds os [] d = Some d"
| "driver_rounds os (env # envs) d = do {
     (b, d) \<leftarrow> driver_poll os (set_kern (env (kern d)) d);
     driver_rounds os envs d
   }"

text \<open>A stream of descriptor \<open>fd\<close> that reads and writes at the same time.\<close>

definition async_duplex ::
    "'k os \<Rightarrow> errno \<Rightarrow> fd \<Rightarrow> addr \<Rightarrow> transfer \<Rightarrow> ('k \<Rightarrow> 'k) list \<Rightarrow> ('k, async_user) driver \<Rightarrow> ('k, async_user) driver option" where
  "async_duplex os errno fd stream t envs d = do {
     (s, d) \<leftarrow> AsyncIoStream_new os errno stream d;
     let d = async_writeDone (async_readDone d);
     d \<leftarrow> async_read os fd (tr_buffer t) (tr_min t) (tr_max t) d;
     d \<leftarrow> async_write os errno fd (tr_source t) (tr_length t) d;
     driver_rounds os envs d
   }"

text \<open>
  What the kernel does between two calls of the program, \<open>env\<close> being what happens outside: it transfers
  nothing, has events for the stream only, and reports what has become readable or writable since the last call.
  Where \<open>drained\<close> and \<open>full\<close> are always true, it need not report anything.
\<close>

definition edge_wait ::
    "'k os \<Rightarrow> fd \<Rightarrow> addr \<Rightarrow> ('k \<Rightarrow> byte list) \<Rightarrow> ('k \<Rightarrow> byte list) \<Rightarrow> ('k \<Rightarrow> bool) \<Rightarrow> ('k \<Rightarrow> bool) \<Rightarrow> ('k \<Rightarrow> 'k) \<Rightarrow> bool" where
  "edge_wait os efd stream received sent drained full env \<longleftrightarrow>
     (\<forall>k r k'. sys_epoll_wait os efd MAX_EPOLL_EVENTS 0 (env k) = (r, k') \<longrightarrow> received k' = received k \<and> sent k' = sent k
        \<and> (case r of
             Some [ev] \<Rightarrow> ee_data ev = stream
               \<and> (ee_events ev AND EPOLLIN = 0 \<longrightarrow> drained k \<longrightarrow> drained k')
               \<and> (ee_events ev AND EPOLLOUT = 0 \<longrightarrow> full k \<longrightarrow> full k')
           | _ \<Rightarrow> r \<in> {None, Some []} \<and> (drained k \<longrightarrow> drained k') \<and> (full k \<longrightarrow> full k')))"

lemma edge_wait_cases:
  assumes "edge_wait os efd stream received sent drained full env"
    and "sys_epoll_wait os efd MAX_EPOLL_EVENTS 0 (env k) = (r, k')"
  obtains (idle) "r \<in> {None, Some []}" and "received k' = received k" and "sent k' = sent k"
      and "drained k \<Longrightarrow> drained k'" and "full k \<Longrightarrow> full k'"
  | (event) m where "r = Some [\<lparr>ee_events = m, ee_data = stream\<rparr>]" and "received k' = received k" and "sent k' = sent k"
      and "m AND EPOLLIN = 0 \<Longrightarrow> drained k \<Longrightarrow> drained k'" and "m AND EPOLLOUT = 0 \<Longrightarrow> full k \<Longrightarrow> full k'"
proof -
  have 1: "received k' = received k" "sent k' = sent k"
    "case r of Some [ev] \<Rightarrow> ee_data ev = stream
       \<and> (ee_events ev AND EPOLLIN = 0 \<longrightarrow> drained k \<longrightarrow> drained k') \<and> (ee_events ev AND EPOLLOUT = 0 \<longrightarrow> full k \<longrightarrow> full k')
     | _ \<Rightarrow> r \<in> {None, Some []} \<and> (drained k \<longrightarrow> drained k') \<and> (full k \<longrightarrow> full k')"
    using assms unfolding edge_wait_def by blast+
  show ?thesis
  proof (cases "\<exists>ev. r = Some [ev]")
    case True
    then obtain ev where ev: "r = Some [ev]" by blast
    with 1(3) have "r = Some [\<lparr>ee_events = ee_events ev, ee_data = stream\<rparr>]" by (cases ev) simp
    then show ?thesis using 1 ev by (intro event [of "ee_events ev"]) simp_all
  next
    case False
    with 1(3) have "r \<in> {None, Some []} \<and> (drained k \<longrightarrow> drained k') \<and> (full k \<longrightarrow> full k')"
      by (auto split: option.splits list.splits)
    with 1(1,2) idle show ?thesis by blast
  qed
qed

lemma driver_rounds_settled:
  assumes sock: "blocking_socket (unixRead os (file_descriptor b)) (unixWrite os (file_descriptor b)) received sent drained full"
    and "transfer_ok t" and "\<forall>env \<in> set envs. edge_wait os (epoll_fd (event_port d)) (as_stream s) received sent drained full env"
    and "rest_ok os errno s b lr lx lw d" and "blocking_socket.settled received sent drained full t True True (user (snd (conv d)))"
  shows "\<exists>d'. driver_rounds os envs d = Some d' \<and> rest_ok os errno s b lr lx lw d'
    \<and> blocking_socket.settled received sent drained full t True True (user (snd (conv d')))"
  using assms(3-5)
proof (induction envs arbitrary: d)
  case (Cons env envs)
  let ?d = "set_kern (env (kern d)) d"
  let ?s = "blocking_socket.settled received sent drained full t"
  have funcs: "lk_func lr = on_read_ready os (file_descriptor b)" "lk_func lx = on_disconnected"
    "lk_func lw = on_write_ready os errno (file_descriptor b)"
    using Cons.prems(2) by (simp_all add: rest_ok_def [of os errno s b lr lx lw d])
  have ok: "rest_ok os errno s b lr lx lw ?d" using Cons.prems(2) by simp
  obtain k0 u where u: "user (snd (conv d)) = (k0, u)" by fastforce
  then have kern: "kern d = k0" and u': "snd (user (snd (conv ?d))) = u" by (simp_all add: kern_def set_kern_def set_user_def)
  have inv: "?s True True (k0, u)" using Cons.prems(3) u by simp
  obtain r k where wait: "sys_epoll_wait os (epoll_fd (event_port d)) MAX_EPOLL_EVENTS 0 (env k0) = (r, k)" by fastforce
  then have wait': "sys_epoll_wait os (epoll_fd (event_port ?d)) MAX_EPOLL_EVENTS 0 (kern ?d) = (r, k)" by (simp add: kern)
  have edge: "edge_wait os (epoll_fd (event_port d)) (as_stream s) received sent drained full env" using Cons.prems(1) by simp
  have "\<exists>d'. driver_poll os ?d = Some (True, d') \<and> rest_ok os errno s b lr lx lw d' \<and> event_port d' = event_port d
      \<and> ?s True True (user (snd (conv d')))"
    using edge wait
  proof (cases rule: edge_wait_cases)
    case idle
    from blocking_socket.settled_kernel [OF sock inv idle(2,3)] idle(4,5) have "?s True True (k, u)" by blast
    moreover have "user (snd (conv (set_kern k ?d))) = (k, u)" using u' by (simp add: set_kern_def set_user_def)
    ultimately show ?thesis using driver_poll_idle [OF ok wait' idle(1)] ok by simp
  next
    case (event m)
    from blocking_socket.settled_kernel [OF sock inv event(2,3)] event(4,5)
    have "?s (m AND EPOLLIN = 0) (m AND EPOLLOUT = 0) (k, u)" by blast
    from run_selected [OF sock assms(2) funcs this] obtain ku where
      ku: "run_funcs (map lk_func (selected m lr lx lw)) (k, u) = Some ku" "?s True True ku" by blast
    from driver_poll_event [OF ok wait' [unfolded event(1)], of ku] ku u' show ?thesis by auto
  qed
  then obtain d' where "driver_poll os ?d = Some (True, d')" "rest_ok os errno s b lr lx lw d'" "event_port d' = event_port d"
    "?s True True (user (snd (conv d')))" by blast
  with Cons.IH [of d'] Cons.prems(1) show ?case by simp
qed simp

lemma async_duplex_settled:
  assumes sock: "blocking_socket (unixRead os (file_descriptor b)) (unixWrite os (file_descriptor b)) received sent drained full"
    and ok: "transfer_ok t"
    and "\<forall>env \<in> set envs. edge_wait os (epoll_fd (event_port d)) stream received sent drained full env"
    and "conv_ok (conv d)" and "head (fst (conv d)) = None" and "2 \<le> stream" and "owners d stream = Some (UnixIoStream b None None None)"
    and "tr_mem t = au_mem (snd (user (snd (conv d))))" and "tr_received t = received (kern d)" and "tr_sent t = sent (kern d)"
  shows "\<exists>d'. async_duplex os errno (file_descriptor b) stream t envs d = Some d' \<and> head (fst (conv d')) = None
    \<and> blocking_socket.settled received sent drained full t True True (user (snd (conv d')))"
proof -
  let ?fd = "file_descriptor b" and ?s = "blocking_socket.settled received sent drained full t"
  from assms(4) obtain q where q: "fresh_ok (conv d) q" by (auto simp: conv_ok_def fresh_ok_def)
  with assms(5) have "sched_queue q = []"
    by (cases "sched_queue q") (auto simp: fresh_ok_def loop_rel_def slot_content_def)
  from AsyncIoStream_new_ok [OF q this assms(7,6), of os errno] obtain s d1 lr lx lw u where
    1: "AsyncIoStream_new os errno stream d = Some (s, d1)" "as_stream s = stream" "rest_ok os errno s b lr lx lw d1"
      "event_port d1 = event_port d" "user (snd (conv d1)) = (kern d, u)" "au_mem u = tr_mem t"
      "au_read u = \<lparr>read_task = None, read_done = None\<rparr>" "au_write u = \<lparr>write_task = None, write_done = None\<rparr>"
    using assms(8) by auto
  let ?r = "\<lparr>read_task = Some \<lparr>rt_buffer = tr_buffer t, rt_min_length = tr_min t, rt_max_length = tr_max t, rt_already_read = 0\<rparr>, read_done = Some []\<rparr>"
  let ?w = "\<lparr>write_task = Some \<lparr>wt_buffer = tr_source t, wt_length = tr_length t, wt_already_written = 0\<rparr>, write_done = Some []\<rparr>"
  have lens: "0 < tr_min t" "tr_min t \<le> tr_max t" "0 < tr_length t" using ok by (simp_all add: transfer_ok_def)
  obtain x where u: "u = \<lparr>au_read = \<lparr>read_task = None, read_done = None\<rparr>, au_on_read_disconnect = x,
      au_write = \<lparr>write_task = None, write_done = None\<rparr>, au_mem = tr_mem t\<rparr>" using 1(6-8) by (cases u) simp
  let ?u = "\<lambda>h mem h'. \<lparr>au_read = h, au_on_read_disconnect = x, au_write = h', au_mem = mem\<rparr>"
  have "transferred received sent t [] 0 (kern d, ?u ?r (tr_mem t) ?w)"
    using lens assms(9,10) by (simp add: transferred_def read_progress_def write_progress_def)
  then have "?s False False (kern d, ?u ?r (tr_mem t) ?w)" by (auto simp: blocking_socket.settled_def [OF sock])
  from blocking_socket.on_read_ready_settles [OF sock ok this] obtain h mem k where
    2: "readStep (UnixIoStream_read (unixRead os ?fd)) ?r (tr_mem t) (kern d) = Some (h, mem, k)"
      "?s True False (k, ?u h mem ?w)" by auto
  from blocking_socket.on_write_ready_settles [OF sock ok 2(2), of errno] obtain h' k' where
    3: "writeStep (UnixIoStream_write errno (unixWrite os ?fd)) mem ?w k = Some (h', k')" "?s True True (k', ?u h mem h')" by auto
  let ?d = "d1\<lparr>conv := set_user (k', ?u h mem h') (conv d1)\<rparr>"
  have "(do { d \<leftarrow> async_read os ?fd (tr_buffer t) (tr_min t) (tr_max t) (async_writeDone (async_readDone d1));
      async_write os errno ?fd (tr_source t) (tr_length t) d }) = Some ?d"
    using 1(5) u 2(1) 3(1) lens
    by (simp add: async_readDone_def async_writeDone_def async_read_def async_write_def AsyncIoStream_read_def
        AsyncIoStream_write_def AsyncIoStream_readDone_def AsyncIoStream_writeDone_def set_user_def)
  then have run: "async_duplex os errno ?fd stream t envs d = driver_rounds os envs ?d"
    using 1(1) by (auto simp: async_duplex_def split: bind_splits)
  have edge: "\<forall>env \<in> set envs. edge_wait os (epoll_fd (event_port ?d)) (as_stream s) received sent drained full env"
    using assms(3) 1(2,4) by simp
  have rest: "rest_ok os errno s b lr lx lw ?d" using 1(3) by simp
  have "?s True True (user (snd (conv ?d)))" using 3(2) by (simp add: set_user_def)
  from driver_rounds_settled [OF sock ok edge rest this] run show ?thesis by (auto simp: rest_ok_def loop_rel_def)
qed

lemma posix_blocking: "posix_socket recv send received sent \<Longrightarrow> blocking_socket recv send received sent (\<lambda>_. True) (\<lambda>_. True)"
  by (intro blocking_socket.intro blocking_socket_axioms.intro) simp_all

section \<open>Properties\<close>

text \<open>
  C11: an asynchronous stream transfers exactly, through all layers. A stream of the unix driver gets
  an \<open>AsyncIoStream\<close>, which reads and writes at the same time while the program calls \<open>poll\<close>. Whatever bits
  the events of the kernel carry and whatever arrives or is acknowledged in between, every call returns
  and leaves no event armed; the bytes received are stored at the buffer in order, the bytes sent
  are those of the source in order, and each of the two feeders gets exactly one result: the number of bytes once
  the task is complete, or a critical error before that.
\<close>

theorem async_stream_over_driver:
  assumes "posix_socket (unixRead os (file_descriptor b)) (unixWrite os (file_descriptor b)) received sent" and "transfer_ok t"
    and "\<forall>env \<in> set envs. edge_wait os (epoll_fd (event_port d)) stream received sent (\<lambda>_. True) (\<lambda>_. True) env"
    and "conv_ok (conv d)" and "head (fst (conv d)) = None" and "2 \<le> stream" and "owners d stream = Some (UnixIoStream b None None None)"
    and "tr_mem t = au_mem (snd (user (snd (conv d))))" and "tr_received t = received (kern d)" and "tr_sent t = sent (kern d)"
  shows "\<exists>d' k' u' bs n. async_duplex os errno (file_descriptor b) stream t envs d = Some d' \<and> user (snd (conv d')) = (k', u')
    \<and> head (fst (conv d')) = None
    \<and> received k' = received (kern d) @ bs \<and> length bs \<le> tr_max t \<and> au_mem u' = overwrite (tr_buffer t) bs (tr_mem t)
    \<and> (if tr_min t \<le> length bs then read_task (au_read u') = None \<and> read_done (au_read u') = Some [IsValue (length bs)]
       else read_task (au_read u') \<noteq> None \<and> read_done (au_read u') = Some []
            \<or> read_task (au_read u') = None \<and> (\<exists>e. isCritical e \<and> read_done (au_read u') = Some [IsError e]))
    \<and> n \<le> tr_length t \<and> sent k' = sent (kern d) @ take n (drop (tr_source t) (tr_mem t))
    \<and> (if n = tr_length t then write_task (au_write u') = None \<and> write_done (au_write u') = Some [IsValue n]
       else write_task (au_write u') \<noteq> None \<and> write_done (au_write u') = Some []
            \<or> write_task (au_write u') = None \<and> (\<exists>e. isCritical e \<and> write_done (au_write u') = Some [IsError e]))"
proof -
  note sock = posix_blocking [OF assms(1)]
  from async_duplex_settled [OF sock assms(2-10), of errno] obtain d' bs n where
    1: "async_duplex os errno (file_descriptor b) stream t envs d = Some d'" "transferred received sent t bs n (user (snd (conv d')))"
      "head (fst (conv d')) = None"
    by (auto simp: blocking_socket.settled_def [OF sock])
  obtain k' u' where "user (snd (conv d')) = (k', u')" by fastforce
  with 1 assms(9,10) show ?thesis
    by (intro exI [of _ d'] exI [of _ k'] exI [of _ u'] exI [of _ bs] exI [of _ n])
       (auto simp: transferred_def read_progress_def write_progress_def split: option.splits)
qed

text \<open>
  C12: no wake-up is lost. The driver registers its descriptors as edge triggered, so that the kernel
  reports a socket only when it becomes readable or writable. That is enough: after every number of rounds,
  a read that is not complete means that the socket has nothing left to read, and a write that is not complete
  that it has no room.
\<close>

theorem async_stream_no_lost_wakeup:
  assumes "blocking_socket (unixRead os (file_descriptor b)) (unixWrite os (file_descriptor b)) received sent drained full"
    and "transfer_ok t"
    and "\<forall>env \<in> set envs. edge_wait os (epoll_fd (event_port d)) stream received sent drained full env"
    and "conv_ok (conv d)" and "head (fst (conv d)) = None" and "2 \<le> stream" and "owners d stream = Some (UnixIoStream b None None None)"
    and "tr_mem t = au_mem (snd (user (snd (conv d))))" and "tr_received t = received (kern d)" and "tr_sent t = sent (kern d)"
  shows "\<exists>d'. async_duplex os errno (file_descriptor b) stream t envs d = Some d'
    \<and> (read_task (au_read (snd (user (snd (conv d'))))) = None \<or> drained (kern d'))
    \<and> (write_task (au_write (snd (user (snd (conv d'))))) = None \<or> full (kern d'))"
  using async_duplex_settled [OF assms, of errno] by (auto simp: blocking_socket.settled_def [OF assms(1)] kern_def)

text \<open>
  A kernel with one connection: the calls of the small kernel beside the bytes that have arrived, the room
  for bytes to send, and what has become ready since the last wait.
\<close>

record wire_kernel =
  wk_mini :: mini_kernel
  wk_in :: "byte list"
  wk_received :: "byte list"
  wk_room :: nat
  wk_sent :: "byte list"
  wk_edges :: "32 word"

definition on_mini :: "(mini_kernel \<Rightarrow> 'r \<times> mini_kernel) \<Rightarrow> wire_kernel \<Rightarrow> 'r \<times> wire_kernel" where
  "on_mini f k = (case f (wk_mini k) of (r, m) \<Rightarrow> (r, k\<lparr>wk_mini := m\<rparr>))"

definition wire_os :: "wire_kernel os" where
  "wire_os = \<lparr>
     sys_ignore_sigpipe = (\<lambda>k. k),
     sys_epoll_create = on_mini (sys_epoll_create mini_os),
     sys_signalfd = (\<lambda>fd sigs. on_mini (sys_signalfd mini_os fd sigs)),
     sys_sigprocmask = (\<lambda>sigs k. k),
     sys_pipe = on_mini (sys_pipe mini_os),
     sys_epoll_add = (\<lambda>e fd ev. on_mini (sys_epoll_add mini_os e fd ev)),
     sys_epoll_del = (\<lambda>e fd. on_mini (sys_epoll_del mini_os e fd)),
     sys_epoll_wait = (\<lambda>e n t k. if wk_edges k = 0 then (Some [], k)
       else (Some [\<lparr>ee_events = wk_edges k, ee_data = 2\<rparr>], k\<lparr>wk_edges := 0\<rparr>)),
     sys_close = (\<lambda>fd k. k\<lparr>wk_mini := sys_close mini_os fd (wk_mini k)\<rparr>),
     sys_read_siginfo = (\<lambda>fd. on_mini (sys_read_siginfo mini_os fd)),
     sys_recv = (\<lambda>fd n k. if wk_in k = [] then (None, k)
       else (Some (take n (wk_in k)), k\<lparr>wk_in := drop n (wk_in k), wk_received := wk_received k @ take n (wk_in k)\<rparr>)),
     sys_send = (\<lambda>fd data k. if wk_room k = 0 then (Inl EAGAIN, k)
       else (let n = min (wk_room k) (length data)
             in (Inr n, k\<lparr>wk_room := wk_room k - n, wk_sent := wk_sent k @ take n data\<rparr>))),
     sys_recvfrom = (\<lambda>fd n. on_mini (sys_recvfrom mini_os fd n)),
     sys_sendto = (\<lambda>fd data sa. on_mini (sys_sendto mini_os fd data sa)),
     sys_accept = (\<lambda>fd. on_mini (sys_accept mini_os fd)),
     sys_socket = (\<lambda>family type. on_mini (sys_socket mini_os family type)),
     sys_setsockopt = (\<lambda>fd opt v. on_mini (sys_setsockopt mini_os fd opt v)),
     sys_bind = (\<lambda>fd sa. on_mini (sys_bind mini_os fd sa)),
     sys_listen = (\<lambda>fd. on_mini (sys_listen mini_os fd)),
     sys_connect = (\<lambda>fd sa. on_mini (sys_connect mini_os fd sa)),
     sys_getaddrinfo = (\<lambda>str port. on_mini (sys_getaddrinfo mini_os str port))\<rparr>"

interpretation wire: blocking_socket "unixRead wire_os fd" "unixWrite wire_os fd" wk_received wk_sent
  "\<lambda>k. wk_in k = []" "\<lambda>k. wk_room k = 0" for fd
  by unfold_locales (auto simp: unixRead_def unixWrite_def wire_os_def Let_def min_def split: if_splits)

text \<open>What happens outside: bytes arrive and others are acknowledged, each with its edge, or the peer shuts down.\<close>

definition new_edges :: "32 word \<Rightarrow> byte list \<Rightarrow> nat \<Rightarrow> 32 word" where
  "new_edges x bytes acked = x OR (if bytes = [] then 0 else EPOLLIN) OR (if acked = 0 then 0 else EPOLLOUT)"

definition deliver :: "byte list \<Rightarrow> nat \<Rightarrow> wire_kernel \<Rightarrow> wire_kernel" where
  "deliver bytes acked k = k\<lparr>wk_in := wk_in k @ bytes, wk_room := wk_room k + acked,
     wk_edges := new_edges (wk_edges k) bytes acked\<rparr>"

definition shut_down :: "wire_kernel \<Rightarrow> wire_kernel" where
  "shut_down k = k\<lparr>wk_edges := wk_edges k OR EPOLLRDHUP\<rparr>"

lemma event_bits: "m AND EPOLLIN = 0 \<longleftrightarrow> \<not> bit m 0" "m AND EPOLLOUT = 0 \<longleftrightarrow> \<not> bit m 2"
  using and_exp_eq_0_iff_not_bit [of m 0] and_exp_eq_0_iff_not_bit [of m 2] by (simp_all add: EPOLLIN_def EPOLLOUT_def)

lemma new_edges_bits:
  "bit (new_edges x bytes acked) 0 \<longleftrightarrow> bit x 0 \<or> bytes \<noteq> []" "bit (new_edges x bytes acked) 2 \<longleftrightarrow> bit x 2 \<or> acked \<noteq> 0"
  "new_edges x bytes acked = 0 \<Longrightarrow> bytes = [] \<and> acked = 0"
proof -
  show 1: "bit (new_edges x bytes acked) 0 \<longleftrightarrow> bit x 0 \<or> bytes \<noteq> []" "bit (new_edges x bytes acked) 2 \<longleftrightarrow> bit x 2 \<or> acked \<noteq> 0"
    by (simp_all add: new_edges_def bit_or_iff EPOLLIN_def EPOLLOUT_def)
  show "new_edges x bytes acked = 0 \<Longrightarrow> bytes = [] \<and> acked = 0" using 1 by auto
qed

lemma edge_deliver: "edge_wait wire_os e 2 wk_received wk_sent (\<lambda>k. wk_in k = []) (\<lambda>k. wk_room k = 0) (deliver bytes acked)"
  by (auto simp: edge_wait_def wire_os_def deliver_def event_bits new_edges_bits(1,2) dest: new_edges_bits(3))

lemma edge_shut_down: "edge_wait wire_os e 2 wk_received wk_sent (\<lambda>k. wk_in k = []) (\<lambda>k. wk_room k = 0) shut_down"
  by (auto simp: edge_wait_def wire_os_def shut_down_def)

lemma edge_wait_quiet:
  "edge_wait os e a received sent drained full env \<Longrightarrow> edge_wait os e a received sent (\<lambda>_. True) (\<lambda>_. True) env"
  by (fastforce simp: edge_wait_def split: option.splits list.splits)

text \<open>A new stream on a socket that has received one byte and can send two.\<close>

definition wire_boot :: wire_kernel where
  "wire_boot = \<lparr>wk_mini = mini_boot, wk_in = [7], wk_received = [], wk_room = 2, wk_sent = [], wk_edges = 0\<rparr>"

definition wire_user :: async_user where
  "wire_user = \<lparr>au_read = \<lparr>read_task = None, read_done = None\<rparr>, au_on_read_disconnect = None,
     au_write = \<lparr>write_task = None, write_done = None\<rparr>, au_mem = [0, 0, 0, 0, 5, 6, 7]\<rparr>"

definition wire_open :: "wire_kernel \<Rightarrow> async_user \<Rightarrow> (wire_kernel, async_user) driver option" where
  "wire_open k u = (case setupAsyncIo wire_os True k u of
     IsValue d \<Rightarrow> do {
       d \<leftarrow> WaitScope_new d;
       let (fd, d) = syscall (sys_socket wire_os 2 SOCK_STREAM) d;
       Some (snd (UnixIoStream_new wire_os fd 0 (EPOLLIN OR EPOLLOUT) d))
     }
   | IsError _ \<Rightarrow> None)"

definition wire_start :: "(wire_kernel, async_user) driver option" where
  "wire_start = wire_open wire_boot wire_user"

lemma wire_start_state:
  "case wire_start of
     Some d \<Rightarrow> owners d 2 = Some (UnixIoStream \<lparr>file_descriptor = 7, fd_flags = 0, event_mask = EPOLLIN OR EPOLLOUT OR EPOLLRDHUP\<rparr> None None None)
       \<and> au_mem (snd (user (snd (conv d)))) = [0, 0, 0, 0, 5, 6, 7] \<and> wk_received (kern d) = [] \<and> wk_sent (kern d) = []
       \<and> head (fst (conv d)) = None
   | None \<Rightarrow> False"
  by code_simp

lemma setup_conv_ok:
  assumes "setupAsyncIo os True k u = IsValue d" and "WaitScope_new d = Some d'"
  shows "conv_ok (conv d')"
proof -
  obtain k' where "conv d' = start (k', u)"
    using assms by (auto simp: setupAsyncIo_def WaitScope_new_def on_conv_def on_loop_def enterScope_def start_def
        EventLoop_new_def split: prod.splits)
  moreover have "loop_rel (fst (start (k', u))) sched_empty"
    by (simp add: start_def loop_rel_def EventLoop_new_def sched_empty_def sched_queue_def slot_content_def)
  then have "conv_ok (start (k', u))" by (auto simp: conv_ok_def start_def feeders_ok_def EventLoop_new_def)
  ultimately show ?thesis by simp
qed

lemma new_owner_conv_ok: "conv_ok (conv d) \<Longrightarrow> conv_ok (conv (snd (new_owner os n d)))"
  by (auto simp: new_owner_def subscribe_def syscall_def Let_def set_owner_def split: prod.splits)

lemma wire_open_conv_ok:
  assumes "wire_open k u = Some d"
  shows "conv_ok (conv d)"
proof -
  from assms obtain d0 d1 where d1: "setupAsyncIo wire_os True k u = IsValue d0" "WaitScope_new d0 = Some d1"
    by (auto simp: wire_open_def split: error_or.splits bind_splits)
  obtain fd d2 where d2: "syscall (sys_socket wire_os 2 SOCK_STREAM) d1 = (fd, d2)" by fastforce
  from d2 setup_conv_ok [OF d1] have "conv_ok (conv d2)" by (auto simp: syscall_def split: prod.splits)
  with assms d1 d2 show ?thesis by (auto simp: wire_open_def UnixIoStream_new_def new_owner_conv_ok)
qed

definition wire_transfer :: transfer where
  "wire_transfer = \<lparr>tr_buffer = 0, tr_min = 3, tr_max = 4, tr_source = 4, tr_length = 3, tr_mem = [0, 0, 0, 0, 5, 6, 7],
     tr_received = [], tr_sent = []\<rparr>"

text \<open>Two bytes arrive and one is acknowledged, then the peer shuts down.\<close>

definition wire_envs :: "(wire_kernel \<Rightarrow> wire_kernel) list" where
  "wire_envs = [deliver [8, 9] 1, shut_down]"

lemma wire_run:
  obtains d where "wire_start = Some d" and "\<forall>env \<in> set wire_envs. edge_wait wire_os (epoll_fd (event_port d)) 2 wk_received wk_sent
      (\<lambda>k. wk_in k = []) (\<lambda>k. wk_room k = 0) env"
    and "conv_ok (conv d)" and "head (fst (conv d)) = None"
    and "owners d 2 = Some (UnixIoStream \<lparr>file_descriptor = 7, fd_flags = 0, event_mask = EPOLLIN OR EPOLLOUT OR EPOLLRDHUP\<rparr> None None None)"
    and "tr_mem wire_transfer = au_mem (snd (user (snd (conv d))))" and "tr_received wire_transfer = wk_received (kern d)"
    and "tr_sent wire_transfer = wk_sent (kern d)"
proof -
  from wire_start_state obtain d where d: "wire_start = Some d"
    "owners d 2 = Some (UnixIoStream \<lparr>file_descriptor = 7, fd_flags = 0, event_mask = EPOLLIN OR EPOLLOUT OR EPOLLRDHUP\<rparr> None None None)"
    "au_mem (snd (user (snd (conv d)))) = [0, 0, 0, 0, 5, 6, 7]" "wk_received (kern d) = []" "wk_sent (kern d) = []"
    "head (fst (conv d)) = None" by (auto split: option.splits)
  with wire_open_conv_ok [OF d(1) [unfolded wire_start_def]] edge_deliver edge_shut_down show ?thesis
    by (intro that [of d]) (simp_all add: wire_transfer_def wire_envs_def)
qed

lemma wire_transfer_ok: "transfer_ok wire_transfer"
  by (simp add: transfer_ok_def wire_transfer_def SIZE_MOD_def)

theorem async_stream_over_driver_witness:
  "\<exists>d d' k' u' bs n. wire_start = Some d \<and> async_duplex wire_os EAGAIN 7 2 wire_transfer wire_envs d = Some d'
     \<and> user (snd (conv d')) = (k', u')
     \<and> wk_received k' = bs \<and> length bs \<le> 4 \<and> au_mem u' = overwrite 0 bs [0, 0, 0, 0, 5, 6, 7] \<and> wk_sent k' = take n [5, 6, 7]
     \<and> (3 \<le> length bs \<longrightarrow> read_done (au_read u') = Some [IsValue (length bs)])
     \<and> (n = 3 \<longrightarrow> write_done (au_write u') = Some [IsValue 3])"
proof -
  let ?b = "\<lparr>file_descriptor = 7, fd_flags = 0, event_mask = EPOLLIN OR EPOLLOUT OR EPOLLRDHUP\<rparr> :: IFdOwner"
  obtain d where d: "wire_start = Some d" "\<forall>env \<in> set wire_envs. edge_wait wire_os (epoll_fd (event_port d)) 2 wk_received wk_sent
      (\<lambda>_. True) (\<lambda>_. True) env"
    "conv_ok (conv d)" "head (fst (conv d)) = None" "owners d 2 = Some (UnixIoStream ?b None None None)"
    "tr_mem wire_transfer = au_mem (snd (user (snd (conv d))))" "tr_received wire_transfer = wk_received (kern d)"
    "tr_sent wire_transfer = wk_sent (kern d)" by (rule wire_run) (blast dest: edge_wait_quiet)
  from async_stream_over_driver [OF wire.posix_socket_axioms wire_transfer_ok d(2-4) order_refl d(5-8), of EAGAIN]
  obtain d' k' u' bs n where
    run: "async_duplex wire_os EAGAIN (file_descriptor ?b) 2 wire_transfer wire_envs d = Some d'" "user (snd (conv d')) = (k', u')"
    and rd: "wk_received k' = wk_received (kern d) @ bs" "length bs \<le> tr_max wire_transfer"
      "au_mem u' = overwrite (tr_buffer wire_transfer) bs (tr_mem wire_transfer)"
      "if tr_min wire_transfer \<le> length bs then read_task (au_read u') = None \<and> read_done (au_read u') = Some [IsValue (length bs)]
       else read_task (au_read u') \<noteq> None \<and> read_done (au_read u') = Some []
            \<or> read_task (au_read u') = None \<and> (\<exists>e. isCritical e \<and> read_done (au_read u') = Some [IsError e])"
    and wr: "wk_sent k' = wk_sent (kern d) @ take n (drop (tr_source wire_transfer) (tr_mem wire_transfer))"
      "if n = tr_length wire_transfer then write_task (au_write u') = None \<and> write_done (au_write u') = Some [IsValue n]
       else write_task (au_write u') \<noteq> None \<and> write_done (au_write u') = Some []
            \<or> write_task (au_write u') = None \<and> (\<exists>e. isCritical e \<and> write_done (au_write u') = Some [IsError e])"
    by blast
  show ?thesis
    using d(1,7,8) run rd wr by (intro exI [of _ d] exI [of _ d'] exI [of _ k'] exI [of _ u'] exI [of _ bs] exI [of _ n])
      (simp add: wire_transfer_def)
qed

theorem async_stream_no_lost_wakeup_witness:
  "\<exists>d d'. wire_start = Some d \<and> async_duplex wire_os EAGAIN 7 2 wire_transfer wire_envs d = Some d'
     \<and> (read_task (au_read (snd (user (snd (conv d'))))) = None \<or> wk_in (kern d') = [])
     \<and> (write_task (au_write (snd (user (snd (conv d'))))) = None \<or> wk_room (kern d') = 0)"
proof -
  let ?b = "\<lparr>file_descriptor = 7, fd_flags = 0, event_mask = EPOLLIN OR EPOLLOUT OR EPOLLRDHUP\<rparr> :: IFdOwner"
  obtain d where d: "wire_start = Some d" "\<forall>env \<in> set wire_envs. edge_wait wire_os (epoll_fd (event_port d)) 2 wk_received wk_sent
      (\<lambda>k. wk_in k = []) (\<lambda>k. wk_room k = 0) env"
    "conv_ok (conv d)" "head (fst (conv d)) = None" "owners d 2 = Some (UnixIoStream ?b None None None)"
    "tr_mem wire_transfer = au_mem (snd (user (snd (conv d))))" "tr_received wire_transfer = wk_received (kern d)"
    "tr_sent wire_transfer = wk_sent (kern d)" by (rule wire_run) blast
  from async_stream_no_lost_wakeup [OF wire.blocking_socket_axioms wire_transfer_ok d(2-4) order_refl d(5-8), of EAGAIN] d(1)
  show ?thesis by auto
qed

end
