(* ===== verification/Tls.thy ===== *)
theory Tls
  imports Async_Stream_Correct
begin

text \<open>
  TLS streams (\<open>source/forstio/tls/tls.cpp\<close>): the stream class on top of GnuTLS, the callbacks through which
  GnuTLS uses the stream below, the server, and the helper that runs the handshake of a client.

  GnuTLS is a parameter, a record of the functions the code calls, on a state \<open>'s\<close> that includes the streams
  below. The pointer and the callbacks that \<open>connect\<close> registers with a session are an argument of the functions that use
  them. A session handle that has not been initialised is \<open>None\<close>, and so is every use of it, as
  is a failed assertion. As in \<open>Io_Helpers\<close> a feeder is the list of the results fed to it.
\<close>

section \<open>GnuTLS\<close>

type_synonym session = nat
type_synonym credentials = nat

text \<open>
  The result of a callback or a record function is an \<open>ssize_t\<close>; one that reads also gives the bytes it has stored
  at the buffer.
\<close>

record 's transport =
  push_function :: "byte list \<Rightarrow> 's \<Rightarrow> int \<times> 's"
  pull_function :: "size_t \<Rightarrow> 's \<Rightarrow> (int \<times> byte list) \<times> 's"

record 's gnutls =
  gnutls_global_init :: "'s \<Rightarrow> 's"
  gnutls_global_deinit :: "'s \<Rightarrow> 's"
  gnutls_certificate_allocate_credentials :: "'s \<Rightarrow> credentials \<times> 's"
  gnutls_certificate_set_x509_system_trust :: "credentials \<Rightarrow> 's \<Rightarrow> 's"
  gnutls_certificate_free_credentials :: "credentials \<Rightarrow> 's \<Rightarrow> 's"
  gnutls_init :: "'s \<Rightarrow> session \<times> 's"
  gnutls_server_name_set :: "session \<Rightarrow> string \<Rightarrow> 's \<Rightarrow> 's"
  gnutls_set_default_priority :: "session \<Rightarrow> 's \<Rightarrow> 's"
  gnutls_credentials_set :: "session \<Rightarrow> credentials \<Rightarrow> 's \<Rightarrow> 's"
  gnutls_session_set_verify_cert :: "session \<Rightarrow> string \<Rightarrow> 's \<Rightarrow> 's"
  gnutls_handshake :: "'s transport \<Rightarrow> session \<Rightarrow> 's \<Rightarrow> int \<times> 's"
  gnutls_record_recv :: "'s transport \<Rightarrow> session \<Rightarrow> size_t \<Rightarrow> 's \<Rightarrow> (int \<times> byte list) \<times> 's"
  gnutls_record_send :: "'s transport \<Rightarrow> session \<Rightarrow> byte list \<Rightarrow> 's \<Rightarrow> int \<times> 's"
  gnutls_bye :: "'s transport \<Rightarrow> session \<Rightarrow> 's \<Rightarrow> 's"
  gnutls_error_is_fatal :: "int \<Rightarrow> bool"
  gnutls_strerror :: "int \<Rightarrow> string"

definition GNUTLS_E_SUCCESS :: int where "GNUTLS_E_SUCCESS = 0"
definition GNUTLS_E_AGAIN :: int where "GNUTLS_E_AGAIN = -28"
definition GNUTLS_E_INTERRUPTED :: int where "GNUTLS_E_INTERRUPTED = -52"

section \<open>Callbacks\<close>

text \<open>Class \<open>IoStream\<close>, as far as it transfers bytes; \<open>static_cast<ssize_t>\<close> of a \<open>size_t\<close>.\<close>

record 's io_stream =
  io_read :: "'s in_stream"
  io_write :: "'s out_stream"

definition to_ssize :: "size_t \<Rightarrow> int" where
  "to_ssize n = sint (word_of_nat n :: 64 word)"

definition forst_tls_push_func :: "'s io_stream option \<Rightarrow> byte list \<Rightarrow> 's \<Rightarrow> int \<times> 's" where
  "forst_tls_push_func stream data s = (case stream of
     None \<Rightarrow> (-1, s)
   | Some stream \<Rightarrow> (case io_write stream s data of
       (IsError _, s) \<Rightarrow> (-1, s)
     | (IsValue len, s) \<Rightarrow> (to_ssize len, s)))"

definition forst_tls_pull_func :: "'s io_stream option \<Rightarrow> size_t \<Rightarrow> 's \<Rightarrow> (int \<times> byte list) \<times> 's" where
  "forst_tls_pull_func stream len s = (case stream of
     None \<Rightarrow> ((-1, []), s)
   | Some stream \<Rightarrow> (case io_read stream s len of
       (IsError _, s) \<Rightarrow> ((-1, []), s)
     | (IsValue bytes, s) \<Rightarrow> ((to_ssize (length bytes), bytes), s)))"

definition tls_transport :: "'s io_stream option \<Rightarrow> 's transport" where
  "tls_transport stream = \<lparr>push_function = forst_tls_push_func stream, pull_function = forst_tls_pull_func stream\<rparr>"

section \<open>Credentials\<close>

definition Tls_Impl_new :: "'s gnutls \<Rightarrow> 's \<Rightarrow> credentials \<times> 's" where
  "Tls_Impl_new g s = (
     let s = gnutls_global_init g s;
         (xcred, s) = gnutls_certificate_allocate_credentials g s
     in (xcred, gnutls_certificate_set_x509_system_trust g xcred s))"

definition Tls_Impl_delete :: "'s gnutls \<Rightarrow> credentials \<Rightarrow> 's \<Rightarrow> 's" where
  "Tls_Impl_delete g xcred s = gnutls_global_deinit g (gnutls_certificate_free_credentials g xcred s)"

section \<open>Streams\<close>

text \<open>The constructor leaves the handle indeterminate.\<close>

record 's TlsIoStream =
  ts_internal :: "'s io_stream"
  session_handle :: "session option"

definition TlsIoStream_new :: "'s io_stream \<Rightarrow> 's TlsIoStream" where
  "TlsIoStream_new internal = \<lparr>ts_internal = internal, session_handle = None\<rparr>"

definition ts_transport :: "'s TlsIoStream \<Rightarrow> 's transport" where
  "ts_transport t = tls_transport (Some (ts_internal t))"

definition TlsIoStream_delete :: "'s gnutls \<Rightarrow> 's TlsIoStream \<Rightarrow> 's \<Rightarrow> 's option" where
  "TlsIoStream_delete g t s = do {
     session \<leftarrow> session_handle t;
     Some (gnutls_bye g (ts_transport t) session s)
   }"

text \<open>The result is the value that is returned and the bytes stored at the buffer; the formatters succeed.\<close>

definition TlsIoStream_read ::
    "'s gnutls \<Rightarrow> 's TlsIoStream \<Rightarrow> size_t \<Rightarrow> 's \<Rightarrow> (size_t error_or \<times> byte list \<times> 's) option" where
  "TlsIoStream_read g t len s = do {
     session \<leftarrow> session_handle t;
     let ((sz, bytes), s) = gnutls_record_recv g (ts_transport t) session len s;
     if sz < 0 then
       (if \<not> gnutls_error_is_fatal g sz
        then Some (IsError (recoverableError_fmt (Some (''Read recoverable Error '' @ gnutls_strerror g sz))
               ''Error read r'' GenericRecoverable), bytes, s)
        else Some (IsError (criticalError_fmt (Some (''Read critical Error '' @ gnutls_strerror g sz))
               ''Error read c'' GenericCritical), bytes, s))
     else if sz = 0 then Some (IsError (criticalError ''Disconnected''), bytes, s)
     else Some (IsValue len, bytes, s)
   }"

text \<open>\<open>std::to_string\<close> of a negative number.\<close>

definition show_negative :: "int \<Rightarrow> string" where
  "show_negative n = ''-'' @ to_string (nat (- n))"

definition TlsIoStream_write ::
    "'s gnutls \<Rightarrow> 's TlsIoStream \<Rightarrow> byte list \<Rightarrow> 's \<Rightarrow> (size_t error_or \<times> 's) option" where
  "TlsIoStream_write g t data s = do {
     session \<leftarrow> session_handle t;
     let (sz, s) = gnutls_record_send g (ts_transport t) session data s;
     if sz < 0 then
       (if \<not> gnutls_error_is_fatal g sz
        then Some (IsError (recoverableError_fmt
               (Some (''Write recoverable Error '' @ gnutls_strerror g sz @ '' '' @ show_negative sz))
               ''Error write r'' GenericRecoverable), s)
        else Some (IsError (criticalError_fmt
               (Some (''Write critical Error '' @ gnutls_strerror g sz @ '' '' @ show_negative sz))
               ''Error write c'' GenericCritical), s))
     else Some (IsValue (nat sz), s)
   }"

text \<open>The function that \<open>TlsServer::accept\<close> gives to \<open>then\<close>.\<close>

definition TlsServer_accept_then :: "'s io_stream \<Rightarrow> 's TlsIoStream" where
  "TlsServer_accept_then stream = TlsIoStream_new stream"

section \<open>The handshake of a client\<close>

text \<open>
  Class \<open>TlsClientStreamHelper\<close>. The sinks are present once they have been set; \<open>stream_reader\<close> and \<open>stream_writer\<close>
  call \<open>turn\<close> whenever the stream below becomes readable and writable.
\<close>

record 's TlsClientStreamHelper =
  th_feeder :: "'s TlsIoStream error_or list option"
  connection_sink :: bool
  stream_reader :: bool
  stream_writer :: bool
  th_stream :: "'s TlsIoStream option"

definition TlsClientStreamHelper_new :: "'s TlsClientStreamHelper" where
  "TlsClientStreamHelper_new = \<lparr>th_feeder = Some [], connection_sink = False, stream_reader = False,
     stream_writer = False, th_stream = None\<rparr>"

definition setupTurn :: "'s TlsClientStreamHelper \<Rightarrow> 's TlsClientStreamHelper option" where
  "setupTurn h = do {
     assert_that (th_stream h \<noteq> None);
     Some (h\<lparr>stream_reader := True, stream_writer := True\<rparr>)
   }"

text \<open>The loop around \<open>gnutls_handshake\<close>.\<close>

partial_function (option) handshake_loop :: "'s gnutls \<Rightarrow> 's transport \<Rightarrow> session \<Rightarrow> 's \<Rightarrow> (int \<times> 's) option" where
  "handshake_loop g tr session s = (case gnutls_handshake g tr session s of
     (ret, s) \<Rightarrow>
       if (ret = GNUTLS_E_AGAIN \<or> ret = GNUTLS_E_INTERRUPTED) \<and> \<not> gnutls_error_is_fatal g ret
       then handshake_loop g tr session s
       else Some (ret, s))"

declare handshake_loop.simps [code]

definition feed_result :: "'s TlsIoStream error_or \<Rightarrow> 's TlsClientStreamHelper \<Rightarrow> 's TlsClientStreamHelper" where
  "feed_result r h = h\<lparr>th_feeder := map_option (\<lambda>fed. fed @ [r]) (th_feeder h)\<rparr>"

definition turn_handshake ::
    "'s gnutls \<Rightarrow> 's TlsClientStreamHelper \<Rightarrow> 's \<Rightarrow> ('s TlsClientStreamHelper \<times> 's) option" where
  "turn_handshake g h s = (case th_stream h of
     None \<Rightarrow> Some (h, s)
   | Some stream \<Rightarrow> do {
       assert_that (th_feeder h \<noteq> None);
       session \<leftarrow> session_handle stream;
       (ret, s) \<leftarrow> handshake_loop g (ts_transport stream) session s;
       if gnutls_error_is_fatal g ret then do {
         let h = feed_result (IsError (criticalError ''Couldn't create Tls connection'')) h;
         s \<leftarrow> TlsIoStream_delete g stream s;
         Some (h\<lparr>th_stream := None\<rparr>, s)
       } else if ret = GNUTLS_E_SUCCESS
       then Some ((feed_result (IsValue stream) h)\<lparr>th_stream := None\<rparr>, s)
       else Some (h, s)
     })"

text \<open>The function that \<open>connect\<close> gives to \<open>then\<close>; \<open>address\<close> is the name of the peer.\<close>

definition tls_connected ::
    "'s gnutls \<Rightarrow> credentials \<Rightarrow> string \<Rightarrow> 's io_stream \<Rightarrow> 's TlsClientStreamHelper \<Rightarrow> 's \<Rightarrow>
     ('s TlsClientStreamHelper \<times> 's) option" where
  "tls_connected g xcred address stream h s = do {
     let (session, s) = gnutls_init g s;
     let tls_stream = (TlsIoStream_new stream)\<lparr>session_handle := Some session\<rparr>;
     let s = gnutls_server_name_set g session address s;
     let s = gnutls_set_default_priority g session s;
     let s = gnutls_credentials_set g session xcred s;
     let s = gnutls_session_set_verify_cert g session address s;
     let h = h\<lparr>th_stream := Some tls_stream\<rparr>;
     h \<leftarrow> setupTurn h;
     turn_handshake g h s
   }"

text \<open>
  What happens to a helper after \<open>connect\<close>: the conveyor of the connection below has a result, or the stream becomes
  ready. An error does not reach the function; it ends in the sink (\<open>Tls_Connect\<close> runs the conveyor of the
  connection and shows that this is what its nodes do).
\<close>

datatype 's tls_event = Connection "'s io_stream error_or" | Readable | Writable

fun tls_event_step ::
    "'s gnutls \<Rightarrow> credentials \<Rightarrow> string \<Rightarrow> 's tls_event \<Rightarrow> 's TlsClientStreamHelper \<times> 's \<Rightarrow>
     ('s TlsClientStreamHelper \<times> 's) option" where
  "tls_event_step g xcred address (Connection (IsValue stream)) (h, s) = tls_connected g xcred address stream h s"
| "tls_event_step g xcred address (Connection (IsError error)) (h, s) = Some (h, s)"
| "tls_event_step g xcred address Readable (h, s) = (if stream_reader h then turn_handshake g h s else Some (h, s))"
| "tls_event_step g xcred address Writable (h, s) = (if stream_writer h then turn_handshake g h s else Some (h, s))"

text \<open>Between two events the world outside acts on the streams.\<close>

fun tls_events ::
    "'s gnutls \<Rightarrow> credentials \<Rightarrow> string \<Rightarrow> (('s \<Rightarrow> 's) \<times> 's tls_event) list \<Rightarrow> 's TlsClientStreamHelper \<times> 's \<Rightarrow>
     ('s TlsClientStreamHelper \<times> 's) option" where
  "tls_events g xcred address [] st = Some st"
| "tls_events g xcred address ((env, ev) # evs) (h, s) = do {
     st \<leftarrow> tls_event_step g xcred address ev (h, env s);
     tls_events g xcred address evs st
   }"

text \<open>\<open>connect\<close> makes the helper and sets its first sink.\<close>

definition TlsNetwork_connect :: "'s TlsClientStreamHelper" where
  "TlsNetwork_connect = TlsClientStreamHelper_new\<lparr>connection_sink := True\<rparr>"

section \<open>Servers and the network\<close>

text \<open>
  On the unix driver. The function that \<open>accept\<close> gives to \<open>then\<close> wraps the accepted stream; its handle is the one of
  \<open>TlsServer_accept_then\<close>. The server below is null when \<open>listen\<close> has failed.
\<close>

datatype TlsServer = TlsServer "addr option"

fun tls_wrap :: "(io_value, 'u) func" where
  "tls_wrap (Stream a) u = (Returns (IsValue (TlsStream a)), u)"
| "tls_wrap _ u = (Fails, u)"

fun TlsServer_accept :: "TlsServer \<Rightarrow> ('k, 'u) driver \<Rightarrow> (conveyor \<times> ('k, 'u) driver) option" where
  "TlsServer_accept (TlsServer internal) d = do {
     server \<leftarrow> internal;
     (c, d) \<leftarrow> UnixServer_accept server d;
     (c, st) \<leftarrow> conveyor_then tls_wrap PropagateError c (conv d);
     Some (c, d\<lparr>conv := st\<rparr>)
   }"

definition TlsNetwork_listen :: "'k os \<Rightarrow> NetworkAddress \<Rightarrow> ('k, 'u) driver \<Rightarrow> (TlsServer \<times> ('k, 'u) driver) option" where
  "TlsNetwork_listen os address d = do {
     (server, d) \<leftarrow> UnixNetwork_listen os address d;
     Some (TlsServer server, d)
   }"

definition TlsNetwork_parseAddress ::
    "'k os \<Rightarrow> string \<Rightarrow> 16 word \<Rightarrow> ('k, 'u) driver \<Rightarrow> (conveyor \<times> ('k, 'u) driver) option" where
  "TlsNetwork_parseAddress os addr port d = UnixNetwork_parseAddress os addr port d"

text \<open>A failed \<open>listen\<close> gives a server whose \<open>accept\<close> fails an assertion.\<close>

lemma tls_listen_failure:
  assumes "UnixNetwork_listen os address d = Some (None, d')"
  shows "\<exists>server. TlsNetwork_listen os address d = Some (server, d') \<and> TlsServer_accept server d' = None"
  using assms by (auto simp: TlsNetwork_listen_def)

section \<open>What GnuTLS documents\<close>

text \<open>
  Success is not an error, and neither is the request to call again. \<open>waits\<close> bounds how often a handshake is
  still to be called again before the answer of the peer is there.
\<close>

definition gnutls_ok :: "'s gnutls \<Rightarrow> ('s \<Rightarrow> nat) \<Rightarrow> bool" where
  "gnutls_ok g waits \<longleftrightarrow> \<not> gnutls_error_is_fatal g GNUTLS_E_SUCCESS \<and> \<not> gnutls_error_is_fatal g GNUTLS_E_AGAIN
     \<and> \<not> gnutls_error_is_fatal g GNUTLS_E_INTERRUPTED
     \<and> (\<forall>tr session s ret s'. gnutls_handshake g tr session s = (ret, s') \<and> ret \<in> {GNUTLS_E_AGAIN, GNUTLS_E_INTERRUPTED}
          \<longrightarrow> waits s' < waits s)"

lemma handshake_loop_returns:
  assumes "gnutls_ok g waits"
  shows "\<exists>ret s' s1. handshake_loop g tr session s = Some (ret, s') \<and> gnutls_handshake g tr session s1 = (ret, s')"
proof (induction "waits s" arbitrary: s rule: less_induct)
  case less
  obtain ret s' where ret: "gnutls_handshake g tr session s = (ret, s')" by fastforce
  show ?case
  proof (cases "ret \<in> {GNUTLS_E_AGAIN, GNUTLS_E_INTERRUPTED}")
    case True
    with assms ret have "waits s' < waits s" "\<not> gnutls_error_is_fatal g ret" by (auto simp: gnutls_ok_def)
    with less [of s'] True ret show ?thesis by (subst handshake_loop.simps) auto
  qed (use ret in \<open>subst handshake_loop.simps, auto\<close>)
qed

text \<open>What has become of a connection attempt over \<open>stream\<close>: it goes on, or it has given its one result.\<close>

definition attempt_ok :: "'s gnutls \<Rightarrow> 's TlsIoStream \<Rightarrow> 's TlsClientStreamHelper \<Rightarrow> bool" where
  "attempt_ok g t h \<longleftrightarrow> (\<exists>session. session_handle t = Some session
     \<and> (th_stream h = Some t \<and> th_feeder h = Some []
        \<or> th_stream h = None \<and> th_feeder h = Some [IsValue t]
          \<and> (\<exists>s s'. gnutls_handshake g (ts_transport t) session s = (GNUTLS_E_SUCCESS, s'))
        \<or> th_stream h = None \<and> (\<exists>e. isCritical e \<and> th_feeder h = Some [IsError e])
          \<and> (\<exists>ret s s'. gnutls_handshake g (ts_transport t) session s = (ret, s') \<and> gnutls_error_is_fatal g ret)))"

lemma turn_handshake_ok:
  assumes "gnutls_ok g waits" and "attempt_ok g t h"
  shows "\<exists>h' s'. turn_handshake g h s = Some (h', s') \<and> attempt_ok g t h'"
proof (cases "th_stream h")
  case None
  with assms(2) show ?thesis by (auto simp: turn_handshake_def)
next
  case (Some t')
  from assms(2) Some obtain session where t: "t' = t" "session_handle t = Some session" "th_feeder h = Some []"
    by (auto simp: attempt_ok_def)
  from handshake_loop_returns [OF assms(1), of "ts_transport t" session s] obtain ret s' s1 where
    ret: "handshake_loop g (ts_transport t) session s = Some (ret, s')" "gnutls_handshake g (ts_transport t) session s1 = (ret, s')"
    by blast
  consider "gnutls_error_is_fatal g ret" | "\<not> gnutls_error_is_fatal g ret" "ret = GNUTLS_E_SUCCESS"
    | "\<not> gnutls_error_is_fatal g ret" "ret \<noteq> GNUTLS_E_SUCCESS" by blast
  then show ?thesis
  proof cases
    case 1
    then have "\<exists>h' s'. turn_handshake g h s = Some (h', s') \<and> th_stream h' = None
        \<and> th_feeder h' = Some [IsError (criticalError ''Couldn't create Tls connection'')]"
      using Some t ret(1) by (simp add: turn_handshake_def TlsIoStream_delete_def feed_result_def)
    moreover have "isCritical (criticalError ''Couldn't create Tls connection'')"
      by (simp add: isCritical_def criticalError_code_def makeError_def Error_view_def GenericCritical_def)
    ultimately show ?thesis using 1 t(2) ret(2) by (force simp: attempt_ok_def)
  next
    case 2
    then have "\<exists>h' s'. turn_handshake g h s = Some (h', s') \<and> th_stream h' = None \<and> th_feeder h' = Some [IsValue t]"
      using Some t ret(1) by (simp add: turn_handshake_def feed_result_def)
    then show ?thesis using 2(2) t(2) ret(2) by (force simp: attempt_ok_def)
  next
    case 3
    then have "turn_handshake g h s = Some (h, s')" using Some t ret(1) by (simp add: turn_handshake_def)
    then show ?thesis using assms(2) by blast
  qed
qed

fun ready_event :: "'s tls_event \<Rightarrow> bool" where
  "ready_event (Connection _) \<longleftrightarrow> False"
| "ready_event _ \<longleftrightarrow> True"

lemma ready_events_ok:
  assumes "gnutls_ok g waits" and "attempt_ok g t h" and "\<forall>(env, ev) \<in> set evs. ready_event ev"
  shows "\<exists>h' s'. tls_events g xcred address evs (h, s) = Some (h', s') \<and> attempt_ok g t h'"
  using assms(2,3)
proof (induction evs arbitrary: h s)
  case (Cons e evs)
  obtain env ev where e: "e = (env, ev)" "ready_event ev" using Cons.prems(2) by (cases e) auto
  have "\<exists>h' s'. tls_event_step g xcred address ev (h, env s) = Some (h', s') \<and> attempt_ok g t h'"
    using e(2) Cons.prems(1) turn_handshake_ok [OF assms(1) Cons.prems(1)] by (cases ev rule: ready_event.cases) auto
  then obtain h' s' where "tls_event_step g xcred address ev (h, env s) = Some (h', s')" "attempt_ok g t h'" by blast
  with Cons.IH [of h' s'] Cons.prems(2) e(1) show ?case by auto
qed simp

lemma tls_connected_ok:
  assumes "gnutls_ok g waits" and "th_feeder h = Some []"
  shows "\<exists>h' s' t. tls_connected g xcred address stream h s = Some (h', s') \<and> attempt_ok g t h' \<and> ts_internal t = stream"
proof -
  obtain session s1 where init: "gnutls_init g s = (session, s1)" by fastforce
  let ?t = "(TlsIoStream_new stream)\<lparr>session_handle := Some session\<rparr>"
  let ?h = "h\<lparr>th_stream := Some ?t, stream_reader := True, stream_writer := True\<rparr>"
  have ok: "attempt_ok g ?t ?h" using assms(2) by (simp add: attempt_ok_def)
  have "\<exists>s. tls_connected g xcred address stream h s0 = turn_handshake g ?h s" if "gnutls_init g s0 = (session, s1)" for s0
    using that by (auto simp: tls_connected_def setupTurn_def Let_def)
  with init turn_handshake_ok [OF assms(1) ok] have "\<exists>h' s'. tls_connected g xcred address stream h s = Some (h', s') \<and> attempt_ok g ?t h'"
    by metis
  moreover have "ts_internal ?t = stream" by (simp add: TlsIoStream_new_def)
  ultimately show ?thesis by blast
qed

lemma connect_start:
  "th_stream TlsNetwork_connect = None" "th_feeder TlsNetwork_connect = Some []"
  by (simp_all add: TlsNetwork_connect_def TlsClientStreamHelper_new_def)

section \<open>Properties\<close>

text \<open>
  C24: a TLS connection attempt gives one result. Once the connection below is there, for every sequence of readiness
  events and whatever happens outside, every turn returns, provided that the peer answers; the attempt is going on and nothing has
  been fed, or it has ended with exactly one result: the stream over the connection, only if GnuTLS has reported a complete
  handshake, or a critical error, only if GnuTLS has reported a fatal error. Later events change nothing.
\<close>

theorem tls_connect_one_result:
  assumes "gnutls_ok g waits" and "\<forall>(env, ev) \<in> set evs. ready_event ev"
  shows "\<exists>h s' t session. tls_events g xcred address ((env, Connection (IsValue stream)) # evs) (TlsNetwork_connect, s) = Some (h, s')
    \<and> ts_internal t = stream \<and> session_handle t = Some session
    \<and> (th_stream h = Some t \<and> th_feeder h = Some []
       \<or> th_stream h = None \<and> th_feeder h = Some [IsValue t]
         \<and> (\<exists>s s'. gnutls_handshake g (ts_transport t) session s = (GNUTLS_E_SUCCESS, s'))
       \<or> th_stream h = None \<and> (\<exists>e. isCritical e \<and> th_feeder h = Some [IsError e])
         \<and> (\<exists>ret s s'. gnutls_handshake g (ts_transport t) session s = (ret, s') \<and> gnutls_error_is_fatal g ret))"
proof -
  from tls_connected_ok [OF assms(1) connect_start(2), of xcred address stream "env s"] obtain h1 s1 t where
    1: "tls_connected g xcred address stream TlsNetwork_connect (env s) = Some (h1, s1)" "attempt_ok g t h1" "ts_internal t = stream"
    by blast
  from ready_events_ok [OF assms(1) 1(2) assms(2)] obtain h s' where
    2: "tls_events g xcred address evs (h1, s1) = Some (h, s')" "attempt_ok g t h" by blast
  then obtain session where "session_handle t = Some session" by (auto simp: attempt_ok_def)
  then show ?thesis using 1 2 by (intro exI [of _ h] exI [of _ s'] exI [of _ t] exI [of _ session]) (simp add: attempt_ok_def)
qed

text \<open>
  A small GnuTLS for evaluation: its state is the list of the results that the handshake calls to come will have, the
  records that arrive, and the last record sent. Codes below -100 are fatal.
\<close>

record mini_tls =
  mt_handshakes :: "int list"
  mt_records :: "byte list list"
  mt_sent :: "byte list"

definition mini_gnutls :: "mini_tls gnutls" where
  "mini_gnutls = \<lparr>
     gnutls_global_init = (\<lambda>s. s), gnutls_global_deinit = (\<lambda>s. s),
     gnutls_certificate_allocate_credentials = (\<lambda>s. (0, s)), gnutls_certificate_set_x509_system_trust = (\<lambda>x s. s),
     gnutls_certificate_free_credentials = (\<lambda>x s. s),
     gnutls_init = (\<lambda>s. (1, s)), gnutls_server_name_set = (\<lambda>session name s. s), gnutls_set_default_priority = (\<lambda>session s. s),
     gnutls_credentials_set = (\<lambda>session x s. s), gnutls_session_set_verify_cert = (\<lambda>session name s. s),
     gnutls_handshake = (\<lambda>tr session s. case mt_handshakes s of
         [] \<Rightarrow> (GNUTLS_E_SUCCESS, s) | ret # rets \<Rightarrow> (ret, s\<lparr>mt_handshakes := rets\<rparr>)),
     gnutls_record_recv = (\<lambda>tr session n s. case mt_records s of
         [] \<Rightarrow> ((GNUTLS_E_AGAIN, []), s)
       | r # rs \<Rightarrow> ((int (length (take n r)), take n r), s\<lparr>mt_records := rs\<rparr>)),
     gnutls_record_send = (\<lambda>tr session data s. (int (length data), s\<lparr>mt_sent := data\<rparr>)),
     gnutls_bye = (\<lambda>tr session s. s),
     gnutls_error_is_fatal = (\<lambda>ret. ret < -100), gnutls_strerror = (\<lambda>ret. ''error'')\<rparr>"

lemma mini_gnutls_ok: "gnutls_ok mini_gnutls (\<lambda>s. length (mt_handshakes s))"
  by (auto simp: gnutls_ok_def mini_gnutls_def GNUTLS_E_SUCCESS_def GNUTLS_E_AGAIN_def GNUTLS_E_INTERRUPTED_def split: list.splits)

definition mini_io :: "mini_tls io_stream" where
  "mini_io = \<lparr>io_read = (\<lambda>s n. (IsError (recoverableError ''Currently busy''), s)), io_write = (\<lambda>s data. (IsValue (length data), s))\<rparr>"

theorem tls_connect_one_result_witness:
  "\<exists>h s' t. tls_events mini_gnutls 0 ''host'' [(id, Connection (IsValue mini_io)), (id, Readable), (id, Writable)]
       (TlsNetwork_connect, \<lparr>mt_handshakes = [GNUTLS_E_AGAIN, -9, GNUTLS_E_INTERRUPTED], mt_records = [], mt_sent = []\<rparr>) = Some (h, s')
     \<and> ts_internal t = mini_io
     \<and> (th_feeder h = Some [] \<or> th_feeder h = Some [IsValue t] \<or> (\<exists>e. isCritical e \<and> th_feeder h = Some [IsError e]))"
proof -
  have "\<forall>(env, ev) \<in> set [(id, Readable), (id, Writable)]. ready_event ev" by simp
  from tls_connect_one_result [OF mini_gnutls_ok this, of 0 "''host''" id mini_io
      "\<lparr>mt_handshakes = [GNUTLS_E_AGAIN, -9, GNUTLS_E_INTERRUPTED], mt_records = [], mt_sent = []\<rparr>"]
  show ?thesis by blast
qed

text \<open>
  C37: the handshake of a client does not wait for the event loop. The loop in \<open>turn\<close> calls GnuTLS again as long as it asks
  for that, although GnuTLS does so when the stream below would block: while the answer of the peer is missing, a turn
  does not return, and the event loop, which the readiness conveyors are there for, stands still.
\<close>

theorem tls_handshake_spins:
  assumes "\<not> gnutls_error_is_fatal g GNUTLS_E_AGAIN"
    and "\<And>s. Inv s \<Longrightarrow> \<exists>s'. gnutls_handshake g (ts_transport t) session s = (GNUTLS_E_AGAIN, s') \<and> Inv s'"
    and "th_stream h = Some t" and "session_handle t = Some session" and "th_feeder h \<noteq> None" and "Inv s"
  shows "turn_handshake g h s = None"
proof -
  let ?tr = "ts_transport t"
  have "\<not> (g = g \<and> ?tr = ?tr \<and> session = session \<and> Inv s)" if "handshake_loop g ?tr session s = Some y" for y
    using that
  proof (rule handshake_loop.raw_induct
      [where P = "\<lambda>g' tr' ses' s y. \<not> (g' = g \<and> tr' = ?tr \<and> ses' = session \<and> Inv s)", rotated], goal_cases)
    case (1 rs g' tr' ses' s y)
    show ?case
    proof
      assume *: "g' = g \<and> tr' = ?tr \<and> ses' = session \<and> Inv s"
      then obtain s' where "gnutls_handshake g ?tr session s = (GNUTLS_E_AGAIN, s')" "Inv s'" using assms(2) by blast
      with 1 * assms(1) show False by auto
    qed
  qed
  with assms(6) have "handshake_loop g ?tr session s = None" by (cases "handshake_loop g ?tr session s") auto
  with assms(3-5) show ?thesis by (simp add: turn_handshake_def)
qed

text \<open>A peer that never answers.\<close>

definition silent_gnutls :: "mini_tls gnutls" where
  "silent_gnutls = mini_gnutls\<lparr>gnutls_handshake := (\<lambda>tr session s. (GNUTLS_E_AGAIN, s))\<rparr>"

theorem tls_handshake_spins_witness:
  "turn_handshake silent_gnutls (TlsNetwork_connect\<lparr>th_stream := Some \<lparr>ts_internal = mini_io, session_handle = Some 1\<rparr>\<rparr>)
     \<lparr>mt_handshakes = [], mt_records = [], mt_sent = []\<rparr> = None"
  by (rule tls_handshake_spins [where Inv = "\<lambda>_. True" and t = "\<lparr>ts_internal = mini_io, session_handle = Some 1\<rparr>" and session = 1])
     (simp_all add: silent_gnutls_def mini_gnutls_def GNUTLS_E_AGAIN_def TlsNetwork_connect_def TlsClientStreamHelper_new_def)

text \<open>
  C39: how a TLS stream reports what GnuTLS returns. A fatal error is critical, another one recoverable, the end of the
  stream critical; a write reports the number of bytes sent. A read reports the length of the buffer instead of
  the number of bytes received: the two agree exactly when the buffer has been filled.
\<close>

theorem tls_stream_results:
  assumes "session_handle t = Some session"
    and "\<And>s sz bytes s'. gnutls_record_recv g (ts_transport t) session len s = ((sz, bytes), s') \<Longrightarrow> 0 < sz \<Longrightarrow>
      sz = int (length bytes) \<and> length bytes \<le> len"
  shows "(\<exists>r bytes s'. TlsIoStream_read g t len s = Some (r, bytes, s')
      \<and> (let sz = fst (fst (gnutls_record_recv g (ts_transport t) session len s)) in
         (case r of
            IsError e \<Rightarrow> sz \<le> 0 \<and> (if sz < 0 \<and> \<not> gnutls_error_is_fatal g sz then isRecoverable e else isCritical e)
          | IsValue n \<Rightarrow> 0 < sz \<and> n = len \<and> length bytes \<le> n \<and> (n = length bytes \<longleftrightarrow> sz = int len))))
    \<and> (\<exists>r s'. TlsIoStream_write g t data s = Some (r, s')
      \<and> (let sz = fst (gnutls_record_send g (ts_transport t) session data s) in
         (case r of
            IsError e \<Rightarrow> sz < 0 \<and> (if gnutls_error_is_fatal g sz then isCritical e else isRecoverable e)
          | IsValue n \<Rightarrow> sz = int n)))"
    (is "?rcv \<and> ?snd")
proof
  note codes = isCritical_def isRecoverable_def criticalError_fmt_def recoverableError_fmt_def makeError_fmt_def Error_owned_def
    criticalError_code_def makeError_def Error_view_def GenericCritical_def GenericRecoverable_def
  obtain sz bytes s' where recv: "gnutls_record_recv g (ts_transport t) session len s = ((sz, bytes), s')" by (metis surj_pair)
  show ?rcv using assms(1) recv assms(2) [OF recv] by (auto simp: TlsIoStream_read_def Let_def codes)
  obtain sz' s'' where send: "gnutls_record_send g (ts_transport t) session data s = (sz', s'')" by fastforce
  show ?snd using assms(1) send by (auto simp: TlsIoStream_write_def Let_def codes)
qed

text \<open>A record of two bytes is read into a buffer of four.\<close>

theorem tls_stream_results_witness:
  "\<exists>bytes s'. TlsIoStream_read mini_gnutls \<lparr>ts_internal = mini_io, session_handle = Some 1\<rparr> 4
       \<lparr>mt_handshakes = [], mt_records = [[1, 2]], mt_sent = []\<rparr> = Some (IsValue 4, bytes, s') \<and> length bytes < 4"
proof -
  let ?t = "\<lparr>ts_internal = mini_io, session_handle = Some 1\<rparr> :: mini_tls TlsIoStream"
  let ?s = "\<lparr>mt_handshakes = [], mt_records = [[1, 2]], mt_sent = []\<rparr> :: mini_tls"
  have "gnutls_record_recv mini_gnutls (ts_transport ?t) 1 4 s = ((sz, bytes), s') \<Longrightarrow> 0 < sz \<Longrightarrow>
      sz = int (length bytes) \<and> length bytes \<le> 4" for s sz bytes s'
    by (auto simp: mini_gnutls_def GNUTLS_E_AGAIN_def split: list.splits)
  moreover have "fst (fst (gnutls_record_recv mini_gnutls (ts_transport ?t) 1 4 ?s)) = 2" by (simp add: mini_gnutls_def)
  ultimately show ?thesis
    using tls_stream_results [of ?t 1 mini_gnutls 4 ?s "[]"] by (fastforce simp: Let_def split: error_or.splits)
qed

text \<open>
  The callback cannot tell the end of the stream from a stream that would block: on a unix stream it returns -1 for both,
  where GnuTLS expects 0 for the end.
\<close>

lemma tls_pull_end_of_stream:
  assumes "recv k n = (r, k')" and "r \<in> {None, Some []}"
  shows "forst_tls_pull_func (Some \<lparr>io_read = UnixIoStream_read recv, io_write = wr\<rparr>) n k = ((-1, []), k')"
  using assms by (auto simp: forst_tls_pull_func_def UnixIoStream_read_def)

text \<open>The handle of an accepted stream is never initialised: to use or destroy the stream is undefined.\<close>

lemma tls_accepted_stream_undefined:
  "TlsIoStream_read g (TlsServer_accept_then io) n s = None" "TlsIoStream_write g (TlsServer_accept_then io) data s = None"
  "TlsIoStream_delete g (TlsServer_accept_then io) s = None"
  by (simp_all add: TlsServer_accept_then_def TlsIoStream_new_def TlsIoStream_read_def TlsIoStream_write_def TlsIoStream_delete_def)

end
