(* ===== verification/Tls_Connect.thy ===== *)
theory Tls_Connect
  imports Tls Conveyor_Nodes
begin

text \<open>
  \<open>TlsNetwork::connect\<close> on the conveyors of \<open>Conveyor\<close>: the function it gives to \<open>then\<close>, the sink of the
  helper, and what the event loop makes of the connection below.
\<close>

section \<open>The chain of a connection\<close>

text \<open>
  The state of the program is the helper and the state of GnuTLS. The values of the chain are the stream of the
  connection and \<open>Void\<close>, which is \<open>None\<close>. The conveyor \<open>c\<close> is what the network below returns from its
  \<open>connect\<close>.
\<close>

definition tls_connect_then ::
    "'s gnutls \<Rightarrow> credentials \<Rightarrow> string \<Rightarrow> ('s io_stream option, 's TlsClientStreamHelper \<times> 's) func" where
  "tls_connect_then g xcred address v u = (case v of
     Some stream \<Rightarrow> (case tls_connected g xcred address stream (fst u) (snd u) of
         Some u \<Rightarrow> (Returns (IsValue None), u)
       | None \<Rightarrow> (Fails, u))
   | None \<Rightarrow> (Fails, u))"

definition TlsNetwork_connect_chain ::
    "'s gnutls \<Rightarrow> credentials \<Rightarrow> string \<Rightarrow> conveyor \<Rightarrow> ('s io_stream option, 's TlsClientStreamHelper \<times> 's) state \<Rightarrow>
     (addr \<times> ('s io_stream option, 's TlsClientStreamHelper \<times> 's) state) option" where
  "TlsNetwork_connect_chain g xcred address c st = do {
     let s = snd (user (snd st));
     let st = set_user (TlsClientStreamHelper_new, s) st;
     (prim_conv, st) \<leftarrow> conveyor_then (tls_connect_then g xcred address) PropagateError c st;
     (a, st) \<leftarrow> conveyor_sink prim_conv st;
     let (helper, s) = user (snd st);
     Some (a, set_user (helper\<lparr>connection_sink := True\<rparr>, s) st)
   }"

text \<open>The network below answers at once, with a stream or an error, as the unix driver does.\<close>

definition connection_below :: "'v error_or \<Rightarrow> ('v option, 'u) state \<Rightarrow> (conveyor \<times> ('v option, 'u) state) option" where
  "connection_below r st = (case r of IsValue v \<Rightarrow> Conveyor_value (Some v) st | IsError e \<Rightarrow> Conveyor_error e st)"

section \<open>What the event loop does\<close>

text \<open>The function runs once, on a stream, and the chain below the sink is destroyed.\<close>

lemma connect_value_runs:
  assumes "tls_connected g xcred address stream TlsNetwork_connect s = Some u'"
  shows "\<exists>c st0 a st1 st2. Conveyor_value (Some stream) (start (h0, s)) = Some (c, st0)
    \<and> TlsNetwork_connect_chain g xcred address c st0 = Some (a, st1) \<and> poll st1 = Some st2
    \<and> head (fst st2) = None \<and> user (snd st2) = u' \<and> obj_at (snd st2) a = Some (SinkConveyorNode None None)
    \<and> dom (obj_at (snd st2)) = {a}"
  using assms
  by (simp add: TlsNetwork_connect_chain_def node_eval convert_result_def PropagateError_def tls_connect_then_def
      TlsNetwork_connect_def)

lemma connect_error_runs:
  "\<exists>c st0 a st1 st2. Conveyor_error e (start (h0, s)) = Some (c, st0)
    \<and> TlsNetwork_connect_chain g xcred address c st0 = Some (a, st1) \<and> poll st1 = Some st2
    \<and> head (fst st2) = None \<and> user (snd st2) = (TlsNetwork_connect, s) \<and> obj_at (snd st2) a = Some (SinkConveyorNode None None)
    \<and> dom (obj_at (snd st2)) = {a}"
  by (cases "isCritical e") (simp_all add: TlsNetwork_connect_chain_def node_eval convert_result_def PropagateError_def
      TlsNetwork_connect_def)

section \<open>What readiness makes of the helper\<close>

lemma turn_handshake_readers:
  "turn_handshake g h s = Some (h', s') \<Longrightarrow> stream_reader h' = stream_reader h \<and> stream_writer h' = stream_writer h"
  by (auto simp: turn_handshake_def feed_result_def split: option.splits if_splits elim!: bind_eq_SomeE)

lemma tls_events_readers:
  "\<forall>(env, ev) \<in> set evs. ready_event ev \<Longrightarrow> tls_events g xcred address evs (h, s) = Some (h', s') \<Longrightarrow>
   stream_reader h' = stream_reader h \<and> stream_writer h' = stream_writer h"
proof (induction evs arbitrary: h s)
  case (Cons e evs)
  obtain env ev where e: "e = (env, ev)" "ready_event ev" using Cons.prems(1) by (cases e) auto
  from Cons.prems(2) e(1) obtain h1 s1 where one: "tls_event_step g xcred address ev (h, env s) = Some (h1, s1)"
    "tls_events g xcred address evs (h1, s1) = Some (h', s')" by (auto elim!: bind_eq_SomeE)
  have "stream_reader h1 = stream_reader h \<and> stream_writer h1 = stream_writer h"
    using one(1) e(2) turn_handshake_readers [of g h "env s" h1 s1] by (cases ev) (auto split: if_splits)
  with Cons.IH [OF _ one(2)] Cons.prems(1) show ?case by simp
qed simp

text \<open>A helper that has never got a stream has no readers.\<close>

lemma ready_events_nothing:
  assumes "\<forall>(env, ev) \<in> set evs. ready_event ev" and "\<not> stream_reader h" and "\<not> stream_writer h"
  shows "\<exists>s'. tls_events g xcred address evs (h, s) = Some (h, s')"
  using assms(1)
proof (induction evs arbitrary: s)
  case (Cons e evs)
  obtain env ev where e: "e = (env, ev)" "ready_event ev" using Cons.prems by (cases e) auto
  then have "tls_event_step g xcred address ev (h, env s) = Some (h, env s)" using assms(2,3) by (cases ev) auto
  with Cons e show ?case by auto
qed simp

lemma tls_connected_readers:
  "tls_connected g xcred address stream h s = Some (h', s') \<Longrightarrow> stream_reader h' \<and> stream_writer h'"
  by (auto simp: tls_connected_def setupTurn_def Let_def split: prod.splits elim!: bind_eq_SomeE dest!: turn_handshake_readers)

text \<open>
  C38: \<open>connect\<close> reports a failed connection to nobody. On the nodes of the library: the network below answers with
  a stream or with an error of any kind, \<open>connect\<close> puts its function and its sink above the conveyor, and the event loop is
  polled. Then the loop is idle and of the chain only the sink is left. If there was a stream, the attempt goes on or has
  given its one result, and its readers are set up, so that it goes on whenever the stream is ready. If there was
  an error, nothing is fed, no reader is set up, and no event changes that: the conveyor that the caller has stays empty.
\<close>

theorem tls_connect_error_lost:
  assumes "gnutls_ok g waits" and "\<forall>(env, ev) \<in> set evs. ready_event ev"
  shows "\<exists>c st0 a st1 st2 h s'. connection_below r (start (h0, s)) = Some (c, st0)
    \<and> TlsNetwork_connect_chain g xcred address c st0 = Some (a, st1) \<and> poll st1 = Some st2
    \<and> head (fst st2) = None \<and> dom (obj_at (snd st2)) = {a}
    \<and> tls_events g xcred address evs (user (snd st2)) = Some (h, s')
    \<and> (case r of
         IsError e \<Rightarrow> th_feeder h = Some [] \<and> th_stream h = None \<and> \<not> stream_reader h \<and> \<not> stream_writer h
       | IsValue stream \<Rightarrow> stream_reader h \<and> stream_writer h \<and> (\<exists>t session. ts_internal t = stream \<and> session_handle t = Some session
           \<and> (th_stream h = Some t \<and> th_feeder h = Some []
             \<or> th_stream h = None \<and> th_feeder h = Some [IsValue t]
               \<and> (\<exists>s s'. gnutls_handshake g (ts_transport t) session s = (GNUTLS_E_SUCCESS, s'))
             \<or> th_stream h = None \<and> (\<exists>e. isCritical e \<and> th_feeder h = Some [IsError e])
               \<and> (\<exists>ret s s'. gnutls_handshake g (ts_transport t) session s = (ret, s') \<and> gnutls_error_is_fatal g ret))))"
proof (cases r)
  case (IsError e)
  from connect_error_runs [of e h0 s g xcred address] obtain c st0 a st1 st2 where run: "Conveyor_error e (start (h0, s)) = Some (c, st0)"
    "TlsNetwork_connect_chain g xcred address c st0 = Some (a, st1)" "poll st1 = Some st2" "head (fst st2) = None"
    "user (snd st2) = (TlsNetwork_connect, s)" "dom (obj_at (snd st2)) = {a}" by blast
  have "\<not> stream_reader TlsNetwork_connect" "\<not> stream_writer TlsNetwork_connect"
    by (simp_all add: TlsNetwork_connect_def TlsClientStreamHelper_new_def)
  with ready_events_nothing [OF assms(2)] obtain s' where
    "tls_events g xcred address evs (TlsNetwork_connect, s) = Some (TlsNetwork_connect, s')" by blast
  moreover note \<open>\<not> stream_reader TlsNetwork_connect\<close> \<open>\<not> stream_writer TlsNetwork_connect\<close>
  ultimately show ?thesis using run connect_start
    by (intro exI [of _ c] exI [of _ st0] exI [of _ a] exI [of _ st1] exI [of _ st2] exI [of _ TlsNetwork_connect] exI [of _ s'])
      (simp add: IsError connection_below_def)
next
  case (IsValue stream)
  from tls_connected_ok [OF assms(1) connect_start(2), of xcred address stream s] obtain h1 s1 t where
    1: "tls_connected g xcred address stream TlsNetwork_connect s = Some (h1, s1)" "attempt_ok g t h1" "ts_internal t = stream"
    by blast
  from connect_value_runs [OF 1(1), of h0] obtain c st0 a st1 st2 where
    run: "Conveyor_value (Some stream) (start (h0, s)) = Some (c, st0)"
    "TlsNetwork_connect_chain g xcred address c st0 = Some (a, st1)" "poll st1 = Some st2" "head (fst st2) = None"
    "user (snd st2) = (h1, s1)" "dom (obj_at (snd st2)) = {a}" by blast
  from ready_events_ok [OF assms(1) 1(2) assms(2)] obtain h s' where
    2: "tls_events g xcred address evs (h1, s1) = Some (h, s')" "attempt_ok g t h" by blast
  have readers: "stream_reader h" "stream_writer h"
    using tls_events_readers [OF assms(2) 2(1)] tls_connected_readers [OF 1(1)] by simp_all
  from 2(2) obtain session where "session_handle t = Some session" by (auto simp: attempt_ok_def)
  then have "\<exists>t session. ts_internal t = stream \<and> session_handle t = Some session
     \<and> (th_stream h = Some t \<and> th_feeder h = Some []
       \<or> th_stream h = None \<and> th_feeder h = Some [IsValue t]
         \<and> (\<exists>s s'. gnutls_handshake g (ts_transport t) session s = (GNUTLS_E_SUCCESS, s'))
       \<or> th_stream h = None \<and> (\<exists>e. isCritical e \<and> th_feeder h = Some [IsError e])
         \<and> (\<exists>ret s s'. gnutls_handshake g (ts_transport t) session s = (ret, s') \<and> gnutls_error_is_fatal g ret))"
    using 1(3) 2(2) by (intro exI [of _ t] exI [of _ session]) (simp add: attempt_ok_def)
  with readers run 2(1) show ?thesis
    by (intro exI [of _ c] exI [of _ st0] exI [of _ a] exI [of _ st1] exI [of _ st2] exI [of _ h] exI [of _ s'])
      (simp add: IsValue connection_below_def)
qed

theorem tls_connect_error_lost_witness:
  "\<exists>c st0 a st1 st2 h s'. Conveyor_error (criticalError ''Couldn't connect'')
        (start (TlsClientStreamHelper_new, \<lparr>mt_handshakes = [], mt_records = [], mt_sent = []\<rparr>)) = Some (c, st0)
     \<and> TlsNetwork_connect_chain mini_gnutls 0 ''host'' c st0 = Some (a, st1) \<and> poll st1 = Some st2
     \<and> tls_events mini_gnutls 0 ''host'' [(id, Readable), (id, Writable)] (user (snd st2)) = Some (h, s') \<and> th_feeder h = Some []"
proof -
  have "\<forall>(env, ev) \<in> set [(id, Readable), (id, Writable)]. ready_event ev" by simp
  from tls_connect_error_lost [OF mini_gnutls_ok this, of "IsError (criticalError ''Couldn't connect'')" TlsClientStreamHelper_new
      "\<lparr>mt_handshakes = [], mt_records = [], mt_sent = []\<rparr>" 0 "''host''"]
  show ?thesis unfolding connection_below_def error_or.case by blast
qed

end
