(* ===== verification/Spec2Isabelle.thy ===== *)
theory Spec2Isabelle
  imports Peer_Exchange Conveyor_Teardown Conveyor_Take Conveyor_Merge Wait_Scope One_Time Unix_Driver_Signals Unix_Driver_Accept
    Tls_Connect
begin

text \<open>
  \<^bold>\<open>Verification of forstio.\<close> Forstio is a C++ library for asynchronous programs that exchange
  messages: byte buffers, a schema-described message format with a wire encoding, an event loop with
  conveyors that carry results from producers to consumers, and streams on a unix driver. This
  development models the library in HOL and proves what its parts achieve. Paths below are relative to
  \<open>src/\<close>; \<open>S\<close> stands for \<open>source/forstio\<close>.

  \<^bold>\<open>The parts and how they interact.\<close>

  \<^item> \<open>S/error.h\<close>, \<open>error.cpp\<close>: error values, which every other part returns.
  \<^item> \<open>S/buffer.h\<close>, \<open>buffer.cpp\<close>: an abstract byte buffer and its implementations. The wire encoding
    writes to and reads from buffers, through a view that leaves the buffer unchanged until the packet
    is complete.
  \<^item> \<open>S/schema.h\<close>, \<open>message_container.h\<close>, \<open>message.h\<close>: messages described by schemas, built and read through
    builders and readers.
  \<^item> \<open>S/stream_endian.h\<close>, \<open>proto_kel.h\<close>: little endian values and the Kel packet format on top of them.
  \<^item> \<open>S/async.h\<close>, \<open>async.tmpl.h\<close>, \<open>async.cpp\<close>: events, the event loop and the conveyor nodes, which arm
    events of the loop and are fired by it.
  \<^item> \<open>S/io.h\<close>, \<open>io.cpp\<close>, \<open>io_helpers.h\<close>, \<open>io_helpers.cpp\<close>, \<open>driver/io-unix.h\<close>, \<open>driver/io-unix.cpp\<close>: streams
    that transfer a fixed amount of data whenever the driver reports that the system is ready. The driver
    waits for the system with epoll and feeds conveyors; the loop then runs what they lead to.
  \<^item> \<open>S/io_peer.h\<close>, \<open>io_peer.tmpl.h\<close>: a peer that exchanges messages over an asynchronous stream, through two ring buffers and a codec.
  \<^item> \<open>S/tls/tls.h\<close>, \<open>tls.cpp\<close>: streams encrypted with GnuTLS on top of other streams.

  \<^bold>\<open>Conventions.\<close>

  \<^item> A function that can fail an assertion (the build does not define \<open>NDEBUG\<close>), access memory outside an
    object or after its destruction, let an exception escape or not return yields an \<open>option\<close>; \<open>None\<close> is
    any of these. The library's own errors are values of type \<open>error\<close> inside \<open>Some\<close>. The properties
    say that the result is \<open>Some\<close>, except for those that state a defect.
  \<^item> \<open>size_t\<close> is a natural number below \<open>2 ^ 64\<close>, with \<open>sz_add\<close> and \<open>sz_sub\<close> for arithmetic that wraps
    around. Bytes and integers of other widths are words.
  \<^item> Loops are structural recursion or \<open>partial_function (option)\<close>; that they return is proved with the
    contract of what they call. \<open>EventLoop::turnLoop\<close> makes at most 65536 steps, which is the bound of the
    code. No other fuel is used.
  \<^item> Code outside the repository is a parameter: the system calls (record \<open>os\<close>, on a state of the kernel),
    GnuTLS (record \<open>gnutls\<close>), the outcome of allocations that the code reacts to (\<open>alloc\<close>, \<open>can_resize\<close>), and the functions
    a program gives to \<open>then\<close>. What is relied on is a named contract: \<open>posix_socket\<close>, \<open>blocking_socket\<close>, \<open>posix_kernel\<close>,
    \<open>edge_wait\<close>, \<open>gnutls_ok\<close>; small kernels that keep it run the code in the witnesses.

  \<^bold>\<open>The theories.\<close>

  \<^item> \<open>Prelude\<close>: machine types, assertions, lists, words.
  \<^item> \<open>Errors\<close>: \<open>Error\<close>, \<open>ErrorOr\<close>; the classes of errors.
  \<^item> \<open>Buffer_Iface\<close>: class \<open>Buffer\<close> as a record of its virtual functions, \<open>push\<close>, \<open>pop\<close>, \<open>toString\<close>, \<open>toHex\<close>.
    The locales \<open>buffer_reader\<close>, \<open>buffer_writer\<close>, \<open>buffer_writer0\<close>, \<open>viewable_reader\<close>, \<open>viewable_writer\<close>, \<open>storage_buffer\<close>
    and \<open>queue_buffer\<close> are the contracts; the members are proved against them.
  \<^item> \<open>Buffer_View\<close>: \<open>BufferView\<close>; a view of any buffer that keeps one half of the contract keeps that half.
  \<^item> \<open>Ring_Buffer\<close>, \<open>Array_Buffer\<close>: the implementations, with interpretations \<open>ring\<close> and \<open>arr\<close> of the contracts.
    Any calls of \<open>push\<close> and \<open>pop\<close> behave like a bounded byte queue, or a queue whose room is used once.
  \<^item> \<open>Stream_Endian\<close>: \<open>ShiftStreamValue\<close> for 1, 2, 4 and 8 bytes; byte order and round trip.
  \<^item> \<open>Messages\<close>: schemas and messages as datatypes, containers, builders and readers; what is set is read
    back, the rest is untouched, messages stay well typed.
  \<^item> \<open>Proto_Kel\<close>, \<open>Proto_Kel_Correct\<close>: encoders, size computation, decoders, codec. Round trip of message
    sequences, all-or-nothing encoding, soundness of decoding arbitrary bytes, partial and oversized
    packets, unambiguity of the format. The lengths of arrays that the bytes of a packet announce (\<open>packet_announces\<close>), and
    that decoding returns exactly if vectors of these lengths can be made.
  \<^item> \<open>Ring_Segments\<close>: the segments of a ring buffer as memory that a stream transfers from or to; filling the buffer keeps the read
    position, draining it the write position (interpretations \<open>filling\<close> and \<open>draining\<close>).
  \<^item> \<open>Streaming_Peer\<close>: \<open>StreamingIoPeer\<close>, its constructor, the functions of its two sinks, \<open>send\<close>, and runs of a peer.
  \<^item> \<open>Streaming_Peer_Correct\<close>: what a peer hands over and sends in any run (locale \<open>peer_system\<close>).
  \<^item> \<open>Peer_Exchange\<close>: peers on streams of the unix driver, two connected peers, a burst that silences a peer.
  \<^item> \<open>Event_Loop\<close>: \<open>Event\<close> and \<open>EventLoop\<close> on the level of pointers, refined to a scheduler with three lists
    (locale \<open>event_queue\<close>, interpretation \<open>evq\<close>).
  \<^item> \<open>Wait_Scope\<close>: the loops of a thread, \<open>local_loop\<close> and \<open>WaitScope\<close>; the other theories see one loop of such a thread.
  \<^item> \<open>One_Time\<close>: the members of one time feeders and nodes.
  \<^item> \<open>Conveyor\<close>: the conveyor nodes, feeders, conveyor operations, detached chains and destructors on an
    explicit store of objects.
  \<^item> \<open>Pipe_Spec\<close>: what a chain of storages promises, without objects and event loop (locale \<open>pipe_system\<close>):
    conservation of elements and a bound for the steps until everything is delivered.
  \<^item> \<open>Conveyor_Chain\<close>: chains built with the library implement \<open>Pipe_Spec\<close> (interpretation \<open>chain\<close>).
  \<^item> \<open>Conveyor_Nodes\<close>: taking results by hand, immediate and detached conveyors; defects.
  \<^item> \<open>Conveyor_Take\<close>: chains without a sink, on which a program feeds, turns and takes in any order, so that buffers fill up.
  \<^item> \<open>Conveyor_Merge\<close>: the merge node over sources that are fed again and again, which it serves in turn.
  \<^item> \<open>Conveyor_Teardown\<close>: destroying a chain.
  \<^item> \<open>Io_Helpers\<close>: the stepping loops, \<open>AsyncIoStream\<close> and \<open>UnixIoStream\<close> reading and writing; locales
    \<open>input_stream\<close>, \<open>output_stream\<close> and \<open>posix_socket\<close>, interpretation \<open>sock\<close>.
  \<^item> \<open>Unix_Driver\<close>: the unix driver. The owners of descriptors (streams, servers, datagram sockets) with their feeders, the
    event port with epoll, signals and the pipe, socket addresses, the network calls, \<open>setupAsyncIo\<close>. The kernel state is part
    of the user state of the conveyors, so that their functions can make system calls.
  \<^item> \<open>Unix_Driver_Safety\<close>: the contract of the kernel (locale \<open>posix_kernel\<close>) and the invariant of the driver: feeders lead to
    live nodes or nowhere, and every entry of the interest list belongs to a live owner. Polling returns.
  \<^item> \<open>Unix_Driver_Correct\<close>: the calls of a program as a step relation, its reachable states; network calls leave nothing behind
    when they fail; what a batch of events feeds. A small kernel (interpretation \<open>mini\<close>).
  \<^item> \<open>Unix_Driver_Signals\<close>, \<open>Unix_Driver_Accept\<close>: signals reach exactly the conveyors that wait for them; a connection becomes
    one stream in the conveyor of \<open>accept\<close> or is closed.
  \<^item> \<open>Async_Stream\<close>: \<open>AsyncIoStream\<close> on the driver. Its constructor connects three readiness conveyors to the steppers;
    an event runs exactly the steppers it is for and leaves the loop at rest.
  \<^item> \<open>Async_Stream_Correct\<close>: the transfers of an asynchronous stream over any number of rounds of the loop, and that edge
    triggered events lose no wake-up (locale \<open>blocking_socket\<close>, interpretation \<open>wire\<close>).
  \<^item> \<open>Tls\<close>: TLS streams, callbacks, server and the client handshake; one result per connection attempt, and defects.
  \<^item> \<open>Tls_Connect\<close>: \<open>TlsNetwork::connect\<close> on the conveyor nodes, for a connection below that succeeds and for one that fails.
  \<^item> This theory: messages that are encoded at one end of a connection are decoded at the other end, through
    buffers, streams, event loops and drivers of both ends.

  \<^bold>\<open>Not modelled.\<close> \<open>ChainArrayBuffer\<close>, \<open>oneTimeConveyorAndFeeder\<close>, \<open>Conveyor::limit\<close> and \<open>poll\<close>, \<open>joinConveyors\<close> and
  the \<open>yield\<close> functions are declared but not defined. \<open>S/log.h\<close> and \<open>timer.h\<close> have no behaviour. Functions given to \<open>then\<close> that call the library
  themselves are outside the model of conveyors; where the code has such functions (the steppers feed results, the TLS
  helper makes conveyors, the peer reads and writes), the feeders they feed are lists of the results, which are taken in order. The names that do not
  exist in \<open>S/io_peer.tmpl.h\<close> are read as \<open>Streaming_Peer\<close> says. Streams that wait as values inside a conveyor are not destroyed with it.
\<close>

section \<open>Messages across the wire\<close>

text \<open>
  One end of a connection: a stream of a unix driver, the kernel it runs on and what happens to that, and
  the transfer its \<open>AsyncIoStream\<close> is asked for.
\<close>

record 'k endpoint =
  ep_os :: "'k os"
  ep_errno :: errno
  ep_owner :: IFdOwner
  ep_stream :: addr
  ep_received :: "'k \<Rightarrow> byte list"
  ep_sent :: "'k \<Rightarrow> byte list"
  ep_transfer :: transfer
  ep_envs :: "('k \<Rightarrow> 'k) list"
  ep_driver :: "('k, async_user) driver"

definition endpoint_run :: "'k endpoint \<Rightarrow> ('k, async_user) driver option" where
  "endpoint_run e = async_duplex (ep_os e) (ep_errno e) (file_descriptor (ep_owner e)) (ep_stream e) (ep_transfer e)
     (ep_envs e) (ep_driver e)"

text \<open>The driver is at rest, the stream is new, and the kernel keeps its contract; nothing has been transferred before.\<close>

definition endpoint_ok :: "'k endpoint \<Rightarrow> bool" where
  "endpoint_ok e \<longleftrightarrow>
     posix_socket (unixRead (ep_os e) (file_descriptor (ep_owner e))) (unixWrite (ep_os e) (file_descriptor (ep_owner e)))
       (ep_received e) (ep_sent e)
     \<and> transfer_ok (ep_transfer e)
     \<and> (\<forall>env \<in> set (ep_envs e). edge_wait (ep_os e) (epoll_fd (event_port (ep_driver e))) (ep_stream e)
          (ep_received e) (ep_sent e) (\<lambda>_. True) (\<lambda>_. True) env)
     \<and> conv_ok (conv (ep_driver e)) \<and> head (fst (conv (ep_driver e))) = None
     \<and> 2 \<le> ep_stream e \<and> owners (ep_driver e) (ep_stream e) = Some (UnixIoStream (ep_owner e) None None None)
     \<and> tr_mem (ep_transfer e) = au_mem (snd (user (snd (conv (ep_driver e)))))
     \<and> tr_received (ep_transfer e) = [] \<and> ep_received e (kern (ep_driver e)) = []
     \<and> tr_sent (ep_transfer e) = [] \<and> ep_sent e (kern (ep_driver e)) = []"

lemma endpoint_transfer_ok: "endpoint_ok e \<Longrightarrow> transfer_ok (ep_transfer e)"
  unfolding endpoint_ok_def by blast

lemma endpoint_transferred:
  assumes "endpoint_ok e" and "endpoint_run e = Some d"
  shows "\<exists>bs n. transferred (ep_received e) (ep_sent e) (ep_transfer e) bs n (user (snd (conv d)))"
proof -
  have sock: "blocking_socket (unixRead (ep_os e) (file_descriptor (ep_owner e))) (unixWrite (ep_os e) (file_descriptor (ep_owner e)))
      (ep_received e) (ep_sent e) (\<lambda>_. True) (\<lambda>_. True)"
    using assms(1) by (intro posix_blocking) (simp add: endpoint_ok_def)
  from async_duplex_settled [OF sock, of "ep_transfer e" "ep_envs e" "ep_driver e" "ep_stream e" "ep_errno e"] assms
  show ?thesis by (auto simp: endpoint_ok_def endpoint_run_def blocking_socket.settled_def [OF sock])
qed

text \<open>What a completed write has sent, and what a completed read has stored.\<close>

lemma endpoint_written:
  assumes "endpoint_ok e" and "endpoint_run e = Some d"
    and "write_done (au_write (snd (user (snd (conv d))))) = Some [IsValue (tr_length (ep_transfer e))]"
  shows "ep_sent e (kern d) = take (tr_length (ep_transfer e)) (drop (tr_source (ep_transfer e)) (tr_mem (ep_transfer e)))"
proof -
  from endpoint_transferred [OF assms(1,2)] obtain bs n where
    "transferred (ep_received e) (ep_sent e) (ep_transfer e) bs n (user (snd (conv d)))" by blast
  then show ?thesis using assms(1,3)
    by (auto simp: transferred_def write_progress_def kern_def case_prod_beta endpoint_ok_def split: option.splits)
qed

lemma endpoint_read:
  assumes "endpoint_ok e" and "endpoint_run e = Some d"
    and "read_done (au_read (snd (user (snd (conv d))))) = Some [IsValue len]"
  shows "length (ep_received e (kern d)) = len
    \<and> take len (drop (tr_buffer (ep_transfer e)) (au_mem (snd (user (snd (conv d)))))) = ep_received e (kern d)"
proof -
  from endpoint_transferred [OF assms(1,2)] obtain bs n where
    bs: "transferred (ep_received e) (ep_sent e) (ep_transfer e) bs n (user (snd (conv d)))" by blast
  then have "length bs = len" "ep_received e (kern d) = bs" "length bs \<le> tr_max (ep_transfer e)"
    "au_mem (snd (user (snd (conv d)))) = overwrite (tr_buffer (ep_transfer e)) bs (tr_mem (ep_transfer e))"
    using assms(1,3)
    by (auto simp: transferred_def read_progress_def kern_def case_prod_beta endpoint_ok_def split: option.splits)
  moreover have "tr_buffer (ep_transfer e) + tr_max (ep_transfer e) \<le> length (tr_mem (ep_transfer e))"
    using endpoint_transfer_ok [OF assms(1)] unfolding transfer_ok_def by blast
  ultimately show ?thesis by (simp add: overwrite_def)
qed

text \<open>
  C8: messages cross the wire unchanged. One end encodes messages of a schema into a ring buffer, takes
  the bytes out and writes them from its memory; the other end reads as many bytes into its memory, pushes them into a ring
  buffer and decodes. If the network delivers what has been sent in order, if both asynchronous transfers
  have reported completion, and if the usual limits hold, then the messages decoded are those that were encoded, whatever the
  chunks in which the kernels have transferred the bytes and whatever else has happened on the two streams.
\<close>

theorem messages_cross_the_wire:
  fixes a :: "'a endpoint" and b :: "'b endpoint"
  assumes ends: "endpoint_ok a" "endpoint_ok b"
    and msgs: "wf_schema s" "list_all (msg_ok s) ms" "list_all (msg_fits can_resize s) ms"
      "\<forall>m \<in> set ms. length (wire m) \<le> unat (packet_size limits)"
    and encoded: "ring_inv r" "ring_rd r = []" "encode_messages ring_vt s ms r = Some (noError, r1)"
      "length (concat (map packet ms)) \<le> length (ring_wr r)" "tr_length (ep_transfer a) = length (ring_rd r1)"
      "pop ring_vt r1 (tr_length (ep_transfer a)) = Some (noError, bytes, r2)"
      "take (tr_length (ep_transfer a)) (drop (tr_source (ep_transfer a)) (tr_mem (ep_transfer a))) = bytes"
    and wrote: "endpoint_run a = Some da"
      "write_done (au_write (snd (user (snd (conv da))))) = Some [IsValue (tr_length (ep_transfer a))]"
    and got: "endpoint_run b = Some db"
      "read_done (au_read (snd (user (snd (conv db))))) = Some [IsValue (tr_length (ep_transfer a))]"
    and network: "prefix (ep_received b (kern db)) (ep_sent a (kern da))"
    and room: "ring_inv r3" "ring_rd r3 = []" "tr_length (ep_transfer a) \<le> length (ring_wr r3)"
  shows "\<exists>r4 r5. push ring_vt r3 (take (tr_length (ep_transfer a)) (drop (tr_buffer (ep_transfer b)) (au_mem (snd (user (snd (conv db)))))))
        (tr_length (ep_transfer a)) = Some (noError, r4)
    \<and> decode_messages can_resize alloc ring_vt limits s (length ms) r4 = Some (noError, ms, r5) \<and> ring_rd r5 = []"
proof -
  let ?len = "tr_length (ep_transfer a)"
  from ring.encode_messages_correct [OF encoded(1) msgs(2) encoded(4)] encoded(2,3)
  have r1: "ring_inv r1" "ring_rd r1 = concat (map packet ms)" by auto
  from ring.pop_correct [OF r1(1), of ?len] encoded(5,6) have bytes: "bytes = concat (map packet ms)" using r1(2) by auto
  have len: "length bytes = ?len" using bytes r1(2) encoded(5) by simp
  have sent: "ep_sent a (kern da) = bytes" using endpoint_written [OF ends(1) wrote] encoded(7) by simp
  note received = endpoint_read [OF ends(2) got]
  have "ep_received b (kern db) = bytes"
    using network received len unfolding sent by (metis prefix_def append_eq_append_conv append_Nil2)
  then have mem: "take ?len (drop (tr_buffer (ep_transfer b)) (au_mem (snd (user (snd (conv db)))))) = bytes" "length bytes = ?len"
    using received len by simp_all
  from ring.push_correct [OF room(1), of bytes] room(2,3) mem(2) obtain r4 where
    r4: "push ring_vt r3 bytes ?len = Some (noError, r4)" "ring_inv r4" "ring_rd r4 = concat (map packet ms) @ []"
    using bytes by auto
  from ring.decode_messages_correct [OF r4(2) msgs r4(3), of alloc] r4(1) mem(1) show ?thesis by auto
qed

text \<open>Two drivers on small kernels; the packet of one message has arrived at the second one.\<close>

definition example_message :: message where
  "example_message = MPrimitive (V16 513)"

definition example_bytes :: "byte list" where
  "example_bytes = [2, 0, 0, 0, 0, 0, 0, 0, 1, 2]"

definition example_user :: "byte list \<Rightarrow> async_user" where
  "example_user mem = wire_user\<lparr>au_mem := mem\<rparr>"

definition example_end :: "byte list \<Rightarrow> nat \<Rightarrow> transfer \<Rightarrow> wire_kernel endpoint option" where
  "example_end input n t = do {
     d \<leftarrow> wire_open (wire_boot\<lparr>wk_in := input, wk_room := n\<rparr>) (example_user (tr_mem t));
     Some \<lparr>ep_os = wire_os, ep_errno = EAGAIN,
       ep_owner = \<lparr>file_descriptor = 7, fd_flags = 0, event_mask = EPOLLIN OR EPOLLOUT OR EPOLLRDHUP\<rparr>, ep_stream = 2,
       ep_received = wk_received, ep_sent = wk_sent, ep_transfer = t, ep_envs = [], ep_driver = d\<rparr>
   }"

definition sender_transfer :: transfer where
  "sender_transfer = \<lparr>tr_buffer = 0, tr_min = 1, tr_max = 1, tr_source = 1, tr_length = 10, tr_mem = 0 # example_bytes,
     tr_received = [], tr_sent = []\<rparr>"

definition receiver_transfer :: transfer where
  "receiver_transfer = \<lparr>tr_buffer = 0, tr_min = 10, tr_max = 10, tr_source = 10, tr_length = 1, tr_mem = replicate 11 0,
     tr_received = [], tr_sent = []\<rparr>"

lemma example_sender_state:
  "case example_end [] 20 sender_transfer of None \<Rightarrow> False | Some e \<Rightarrow>
     owners (ep_driver e) 2 = Some (UnixIoStream (ep_owner e) None None None) \<and> head (fst (conv (ep_driver e))) = None
     \<and> au_mem (snd (user (snd (conv (ep_driver e))))) = tr_mem sender_transfer
     \<and> wk_received (kern (ep_driver e)) = [] \<and> wk_sent (kern (ep_driver e)) = []"
  by code_simp

lemma example_sender_run:
  "case (do { e \<leftarrow> example_end [] 20 sender_transfer; endpoint_run e }) of None \<Rightarrow> False | Some d \<Rightarrow>
     write_done (au_write (snd (user (snd (conv d))))) = Some [IsValue 10] \<and> wk_sent (kern d) = example_bytes"
  by code_simp

lemma example_receiver_state:
  "case example_end example_bytes 0 receiver_transfer of None \<Rightarrow> False | Some e \<Rightarrow>
     owners (ep_driver e) 2 = Some (UnixIoStream (ep_owner e) None None None) \<and> head (fst (conv (ep_driver e))) = None
     \<and> au_mem (snd (user (snd (conv (ep_driver e))))) = tr_mem receiver_transfer
     \<and> wk_received (kern (ep_driver e)) = [] \<and> wk_sent (kern (ep_driver e)) = []"
  by code_simp

lemma example_receiver_run:
  "case (do { e \<leftarrow> example_end example_bytes 0 receiver_transfer; endpoint_run e }) of None \<Rightarrow> False | Some d \<Rightarrow>
     read_done (au_read (snd (user (snd (conv d))))) = Some [IsValue 10] \<and> wk_received (kern d) = example_bytes"
  by code_simp

lemma example_end_ok:
  assumes "example_end input n t = Some e" and "transfer_ok t" and "tr_received t = []" and "tr_sent t = []"
    and "owners (ep_driver e) 2 = Some (UnixIoStream (ep_owner e) None None None)" and "head (fst (conv (ep_driver e))) = None"
    and "au_mem (snd (user (snd (conv (ep_driver e))))) = tr_mem t"
    and "wk_received (kern (ep_driver e)) = []" and "wk_sent (kern (ep_driver e)) = []"
  shows "endpoint_ok e \<and> ep_transfer e = t \<and> ep_received e = wk_received \<and> ep_sent e = wk_sent"
proof -
  from assms(1) obtain d where d: "wire_open (wire_boot\<lparr>wk_in := input, wk_room := n\<rparr>) (example_user (tr_mem t)) = Some d"
    and e: "e = \<lparr>ep_os = wire_os, ep_errno = EAGAIN,
       ep_owner = \<lparr>file_descriptor = 7, fd_flags = 0, event_mask = EPOLLIN OR EPOLLOUT OR EPOLLRDHUP\<rparr>, ep_stream = 2,
       ep_received = wk_received, ep_sent = wk_sent, ep_transfer = t, ep_envs = [], ep_driver = d\<rparr>"
    by (auto simp: example_end_def split: bind_splits)
  have "posix_socket (unixRead wire_os 7) (unixWrite wire_os 7) wk_received wk_sent" by (rule wire.posix_socket_axioms)
  with assms wire_open_conv_ok [OF d] show ?thesis by (simp add: endpoint_ok_def e)
qed

lemma example_sender:
  obtains a da where "example_end [] 20 sender_transfer = Some a" and "endpoint_ok a" and "ep_transfer a = sender_transfer"
    and "ep_sent a = wk_sent" and "endpoint_run a = Some da"
    and "write_done (au_write (snd (user (snd (conv da))))) = Some [IsValue 10]" and "wk_sent (kern da) = example_bytes"
proof -
  from example_sender_state obtain a where a: "example_end [] 20 sender_transfer = Some a"
    "owners (ep_driver a) 2 = Some (UnixIoStream (ep_owner a) None None None)" "head (fst (conv (ep_driver a))) = None"
    "au_mem (snd (user (snd (conv (ep_driver a))))) = tr_mem sender_transfer"
    "wk_received (kern (ep_driver a)) = []" "wk_sent (kern (ep_driver a)) = []" by (auto split: option.splits)
  have "transfer_ok sender_transfer" "tr_received sender_transfer = []" "tr_sent sender_transfer = []"
    by (simp_all add: sender_transfer_def example_bytes_def transfer_ok_def SIZE_MOD_def)
  note ok = example_end_ok [OF a(1) this a(2-6)]
  from example_sender_run a(1) obtain da where "endpoint_run a = Some da"
    "write_done (au_write (snd (user (snd (conv da))))) = Some [IsValue 10]" "wk_sent (kern da) = example_bytes"
    by (auto split: option.splits)
  with a(1) ok show ?thesis by (intro that [of a da]) simp_all
qed

lemma example_receiver:
  obtains b db where "example_end example_bytes 0 receiver_transfer = Some b" and "endpoint_ok b" and "ep_transfer b = receiver_transfer"
    and "ep_received b = wk_received" and "endpoint_run b = Some db"
    and "read_done (au_read (snd (user (snd (conv db))))) = Some [IsValue 10]" and "wk_received (kern db) = example_bytes"
proof -
  from example_receiver_state obtain b where b: "example_end example_bytes 0 receiver_transfer = Some b"
    "owners (ep_driver b) 2 = Some (UnixIoStream (ep_owner b) None None None)" "head (fst (conv (ep_driver b))) = None"
    "au_mem (snd (user (snd (conv (ep_driver b))))) = tr_mem receiver_transfer"
    "wk_received (kern (ep_driver b)) = []" "wk_sent (kern (ep_driver b)) = []" by (auto split: option.splits)
  have "transfer_ok receiver_transfer" "tr_received receiver_transfer = []" "tr_sent receiver_transfer = []"
    by (simp_all add: receiver_transfer_def transfer_ok_def SIZE_MOD_def)
  note ok = example_end_ok [OF b(1) this b(2-6)]
  from example_receiver_run b(1) obtain db where "endpoint_run b = Some db"
    "read_done (au_read (snd (user (snd (conv db))))) = Some [IsValue 10]" "wk_received (kern db) = example_bytes"
    by (auto split: option.splits)
  with b(1) ok show ?thesis by (intro that [of b db]) simp_all
qed

lemma example_packet: "packet example_message = example_bytes"
  by (simp add: example_message_def example_bytes_def packet_def) code_simp

theorem messages_cross_the_wire_witness:
  "\<exists>a b da db r4 r5. example_end [] 20 sender_transfer = Some a \<and> endpoint_run a = Some da
     \<and> example_end example_bytes 0 receiver_transfer = Some b \<and> endpoint_run b = Some db
     \<and> push ring_vt (ring_new 16) (take 10 (au_mem (snd (user (snd (conv db)))))) 10 = Some (noError, r4)
     \<and> decode_messages (\<lambda>s n. n < 1000) True ring_vt Limits_default (Primitive UnsignedInteger 2) 1 r4 = Some (noError, [example_message], r5)"
proof -
  let ?s = "Primitive UnsignedInteger 2" and ?ms = "[example_message]"
  obtain a da where a: "example_end [] 20 sender_transfer = Some a" "endpoint_ok a" "ep_transfer a = sender_transfer" "ep_sent a = wk_sent"
    "endpoint_run a = Some da" "write_done (au_write (snd (user (snd (conv da))))) = Some [IsValue 10]" "wk_sent (kern da) = example_bytes"
    by (rule example_sender)
  obtain b db where b: "example_end example_bytes 0 receiver_transfer = Some b" "endpoint_ok b" "ep_transfer b = receiver_transfer"
    "ep_received b = wk_received" "endpoint_run b = Some db"
    "read_done (au_read (snd (user (snd (conv db))))) = Some [IsValue 10]" "wk_received (kern db) = example_bytes"
    by (rule example_receiver)
  have s: "wf_schema ?s" "list_all (msg_ok ?s) ?ms" "list_all (msg_fits (\<lambda>s n. n < 1000) ?s) ?ms"
    "\<forall>m \<in> set ?ms. length (wire m) \<le> unat (packet_size Limits_default)"
    by (simp_all add: example_message_def Limits_default_def SIZE_MOD_def)
  have r: "ring_inv (ring_new 16)" by (simp add: ring_inv_new PTRDIFF_MAX_def)
  have len: "length (concat (map packet ?ms)) \<le> length (ring_wr (ring_new 16))" by (simp add: example_message_def)
  from ring.encode_messages_correct [OF r s(2) len] obtain r1 where
    r1: "encode_messages ring_vt ?s ?ms (ring_new 16) = Some (noError, r1)" "ring_inv r1" "ring_rd r1 = example_bytes"
    by (auto simp: example_packet)
  have ten: "tr_length (ep_transfer a) = 10" "length example_bytes = 10" "tr_length (ep_transfer a) = length (ring_rd r1)"
    using a(3) r1(3) by (simp_all add: sender_transfer_def example_bytes_def)
  from ring.pop_correct [OF r1(2), of 10] r1(3) ten(2) obtain r2 where
    r2: "pop ring_vt r1 (tr_length (ep_transfer a)) = Some (noError, example_bytes, r2)" using ten(1) by auto
  have mem: "take (tr_length (ep_transfer a)) (drop (tr_source (ep_transfer a)) (tr_mem (ep_transfer a))) = example_bytes"
    using a(3) ten(2) by (simp add: sender_transfer_def)
  have net: "prefix (ep_received b (kern db)) (ep_sent a (kern da))" using a(4,7) b(4,7) by simp
  have room: "tr_length (ep_transfer a) \<le> length (ring_wr (ring_new 16))" using ten(1) by simp
  from messages_cross_the_wire [OF a(2) b(2) s r ring_rd_new r1(1) len ten(3) r2 mem a(5) a(6) [folded ten(1)]
      b(5) b(6) [folded ten(1)] net r ring_rd_new room, of True]
  have "\<exists>r4 r5. push ring_vt (ring_new 16) (take 10 (drop (tr_buffer (ep_transfer b)) (au_mem (snd (user (snd (conv db))))))) 10 = Some (noError, r4)
      \<and> decode_messages (\<lambda>s n. n < 1000) True ring_vt Limits_default ?s (length ?ms) r4 = Some (noError, ?ms, r5)"
    unfolding ten(1) by blast
  moreover have "tr_buffer (ep_transfer b) = 0" "length ?ms = 1" using b(3) by (simp_all add: receiver_transfer_def)
  ultimately show ?thesis using a(1,5) b(1,5) by auto
qed

end
